(* ===== verification/Prelude.thy ===== *)
theory Prelude
  imports Main "HOL-Library.Word" "HOL-Library.Multiset"
begin

text \<open>
  Shared vocabulary of the development: the error numbers the kernel code returns, the C
  integer conversions of the LP64 data model, and byte arrays that are read and written by
  offset. The collections \<open>c_int\<close> and \<open>mem_simps\<close> carry the lemmas that the component
  theories hand to the simplifier.
\<close>

named_theorems c_int \<open>conversions between C integer types\<close>
named_theorems mem_simps \<open>reads and writes of byte arrays by offset\<close>

unbundle bit_operations_syntax

section \<open>Types\<close>

type_synonym byte = "8 word"
type_synonym u32 = "32 word"

datatype errno =
    ERESTARTSYS | ENXIO | EFAULT | EINVAL | EAGAIN | EBUSY | ENOMEM | ENOBUFS | EPERM
  | EIO | ENODEV | ETIMEDOUT | ERANGE | EOther int

text \<open>
  A handler returns either a negative error number (\<open>Inl e\<close> stands for \<open>-e\<close>) or a
  non-negative result.
\<close>

type_synonym 'a kresult = "errno + 'a"

section \<open>C integer conversions\<close>

text \<open>
  Conversion to \<open>unsigned int\<close>, \<open>int\<close>, \<open>unsigned long\<close> (also \<open>size_t\<close>) and
  \<open>long\<close> (also \<open>loff_t\<close>) of a value of any wider integer type. The kernel is built with
  wrap-around on signed overflow, so signed additions are these conversions of the sum.
\<close>

definition to_u32 :: "int \<Rightarrow> int" where
  "to_u32 x = x mod 2 ^ 32"

definition to_s32 :: "int \<Rightarrow> int" where
  "to_s32 x = (x + 2 ^ 31) mod 2 ^ 32 - 2 ^ 31"

definition to_u64 :: "int \<Rightarrow> int" where
  "to_u64 x = x mod 2 ^ 64"

definition to_s64 :: "int \<Rightarrow> int" where
  "to_s64 x = (x + 2 ^ 63) mod 2 ^ 64 - 2 ^ 63"

lemma to_u32_bounds: "0 \<le> to_u32 x" "to_u32 x < 4294967296"
  by (simp_all add: to_u32_def)

lemma to_u64_bounds: "0 \<le> to_u64 x" "to_u64 x < 18446744073709551616"
  by (simp_all add: to_u64_def)

lemma to_s32_bounds: "- 2147483648 \<le> to_s32 x" "to_s32 x < 2147483648"
  using pos_mod_bound [of "4294967296::int" "x + 2147483648"]
    pos_mod_sign [of "4294967296::int" "x + 2147483648"]
  by (simp_all add: to_s32_def)

lemma to_s64_bounds: "- 9223372036854775808 \<le> to_s64 x" "to_s64 x < 9223372036854775808"
  using pos_mod_bound [of "18446744073709551616::int" "x + 9223372036854775808"]
    pos_mod_sign [of "18446744073709551616::int" "x + 9223372036854775808"]
  by (simp_all add: to_s64_def)

lemma to_u32_id [c_int]: "0 \<le> x \<Longrightarrow> x < 4294967296 \<Longrightarrow> to_u32 x = x"
  by (simp add: to_u32_def)

lemma to_u64_id [c_int]: "0 \<le> x \<Longrightarrow> x < 18446744073709551616 \<Longrightarrow> to_u64 x = x"
  by (simp add: to_u64_def)

lemma to_s32_id [c_int]: "- 2147483648 \<le> x \<Longrightarrow> x < 2147483648 \<Longrightarrow> to_s32 x = x"
  by (simp add: to_s32_def)

lemma to_s64_id [c_int]:
  "- 9223372036854775808 \<le> x \<Longrightarrow> x < 9223372036854775808 \<Longrightarrow> to_s64 x = x"
  by (simp add: to_s64_def)

lemmas c_int_bounds = to_u32_bounds to_u64_bounds to_s32_bounds to_s64_bounds

section \<open>Byte arrays by offset\<close>

text \<open>
  \<open>mem_get m p n\<close> is the \<open>n\<close> bytes at offset \<open>p\<close> and \<open>mem_put m p bs\<close> is \<open>m\<close> after
  \<open>memcpy(m + p, bs, length bs)\<close>; both are used with \<open>p + n \<le> length m\<close> only, and every
  model checks or proves that bound where the code relies on it.
\<close>

definition mem_get :: "'a list \<Rightarrow> nat \<Rightarrow> nat \<Rightarrow> 'a list" where
  "mem_get m p n = take n (drop p m)"

definition mem_put :: "'a list \<Rightarrow> nat \<Rightarrow> 'a list \<Rightarrow> 'a list" where
  "mem_put m p bs = take p m @ bs @ drop (p + length bs) m"

lemma length_mem_get [mem_simps]: "p + n \<le> length m \<Longrightarrow> length (mem_get m p n) = n"
  by (simp add: mem_get_def)

lemma length_mem_put [mem_simps]:
  "p + length bs \<le> length m \<Longrightarrow> length (mem_put m p bs) = length m"
  by (simp add: mem_put_def)

lemma mem_get_0 [simp]: "mem_get m p 0 = []"
  by (simp add: mem_get_def)

lemma mem_put_Nil [simp]: "mem_put m p [] = m"
  by (simp add: mem_put_def)

lemma mem_get_nth: "i < n \<Longrightarrow> p + n \<le> length m \<Longrightarrow> mem_get m p n ! i = m ! (p + i)"
  by (simp add: mem_get_def)

lemma mem_put_nth:
  "p + length bs \<le> length m \<Longrightarrow> i < length m \<Longrightarrow>
    mem_put m p bs ! i = (if p \<le> i \<and> i < p + length bs then bs ! (i - p) else m ! i)"
  by (auto simp: mem_put_def nth_append)

lemma mem_get_put_same [mem_simps]:
  "p + length bs \<le> length m \<Longrightarrow> n = length bs \<Longrightarrow> mem_get (mem_put m p bs) p n = bs"
  by (simp add: mem_get_def mem_put_def)

lemma mem_get_put_disjoint:
  assumes "p + length bs \<le> length m" "q + n \<le> length m" "q + n \<le> p \<or> p + length bs \<le> q"
  shows "mem_get (mem_put m p bs) q n = mem_get m q n"
  using assms by (intro nth_equalityI) (auto simp: mem_simps mem_get_nth mem_put_nth)

lemma mem_get_append [mem_simps]: "mem_get m p n @ mem_get m (p + n) k = mem_get m p (n + k)"
  unfolding mem_get_def take_add drop_drop by (simp add: add.commute)

lemma mem_get_all [simp]: "mem_get m 0 (length m) = m"
  by (simp add: mem_get_def)

lemma mem_put_put [mem_simps]:
  "p + length bs \<le> length m \<Longrightarrow> q = p + length bs \<Longrightarrow> q + length cs \<le> length m \<Longrightarrow>
    mem_put (mem_put m p bs) q cs = mem_put m p (bs @ cs)"
  by (simp add: mem_put_def ac_simps)

lemma mem_put_whole: "length bs = length m \<Longrightarrow> mem_put m 0 bs = bs"
  by (simp add: mem_put_def)

text \<open>
  What \<open>copy_from_user\<close> and \<open>copy_to_user\<close> promise. A copy routine is a parameter of the
  models: given the source bytes it returns the bytes left in the destination and the number
  of bytes it could not copy. Documented behaviour: the destination range has the requested
  size, and everything before the bytes not copied is the source.
\<close>

type_synonym user_copy = "byte list \<Rightarrow> byte list \<times> nat"

definition user_copy_ok :: "user_copy \<Rightarrow> bool" where
  "user_copy_ok cp \<longleftrightarrow> (\<forall>src. length (fst (cp src)) = length src \<and> snd (cp src) \<le> length src \<and>
     take (length src - snd (cp src)) (fst (cp src)) = take (length src - snd (cp src)) src)"

lemma user_copy_length: "user_copy_ok cp \<Longrightarrow> cp src = (dst, left) \<Longrightarrow> length dst = length src"
  by (auto simp: user_copy_ok_def dest!: spec [of _ src])

lemma user_copy_complete: "user_copy_ok cp \<Longrightarrow> cp src = (dst, 0) \<Longrightarrow> dst = src"
  by (auto simp: user_copy_ok_def dest!: spec [of _ src])

lemma user_copy_total: "user_copy_ok (\<lambda>src. (src, 0))"
  by (simp add: user_copy_ok_def)

section \<open>Decimal text\<close>

text \<open>
  What \<open>printf("%d")\<close> and \<open>printf("%u")\<close> write, and the value a digit string denotes.
\<close>

definition digit_char :: "nat \<Rightarrow> char" where
  "digit_char d = char_of (48 + d)"

definition digit_val :: "char \<Rightarrow> nat" where
  "digit_val c = of_char c - 48"

definition is_digit :: "char \<Rightarrow> bool" where
  "is_digit c \<longleftrightarrow> (48::nat) \<le> of_char c \<and> of_char c \<le> (57::nat)"

fun dec_digits :: "nat \<Rightarrow> string" where
  "dec_digits n = (if n < 10 then [digit_char n]
     else dec_digits (n div 10) @ [digit_char (n mod 10)])"

declare dec_digits.simps [simp del]

definition dec_int :: "int \<Rightarrow> string" where
  "dec_int i = (if i < 0 then CHR ''-'' # dec_digits (nat (- i)) else dec_digits (nat i))"

definition dec_val :: "string \<Rightarrow> nat" where
  "dec_val s = fold (\<lambda>c acc. acc * 10 + digit_val c) s 0"

lemma digit_val_char [simp]: "d < 10 \<Longrightarrow> digit_val (digit_char d) = d"
  by (simp add: digit_val_def digit_char_def of_char_of)

lemma is_digit_char [simp]: "d < 10 \<Longrightarrow> is_digit (digit_char d)"
  by (simp add: is_digit_def digit_char_def of_char_of)

lemma dec_digits_all_digits: "c \<in> set (dec_digits n) \<Longrightarrow> is_digit c"
proof (induction n rule: dec_digits.induct)
  case (1 n)
  then show ?case by (cases "n < 10") (auto simp: dec_digits.simps [of n])
qed

lemma dec_digits_not_Nil [simp]: "dec_digits n \<noteq> []"
  by (subst dec_digits.simps) simp

lemma dec_val_digits [simp]: "dec_val (dec_digits n) = n"
proof (induction n rule: dec_digits.induct)
  case (1 n)
  then show ?case by (cases "n < 10") (auto simp: dec_digits.simps [of n] dec_val_def)
qed

section \<open>Loops that may stop the program\<close>

text \<open>A loop over a list whose body may end the program (\<open>None\<close>).\<close>

fun fold_opt :: "('a \<Rightarrow> 's \<Rightarrow> 's option) \<Rightarrow> 'a list \<Rightarrow> 's \<Rightarrow> 's option" where
  "fold_opt f [] s = Some s"
| "fold_opt f (x # xs) s = (case f x s of None \<Rightarrow> None | Some s1 \<Rightarrow> fold_opt f xs s1)"

lemma fold_opt_invariant:
  "(\<And>x s s'. x \<in> set xs \<Longrightarrow> P s \<Longrightarrow> f x s = Some s' \<Longrightarrow> P s') \<Longrightarrow> P s \<Longrightarrow>
    fold_opt f xs s = Some s' \<Longrightarrow> P s'"
proof (induction xs arbitrary: s)
  case (Cons x xs)
  then obtain s1 where s1: "f x s = Some s1" "fold_opt f xs s1 = Some s'"
    by (auto split: option.splits)
  have "P s1" using Cons.prems(1) [of x s s1] Cons.prems(2) s1(1) by simp
  then show ?case using Cons.IH [of s1] Cons.prems(1) s1(2) by (metis list.set_intros(2))
qed simp

end
