(* ===== verification/Interfaces.thy ===== *)
theory Interfaces
  imports Prelude
begin

text \<open>
  The contracts the components share, as locales: a random-access byte device, a bounded
  byte queue, a priority queue, an incremental digest and an updatable map. Each lists the operations a client
  calls and the laws the provider promises; the client lemmas are proved here once. The
  component theories interpret them on the models of the code.
\<close>

section \<open>A byte device with a fixed capacity\<close>

locale byte_device =
  fixes content :: "'d \<Rightarrow> byte list"
    and capacity :: nat
    and rd :: "'d \<Rightarrow> nat \<Rightarrow> nat \<Rightarrow> byte list"
    and wr :: "'d \<Rightarrow> nat \<Rightarrow> byte list \<Rightarrow> 'd"
    and inv :: "'d \<Rightarrow> bool"
  assumes content_length: "inv d \<Longrightarrow> length (content d) = capacity"
    and rd_content: "inv d \<Longrightarrow> p + n \<le> capacity \<Longrightarrow> rd d p n = mem_get (content d) p n"
    and wr_content: "inv d \<Longrightarrow> p + length bs \<le> capacity \<Longrightarrow>
          content (wr d p bs) = mem_put (content d) p bs"
    and wr_inv: "inv d \<Longrightarrow> p + length bs \<le> capacity \<Longrightarrow> inv (wr d p bs)"
begin

lemma read_back:
  "inv d \<Longrightarrow> p + length bs \<le> capacity \<Longrightarrow> rd (wr d p bs) p (length bs) = bs"
  by (simp add: rd_content wr_inv wr_content mem_simps content_length)

lemma read_elsewhere:
  assumes "inv d" "p + length bs \<le> capacity" "q + n \<le> capacity" "q + n \<le> p \<or> p + length bs \<le> q"
  shows "rd (wr d p bs) q n = rd d q n"
  using assms by (simp add: rd_content wr_inv wr_content mem_get_put_disjoint content_length)

lemma write_consecutive:
  assumes "inv d" "p + length bs + length cs \<le> capacity"
  shows "content (wr (wr d p bs) (p + length bs) cs) = content (wr d p (bs @ cs))"
  using assms by (simp add: wr_inv wr_content mem_simps content_length)

lemma read_split:
  "inv d \<Longrightarrow> p + n + k \<le> capacity \<Longrightarrow> rd d p n @ rd d (p + n) k = rd d p (n + k)"
  by (simp add: rd_content mem_simps)

end

section \<open>A bounded byte queue\<close>

locale byte_queue =
  fixes bytes :: "'q \<Rightarrow> byte list"
    and bound :: nat
    and put :: "'q \<Rightarrow> byte list \<Rightarrow> 'q \<times> nat"
    and take_out :: "'q \<Rightarrow> nat \<Rightarrow> 'q \<times> byte list"
    and inv :: "'q \<Rightarrow> bool"
  assumes within: "inv q \<Longrightarrow> length (bytes q) \<le> bound"
    and put_bytes: "inv q \<Longrightarrow> put q bs = (q', n) \<Longrightarrow>
          n \<le> length bs \<and> bytes q' = bytes q @ take n bs"
    and put_inv: "inv q \<Longrightarrow> put q bs = (q', n) \<Longrightarrow> inv q'"
    and put_progress: "inv q \<Longrightarrow> put q bs = (q', n) \<Longrightarrow> length (bytes q) < bound \<Longrightarrow>
          bs \<noteq> [] \<Longrightarrow> 0 < n"
    and take_bytes: "inv q \<Longrightarrow> take_out q k = (q', out) \<Longrightarrow>
          length out \<le> k \<and> bytes q = out @ bytes q'"
    and take_inv: "inv q \<Longrightarrow> take_out q k = (q', out) \<Longrightarrow> inv q'"
    and take_progress: "inv q \<Longrightarrow> take_out q k = (q', out) \<Longrightarrow> bytes q \<noteq> [] \<Longrightarrow>
          0 < k \<Longrightarrow> out \<noteq> []"
begin

lemma conserve:
  assumes "inv q" "put q bs = (q1, n)" "take_out q1 k = (q2, out)"
  shows "bytes q @ take n bs = out @ bytes q2"
  using put_bytes [OF assms(1,2)] take_bytes [OF put_inv [OF assms(1,2)] assms(3)] by simp

lemma put_bound: "inv q \<Longrightarrow> put q bs = (q', n) \<Longrightarrow> length (bytes q) + n \<le> bound"
  using put_bytes [of q bs q' n] within [OF put_inv, of q bs q' n] by auto

end

section \<open>A priority queue\<close>

text \<open>
  \<open>push\<close> may fail (\<open>None\<close>) and promises its laws below \<open>bound\<close> elements; \<open>pop\<close> is \<open>None\<close> on the
  empty queue only. Elements are identities; \<open>key q a\<close> is the priority \<open>a\<close> has in \<open>q\<close>.
\<close>

locale prio_queue =
  fixes items :: "'q \<Rightarrow> 'a multiset"
    and key :: "'q \<Rightarrow> 'a \<Rightarrow> int"
    and bound :: nat
    and push :: "'q \<Rightarrow> 'a \<Rightarrow> 'q option"
    and pop :: "'q \<Rightarrow> ('q \<times> 'a) option"
    and inv :: "'q \<Rightarrow> bool"
  assumes push_items: "inv q \<Longrightarrow> size (items q) < bound \<Longrightarrow> a \<notin># items q \<Longrightarrow> push q a = Some q' \<Longrightarrow>
          items q' = add_mset a (items q)"
    and push_inv: "inv q \<Longrightarrow> size (items q) < bound \<Longrightarrow> a \<notin># items q \<Longrightarrow> push q a = Some q' \<Longrightarrow> inv q'"
    and push_key: "push q a = Some q' \<Longrightarrow> key q' = key q"
    and pop_None: "inv q \<Longrightarrow> pop q = None \<longleftrightarrow> items q = {#}"
    and pop_items: "inv q \<Longrightarrow> pop q = Some (q', a) \<Longrightarrow> items q = add_mset a (items q')"
    and pop_inv: "inv q \<Longrightarrow> pop q = Some (q', a) \<Longrightarrow> inv q'"
    and pop_key: "pop q = Some (q', a) \<Longrightarrow> key q' = key q"
    and pop_min: "inv q \<Longrightarrow> pop q = Some (q', a) \<Longrightarrow> b \<in># items q \<Longrightarrow> key q a \<le> key q b"
begin

fun push_all :: "'q \<Rightarrow> 'a list \<Rightarrow> 'q option" where
  "push_all q [] = Some q"
| "push_all q (a # as) = (case push q a of None \<Rightarrow> None | Some q' \<Rightarrow> push_all q' as)"

fun drain :: "nat \<Rightarrow> 'q \<Rightarrow> 'a list" where
  "drain 0 q = []"
| "drain (Suc n) q = (case pop q of None \<Rightarrow> [] | Some (q', a) \<Rightarrow> a # drain n q')"

lemma push_all_props:
  "inv q \<Longrightarrow> distinct as \<Longrightarrow> set as \<inter> set_mset (items q) = {} \<Longrightarrow>
    size (items q) + length as \<le> bound \<Longrightarrow> push_all q as = Some q' \<Longrightarrow>
    inv q' \<and> items q' = items q + mset as \<and> key q' = key q"
proof (induction as arbitrary: q)
  case (Cons a as)
  then obtain q1 where p: "push q a = Some q1" "push_all q1 as = Some q'"
    by (auto split: option.splits)
  have "inv q1" "items q1 = add_mset a (items q)"
    using push_inv [OF Cons.prems(1) _ _ p(1)] push_items [OF Cons.prems(1) _ _ p(1)] Cons.prems by auto
  moreover have "set as \<inter> set_mset (items q1) = {}"
    using Cons.prems calculation(2) by auto
  ultimately show ?case
    using Cons.IH [of q1] Cons.prems p push_key [OF p(1)] by simp
qed simp

lemma drain_mset: "inv q \<Longrightarrow> n = size (items q) \<Longrightarrow> mset (drain n q) = items q"
proof (induction n arbitrary: q)
  case (Suc n)
  then obtain q' a where p: "pop q = Some (q', a)"
    using pop_None [of q] by (cases "pop q") auto
  then have "items q = add_mset a (items q')" "inv q'"
    using Suc.prems pop_items pop_inv by auto
  then show ?case using Suc p by simp
qed simp

lemma drain_sorted: "inv q \<Longrightarrow> n = size (items q) \<Longrightarrow> sorted_wrt (\<lambda>a b. key q a \<le> key q b) (drain n q)"
proof (induction n arbitrary: q)
  case (Suc n)
  then obtain q' a where p: "pop q = Some (q', a)"
    using pop_None [of q] by (cases "pop q") auto
  then have q': "items q = add_mset a (items q')" "inv q'" "key q' = key q"
    using Suc.prems pop_items pop_inv pop_key by auto
  then have "size (items q') = n" using Suc.prems by simp
  then have "set (drain n q') = set_mset (items q')" "sorted_wrt (\<lambda>a b. key q a \<le> key q b) (drain n q')"
    using drain_mset [OF q'(2)] Suc.IH [OF q'(2)] q'(3) by (auto simp flip: set_mset_mset)
  moreover have "\<forall>b \<in> set_mset (items q'). key q a \<le> key q b"
    using pop_min [OF Suc.prems(1) p] q'(1) by simp
  ultimately show ?case using p by simp
qed simp

text \<open>Pushing distinct elements and draining the queue sorts them.\<close>

lemma push_drain_sorts:
  assumes "inv q" "items q = {#}" "distinct as" "length as \<le> bound" "push_all q as = Some q'"
  shows "mset (drain (length as) q') = mset as \<and>
    sorted_wrt (\<lambda>a b. key q a \<le> key q b) (drain (length as) q')"
proof -
  have "inv q'" "items q' = mset as" "key q' = key q"
    using push_all_props [OF assms(1,3) _ _ assms(5)] assms(2,4) by simp_all
  then show ?thesis using drain_mset [of q' "length as"] drain_sorted [of q' "length as"] by simp
qed

end

section \<open>An incremental digest\<close>

locale stream_digest =
  fixes update :: "'c \<Rightarrow> byte list \<Rightarrow> 'c"
    and ok :: "'c \<Rightarrow> bool"
    and fits :: "byte list \<Rightarrow> bool"
  assumes update_ok: "ok c \<Longrightarrow> fits bs \<Longrightarrow> ok (update c bs)"
    and update_append: "ok c \<Longrightarrow> fits (as @ bs) \<Longrightarrow> update (update c as) bs = update c (as @ bs)"
    and update_Nil: "ok c \<Longrightarrow> update c [] = c"
    and fits_append: "fits (as @ bs) \<Longrightarrow> fits as \<and> fits bs"
begin

lemma update_chunks:
  "ok c \<Longrightarrow> fits (concat css) \<Longrightarrow> fold (\<lambda>cs c. update c cs) css c = update c (concat css)"
proof (induction css arbitrary: c)
  case (Cons cs css)
  then have "fits cs" "fits (concat css)" using fits_append [of cs "concat css"] by auto
  with Cons show ?case by (simp add: update_ok update_append)
qed (simp add: update_Nil)

lemma chunking_irrelevant:
  "ok c \<Longrightarrow> fits (concat css) \<Longrightarrow> concat css = concat dss \<Longrightarrow>
    fold (\<lambda>cs c. update c cs) css c = fold (\<lambda>cs c. update c cs) dss c"
  by (simp add: update_chunks)

end

section \<open>An updatable map\<close>

text \<open>A sequence of insertions, the first that fails ends it.\<close>

fun put_seq :: "('m \<Rightarrow> 'k \<Rightarrow> 'v \<Rightarrow> 'm option) \<Rightarrow> 'm \<Rightarrow> ('k \<times> 'v) list \<Rightarrow> 'm option" where
  "put_seq put m [] = Some m"
| "put_seq put m ((k, v) # kvs) = (case put m k v of None \<Rightarrow> None | Some m' \<Rightarrow> put_seq put m' kvs)"

locale insert_map =
  fixes lookup :: "'m \<Rightarrow> 'k \<Rightarrow> 'v option"
    and put :: "'m \<Rightarrow> 'k \<Rightarrow> 'v \<Rightarrow> 'm option"
    and inv :: "'m \<Rightarrow> bool"
  assumes put_lookup: "inv m \<Longrightarrow> put m k v = Some m' \<Longrightarrow> lookup m' = (lookup m)(k \<mapsto> v)"
    and put_inv: "inv m \<Longrightarrow> put m k v = Some m' \<Longrightarrow> inv m'"
begin

lemma put_seq_lookup:
  "inv m \<Longrightarrow> put_seq put m kvs = Some m' \<Longrightarrow> inv m' \<and> lookup m' = lookup m ++ map_of (rev kvs)"
proof (induction kvs arbitrary: m)
  case (Cons kv kvs)
  obtain k v where kv: "kv = (k, v)" by (cases kv)
  from Cons.prems(2) obtain m1 where p: "put m k v = Some m1" "put_seq put m1 kvs = Some m'"
    by (auto simp: kv split: option.splits)
  have "inv m' \<and> lookup m' = lookup m1 ++ map_of (rev kvs)"
    using Cons.IH [OF put_inv [OF Cons.prems(1) p(1)] p(2)] .
  then show ?case by (simp add: put_lookup [OF Cons.prems(1) p(1)] kv)
qed simp

text \<open>The last value put under a key is the one found.\<close>

lemma put_seq_last:
  assumes "inv m" "put_seq put m (kvs @ (k, v) # kvs') = Some m'" "k \<notin> fst ` set kvs'"
  shows "lookup m' k = Some v"
proof -
  have "map_of (rev kvs') k = None" using assms(3) by (simp add: map_of_eq_None_iff)
  then show ?thesis
    using put_seq_lookup [OF assms(1,2)] by (simp add: map_add_def)
qed

end

end
