(* ===== verification/Globalmem.thy ===== *)
theory Globalmem
  imports Interfaces
begin

text \<open>
  The character driver \<^verbatim>\<open>driver/globalmem/drv/globalmem.c\<close>: two 4 KiB memory devices with
  read, write, seek, ioctl, a sysfs integer and a sysfs binary file, the platform driver's
  probe and remove, and module init and exit. Kernel services are parameters: \<open>intr\<close> is
  whether \<open>down_interruptible\<close> was interrupted, \<open>cp\<close> the copy to or from user space.
\<close>

section \<open>State\<close>

definition GLOBALMEM_SIZE :: int where
  "GLOBALMEM_SIZE = 4096"

definition MEM_CLEAR :: int where
  "MEM_CLEAR = 1"

text \<open>\<open>struct globalmem_dev\<close>; the semaphore is its count, the kernel objects are in the
  resource log below.\<close>

record globalmem_dev =
  gm_name :: string
  gm_id :: int
  gm_mem :: "byte list"
  gm_sem :: int
  gm_cnt :: int
  gm_data :: int

text \<open>The parts of \<open>struct file\<close> the driver touches.\<close>

record gm_file =
  gm_private :: "nat option"
  gm_fpos :: int

abbreviation gm_down :: "globalmem_dev \<Rightarrow> globalmem_dev" where
  "gm_down dev \<equiv> dev\<lparr>gm_sem := gm_sem dev - 1\<rparr>"

abbreviation gm_up :: "globalmem_dev \<Rightarrow> globalmem_dev" where
  "gm_up dev \<equiv> dev\<lparr>gm_sem := gm_sem dev + 1\<rparr>"

section \<open>File operations\<close>

definition globalmem_open ::
  "bool \<Rightarrow> nat \<Rightarrow> globalmem_dev \<Rightarrow> gm_file \<Rightarrow> int kresult \<times> globalmem_dev \<times> gm_file" where
  "globalmem_open intr i dev filp =
     (let filp = filp\<lparr>gm_private := Some i\<rparr> in
      if intr then (Inl ERESTARTSYS, dev, filp)
      else let dev = gm_down dev;
               dev = dev\<lparr>gm_cnt := to_u32 (gm_cnt dev + 1)\<rparr>
           in (Inr 0, gm_up dev, filp))"

definition globalmem_release :: "bool \<Rightarrow> globalmem_dev \<Rightarrow> int kresult \<times> globalmem_dev" where
  "globalmem_release intr dev =
     (if intr then (Inl ERESTARTSYS, dev)
      else let dev = gm_down dev;
               dev = dev\<lparr>gm_cnt := to_u32 (gm_cnt dev - 1)\<rparr>
           in (Inr 0, gm_up dev))"

definition globalmem_ioctl :: "bool \<Rightarrow> globalmem_dev \<Rightarrow> int \<Rightarrow> int kresult \<times> globalmem_dev" where
  "globalmem_ioctl intr dev cmd =
     (if cmd = MEM_CLEAR then
        if intr then (Inl ERESTARTSYS, dev)
        else let dev = gm_down dev;
                 dev = dev\<lparr>gm_mem := mem_put (gm_mem dev) 0 (replicate (nat GLOBALMEM_SIZE) 0)\<rparr>
             in (Inr 0, gm_up dev)
      else (Inl EINVAL, dev))"

text \<open>
  The result is the return value, the bytes written to the user buffer, the new \<open>*ppos\<close>
  and the device.
\<close>

definition globalmem_read ::
  "bool \<Rightarrow> user_copy \<Rightarrow> globalmem_dev \<Rightarrow> int \<Rightarrow> int \<Rightarrow>
    int kresult \<times> byte list \<times> int \<times> globalmem_dev" where
  "globalmem_read intr cp dev sz ppos =
     (let p = to_u32 ppos; count = to_u32 sz in
      if GLOBALMEM_SIZE \<le> p then ((if count \<noteq> 0 then Inl ENXIO else Inr 0), [], ppos, dev)
      else let count = (if count > to_u32 (GLOBALMEM_SIZE - p) then to_u32 (GLOBALMEM_SIZE - p)
                        else count) in
        if intr then (Inl ERESTARTSYS, [], ppos, dev)
        else let dev = gm_down dev;
                 (ubuf, left) = cp (mem_get (gm_mem dev) (nat p) (nat count)) in
          if left \<noteq> 0 then (Inl EFAULT, ubuf, ppos, gm_up dev)
          else (Inr (to_s32 count), ubuf, to_s64 (ppos + count), gm_up dev))"

definition globalmem_write ::
  "bool \<Rightarrow> user_copy \<Rightarrow> globalmem_dev \<Rightarrow> byte list \<Rightarrow> int \<Rightarrow> int \<Rightarrow>
    int kresult \<times> int \<times> globalmem_dev" where
  "globalmem_write intr cp dev ubuf sz ppos =
     (let p = to_u32 ppos; count = to_u32 sz in
      if GLOBALMEM_SIZE \<le> p then ((if count \<noteq> 0 then Inl ENXIO else Inr 0), ppos, dev)
      else let count = (if count > to_u32 (GLOBALMEM_SIZE - p) then to_u32 (GLOBALMEM_SIZE - p)
                        else count) in
        if intr then (Inl ERESTARTSYS, ppos, dev)
        else let dev = gm_down dev;
                 (dst, left) = cp (take (nat count) ubuf);
                 dev = dev\<lparr>gm_mem := mem_put (gm_mem dev) (nat p) dst\<rparr> in
          if left \<noteq> 0 then (Inl EFAULT, ppos, gm_up dev)
          else (Inr (to_s32 count), to_s64 (ppos + count), gm_up dev))"

definition globalmem_llseek :: "gm_file \<Rightarrow> int \<Rightarrow> int \<Rightarrow> int kresult \<times> gm_file" where
  "globalmem_llseek filp offset orig =
     (if orig = 0 then
        if offset < 0 then (Inl EINVAL, filp)
        else if to_u32 offset > GLOBALMEM_SIZE then (Inl EINVAL, filp)
        else let filp = filp\<lparr>gm_fpos := to_u32 offset\<rparr> in (Inr (gm_fpos filp), filp)
      else if orig = 1 then
        if to_s64 (gm_fpos filp + offset) > GLOBALMEM_SIZE then (Inl EINVAL, filp)
        else if to_s64 (gm_fpos filp + offset) < 0 then (Inl EINVAL, filp)
        else let filp = filp\<lparr>gm_fpos := to_s64 (gm_fpos filp + offset)\<rparr>
             in (Inr (gm_fpos filp), filp)
      else (Inr 0, filp))"

section \<open>Sysfs attributes\<close>

text \<open>
  \<open>strtoul\<close> stands for the kernel's \<open>strict_strtoul\<close> in base 10: the parsed unsigned long
  or an error. \<open>demo_class_store\<close> and \<open>demo_class_show\<close> have the same bodies as
  \<open>demo_store\<close> and \<open>demo_show\<close> up to the log line.
\<close>

definition demo_store ::
  "(string \<Rightarrow> int kresult) \<Rightarrow> globalmem_dev \<Rightarrow> string \<Rightarrow> int \<Rightarrow> int kresult \<times> globalmem_dev" where
  "demo_store strtoul dev buf cnt =
     (case strtoul buf of
        Inl e \<Rightarrow> (Inl e, dev)
      | Inr data \<Rightarrow> (Inr cnt, dev\<lparr>gm_data := to_s32 data\<rparr>))"

definition demo_show :: "globalmem_dev \<Rightarrow> string" where
  "demo_show dev = dec_int (gm_data dev) @ [CHR 10]"

definition demo_class_store ::
  "(string \<Rightarrow> int kresult) \<Rightarrow> globalmem_dev \<Rightarrow> string \<Rightarrow> int \<Rightarrow> int kresult \<times> globalmem_dev" where
  "demo_class_store strtoul dev buf cnt =
     (case strtoul buf of
        Inl e \<Rightarrow> (Inl e, dev)
      | Inr data \<Rightarrow> (Inr cnt, dev\<lparr>gm_data := to_s32 data\<rparr>))"

definition demo_class_show :: "globalmem_dev \<Rightarrow> string" where
  "demo_class_show dev = dec_int (gm_data dev) @ [CHR 10]"

text \<open>
  The binary file \<open>eeprom\<close>. \<open>None\<close> is a \<open>memcpy\<close> past the end of \<open>mem\<close>; otherwise
  the returned count and the bytes copied (or the device). The offset is read into \<open>end\<close>
  only.
\<close>

definition demo_bin_clamp :: "int \<Rightarrow> int \<Rightarrow> int" where
  "demo_bin_clamp off cnt =
     (let stop = to_s32 (off + cnt) in
      if stop > GLOBALMEM_SIZE then to_u64 (cnt - (stop - GLOBALMEM_SIZE)) else cnt)"

definition demo_bin_read :: "globalmem_dev \<Rightarrow> int \<Rightarrow> int \<Rightarrow> (int \<times> byte list) option" where
  "demo_bin_read dev off cnt =
     (let cnt = demo_bin_clamp off cnt in
      if cnt \<le> int (length (gm_mem dev)) then Some (cnt, mem_get (gm_mem dev) 0 (nat cnt))
      else None)"

definition demo_bin_write ::
  "globalmem_dev \<Rightarrow> byte list \<Rightarrow> int \<Rightarrow> int \<Rightarrow> (int \<times> globalmem_dev) option" where
  "demo_bin_write dev buf off cnt =
     (let cnt = demo_bin_clamp off cnt in
      if cnt \<le> int (length (gm_mem dev))
      then Some (cnt, dev\<lparr>gm_mem := mem_put (gm_mem dev) 0 (take (nat cnt) buf)\<rparr>)
      else None)"

section \<open>Probe, remove, module init and exit\<close>

text \<open>
  Kernel objects the module holds. Acquiring pushes on the list, releasing removes one
  occurrence; what each kernel call answers is an argument.
\<close>

datatype gm_resource =
    GmRegion int nat | GmClass | GmAlloc | GmPlatDev nat | GmPlatDrv
  | GmCdev nat | GmDevice nat | GmIrq nat | GmGroup nat | GmBinFile nat

record gm_kernel =
  gm_major :: int
  gm_held :: "gm_resource list"
  gm_devs :: "globalmem_dev list"

abbreviation gm_get :: "gm_resource \<Rightarrow> gm_kernel \<Rightarrow> gm_kernel" where
  "gm_get r k \<equiv> k\<lparr>gm_held := r # gm_held k\<rparr>"

abbreviation gm_put :: "gm_resource \<Rightarrow> gm_kernel \<Rightarrow> gm_kernel" where
  "gm_put r k \<equiv> k\<lparr>gm_held := remove1 r (gm_held k)\<rparr>"

text \<open>What the kernel answers: 0 or a negative error number, or whether an object was made.\<close>

record gm_answers =
  ans_region :: int
  ans_major :: int
  ans_class :: bool
  ans_alloc :: bool
  ans_plat_dev :: "nat \<Rightarrow> int"
  ans_plat_drv :: int
  ans_cdev :: "nat \<Rightarrow> int"
  ans_device :: "nat \<Rightarrow> bool"
  ans_irq :: "nat \<Rightarrow> int"
  ans_group :: "nat \<Rightarrow> int"
  ans_bin :: "nat \<Rightarrow> int"

definition gm_get_if :: "bool \<Rightarrow> gm_resource \<Rightarrow> gm_kernel \<Rightarrow> gm_kernel" where
  "gm_get_if ok r k = (if ok then gm_get r k else k)"

text \<open>\<open>cdev_add\<close> failing is only logged.\<close>

definition globalmem_setup_cdev :: "gm_answers \<Rightarrow> nat \<Rightarrow> gm_kernel \<Rightarrow> gm_kernel" where
  "globalmem_setup_cdev ans index k = gm_get_if (ans_cdev ans index = 0) (GmCdev index) k"

text \<open>Only the interrupt request is checked; its failure path deletes the cdev and returns -1.\<close>

definition demo_drv_probe :: "gm_answers \<Rightarrow> nat \<Rightarrow> gm_kernel \<Rightarrow> int \<times> gm_kernel" where
  "demo_drv_probe ans i k =
     (let k = globalmem_setup_cdev ans i k;
          k = gm_get_if (ans_device ans i) (GmDevice i) k in
      if ans_irq ans i \<noteq> 0 then (-1, gm_put (GmCdev i) k)
      else let k = gm_get (GmIrq i) k;
               k = gm_get_if (ans_group ans i = 0) (GmGroup i) k;
               k = gm_get_if (ans_bin ans i = 0) (GmBinFile i) k;
               k = k\<lparr>gm_devs := (gm_devs k)[i := (gm_devs k ! i)\<lparr>gm_sem := 1\<rparr>]\<rparr>
           in (0, k))"

definition demo_drv_remove :: "nat \<Rightarrow> gm_kernel \<Rightarrow> int \<times> gm_kernel" where
  "demo_drv_remove i k =
     (let k = gm_put (GmBinFile i) k;
          k = gm_put (GmGroup i) k;
          k = gm_put (GmCdev i) k;
          k = gm_put (GmDevice i) k;
          k = gm_put (GmIrq i) k
      in (0, k))"

definition GLOBALMEM_REGION_NUM :: nat where
  "GLOBALMEM_REGION_NUM = 2"

definition globalmem_new_dev :: "nat \<Rightarrow> globalmem_dev" where
  "globalmem_new_dev i =
     \<lparr>gm_name = ''globalmem'' @ dec_int (int i + 1), gm_id = int i,
      gm_mem = replicate (nat GLOBALMEM_SIZE) 0, gm_sem = 0, gm_cnt = 0, gm_data = 0\<rparr>"

text \<open>
  \<open>None\<close> is a null or error pointer followed: the class is used and the memory cleared
  without a check. The results of the region and platform calls are not looked at.
\<close>

definition globalmem_init :: "gm_answers \<Rightarrow> gm_kernel \<Rightarrow> (int \<times> gm_kernel) option" where
  "globalmem_init ans k =
     (let k = (if gm_major k \<noteq> 0 then k else k\<lparr>gm_major := ans_major ans\<rparr>);
          k = gm_get_if (ans_region ans = 0) (GmRegion (gm_major k) GLOBALMEM_REGION_NUM) k in
      if \<not> ans_class ans then None
      else let k = gm_get GmClass k in
      if \<not> ans_alloc ans then None
      else let k = gm_get GmAlloc k;
               k = k\<lparr>gm_devs := map globalmem_new_dev [0..<GLOBALMEM_REGION_NUM]\<rparr>;
               k = fold (\<lambda>i. gm_get_if (ans_plat_dev ans i = 0) (GmPlatDev i))
                        [0..<GLOBALMEM_REGION_NUM] k;
               k = gm_get_if (ans_plat_drv ans = 0) GmPlatDrv k
           in Some (0, k))"

definition globalmem_exit :: "gm_kernel \<Rightarrow> gm_kernel" where
  "globalmem_exit k =
     (let k = gm_put GmPlatDrv k;
          k = fold (\<lambda>i. gm_put (GmPlatDev i)) [0..<GLOBALMEM_REGION_NUM] k;
          k = gm_put GmClass k;
          k = gm_put GmAlloc k
      in gm_put (GmRegion (gm_major k) GLOBALMEM_REGION_NUM) k)"

text \<open>
  The platform bus calls probe for each registered device when the driver is registered, and
  remove for each device whose probe succeeded when the driver is unregistered.
\<close>

fun gm_bind :: "gm_answers \<Rightarrow> nat list \<Rightarrow> gm_kernel \<Rightarrow> nat list \<times> gm_kernel" where
  "gm_bind ans [] k = ([], k)"
| "gm_bind ans (i # is) k =
     (let (rc, k) = demo_drv_probe ans i k; (bound, k) = gm_bind ans is k
      in (if rc = 0 then i # bound else bound, k))"

definition gm_load :: "gm_answers \<Rightarrow> gm_kernel \<Rightarrow> (nat list \<times> gm_kernel) option" where
  "gm_load ans k =
     map_option (\<lambda>(_, k). gm_bind ans [0..<GLOBALMEM_REGION_NUM] k) (globalmem_init ans k)"

definition gm_unload :: "nat list \<Rightarrow> gm_kernel \<Rightarrow> gm_kernel" where
  "gm_unload bound k = globalmem_exit (fold (\<lambda>i k. snd (demo_drv_remove i k)) bound k)"

section \<open>Component lemmas\<close>

lemmas gm_consts = GLOBALMEM_SIZE_def MEM_CLEAR_def GLOBALMEM_REGION_NUM_def

text \<open>The clamp both transfer handlers compute is the room left in the device.\<close>

lemma gm_clamp:
  assumes "0 \<le> p" "p < 4096" "0 \<le> n"
  shows "(if n > to_u32 (GLOBALMEM_SIZE - p) then to_u32 (GLOBALMEM_SIZE - p) else n) =
    min n (4096 - p)"
  using assms by (auto simp: gm_consts c_int)

lemma globalmem_read_eq:
  assumes "0 \<le> p" "p < 4096" "0 \<le> n" "n < 4294967296"
    and "cp (mem_get (gm_mem dev) (nat p) (nat (min n (4096 - p)))) = (out, left)"
  shows "globalmem_read False cp dev n p =
    (if left \<noteq> 0 then (Inl EFAULT, out, p, dev)
     else (Inr (min n (4096 - p)), out, p + min n (4096 - p), dev))"
  using assms by (auto simp: globalmem_read_def gm_consts c_int min_def)

lemma globalmem_write_eq:
  assumes "0 \<le> p" "p < 4096" "0 \<le> n" "n < 4294967296"
    and "cp (take (nat (min n (4096 - p))) ubuf) = (dst, left)"
  shows "globalmem_write False cp dev ubuf n p =
    (let dev' = dev\<lparr>gm_mem := mem_put (gm_mem dev) (nat p) dst\<rparr> in
     if left \<noteq> 0 then (Inl EFAULT, p, dev')
     else (Inr (min n (4096 - p)), p + min n (4096 - p), dev'))"
  using assms by (auto simp: globalmem_write_def gm_consts c_int min_def Let_def)

lemma globalmem_read_device:
  "globalmem_read intr cp dev n p = (r, out, p', dev') \<Longrightarrow> dev' = dev"
  by (auto simp: globalmem_read_def Let_def split: if_splits prod.splits)

lemma globalmem_read_pos:
  assumes "globalmem_read intr cp dev n p = (r, out, p', dev')" "0 \<le> p" "p \<le> 4096"
  shows "0 \<le> p' \<and> p' \<le> 4096"
proof (cases "p < 4096")
  case True
  then have p: "to_u32 p = p" using assms by (simp add: c_int)
  show ?thesis
    using assms True to_u32_bounds [of n] unfolding globalmem_read_def Let_def p
    by (auto simp: gm_consts c_int split: if_splits prod.splits)
next
  case False
  with assms show ?thesis
    by (auto simp: globalmem_read_def gm_consts c_int Let_def split: if_splits)
qed

lemma globalmem_write_pos:
  assumes "globalmem_write intr cp dev ubuf n p = (r, p', dev')" "0 \<le> p" "p \<le> 4096"
  shows "0 \<le> p' \<and> p' \<le> 4096"
proof (cases "p < 4096")
  case True
  then have p: "to_u32 p = p" using assms by (simp add: c_int)
  show ?thesis
    using assms True to_u32_bounds [of n] unfolding globalmem_write_def Let_def p
    by (auto simp: gm_consts c_int split: if_splits prod.splits)
next
  case False
  with assms show ?thesis
    by (auto simp: globalmem_write_def gm_consts c_int Let_def split: if_splits)
qed

text \<open>The device stays 4096 bytes long and the semaphore is given back on every path.\<close>

definition gm_dev_ok :: "globalmem_dev \<Rightarrow> bool" where
  "gm_dev_ok dev \<longleftrightarrow> length (gm_mem dev) = 4096 \<and> gm_sem dev = 1 \<and> 0 \<le> gm_cnt dev"

lemma gm_write_fits:
  assumes "cp (take (nat c) ubuf) = (dst, left)" "user_copy_ok cp" "length m = 4096"
    "\<not> 4096 \<le> to_u32 p" "c \<le> 4096 - to_u32 p"
  shows "length (mem_put m (nat (to_u32 p)) dst) = 4096"
  using user_copy_length [OF assms(2,1)] assms(3-) to_u32_bounds(1) [of p]
  by (subst length_mem_put) (auto simp: min_def)

lemma gm_room: "\<not> 4096 \<le> to_u32 p \<Longrightarrow> to_u32 (4096 - to_u32 p) = 4096 - to_u32 p"
  using to_u32_bounds(1) [of p] by (simp add: c_int)

lemma globalmem_write_ok:
  "globalmem_write intr cp dev ubuf n p = (r, p', dev') \<Longrightarrow> gm_dev_ok dev \<Longrightarrow> user_copy_ok cp \<Longrightarrow>
    gm_dev_ok dev'"
  by (auto simp: globalmem_write_def gm_consts gm_dev_ok_def gm_room Let_def not_less
      split: if_splits prod.splits elim!: gm_write_fits)

lemma globalmem_ioctl_ok: "globalmem_ioctl intr dev cmd = (r, dev') \<Longrightarrow> gm_dev_ok dev \<Longrightarrow> gm_dev_ok dev'"
  by (auto simp: globalmem_ioctl_def gm_dev_ok_def gm_consts mem_simps split: if_splits)

lemma globalmem_open_ok:
  "globalmem_open intr i dev filp = (r, dev', filp') \<Longrightarrow> gm_dev_ok dev \<Longrightarrow>
    gm_dev_ok dev' \<and> gm_fpos filp' = gm_fpos filp"
  using to_u32_bounds(1) by (auto simp: globalmem_open_def gm_dev_ok_def Let_def split: if_splits)

lemma globalmem_release_ok:
  "globalmem_release intr dev = (r, dev') \<Longrightarrow> gm_dev_ok dev \<Longrightarrow> gm_dev_ok dev'"
  using to_u32_bounds(1) by (auto simp: globalmem_release_def gm_dev_ok_def Let_def split: if_splits)

lemma demo_store_ok: "demo_store strtoul dev buf n = (r, dev') \<Longrightarrow> gm_dev_ok dev \<Longrightarrow> gm_dev_ok dev'"
  by (auto simp: demo_store_def gm_dev_ok_def split: sum.splits)

lemma demo_bin_clamp_id: "0 \<le> off \<Longrightarrow> 0 \<le> n \<Longrightarrow> off + n \<le> 4096 \<Longrightarrow> demo_bin_clamp off n = n"
  by (simp add: demo_bin_clamp_def gm_consts c_int)

lemma demo_bin_write_ok:
  assumes "demo_bin_write dev buf off n = Some (m, dev')" "gm_dev_ok dev"
    "0 \<le> off" "0 \<le> n" "off + n \<le> 4096"
  shows "gm_dev_ok dev'"
  using assms by (auto simp: demo_bin_write_def demo_bin_clamp_id gm_dev_ok_def Let_def mem_simps
      split: if_splits)

lemma globalmem_llseek_pos:
  "globalmem_llseek filp off orig = (r, filp') \<Longrightarrow> 0 \<le> gm_fpos filp \<Longrightarrow> gm_fpos filp \<le> 4096 \<Longrightarrow>
    0 \<le> gm_fpos filp' \<and> gm_fpos filp' \<le> 4096"
  using to_u32_bounds(1)
  by (auto simp: globalmem_llseek_def gm_consts Let_def split: if_splits)

section \<open>The system calls as steps\<close>

text \<open>
  One rule per handler; the file layer passes the file position in and stores it back. The
  sysfs core calls the binary handlers inside the declared size of the file only.
\<close>

record gm_sys =
  sys_dev :: globalmem_dev
  sys_file :: gm_file

inductive gm_step :: "gm_sys \<Rightarrow> gm_sys \<Rightarrow> bool" where
  step_open: "globalmem_open intr i (sys_dev s) (sys_file s) = (r, dev', filp') \<Longrightarrow>
     gm_step s (s\<lparr>sys_dev := dev', sys_file := filp'\<rparr>)"
| step_release: "globalmem_release intr (sys_dev s) = (r, dev') \<Longrightarrow>
     gm_step s (s\<lparr>sys_dev := dev'\<rparr>)"
| step_read: "user_copy_ok cp \<Longrightarrow>
     globalmem_read intr cp (sys_dev s) n (gm_fpos (sys_file s)) = (r, out, p', dev') \<Longrightarrow>
     gm_step s (s\<lparr>sys_dev := dev', sys_file := (sys_file s)\<lparr>gm_fpos := p'\<rparr>\<rparr>)"
| step_write: "user_copy_ok cp \<Longrightarrow>
     globalmem_write intr cp (sys_dev s) ubuf n (gm_fpos (sys_file s)) = (r, p', dev') \<Longrightarrow>
     gm_step s (s\<lparr>sys_dev := dev', sys_file := (sys_file s)\<lparr>gm_fpos := p'\<rparr>\<rparr>)"
| step_ioctl: "globalmem_ioctl intr (sys_dev s) cmd = (r, dev') \<Longrightarrow>
     gm_step s (s\<lparr>sys_dev := dev'\<rparr>)"
| step_llseek: "globalmem_llseek (sys_file s) off orig = (r, filp') \<Longrightarrow>
     gm_step s (s\<lparr>sys_file := filp'\<rparr>)"
| step_store: "demo_store strtoul (sys_dev s) buf n = (r, dev') \<Longrightarrow>
     gm_step s (s\<lparr>sys_dev := dev'\<rparr>)"
| step_bin_write: "0 \<le> off \<Longrightarrow> 0 \<le> n \<Longrightarrow> off + n \<le> 4096 \<Longrightarrow>
     demo_bin_write (sys_dev s) buf off n = Some (m, dev') \<Longrightarrow>
     gm_step s (s\<lparr>sys_dev := dev'\<rparr>)"

definition gm_sys_ok :: "gm_sys \<Rightarrow> bool" where
  "gm_sys_ok s \<longleftrightarrow> gm_dev_ok (sys_dev s) \<and> 0 \<le> gm_fpos (sys_file s) \<and> gm_fpos (sys_file s) \<le> 4096"

lemma gm_step_ok: "gm_step s t \<Longrightarrow> gm_sys_ok s \<Longrightarrow> gm_sys_ok t"
proof (induction rule: gm_step.induct)
  case (step_read cp intr s n r out p' dev')
  then show ?case using globalmem_read_pos globalmem_read_device by (fastforce simp: gm_sys_ok_def)
next
  case (step_write cp intr s ubuf n r p' dev')
  then show ?case using globalmem_write_pos globalmem_write_ok by (fastforce simp: gm_sys_ok_def)
qed (fastforce simp: gm_sys_ok_def dest: globalmem_open_ok globalmem_release_ok globalmem_ioctl_ok
    globalmem_llseek_pos demo_store_ok demo_bin_write_ok)+

lemma gm_steps_ok: "gm_step\<^sup>*\<^sup>* s t \<Longrightarrow> gm_sys_ok s \<Longrightarrow> gm_sys_ok t"
  by (induction rule: rtranclp_induct) (auto intro: gm_step_ok)

section \<open>The device as a byte device\<close>

definition gm_rd :: "globalmem_dev \<Rightarrow> nat \<Rightarrow> nat \<Rightarrow> byte list" where
  "gm_rd dev p n = fst (snd (globalmem_read False (\<lambda>s. (s, 0)) dev (int n) (int p)))"

definition gm_wr :: "globalmem_dev \<Rightarrow> nat \<Rightarrow> byte list \<Rightarrow> globalmem_dev" where
  "gm_wr dev p bs = snd (snd (globalmem_write False (\<lambda>s. (s, 0)) dev bs (int (length bs)) (int p)))"

lemma gm_rd_eq: "length (gm_mem dev) = 4096 \<Longrightarrow> p + n \<le> 4096 \<Longrightarrow> gm_rd dev p n = mem_get (gm_mem dev) p n"
proof (cases "p < 4096")
  case False
  moreover assume "p + n \<le> 4096"
  ultimately have "p = 4096 \<and> n = 0" by simp
  then show ?thesis
    by (auto simp: gm_rd_def globalmem_read_def gm_consts c_int Let_def)
qed (simp add: gm_rd_def globalmem_read_eq min_def)

lemma gm_wr_eq:
  "length (gm_mem dev) = 4096 \<Longrightarrow> p + length bs \<le> 4096 \<Longrightarrow>
    gm_wr dev p bs = dev\<lparr>gm_mem := mem_put (gm_mem dev) p bs\<rparr>"
proof (cases "p < 4096")
  case False
  moreover assume "p + length bs \<le> 4096"
  ultimately have "p = 4096 \<and> bs = []" by (cases bs) auto
  then show ?thesis
    by (auto simp: gm_wr_def globalmem_write_def gm_consts c_int Let_def)
qed (simp add: gm_wr_def globalmem_write_eq min_def)

interpretation gmd: byte_device gm_mem 4096 gm_rd gm_wr "\<lambda>d. length (gm_mem d) = 4096"
  by unfold_locales (auto simp: gm_rd_eq gm_wr_eq mem_simps)

section \<open>Properties\<close>

text \<open>C39. From a device with its 4096 bytes, a free semaphore and a position inside the device,
  every sequence of system calls and sysfs accesses (interrupted, faulting or not) leaves the
  memory 4096 bytes long, the semaphore released and the position inside the device.\<close>

theorem globalmem_invariant:
  assumes "gm_step\<^sup>*\<^sup>* s t" "gm_sys_ok s"
  shows "length (gm_mem (sys_dev t)) = 4096 \<and> gm_sem (sys_dev t) = 1 \<and>
    0 \<le> gm_fpos (sys_file t) \<and> gm_fpos (sys_file t) \<le> 4096"
  using gm_steps_ok [OF assms] by (simp add: gm_sys_ok_def gm_dev_ok_def)

definition gm_sys_0 :: gm_sys where
  "gm_sys_0 = \<lparr>sys_dev = (globalmem_new_dev 0)\<lparr>gm_sem := 1\<rparr>,
     sys_file = \<lparr>gm_private = None, gm_fpos = 4095\<rparr>\<rparr>"

lemma gm_sys_0_ok: "gm_sys_ok gm_sys_0"
  by (simp add: gm_sys_ok_def gm_dev_ok_def gm_sys_0_def globalmem_new_dev_def gm_consts)

theorem globalmem_invariant_witness:
  "\<exists>t. gm_step\<^sup>*\<^sup>* gm_sys_0 t \<and> gm_mem (sys_dev t) ! 4095 = 7 \<and> gm_sem (sys_dev t) = 1 \<and>
     gm_fpos (sys_file t) \<le> 4096"
proof -
  let ?t = "gm_sys_0\<lparr>sys_dev := (sys_dev gm_sys_0)\<lparr>gm_mem := mem_put (replicate 4096 0) 4095 [7]\<rparr>,
    sys_file := (sys_file gm_sys_0)\<lparr>gm_fpos := 4096\<rparr>\<rparr>"
  have "globalmem_write False (\<lambda>s. (s, 0)) (sys_dev gm_sys_0) [7, 8] 2 4095 =
      (Inr 1, 4096, sys_dev ?t)"
    by (simp add: globalmem_write_eq gm_sys_0_def globalmem_new_dev_def gm_consts)
  then have "gm_step gm_sys_0 ?t"
    using step_write [OF user_copy_total, of False gm_sys_0 "[7, 8]" 2 "Inr 1" 4096 "sys_dev ?t"]
    by (simp add: gm_sys_0_def)
  then have r: "gm_step\<^sup>*\<^sup>* gm_sys_0 ?t" by blast
  moreover have "gm_mem (sys_dev ?t) ! 4095 = 7" by (simp add: mem_put_nth)
  ultimately show ?thesis using globalmem_invariant [OF r gm_sys_0_ok] by blast
qed

text \<open>C19. A write of \<open>n\<close> bytes at position \<open>p\<close> inside the device transfers the bytes that fit,
  advances the position by them and changes no other byte; reading the same range back returns
  exactly the bytes written.\<close>

theorem globalmem_write_read:
  assumes "0 \<le> p" "p < 4096" "0 \<le> n" "n < 4294967296" "length (gm_mem dev) = 4096"
    "int (length ubuf) = n" "user_copy_ok cpw" "user_copy_ok cpr"
    and w: "globalmem_write False cpw dev ubuf n p = (Inr w, p', dev')"
    and r: "globalmem_read False cpr dev' n p = (Inr m, out, p'', dev'')"
  shows "w = min n (4096 - p) \<and> m = w \<and> p' = p + w \<and> p'' = p' \<and> out = take (nat w) ubuf \<and>
    (\<forall>i < 4096. int i < p \<or> p + w \<le> int i \<longrightarrow> gm_mem dev' ! i = gm_mem dev ! i)"
proof -
  let ?k = "min n (4096 - p)"
  obtain dst left where dst: "cpw (take (nat ?k) ubuf) = (dst, left)" by force
  with w have "left = 0" and W: "w = ?k" "p' = p + ?k"
      "dev' = dev\<lparr>gm_mem := mem_put (gm_mem dev) (nat p) dst\<rparr>"
    by (auto simp: globalmem_write_eq assms(1-4) Let_def split: if_splits)
  with dst have d: "dst = take (nat ?k) ubuf" using user_copy_complete [OF assms(7)] by blast
  then have len: "length dst = nat ?k" "nat p + length dst \<le> 4096"
    using assms(1-6) by (auto simp: min_def)
  then have m: "mem_get (gm_mem dev') (nat p) (nat ?k) = dst"
    using W(3) assms(5) by (simp add: mem_simps)
  obtain o' l' where o': "cpr dst = (o', l')" by force
  with r have "l' = 0" "m = ?k" "out = o'" "p'' = p + ?k"
    by (auto simp: globalmem_read_eq assms(1-4) m split: if_splits)
  moreover have "o' = dst" using o' \<open>l' = 0\<close> user_copy_complete [OF assms(8)] by blast
  moreover have "gm_mem dev' ! i = gm_mem dev ! i"
    if "i < 4096" "int i < p \<or> p + ?k \<le> int i" for i
    using that W(3) len assms(1,5) by (auto simp: mem_put_nth)
  ultimately show ?thesis using W d by simp
qed

theorem globalmem_write_read_witness:
  "\<exists>dev' dev''. globalmem_write False (\<lambda>s. (s, 0)) (sys_dev gm_sys_0) [1, 2, 3] 3 4094 = (Inr 2, 4096, dev') \<and>
     globalmem_read False (\<lambda>s. (s, 0)) dev' 3 4094 = (Inr 2, [1, 2], 4096, dev'')"
proof -
  let ?d = "sys_dev gm_sys_0" and ?cp = "\<lambda>s :: byte list. (s, 0 :: nat)"
  have len: "length (gm_mem ?d) = 4096"
    by (simp add: gm_sys_0_def globalmem_new_dev_def gm_consts)
  obtain w p' dev' where w: "globalmem_write False ?cp ?d [1, 2, 3] 3 4094 = (Inr w, p', dev')"
    by (simp add: globalmem_write_eq Let_def)
  obtain m out p'' dev'' where r: "globalmem_read False ?cp dev' 3 4094 = (Inr m, out, p'', dev'')"
    by (simp add: globalmem_read_eq)
  show ?thesis
    using globalmem_write_read [OF _ _ _ _ len _ user_copy_total user_copy_total w r] w r by simp
qed

text \<open>Writing one buffer and then a second one where the first ended leaves the device as one
  write of their concatenation does, and a read of both ranges is the two reads in a row.\<close>

theorem globalmem_split_transfer:
  assumes "length (gm_mem d) = 4096" "p + length bs + length cs \<le> 4096"
  shows "gm_mem (gm_wr (gm_wr d p bs) (p + length bs) cs) = gm_mem (gm_wr d p (bs @ cs)) \<and>
    gm_rd d p (length bs) @ gm_rd d (p + length bs) (length cs) = gm_rd d p (length bs + length cs)"
  using gmd.write_consecutive [OF assms] gmd.read_split [OF assms] by simp_all

theorem globalmem_split_transfer_witness:
  "gm_mem (gm_wr (gm_wr (sys_dev gm_sys_0) 5 [1]) 6 [2, 3]) =
   gm_mem (gm_wr (sys_dev gm_sys_0) 5 [1, 2, 3])"
proof -
  have "length (gm_mem (sys_dev gm_sys_0)) = 4096"
    by (simp add: gm_sys_0_def globalmem_new_dev_def gm_consts)
  from globalmem_split_transfer [OF this, of 5 "[1]" "[2, 3]"] show ?thesis by simp
qed

text \<open>Seeking fails with EINVAL and no effect, or lands inside the device: \<open>SEEK_SET\<close> at the
  offset reduced modulo 2^32 (so a huge offset is accepted at a small position), \<open>SEEK_CUR\<close>
  at the exact sum; any other origin, \<open>SEEK_END\<close> included, returns 0 and does not move.\<close>

theorem globalmem_llseek_cases:
  assumes "globalmem_llseek filp off orig = (r, filp')" "0 \<le> gm_fpos filp" "gm_fpos filp \<le> 4096"
    "- 9223372036854775808 \<le> off" "off < 9223372036854775808"
  shows "r = Inl EINVAL \<and> filp' = filp \<and> orig \<in> {0, 1} \<or>
    r = Inr (gm_fpos filp') \<and> 0 \<le> gm_fpos filp' \<and> gm_fpos filp' \<le> 4096 \<and>
      (orig = 0 \<and> 0 \<le> off \<and> gm_fpos filp' = off mod 4294967296 \<or>
       orig = 1 \<and> gm_fpos filp' = gm_fpos filp + off) \<or>
    r = Inr 0 \<and> filp' = filp \<and> orig \<notin> {0, 1}"
proof -
  have "to_s64 (gm_fpos filp + off) = gm_fpos filp + off \<or>
      to_s64 (gm_fpos filp + off) < 0"
    using assms(2-5) by (simp add: to_s64_def mod_pos_pos_trivial) (smt (verit) minus_mod_self2 mod_pos_pos_trivial)
  then show ?thesis
    using assms(1,2,3) to_u32_bounds(1) [of off]
    by (auto simp: globalmem_llseek_def gm_consts Let_def to_u32_def split: if_splits)
qed

theorem globalmem_llseek_cases_witness:
  "globalmem_llseek (sys_file gm_sys_0) 4294967301 0 = (Inr 5, (sys_file gm_sys_0)\<lparr>gm_fpos := 5\<rparr>) \<and>
   (4294967301 :: int) mod 4294967296 = 5"
proof -
  have e: "globalmem_llseek (sys_file gm_sys_0) 4294967301 0 = (Inr 5, (sys_file gm_sys_0)\<lparr>gm_fpos := 5\<rparr>)"
    by (simp add: globalmem_llseek_def gm_consts to_u32_def)
  show ?thesis
    using globalmem_llseek_cases [OF e] e by (simp add: gm_sys_0_def)
qed

text \<open>The binary sysfs file ignores its offset: inside the window sysfs allows, a write at
  \<open>off\<close> lands at offset 0, a range at \<open>off\<close> disjoint from it keeps its old bytes, and a read at
  \<open>off\<close> returns the bytes at offset 0.\<close>

theorem demo_bin_ignores_offset:
  assumes "0 \<le> off" "int (length buf) \<le> off" "off + int (length buf) \<le> 4096"
    "length (gm_mem dev) = 4096"
  shows "\<exists>dev'. demo_bin_write dev buf off (int (length buf)) = Some (int (length buf), dev') \<and>
    mem_get (gm_mem dev') 0 (length buf) = buf \<and>
    mem_get (gm_mem dev') (nat off) (length buf) = mem_get (gm_mem dev) (nat off) (length buf) \<and>
    demo_bin_read dev' off (int (length buf)) = Some (int (length buf), buf)"
proof -
  have "mem_get (mem_put (gm_mem dev) 0 buf) (nat off) (length buf) =
      mem_get (gm_mem dev) (nat off) (length buf)"
    using assms by (intro mem_get_put_disjoint) auto
  then show ?thesis
    using assms by (auto simp: demo_bin_write_def demo_bin_read_def demo_bin_clamp_id mem_simps)
qed

theorem demo_bin_ignores_offset_witness:
  "\<exists>dev'. demo_bin_write (sys_dev gm_sys_0) [9] 100 1 = Some (1, dev') \<and>
     demo_bin_read dev' 100 1 = Some (1, [9]) \<and> mem_get (gm_mem dev') 0 1 = [9]"
proof -
  have "length (gm_mem (sys_dev gm_sys_0)) = 4096"
    by (simp add: gm_sys_0_def globalmem_new_dev_def gm_consts)
  from demo_bin_ignores_offset [of 100 "[9]", OF _ _ _ this] show ?thesis by auto
qed

text \<open>After loading with every kernel call but the interrupt requests succeeding, unloading
  gives back every kernel object, except that each device whose interrupt request failed keeps
  its device node: the probe's failure path deletes the cdev only.\<close>

theorem globalmem_unload_leaks_failed_probes:
  assumes "ans_region ans = 0" "ans_class ans" "ans_alloc ans" "ans_plat_dev ans = (\<lambda>_. 0)"
    "ans_plat_drv ans = 0" "ans_cdev ans = (\<lambda>_. 0)" "ans_device ans = (\<lambda>_. True)"
    "ans_group ans = (\<lambda>_. 0)" "ans_bin ans = (\<lambda>_. 0)" "gm_major k \<noteq> 0"
  shows "\<exists>bound k'. gm_load ans k = Some (bound, k') \<and>
    mset (gm_held (gm_unload bound k')) =
      mset (gm_held k) + image_mset GmDevice (filter_mset (\<lambda>i. ans_irq ans i \<noteq> 0) {#0, 1#})"
  using assms
  by (simp add: gm_load_def gm_unload_def globalmem_init_def globalmem_exit_def demo_drv_probe_def
      demo_drv_remove_def globalmem_setup_cdev_def gm_get_if_def gm_consts upt_rec numeral_2_eq_2)

definition gm_answers_0 :: gm_answers where
  "gm_answers_0 = \<lparr>ans_region = 0, ans_major = 0, ans_class = True, ans_alloc = True,
     ans_plat_dev = (\<lambda>_. 0), ans_plat_drv = 0, ans_cdev = (\<lambda>_. 0), ans_device = (\<lambda>_. True),
     ans_irq = (\<lambda>i. if i = 1 then -16 else 0), ans_group = (\<lambda>_. 0), ans_bin = (\<lambda>_. 0)\<rparr>"

theorem globalmem_unload_leaks_failed_probes_witness:
  "\<exists>bound k'. gm_load gm_answers_0 \<lparr>gm_major = 199, gm_held = [], gm_devs = []\<rparr> = Some (bound, k') \<and>
     mset (gm_held (gm_unload bound k')) = {#GmDevice 1#}"
proof -
  let ?k = "\<lparr>gm_major = 199, gm_held = [], gm_devs = []\<rparr>"
  have "\<exists>bound k'. gm_load gm_answers_0 ?k = Some (bound, k') \<and>
    mset (gm_held (gm_unload bound k')) =
      mset (gm_held ?k) + image_mset GmDevice (filter_mset (\<lambda>i. ans_irq gm_answers_0 i \<noteq> 0) {#0, 1#})"
    by (rule globalmem_unload_leaks_failed_probes) (simp_all add: gm_answers_0_def)
  then show ?thesis by (simp add: gm_answers_0_def)
qed

end
