(* ===== verification/Myfifo.thy ===== *)
theory Myfifo
  imports Interfaces
begin

text \<open>
  The FIFO character device \<^verbatim>\<open>driver/myfifo/drv/myfifo.c\<close>: a 4 KiB circular buffer with
  blocking and non-blocking read and write, poll, an ioctl that clears it, and module init and
  exit. Pointers into the buffer are offsets from its start. A read or write call is a sequence
  of attempts, each made with the semaphore held; what happens between two attempts is an event.
  A step relation runs any number of processes: one that has to wait tests its condition, goes to
  sleep, and is woken by the calls of \<open>wake_up_interruptible\<close> the code makes, or by a signal.
\<close>

section \<open>State\<close>

definition MYFIFO_SIZE :: nat where
  "MYFIFO_SIZE = 4096"

definition MYFIFO_CLEAR :: int where
  "MYFIFO_CLEAR = 1"

record myfifo_dev =
  mf_sem :: int
  mf_size :: nat
  mf_wp :: nat
  mf_rp :: nat
  mf_end :: nat
  mf_buffer :: "byte list"

abbreviation mf_down :: "myfifo_dev \<Rightarrow> myfifo_dev" where
  "mf_down dev \<equiv> dev\<lparr>mf_sem := mf_sem dev - 1\<rparr>"

abbreviation mf_up :: "myfifo_dev \<Rightarrow> myfifo_dev" where
  "mf_up dev \<equiv> dev\<lparr>mf_sem := mf_sem dev + 1\<rparr>"

text \<open>The pointer setup that init and the clear ioctl share.\<close>

definition mf_reset :: "myfifo_dev \<Rightarrow> myfifo_dev" where
  "mf_reset dev = dev\<lparr>mf_rp := 0, mf_wp := 0, mf_end := 0 + MYFIFO_SIZE, mf_size := 0\<rparr>"

section \<open>Read and write\<close>

text \<open>
  What a caller that holds the semaphore does until it gives it back: return to user space
  (for a reader with the bytes delivered), or go to sleep on its wait queue.
\<close>

datatype 'r mf_attempt = Return 'r myfifo_dev | Sleep myfifo_dev

definition myfifo_read_attempt ::
  "bool \<Rightarrow> user_copy \<Rightarrow> nat \<Rightarrow> myfifo_dev \<Rightarrow> (int kresult \<times> byte list) mf_attempt" where
  "myfifo_read_attempt nonblock cp sz dev =
     (if mf_size dev = 0 then
        if nonblock then Return (Inl EAGAIN, []) (mf_up dev) else Sleep (mf_up dev)
      else
        let cnt = (if mf_wp dev > mf_rp dev then min sz (mf_wp dev - mf_rp dev)
                   else min sz (mf_end dev - mf_rp dev));
            (ubuf, left) = cp (mem_get (mf_buffer dev) (mf_rp dev) cnt) in
        if left \<noteq> 0 then Return (Inl EFAULT, ubuf) (mf_up dev)
        else let dev = dev\<lparr>mf_rp := mf_rp dev + cnt\<rparr>;
                 dev = (if mf_rp dev = mf_end dev then dev\<lparr>mf_rp := 0\<rparr> else dev);
                 dev = dev\<lparr>mf_size := mf_size dev - cnt\<rparr>
             in Return (Inr (int cnt), ubuf) (mf_up dev))"

definition myfifo_write_attempt ::
  "bool \<Rightarrow> user_copy \<Rightarrow> byte list \<Rightarrow> myfifo_dev \<Rightarrow> int kresult mf_attempt" where
  "myfifo_write_attempt nonblock cp ubuf dev =
     (if mf_size dev = MYFIFO_SIZE then
        if nonblock then Return (Inl EAGAIN) (mf_up dev) else Sleep (mf_up dev)
      else
        let cnt = (if mf_wp dev < mf_rp dev then min (length ubuf) (mf_rp dev - mf_wp dev)
                   else min (length ubuf) (mf_end dev - mf_wp dev));
            (dst, left) = cp (take cnt ubuf);
            dev = dev\<lparr>mf_buffer := mem_put (mf_buffer dev) (mf_wp dev) dst\<rparr> in
        if left \<noteq> 0 then Return (Inl EFAULT) (mf_up dev)
        else let dev = dev\<lparr>mf_wp := mf_wp dev + cnt\<rparr>;
                 dev = (if mf_wp dev = mf_end dev then dev\<lparr>mf_wp := 0\<rparr> else dev);
                 dev = dev\<lparr>mf_size := mf_size dev + cnt\<rparr>
             in Return (Inr (int cnt)) (mf_up dev))"

text \<open>
  One call: take the semaphore, then attempt; after going to sleep the next event decides. A
  signal ends the wait or the following \<open>down_interruptible\<close>; otherwise the caller holds the
  semaphore again and the device is whatever the others left. No event left means the caller is
  still asleep: \<open>None\<close>.
\<close>

datatype mf_event = WaitInterrupted | DownInterrupted | Woken myfifo_dev

fun myfifo_read_loop ::
  "bool \<Rightarrow> user_copy \<Rightarrow> nat \<Rightarrow> mf_event list \<Rightarrow> myfifo_dev \<Rightarrow>
    ((int kresult \<times> byte list) \<times> myfifo_dev) option" where
  "myfifo_read_loop nonblock cp sz evs dev =
     (case myfifo_read_attempt nonblock cp sz dev of
        Return r dev \<Rightarrow> Some (r, dev)
      | Sleep dev \<Rightarrow>
          (case evs of
             [] \<Rightarrow> None
           | WaitInterrupted # _ \<Rightarrow> Some ((Inl ERESTARTSYS, []), dev)
           | DownInterrupted # _ \<Rightarrow> Some ((Inl ERESTARTSYS, []), dev)
           | Woken dev' # evs \<Rightarrow> myfifo_read_loop nonblock cp sz evs (mf_down dev')))"

definition myfifo_read ::
  "bool \<Rightarrow> bool \<Rightarrow> user_copy \<Rightarrow> nat \<Rightarrow> mf_event list \<Rightarrow> myfifo_dev \<Rightarrow>
    ((int kresult \<times> byte list) \<times> myfifo_dev) option" where
  "myfifo_read intr nonblock cp sz evs dev =
     (if intr then Some ((Inl ERESTARTSYS, []), dev)
      else myfifo_read_loop nonblock cp sz evs (mf_down dev))"

fun myfifo_write_loop ::
  "bool \<Rightarrow> user_copy \<Rightarrow> byte list \<Rightarrow> mf_event list \<Rightarrow> myfifo_dev \<Rightarrow>
    (int kresult \<times> myfifo_dev) option" where
  "myfifo_write_loop nonblock cp ubuf evs dev =
     (case myfifo_write_attempt nonblock cp ubuf dev of
        Return r dev \<Rightarrow> Some (r, dev)
      | Sleep dev \<Rightarrow>
          (case evs of
             [] \<Rightarrow> None
           | WaitInterrupted # _ \<Rightarrow> Some (Inl ERESTARTSYS, dev)
           | DownInterrupted # _ \<Rightarrow> Some (Inl ERESTARTSYS, dev)
           | Woken dev' # evs \<Rightarrow> myfifo_write_loop nonblock cp ubuf evs (mf_down dev')))"

definition myfifo_write ::
  "bool \<Rightarrow> bool \<Rightarrow> user_copy \<Rightarrow> byte list \<Rightarrow> mf_event list \<Rightarrow> myfifo_dev \<Rightarrow>
    (int kresult \<times> myfifo_dev) option" where
  "myfifo_write intr nonblock cp ubuf evs dev =
     (if intr then Some (Inl ERESTARTSYS, dev)
      else myfifo_write_loop nonblock cp ubuf evs (mf_down dev))"

declare myfifo_read_loop.simps [simp del] myfifo_write_loop.simps [simp del]

section \<open>The other file operations\<close>

definition myfifo_ioctl :: "bool \<Rightarrow> int \<Rightarrow> myfifo_dev \<Rightarrow> int kresult \<times> myfifo_dev" where
  "myfifo_ioctl intr cmd dev =
     (if cmd = MYFIFO_CLEAR then
        if intr then (Inl ERESTARTSYS, dev)
        else (Inr 0, mf_up (mf_reset (mf_down dev)))
      else (Inl EINVAL, dev))"

definition POLLIN :: u32 where "POLLIN = 1"
definition POLLOUT :: u32 where "POLLOUT = 4"
definition POLLRDNORM :: u32 where "POLLRDNORM = 64"
definition POLLWRNORM :: u32 where "POLLWRNORM = 256"

text \<open>The mask; an interrupted poll returns \<open>-ERESTARTSYS\<close> (512) as the mask.\<close>

definition myfifo_poll :: "bool \<Rightarrow> myfifo_dev \<Rightarrow> u32 \<times> myfifo_dev" where
  "myfifo_poll intr dev =
     (if intr then (- 512, dev)
      else let dev = mf_down dev;
               mask = 0;
               mask = (if mf_rp dev \<noteq> mf_wp dev then mask OR (POLLIN OR POLLRDNORM) else mask);
               mask = (if mf_size dev < MYFIFO_SIZE then mask OR (POLLOUT OR POLLWRNORM) else mask)
           in (mask, mf_up dev))"

definition myfifo_llseek :: "myfifo_dev \<Rightarrow> int \<Rightarrow> int \<Rightarrow> int" where
  "myfifo_llseek dev offset orig = -1"

text \<open>Open and release record or log the device and change nothing in it.\<close>

definition myfifo_open :: "myfifo_dev \<Rightarrow> int kresult \<times> myfifo_dev" where
  "myfifo_open dev = (Inr 0, dev)"

definition myfifo_release :: "myfifo_dev \<Rightarrow> int kresult \<times> myfifo_dev" where
  "myfifo_release dev = (Inr 0, dev)"

section \<open>Module init and exit\<close>

datatype mf_resource = MfRegion int | MfAlloc | MfCdev | MfClass | MfDevice

text \<open>\<open>mf_devp\<close> is the global \<open>myfifo_devp\<close>: \<open>None\<close> for a null pointer.\<close>

record mf_kernel =
  mf_major :: int
  mf_held :: "mf_resource list"
  mf_devp :: "myfifo_dev option"

record mf_answers =
  mfa_region :: "int kresult"
  mfa_major :: int
  mfa_alloc :: bool
  mfa_cdev :: int
  mfa_class :: bool
  mfa_device :: bool

abbreviation mf_get :: "mf_resource \<Rightarrow> mf_kernel \<Rightarrow> mf_kernel" where
  "mf_get r k \<equiv> k\<lparr>mf_held := r # mf_held k\<rparr>"

abbreviation mf_put :: "mf_resource \<Rightarrow> mf_kernel \<Rightarrow> mf_kernel" where
  "mf_put r k \<equiv> k\<lparr>mf_held := remove1 r (mf_held k)\<rparr>"

definition mf_get_if :: "bool \<Rightarrow> mf_resource \<Rightarrow> mf_kernel \<Rightarrow> mf_kernel" where
  "mf_get_if ok r k = (if ok then mf_get r k else k)"

definition myfifo_setup_cdev :: "mf_answers \<Rightarrow> mf_kernel \<Rightarrow> mf_kernel" where
  "myfifo_setup_cdev ans k = mf_get_if (mfa_cdev ans = 0) MfCdev k"

definition mf_zeroed :: myfifo_dev where
  "mf_zeroed = \<lparr>mf_sem = 0, mf_size = 0, mf_wp = 0, mf_rp = 0, mf_end = 0,
     mf_buffer = replicate MYFIFO_SIZE 0\<rparr>"

text \<open>The label \<open>fail_malloc\<close>: free what was allocated, give the region back.\<close>

definition mf_fail_malloc :: "int kresult \<Rightarrow> mf_kernel \<Rightarrow> int kresult \<times> mf_kernel" where
  "mf_fail_malloc result k =
     (let k = (if mf_devp k \<noteq> None then (mf_put MfAlloc k)\<lparr>mf_devp := None\<rparr> else k)
      in (result, mf_put (MfRegion (mf_major k)) k))"

definition myfifo_init :: "mf_answers \<Rightarrow> mf_kernel \<Rightarrow> int kresult \<times> mf_kernel" where
  "myfifo_init ans k =
     (let result = mfa_region ans;
          k = (if mf_major k \<noteq> 0 then k else k\<lparr>mf_major := mfa_major ans\<rparr>);
          k = mf_get_if (result = Inr 0) (MfRegion (mf_major k)) k in
      if \<not> mfa_alloc ans then mf_fail_malloc (Inl ENOMEM) (k\<lparr>mf_devp := None\<rparr>)
      else let k = mf_get MfAlloc k;
               k = k\<lparr>mf_devp := Some mf_zeroed\<rparr>;
               k = myfifo_setup_cdev ans k in
      if \<not> mfa_class ans then mf_fail_malloc result (mf_put MfCdev k)
      else let k = mf_get MfClass k;
               k = mf_get_if (mfa_device ans) MfDevice k;
               k = k\<lparr>mf_devp := map_option (\<lambda>dev. mf_reset (dev\<lparr>mf_sem := 1\<rparr>)) (mf_devp k)\<rparr>
           in (Inr 0, k))"

definition myfifo_exit :: "mf_kernel \<Rightarrow> mf_kernel" where
  "myfifo_exit k =
     (let k = mf_put MfCdev k;
          k = mf_put MfDevice k;
          k = mf_put MfClass k;
          k = mf_put MfAlloc k
      in mf_put (MfRegion (mf_major k)) k)"

section \<open>The buffer as a queue\<close>

text \<open>The queue content, oldest byte first, and the invariant that ties pointers and size.\<close>

definition mf_bytes :: "myfifo_dev \<Rightarrow> byte list" where
  "mf_bytes dev = map (\<lambda>i. mf_buffer dev ! ((mf_rp dev + i) mod MYFIFO_SIZE)) [0..<mf_size dev]"

definition mf_ok :: "myfifo_dev \<Rightarrow> bool" where
  "mf_ok dev \<longleftrightarrow> length (mf_buffer dev) = MYFIFO_SIZE \<and> mf_end dev = MYFIFO_SIZE \<and>
     mf_rp dev < MYFIFO_SIZE \<and> mf_size dev \<le> MYFIFO_SIZE \<and>
     mf_wp dev = (mf_rp dev + mf_size dev) mod MYFIFO_SIZE"

definition mf_read_count :: "nat \<Rightarrow> myfifo_dev \<Rightarrow> nat" where
  "mf_read_count sz dev = (if mf_wp dev > mf_rp dev then min sz (mf_wp dev - mf_rp dev)
     else min sz (mf_end dev - mf_rp dev))"

definition mf_write_count :: "nat \<Rightarrow> myfifo_dev \<Rightarrow> nat" where
  "mf_write_count sz dev = (if mf_wp dev < mf_rp dev then min sz (mf_rp dev - mf_wp dev)
     else min sz (mf_end dev - mf_wp dev))"

lemma length_mf_bytes [simp]: "length (mf_bytes dev) = mf_size dev"
  by (simp add: mf_bytes_def)

lemma mf_bytes_Nil [simp]: "mf_bytes dev = [] \<longleftrightarrow> mf_size dev = 0"
  by (metis length_0_conv length_mf_bytes)

lemma mf_ok_wp: "mf_ok dev \<Longrightarrow> mf_wp dev =
    (if mf_rp dev + mf_size dev < MYFIFO_SIZE then mf_rp dev + mf_size dev
     else mf_rp dev + mf_size dev - MYFIFO_SIZE)"
  by (auto simp: mf_ok_def MYFIFO_SIZE_def mod_if)

lemma mf_ok_size: "mf_ok dev \<Longrightarrow> mf_size dev \<le> MYFIFO_SIZE"
  by (simp add: mf_ok_def)

lemma mf_read_count_bounds:
  assumes "mf_ok dev" "mf_size dev \<noteq> 0"
  shows "mf_read_count sz dev \<le> sz" "mf_read_count sz dev \<le> mf_size dev"
    "mf_rp dev + mf_read_count sz dev \<le> MYFIFO_SIZE" "0 < sz \<Longrightarrow> 0 < mf_read_count sz dev"
  using assms mf_ok_wp [OF assms(1)] by (auto simp: mf_read_count_def mf_ok_def split: if_splits)

lemma mf_write_count_bounds:
  assumes "mf_ok dev" "mf_size dev \<noteq> MYFIFO_SIZE"
  shows "mf_write_count sz dev \<le> sz" "mf_size dev + mf_write_count sz dev \<le> MYFIFO_SIZE"
    "mf_wp dev + mf_write_count sz dev \<le> MYFIFO_SIZE" "0 < sz \<Longrightarrow> 0 < mf_write_count sz dev"
  using assms mf_ok_wp [OF assms(1)] by (auto simp: mf_write_count_def mf_ok_def split: if_splits)

text \<open>What the device looks like after \<open>n\<close> bytes were taken or appended.\<close>

definition mf_advance_rp :: "nat \<Rightarrow> myfifo_dev \<Rightarrow> myfifo_dev" where
  "mf_advance_rp n dev = dev\<lparr>mf_rp := (if mf_rp dev + n = mf_end dev then 0 else mf_rp dev + n),
     mf_size := mf_size dev - n\<rparr>"

definition mf_advance_wp :: "byte list \<Rightarrow> myfifo_dev \<Rightarrow> myfifo_dev" where
  "mf_advance_wp bs dev = dev\<lparr>mf_buffer := mem_put (mf_buffer dev) (mf_wp dev) bs,
     mf_wp := (if mf_wp dev + length bs = mf_end dev then 0 else mf_wp dev + length bs),
     mf_size := mf_size dev + length bs\<rparr>"

lemma mf_ok_sem [simp]: "mf_ok (dev\<lparr>mf_sem := v\<rparr>) = mf_ok dev" "mf_bytes (dev\<lparr>mf_sem := v\<rparr>) = mf_bytes dev"
  by (simp_all add: mf_ok_def mf_bytes_def)

lemma mf_advance_sem [simp]:
  "mf_sem (mf_advance_rp n dev) = mf_sem dev" "mf_sem (mf_advance_wp bs dev) = mf_sem dev"
  by (simp_all add: mf_advance_rp_def mf_advance_wp_def)

lemma mf_advance_rp_ok:
  assumes "mf_ok dev" "n \<le> mf_size dev" "mf_rp dev + n \<le> MYFIFO_SIZE"
  shows "mf_ok (mf_advance_rp n dev)"
    and "mf_bytes dev = mem_get (mf_buffer dev) (mf_rp dev) n @ mf_bytes (mf_advance_rp n dev)"
proof -
  have "(mf_rp dev + mf_size dev) mod MYFIFO_SIZE = mf_size dev - n" if "mf_rp dev + n = MYFIFO_SIZE"
  proof -
    have "mf_rp dev + mf_size dev = MYFIFO_SIZE + (mf_size dev - n)" using that assms(2) by simp
    moreover have "mf_size dev - n < MYFIFO_SIZE" using that assms by (auto simp: mf_ok_def)
    ultimately show ?thesis by simp
  qed
  then show "mf_ok (mf_advance_rp n dev)"
    using assms by (auto simp: mf_ok_def mf_advance_rp_def)
  have l: "length (mem_get (mf_buffer dev) (mf_rp dev) n) = n"
    using assms by (simp add: mf_ok_def mem_simps)
  show "mf_bytes dev = mem_get (mf_buffer dev) (mf_rp dev) n @ mf_bytes (mf_advance_rp n dev)"
  proof (rule nth_equalityI)
    show "length (mf_bytes dev) =
        length (mem_get (mf_buffer dev) (mf_rp dev) n @ mf_bytes (mf_advance_rp n dev))"
      using assms(2) l by (simp add: mf_advance_rp_def)
  next
    fix i assume i: "i < length (mf_bytes dev)"
    have "(if mf_rp dev + n = mf_end dev then 0 else mf_rp dev + n) + (i - n) =
        (if mf_rp dev + n = MYFIFO_SIZE then i - n else mf_rp dev + i)" if "n \<le> i"
      using that assms(1) by (auto simp: mf_ok_def)
    moreover have "(mf_rp dev + i) mod MYFIFO_SIZE = (i - n) mod MYFIFO_SIZE"
      if "n \<le> i" "mf_rp dev + n = MYFIFO_SIZE"
    proof -
      have "mf_rp dev + i = MYFIFO_SIZE + (i - n)" using that by simp
      then show ?thesis by simp
    qed
    ultimately show "mf_bytes dev ! i =
        (mem_get (mf_buffer dev) (mf_rp dev) n @ mf_bytes (mf_advance_rp n dev)) ! i"
      using i l assms by (auto simp: mf_bytes_def mf_advance_rp_def nth_append mem_get_nth mf_ok_def)
  qed
qed

lemma mf_advance_wp_ok:
  assumes "mf_ok dev" "mf_size dev + length bs \<le> MYFIFO_SIZE" "mf_wp dev + length bs \<le> MYFIFO_SIZE"
    "mf_size dev \<noteq> MYFIFO_SIZE"
  shows "mf_ok (mf_advance_wp bs dev)" and "mf_bytes (mf_advance_wp bs dev) = mf_bytes dev @ bs"
proof -
  note wp = mf_ok_wp [OF assms(1)]
  show "mf_ok (mf_advance_wp bs dev)"
    using assms wp by (auto simp: mf_ok_def mf_advance_wp_def mem_simps MYFIFO_SIZE_def mod_if split: if_splits)
  show "mf_bytes (mf_advance_wp bs dev) = mf_bytes dev @ bs"
  proof (rule nth_equalityI)
    fix i assume "i < length (mf_bytes (mf_advance_wp bs dev))"
    then have i: "i < mf_size dev + length bs" by (simp add: mf_advance_wp_def)
    define j where "j = (mf_rp dev + i) mod MYFIFO_SIZE"
    have j: "j = (if mf_rp dev + i < MYFIFO_SIZE then mf_rp dev + i else mf_rp dev + i - MYFIFO_SIZE)"
      using i assms by (auto simp: j_def mf_ok_def MYFIFO_SIZE_def mod_if)
    have "length (mf_buffer dev) = MYFIFO_SIZE" "mf_rp dev < MYFIFO_SIZE" "mf_size dev \<le> MYFIFO_SIZE"
      using assms(1) by (auto simp: mf_ok_def)
    then have "mem_put (mf_buffer dev) (mf_wp dev) bs ! j =
        (if i < mf_size dev then mf_buffer dev ! j else bs ! (i - mf_size dev))"
      using i j wp assms(2-4) by (subst mem_put_nth) (auto split: if_splits)
    then show "mf_bytes (mf_advance_wp bs dev) ! i = (mf_bytes dev @ bs) ! i"
      using i by (auto simp: mf_bytes_def mf_advance_wp_def nth_append j_def)
  qed (simp add: mf_advance_wp_def)
qed

lemma myfifo_read_attempt_eq:
  assumes "mf_size dev \<noteq> 0"
    "cp (mem_get (mf_buffer dev) (mf_rp dev) (mf_read_count sz dev)) = (ubuf, left)"
  shows "myfifo_read_attempt nb cp sz dev =
    (if left \<noteq> 0 then Return (Inl EFAULT, ubuf) (mf_up dev)
     else Return (Inr (int (mf_read_count sz dev)), ubuf) (mf_up (mf_advance_rp (mf_read_count sz dev) dev)))"
  using assms by (simp add: myfifo_read_attempt_def mf_read_count_def [symmetric] mf_advance_rp_def Let_def)

lemma myfifo_write_attempt_eq:
  assumes "mf_size dev \<noteq> MYFIFO_SIZE"
    "cp (take (mf_write_count (length ubuf) dev) ubuf) = (dst, left)"
    "length dst = mf_write_count (length ubuf) dev"
  shows "myfifo_write_attempt nb cp ubuf dev =
    (if left \<noteq> 0 then Return (Inl EFAULT) (mf_up (dev\<lparr>mf_buffer := mem_put (mf_buffer dev) (mf_wp dev) dst\<rparr>))
     else Return (Inr (int (mf_write_count (length ubuf) dev))) (mf_up (mf_advance_wp dst dev)))"
  using assms by (simp add: myfifo_write_attempt_def mf_write_count_def [symmetric] mf_advance_wp_def Let_def)

text \<open>Outcomes of an attempt, for the invariant proofs.\<close>

lemma myfifo_read_attempt_cases:
  assumes "mf_ok dev" "user_copy_ok cp" "myfifo_read_attempt nb cp sz dev = Return (r, ubuf) dev'"
  shows "(\<exists>e. r = Inl e \<and> dev' = mf_up dev) \<or>
    (\<exists>n \<le> sz. r = Inr (int n) \<and> mf_ok dev' \<and> mf_sem dev' = mf_sem dev + 1 \<and> length ubuf = n \<and>
      mf_bytes dev = ubuf @ mf_bytes dev' \<and> (0 < sz \<longrightarrow> 0 < n))"
proof (cases "mf_size dev = 0")
  case True
  with assms(3) show ?thesis by (auto simp: myfifo_read_attempt_def split: if_splits)
next
  case False
  let ?n = "mf_read_count sz dev"
  note b = mf_read_count_bounds [OF assms(1) False]
  obtain ub left where c: "cp (mem_get (mf_buffer dev) (mf_rp dev) ?n) = (ub, left)" by force
  show ?thesis
  proof (cases "left = 0")
    case True
    have e: "ubuf = ub" "r = Inr (int ?n)" "dev' = mf_up (mf_advance_rp ?n dev)"
      using assms(3) myfifo_read_attempt_eq [of dev cp sz ub left nb, OF False c] True by auto
    have "ub = mem_get (mf_buffer dev) (mf_rp dev) ?n"
      using user_copy_complete [OF assms(2)] c True by blast
    moreover have "length (mem_get (mf_buffer dev) (mf_rp dev) ?n) = ?n"
      using b(3) assms(1) by (simp add: mf_ok_def mem_simps)
    ultimately show ?thesis
      using mf_advance_rp_ok [OF assms(1) b(2,3)] b(1,4) e
      by auto
  qed (use assms(3) myfifo_read_attempt_eq [of dev cp sz ub left nb, OF False c] in auto)
qed

lemma mf_bytes_free_space:
  assumes "mf_ok dev" "mf_size dev + length bs \<le> MYFIFO_SIZE" "mf_wp dev + length bs \<le> MYFIFO_SIZE"
    "mf_size dev \<noteq> MYFIFO_SIZE"
  shows "mf_ok (dev\<lparr>mf_buffer := mem_put (mf_buffer dev) (mf_wp dev) bs\<rparr>)"
    "mf_bytes (dev\<lparr>mf_buffer := mem_put (mf_buffer dev) (mf_wp dev) bs\<rparr>) = mf_bytes dev"
proof -
  let ?d = "dev\<lparr>mf_buffer := mem_put (mf_buffer dev) (mf_wp dev) bs\<rparr>"
  show "mf_ok ?d" using assms by (auto simp: mf_ok_def mem_simps)
  have "mf_bytes ?d = take (mf_size dev) (mf_bytes (mf_advance_wp bs dev))"
    by (simp add: mf_bytes_def mf_advance_wp_def take_map)
  then show "mf_bytes ?d = mf_bytes dev" by (simp add: mf_advance_wp_ok(2) [OF assms])
qed

lemma myfifo_write_attempt_cases:
  assumes "mf_ok dev" "user_copy_ok cp" "myfifo_write_attempt nb cp bs dev = Return r dev'"
  shows "mf_ok dev' \<and> mf_sem dev' = mf_sem dev + 1 \<and>
    ((\<exists>e. r = Inl e \<and> mf_bytes dev' = mf_bytes dev) \<or>
     (\<exists>n \<le> length bs. r = Inr (int n) \<and> mf_bytes dev' = mf_bytes dev @ take n bs \<and>
        (bs \<noteq> [] \<longrightarrow> 0 < n)))"
proof (cases "mf_size dev = MYFIFO_SIZE")
  case True
  with assms show ?thesis by (auto simp: myfifo_write_attempt_def split: if_splits)
next
  case False
  let ?n = "mf_write_count (length bs) dev"
  note b = mf_write_count_bounds [OF assms(1) False, of "length bs"]
  obtain dst left where c: "cp (take ?n bs) = (dst, left)" by force
  then have l: "length dst = ?n" using user_copy_length [OF assms(2) c] b(1) by simp
  note eq = myfifo_write_attempt_eq [of dev cp bs dst left nb, OF False c l]
  note adv = mf_advance_wp_ok [OF assms(1) _ _ False, of dst]
  show ?thesis
  proof (cases "left = 0")
    case True
    with c have "dst = take ?n bs" using user_copy_complete [OF assms(2)] by blast
    with True show ?thesis
      using assms(3) eq adv b l by auto
  next
    case False': False
    then show ?thesis
      using assms(3) eq mf_bytes_free_space [OF assms(1) _ _ False, of dst] b(2,3) l by auto
  qed
qed

lemma myfifo_attempt_sleep:
  "myfifo_read_attempt nb cp sz dev = Sleep dev' \<Longrightarrow> dev' = mf_up dev \<and> mf_size dev = 0 \<and> \<not> nb"
  "myfifo_write_attempt nb cp bs dev = Sleep dev' \<Longrightarrow> dev' = mf_up dev \<and> mf_size dev = MYFIFO_SIZE \<and> \<not> nb"
  by (auto simp: myfifo_read_attempt_def myfifo_write_attempt_def Let_def split: if_splits prod.splits)

section \<open>The non-blocking calls as a bounded queue\<close>

definition mf_enq :: "myfifo_dev \<Rightarrow> byte list \<Rightarrow> myfifo_dev \<times> nat" where
  "mf_enq dev bs = (case myfifo_write False True (\<lambda>s. (s, 0)) bs [] dev of
     Some (Inr n, dev) \<Rightarrow> (dev, nat n) | Some (Inl _, dev) \<Rightarrow> (dev, 0) | None \<Rightarrow> (dev, 0))"

definition mf_deq :: "myfifo_dev \<Rightarrow> nat \<Rightarrow> myfifo_dev \<times> byte list" where
  "mf_deq dev k = (case myfifo_read False True (\<lambda>s. (s, 0)) k [] dev of
     Some ((Inr n, out), dev) \<Rightarrow> (dev, out) | Some ((Inl _, _), dev) \<Rightarrow> (dev, []) | None \<Rightarrow> (dev, []))"

lemma mf_enq_attempt:
  "\<exists>r dev'. myfifo_write_attempt True (\<lambda>s. (s, 0)) bs (mf_down dev) = Return r dev' \<and>
    mf_enq dev bs = (dev', case r of Inr n \<Rightarrow> nat n | Inl _ \<Rightarrow> 0)"
  by (cases "myfifo_write_attempt True (\<lambda>s. (s, 0)) bs (mf_down dev)")
    (auto simp: mf_enq_def myfifo_write_def myfifo_write_loop.simps split: sum.splits
      dest: myfifo_attempt_sleep)

lemma mf_deq_attempt:
  "\<exists>r out dev'. myfifo_read_attempt True (\<lambda>s. (s, 0)) k (mf_down dev) = Return (r, out) dev' \<and>
    mf_deq dev k = (dev', case r of Inr n \<Rightarrow> out | Inl _ \<Rightarrow> [])"
proof (cases "myfifo_read_attempt True (\<lambda>s. (s, 0)) k (mf_down dev)")
  case (Return x d)
  moreover obtain r out where "x = (r, out)" by force
  ultimately show ?thesis
    by (intro exI [of _ r] exI [of _ out] exI [of _ d])
      (auto simp: mf_deq_def myfifo_read_def myfifo_read_loop.simps split: sum.splits)
qed (auto dest: myfifo_attempt_sleep)

lemma mf_enq_props:
  assumes "mf_ok dev" "mf_enq dev bs = (dev', n)"
  shows "mf_ok dev' \<and> n \<le> length bs \<and> mf_bytes dev' = mf_bytes dev @ take n bs \<and>
    mf_sem dev' = mf_sem dev"
proof -
  obtain r where r: "myfifo_write_attempt True (\<lambda>s. (s, 0)) bs (mf_down dev) = Return r dev'"
      "n = (case r of Inr n \<Rightarrow> nat n | Inl _ \<Rightarrow> 0)"
    using mf_enq_attempt [of bs dev] assms(2) by auto
  show ?thesis
    using myfifo_write_attempt_cases [OF _ user_copy_total r(1)] assms(1) r(2) by auto
qed

lemma mf_enq_progress:
  assumes "mf_ok dev" "mf_enq dev bs = (dev', n)" "mf_size dev < MYFIFO_SIZE" "bs \<noteq> []"
  shows "0 < n"
proof -
  obtain r where r: "myfifo_write_attempt True (\<lambda>s. (s, 0)) bs (mf_down dev) = Return r dev'"
      "n = (case r of Inr n \<Rightarrow> nat n | Inl _ \<Rightarrow> 0)"
    using mf_enq_attempt [of bs dev] assms(2) by auto
  moreover have "\<nexists>e. r = Inl e"
    using r(1) assms(3) by (auto simp: myfifo_write_attempt_def Let_def split: if_splits)
  ultimately show ?thesis
    using myfifo_write_attempt_cases [OF _ user_copy_total r(1)] assms(1,4) by auto
qed

lemma mf_deq_props:
  assumes "mf_ok dev" "mf_deq dev k = (dev', out)"
  shows "mf_ok dev' \<and> length out \<le> k \<and> mf_bytes dev = out @ mf_bytes dev' \<and>
    mf_sem dev' = mf_sem dev"
proof -
  obtain r ub where r: "myfifo_read_attempt True (\<lambda>s. (s, 0)) k (mf_down dev) = Return (r, ub) dev'"
      "out = (case r of Inr n \<Rightarrow> ub | Inl _ \<Rightarrow> [])"
    using mf_deq_attempt [of k dev] assms(2) by auto
  show ?thesis
    using myfifo_read_attempt_cases [OF _ user_copy_total r(1)] assms(1) r(2) by auto
qed

lemma mf_deq_progress:
  assumes "mf_ok dev" "mf_deq dev k = (dev', out)" "mf_size dev \<noteq> 0" "0 < k"
  shows "out \<noteq> []"
proof -
  obtain r ub where r: "myfifo_read_attempt True (\<lambda>s. (s, 0)) k (mf_down dev) = Return (r, ub) dev'"
      "out = (case r of Inr n \<Rightarrow> ub | Inl _ \<Rightarrow> [])"
    using mf_deq_attempt [of k dev] assms(2) by auto
  moreover have "\<nexists>e. r = Inl e"
    using r(1) assms(3) by (auto simp: myfifo_read_attempt_def Let_def split: if_splits)
  ultimately show ?thesis
    using myfifo_read_attempt_cases [OF _ user_copy_total r(1)] assms(1,4) by auto
qed

interpretation mfq: byte_queue mf_bytes MYFIFO_SIZE mf_enq mf_deq mf_ok
proof
  fix q bs q' n
  assume q: "mf_ok q" "mf_enq q bs = (q', n)" "length (mf_bytes q) < MYFIFO_SIZE" "bs \<noteq> []"
  then show "0 < n" by (auto intro: mf_enq_progress)
next
  fix q k q' out
  assume "mf_ok q" "mf_deq q k = (q', out)" "mf_bytes q \<noteq> []" "0 < k"
  then show "out \<noteq> []" by (auto dest: mf_deq_progress)
qed (auto dest: mf_ok_size mf_enq_props mf_deq_props)

section \<open>Many processes on one device\<close>

text \<open>
  Each process is outside the driver, waiting for the semaphore, holding it, about to test the
  condition of its wait, asleep on a wait queue, or past giving the semaphore back and about to wake
  a queue. \<open>ms_in\<close> is the ghost history of bytes accepted by writes, \<open>ms_gone\<close> of bytes
  delivered by reads or thrown away by the clear ioctl; \<open>ms_cleared\<close> is whether the buffer has been
  cleared since the writers were woken last.
\<close>

datatype mf_call = ReadCall bool nat | WriteCall bool "byte list" | ClearCall

datatype mf_queue = InQueue | OutQueue

datatype mf_pc = PIdle | PWant mf_call | PHold mf_call | PCheck mf_call | PAsleep mf_call | PWake mf_queue

record mf_sys =
  ms_dev :: myfifo_dev
  ms_pc :: "nat \<Rightarrow> mf_pc"
  ms_in :: "byte list"
  ms_gone :: "byte list"
  ms_cleared :: bool

abbreviation mf_goto :: "nat \<Rightarrow> mf_pc \<Rightarrow> mf_sys \<Rightarrow> mf_sys" where
  "mf_goto i pc s \<equiv> s\<lparr>ms_pc := (ms_pc s)(i := pc)\<rparr>"

text \<open>The condition a call waits for, and the queue it waits on.\<close>

fun mf_wait_cond :: "mf_call \<Rightarrow> myfifo_dev \<Rightarrow> bool" where
  "mf_wait_cond (ReadCall _ _) dev = (mf_size dev \<noteq> 0)"
| "mf_wait_cond (WriteCall _ _) dev = (mf_size dev < MYFIFO_SIZE)"
| "mf_wait_cond ClearCall dev = True"

fun mf_waits_on :: "mf_call \<Rightarrow> mf_queue \<Rightarrow> bool" where
  "mf_waits_on (ReadCall _ _) q = (q = InQueue)"
| "mf_waits_on (WriteCall _ _) q = (q = OutQueue)"
| "mf_waits_on ClearCall q = False"

text \<open>\<open>wake_up_interruptible\<close>: every sleeper of the queue goes back to its test.\<close>

definition mf_wake_all :: "mf_queue \<Rightarrow> (nat \<Rightarrow> mf_pc) \<Rightarrow> nat \<Rightarrow> mf_pc" where
  "mf_wake_all q pcs = (\<lambda>j. case pcs j of PAsleep c \<Rightarrow> if mf_waits_on c q then PCheck c else PAsleep c | pc \<Rightarrow> pc)"

text \<open>
  A successful read or write gives the semaphore back and then wakes the other queue, in two steps;
  a failed one and the clear ioctl wake nobody. The test of the condition and going to sleep are one
  step, because a caller is on the queue already when \<open>wait_event_interruptible\<close> tests.
\<close>

inductive mf_step :: "mf_sys \<Rightarrow> mf_sys \<Rightarrow> bool" where
  call: "ms_pc s i = PIdle \<Longrightarrow> mf_step s (mf_goto i (PWant c) s)"
| acquire: "ms_pc s i = PWant c \<Longrightarrow> 0 < mf_sem (ms_dev s) \<Longrightarrow>
     mf_step s (mf_goto i (PHold c) (s\<lparr>ms_dev := mf_down (ms_dev s)\<rparr>))"
| read_done: "ms_pc s i = PHold (ReadCall nb n) \<Longrightarrow> user_copy_ok cp \<Longrightarrow>
     myfifo_read_attempt nb cp n (ms_dev s) = Return (r, ubuf) dev' \<Longrightarrow>
     mf_step s (mf_goto i (case r of Inr _ \<Rightarrow> PWake OutQueue | Inl _ \<Rightarrow> PIdle) (s\<lparr>ms_dev := dev',
       ms_gone := ms_gone s @ (case r of Inr _ \<Rightarrow> ubuf | Inl _ \<Rightarrow> [])\<rparr>))"
| write_done: "ms_pc s i = PHold (WriteCall nb bs) \<Longrightarrow> user_copy_ok cp \<Longrightarrow>
     myfifo_write_attempt nb cp bs (ms_dev s) = Return r dev' \<Longrightarrow>
     mf_step s (mf_goto i (case r of Inr _ \<Rightarrow> PWake InQueue | Inl _ \<Rightarrow> PIdle) (s\<lparr>ms_dev := dev',
       ms_in := ms_in s @ (case r of Inr n \<Rightarrow> take (nat n) bs | Inl _ \<Rightarrow> [])\<rparr>))"
| clear_done: "ms_pc s i = PHold ClearCall \<Longrightarrow>
     mf_step s (mf_goto i PIdle (s\<lparr>ms_dev := mf_up (mf_reset (ms_dev s)),
       ms_gone := ms_gone s @ mf_bytes (ms_dev s), ms_cleared := True\<rparr>))"
| read_wait: "ms_pc s i = PHold (ReadCall nb n) \<Longrightarrow>
     myfifo_read_attempt nb cp n (ms_dev s) = Sleep dev' \<Longrightarrow>
     mf_step s (mf_goto i (PCheck (ReadCall nb n)) (s\<lparr>ms_dev := dev'\<rparr>))"
| write_wait: "ms_pc s i = PHold (WriteCall nb bs) \<Longrightarrow>
     myfifo_write_attempt nb cp bs (ms_dev s) = Sleep dev' \<Longrightarrow>
     mf_step s (mf_goto i (PCheck (WriteCall nb bs)) (s\<lparr>ms_dev := dev'\<rparr>))"
| check_true: "ms_pc s i = PCheck c \<Longrightarrow> mf_wait_cond c (ms_dev s) \<Longrightarrow>
     mf_step s (mf_goto i (PWant c) s)"
| check_false: "ms_pc s i = PCheck c \<Longrightarrow> \<not> mf_wait_cond c (ms_dev s) \<Longrightarrow>
     mf_step s (mf_goto i (PAsleep c) s)"
| wake: "ms_pc s i = PWake q \<Longrightarrow>
     mf_step s (s\<lparr>ms_pc := (mf_wake_all q (ms_pc s))(i := PIdle),
       ms_cleared := (ms_cleared s \<and> q \<noteq> OutQueue)\<rparr>)"

text \<open>
  A signal ends the wait for the semaphore, and the wait on a queue when the condition, which is
  tested first, is false; otherwise it is as good as a wake-up.
\<close>

inductive mf_signal :: "mf_sys \<Rightarrow> mf_sys \<Rightarrow> bool" where
  interrupted_down: "ms_pc s i = PWant c \<Longrightarrow> mf_signal s (mf_goto i PIdle s)"
| interrupted_wait: "ms_pc s i = PCheck c \<or> ms_pc s i = PAsleep c \<Longrightarrow> \<not> mf_wait_cond c (ms_dev s) \<Longrightarrow>
     mf_signal s (mf_goto i PIdle s)"
| signal_wakes: "ms_pc s i = PAsleep c \<Longrightarrow> mf_wait_cond c (ms_dev s) \<Longrightarrow> mf_signal s (mf_goto i (PWant c) s)"

definition mf_any :: "mf_sys \<Rightarrow> mf_sys \<Rightarrow> bool" where
  "mf_any s t \<longleftrightarrow> mf_step s t \<or> mf_signal s t"

definition mf_holds :: "mf_sys \<Rightarrow> nat \<Rightarrow> bool" where
  "mf_holds s i \<longleftrightarrow> (\<exists>c. ms_pc s i = PHold c)"

definition mf_sys_ok :: "mf_sys \<Rightarrow> bool" where
  "mf_sys_ok s \<longleftrightarrow> mf_ok (ms_dev s) \<and> ms_in s = ms_gone s @ mf_bytes (ms_dev s) \<and>
     (mf_sem (ms_dev s) = 1 \<and> (\<forall>i. \<not> mf_holds s i) \<or>
      mf_sem (ms_dev s) = 0 \<and> (\<exists>i. \<forall>j. mf_holds s j \<longleftrightarrow> j = i))"

lemma mf_sys_okD:
  assumes "mf_sys_ok s" "ms_pc s i = PHold c"
  shows "mf_sem (ms_dev s) = 0" "mf_holds s j \<longleftrightarrow> j = i"
proof -
  have h: "mf_holds s i" using assms(2) by (simp add: mf_holds_def)
  with assms(1) obtain k where "mf_sem (ms_dev s) = 0" "\<forall>j. mf_holds s j \<longleftrightarrow> j = k"
    unfolding mf_sys_ok_def by blast
  with h show "mf_sem (ms_dev s) = 0" "mf_holds s j \<longleftrightarrow> j = i" by auto
qed

lemma mf_holds_upd [simp]:
  "mf_holds (s\<lparr>ms_dev := d, ms_pc := f\<rparr>) i \<longleftrightarrow> (\<exists>c. f i = PHold c)"
  "mf_holds (s\<lparr>ms_pc := f\<rparr>) i \<longleftrightarrow> (\<exists>c. f i = PHold c)"
  "mf_holds (s\<lparr>ms_dev := d, ms_pc := f, ms_in := x\<rparr>) i \<longleftrightarrow> (\<exists>c. f i = PHold c)"
  "mf_holds (s\<lparr>ms_dev := d, ms_pc := f, ms_gone := x\<rparr>) i \<longleftrightarrow> (\<exists>c. f i = PHold c)"
  by (simp_all add: mf_holds_def)

text \<open>A process that does not hold the semaphore moves to a state where it does not either.\<close>

lemma mf_goto_ok:
  assumes "mf_sys_ok s" "\<And>c. ms_pc s i \<noteq> PHold c" "\<And>c. pc \<noteq> PHold c"
  shows "mf_sys_ok (mf_goto i pc s)"
proof -
  have "mf_holds (mf_goto i pc s) = mf_holds s"
    using assms(2,3) by (auto simp: mf_holds_def fun_eq_iff)
  then show ?thesis using assms(1) by (simp add: mf_sys_ok_def)
qed

lemma mf_acquire_ok:
  assumes "mf_sys_ok s" "0 < mf_sem (ms_dev s)"
  shows "mf_sys_ok (mf_goto i (PHold c) (s\<lparr>ms_dev := mf_down (ms_dev s)\<rparr>))"
proof -
  have s: "mf_sem (ms_dev s) = 1" "\<forall>j. \<not> mf_holds s j"
    using assms by (auto simp: mf_sys_ok_def)
  then have "mf_holds (mf_goto i (PHold c) (s\<lparr>ms_dev := mf_down (ms_dev s)\<rparr>)) = (\<lambda>j. j = i)"
    by (auto simp: mf_holds_def fun_eq_iff)
  then show ?thesis using assms(1) s by (auto simp: mf_sys_ok_def)
qed

text \<open>The holder gives the semaphore back and nobody else holds it.\<close>

lemma mf_leave_ok:
  assumes "mf_sys_ok s" "ms_pc s i = PHold c" "ms_pc t = (ms_pc s)(i := pc)" "\<And>c. pc \<noteq> PHold c"
    "mf_ok (ms_dev t)" "mf_sem (ms_dev t) = mf_sem (ms_dev s) + 1"
    "ms_in t = ms_gone t @ mf_bytes (ms_dev t)"
  shows "mf_sys_ok t"
proof -
  have "\<not> mf_holds t j" for j
    using mf_sys_okD(2) [OF assms(1,2), of j] assms(3,4) by (auto simp: mf_holds_def)
  then show ?thesis using assms(5-7) mf_sys_okD(1) [OF assms(1,2)] by (simp add: mf_sys_ok_def)
qed

lemma mf_reset_ok: "mf_ok dev \<Longrightarrow> mf_ok (mf_reset dev) \<and> mf_bytes (mf_reset dev) = []"
  by (simp add: mf_ok_def mf_reset_def MYFIFO_SIZE_def)

lemma mf_wake_all_holds: "mf_wake_all q pcs j = PHold c \<longleftrightarrow> pcs j = PHold c"
  by (auto simp: mf_wake_all_def split: mf_pc.splits)

lemma mf_step_ok: "mf_step s t \<Longrightarrow> mf_sys_ok s \<Longrightarrow> mf_sys_ok t"
proof (induction rule: mf_step.induct)
  case (call s i c)
  then show ?case by (simp add: mf_goto_ok)
next
  case (acquire s i c)
  then show ?case using mf_acquire_ok [of s i c] by simp
next
  case (read_done s i nb n cp r ubuf dev')
  then have ok: "mf_ok (ms_dev s)" "ms_in s = ms_gone s @ mf_bytes (ms_dev s)"
    by (auto simp: mf_sys_ok_def)
  then show ?case
    using myfifo_read_attempt_cases [OF ok(1) read_done(2,3)]
    by (intro mf_leave_ok [OF read_done(4,1), of _ "case r of Inr _ \<Rightarrow> PWake OutQueue | Inl _ \<Rightarrow> PIdle"])
      (auto split: sum.splits)
next
  case (write_done s i nb bs cp r dev')
  then have ok: "mf_ok (ms_dev s)" "ms_in s = ms_gone s @ mf_bytes (ms_dev s)"
    by (auto simp: mf_sys_ok_def)
  then show ?case
    using myfifo_write_attempt_cases [OF ok(1) write_done(2,3)]
    by (intro mf_leave_ok [OF write_done(4,1), of _ "case r of Inr _ \<Rightarrow> PWake InQueue | Inl _ \<Rightarrow> PIdle"])
      (auto split: sum.splits)
next
  case (clear_done s i)
  then have ok: "mf_ok (ms_dev s)" "ms_in s = ms_gone s @ mf_bytes (ms_dev s)"
    by (auto simp: mf_sys_ok_def)
  then show ?case
    using mf_reset_ok [OF ok(1)]
    by (intro mf_leave_ok [OF clear_done(2,1), of _ PIdle]) (auto simp: mf_reset_def)
next
  case (read_wait s i nb n cp dev')
  then show ?case
    using myfifo_attempt_sleep(1) [OF read_wait(2)]
    by (intro mf_leave_ok [OF read_wait(3,1), of _ "PCheck (ReadCall nb n)"]) (auto simp: mf_sys_ok_def)
next
  case (write_wait s i nb bs cp dev')
  then show ?case
    using myfifo_attempt_sleep(2) [OF write_wait(2)]
    by (intro mf_leave_ok [OF write_wait(3,1), of _ "PCheck (WriteCall nb bs)"]) (auto simp: mf_sys_ok_def)
next
  case (wake s i q)
  have "mf_holds (s\<lparr>ms_pc := (mf_wake_all q (ms_pc s))(i := PIdle), ms_cleared := ms_cleared s \<and> q \<noteq> OutQueue\<rparr>) = mf_holds s"
    using wake(1) by (auto simp: mf_holds_def fun_eq_iff mf_wake_all_holds)
  then show ?case using wake(2) by (simp add: mf_sys_ok_def)
qed (simp_all add: mf_goto_ok)

lemma mf_signal_ok: "mf_signal s t \<Longrightarrow> mf_sys_ok s \<Longrightarrow> mf_sys_ok t"
  by (induction rule: mf_signal.induct) (auto intro!: mf_goto_ok)

lemma mf_any_ok: "mf_any\<^sup>*\<^sup>* s t \<Longrightarrow> mf_sys_ok s \<Longrightarrow> mf_sys_ok t"
proof (induction rule: rtranclp_induct)
  case (step t u)
  then show ?case using mf_step_ok mf_signal_ok unfolding mf_any_def by blast
qed

section \<open>Wake-ups\<close>

text \<open>
  A sleeper whose condition has become true has a wake-up coming, unless it is a writer and the
  buffer has been cleared.
\<close>

definition mf_wakes_ok :: "mf_sys \<Rightarrow> bool" where
  "mf_wakes_ok s \<longleftrightarrow>
     (\<forall>i c. ms_pc s i = PAsleep c \<or> ms_pc s i = PCheck c \<longrightarrow> c \<noteq> ClearCall) \<and>
     (\<forall>i c q. ms_pc s i = PAsleep c \<and> mf_waits_on c q \<and> mf_wait_cond c (ms_dev s) \<and> \<not> (q = OutQueue \<and> ms_cleared s) \<longrightarrow>
        (\<exists>j. ms_pc s j = PWake q))"

lemma mf_wakes_upd:
  assumes "mf_wakes_ok s" "\<And>q. ms_pc s i \<noteq> PWake q" "ms_pc t = (ms_pc s)(i := pc)"
    "\<And>c. pc = PCheck c \<Longrightarrow> c \<noteq> ClearCall" "\<And>c. pc = PAsleep c \<Longrightarrow> c \<noteq> ClearCall \<and> \<not> mf_wait_cond c (ms_dev t)"
    "\<And>c q. mf_waits_on c q \<Longrightarrow> mf_wait_cond c (ms_dev t) \<Longrightarrow> \<not> (q = OutQueue \<and> ms_cleared t) \<Longrightarrow>
       pc = PWake q \<or> mf_wait_cond c (ms_dev s) \<and> \<not> (q = OutQueue \<and> ms_cleared s)"
  shows "mf_wakes_ok t"
  unfolding mf_wakes_ok_def
proof (intro conjI allI impI)
  fix j c
  assume "ms_pc t j = PAsleep c \<or> ms_pc t j = PCheck c"
  then show "c \<noteq> ClearCall" using assms(1,3,4,5) by (auto simp: mf_wakes_ok_def split: if_splits)
next
  fix j c q
  assume a: "ms_pc t j = PAsleep c \<and> mf_waits_on c q \<and> mf_wait_cond c (ms_dev t) \<and> \<not> (q = OutQueue \<and> ms_cleared t)"
  then have "j \<noteq> i" using assms(3,5) by auto
  then have j: "ms_pc s j = PAsleep c" using a assms(3) by simp
  show "\<exists>k. ms_pc t k = PWake q"
  proof (cases "pc = PWake q")
    case True
    then show ?thesis using assms(3) by (intro exI [of _ i]) simp
  next
    case False
    then have "mf_wait_cond c (ms_dev s) \<and> \<not> (q = OutQueue \<and> ms_cleared s)" using assms(6) a by blast
    then obtain k where k: "ms_pc s k = PWake q" using assms(1) j a unfolding mf_wakes_ok_def by blast
    then have "k \<noteq> i" using assms(2) by auto
    then show ?thesis using k assms(3) by (intro exI [of _ k]) simp
  qed
qed

lemma mf_wait_cond_size:
  "mf_size d = mf_size d' \<Longrightarrow> mf_wait_cond c d \<longleftrightarrow> mf_wait_cond c d'"
  by (cases c) auto

lemma mf_reads_keep_cond: "mf_size d' \<le> mf_size d \<Longrightarrow> mf_waits_on c InQueue \<Longrightarrow> mf_wait_cond c d' \<Longrightarrow> mf_wait_cond c d"
  by (cases c) auto

lemma mf_writes_keep_cond: "mf_size d \<le> mf_size d' \<Longrightarrow> mf_waits_on c OutQueue \<Longrightarrow> mf_wait_cond c d' \<Longrightarrow> mf_wait_cond c d"
  by (cases c) auto

lemma mf_step_wakes: "mf_step s t \<Longrightarrow> mf_sys_ok s \<Longrightarrow> mf_wakes_ok s \<Longrightarrow> mf_wakes_ok t"
proof (induction rule: mf_step.induct)
  case (call s i c)
  show ?case by (rule mf_wakes_upd [OF call(3), of i _ "PWant c"]) (use call(1) in auto)
next
  case (acquire s i c)
  show ?case
    by (rule mf_wakes_upd [OF acquire(4), of i _ "PHold c"])
      (use acquire(1) mf_wait_cond_size [of "mf_down (ms_dev s)" "ms_dev s"] in auto)
next
  case (read_done s i nb n cp r ubuf dev')
  then have "mf_ok (ms_dev s)" by (auto simp: mf_sys_ok_def)
  from myfifo_read_attempt_cases [OF this read_done(2,3)]
  consider e where "r = Inl e" "mf_size dev' = mf_size (ms_dev s)"
    | v where "r = Inr v" "mf_size dev' \<le> mf_size (ms_dev s)"
    by (metis le_add2 length_append length_mf_bytes mf_ok_sem(2))
  then show ?case
  proof cases
    case 1
    show ?thesis
      by (rule mf_wakes_upd [OF read_done(5), of i _ PIdle])
        (use 1 read_done(1) mf_wait_cond_size [of dev' "ms_dev s"] in auto)
  next
    case 2
    have "mf_wait_cond c (ms_dev s)" if "mf_waits_on c q" "mf_wait_cond c dev'" "q \<noteq> OutQueue" for c q
      using mf_reads_keep_cond [OF 2(2), of c] that by (cases q) auto
    then show ?thesis
      by - (rule mf_wakes_upd [OF read_done(5), of i _ "PWake OutQueue"], use 2 read_done(1) in auto)
  qed
next
  case (write_done s i nb bs cp r dev')
  then have "mf_ok (ms_dev s)" by (auto simp: mf_sys_ok_def)
  from myfifo_write_attempt_cases [OF this write_done(2,3)]
  consider e where "r = Inl e" "mf_size dev' = mf_size (ms_dev s)"
    | v where "r = Inr v" "mf_size (ms_dev s) \<le> mf_size dev'"
    by (metis le_add1 length_append length_mf_bytes)
  then show ?case
  proof cases
    case 1
    show ?thesis
      by (rule mf_wakes_upd [OF write_done(5), of i _ PIdle])
        (use 1 write_done(1) mf_wait_cond_size [of dev' "ms_dev s"] in auto)
  next
    case 2
    have "mf_wait_cond c (ms_dev s)" if "mf_waits_on c q" "mf_wait_cond c dev'" "q \<noteq> InQueue" for c q
      using mf_writes_keep_cond [OF 2(2), of c] that by (cases q) auto
    then show ?thesis
      by - (rule mf_wakes_upd [OF write_done(5), of i _ "PWake InQueue"], use 2 write_done(1) in auto)
  qed
next
  case (clear_done s i)
  have "\<not> (mf_waits_on c q \<and> mf_wait_cond c (mf_up (mf_reset (ms_dev s))) \<and> q \<noteq> OutQueue)" for c q
    by (cases c) (auto simp: mf_reset_def)
  then show ?case
    by - (rule mf_wakes_upd [OF clear_done(3), of i _ PIdle], use clear_done(1) in auto)
next
  case (read_wait s i nb n cp dev')
  show ?case
    by (rule mf_wakes_upd [OF read_wait(4), of i _ "PCheck (ReadCall nb n)"])
      (use read_wait(1) myfifo_attempt_sleep(1) [OF read_wait(2)] mf_wait_cond_size [of dev' "ms_dev s"] in auto)
next
  case (write_wait s i nb bs cp dev')
  show ?case
    by (rule mf_wakes_upd [OF write_wait(4), of i _ "PCheck (WriteCall nb bs)"])
      (use write_wait(1) myfifo_attempt_sleep(2) [OF write_wait(2)] mf_wait_cond_size [of dev' "ms_dev s"] in auto)
next
  case (check_true s i c)
  show ?case by (rule mf_wakes_upd [OF check_true(4), of i _ "PWant c"]) (use check_true(1) in auto)
next
  case (check_false s i c)
  then have "c \<noteq> ClearCall" by (auto simp: mf_wakes_ok_def)
  then show ?case
    by - (rule mf_wakes_upd [OF check_false(4), of i _ "PAsleep c"], use check_false(1,2) in auto)
next
  case (wake s i q)
  let ?f = "(mf_wake_all q (ms_pc s))(i := PIdle)"
  let ?t = "s\<lparr>ms_pc := ?f, ms_cleared := ms_cleared s \<and> q \<noteq> OutQueue\<rparr>"
  have asleep: "ms_pc s j = PAsleep c \<and> \<not> mf_waits_on c q" if "?f j = PAsleep c" for j c
    using that by (auto simp: mf_wake_all_def split: if_splits mf_pc.splits)
  show ?case
    unfolding mf_wakes_ok_def
  proof (intro conjI allI impI)
    fix j c
    assume "ms_pc ?t j = PAsleep c \<or> ms_pc ?t j = PCheck c"
    then have "ms_pc s j = PAsleep c \<or> ms_pc s j = PCheck c"
      by (auto simp: mf_wake_all_def split: if_splits mf_pc.splits)
    then show "c \<noteq> ClearCall" using wake(3) by (auto simp: mf_wakes_ok_def)
  next
    fix j c q'
    assume a: "ms_pc ?t j = PAsleep c \<and> mf_waits_on c q' \<and> mf_wait_cond c (ms_dev ?t) \<and> \<not> (q' = OutQueue \<and> ms_cleared ?t)"
    then have "ms_pc s j = PAsleep c" "q' \<noteq> q" using asleep by auto
    moreover have "mf_waits_on c q'" "mf_wait_cond c (ms_dev s)" using a by simp_all
    moreover have "\<not> (q' = OutQueue \<and> ms_cleared s)" using a \<open>q' \<noteq> q\<close> by auto
    ultimately obtain k where k: "ms_pc s k = PWake q'" using wake(3) unfolding mf_wakes_ok_def by blast
    with \<open>q' \<noteq> q\<close> wake(1) have "k \<noteq> i" by auto
    then show "\<exists>k. ms_pc ?t k = PWake q'" using k by (intro exI [of _ k]) (simp add: mf_wake_all_def)
  qed
qed

lemma mf_signal_wakes: "mf_signal s t \<Longrightarrow> mf_wakes_ok s \<Longrightarrow> mf_wakes_ok t"
proof (induction rule: mf_signal.induct)
  case (interrupted_down s i c)
  show ?case by (rule mf_wakes_upd [OF interrupted_down(2), of i _ PIdle]) (use interrupted_down(1) in auto)
next
  case (interrupted_wait s i c)
  show ?case by (rule mf_wakes_upd [OF interrupted_wait(3), of i _ PIdle]) (use interrupted_wait(1) in auto)
next
  case (signal_wakes s i c)
  show ?case by (rule mf_wakes_upd [OF signal_wakes(3), of i _ "PWant c"]) (use signal_wakes(1) in auto)
qed

lemma mf_any_wakes: "mf_any\<^sup>*\<^sup>* s t \<Longrightarrow> mf_sys_ok s \<Longrightarrow> mf_wakes_ok s \<Longrightarrow> mf_wakes_ok t"
proof (induction rule: rtranclp_induct)
  case (step t u)
  then have "mf_sys_ok t" using mf_any_ok by blast
  then show ?case using step mf_step_wakes mf_signal_wakes unfolding mf_any_def by blast
qed

section \<open>Steps that are possible\<close>

text \<open>Process \<open>i\<close> has a step of its own.\<close>

definition mf_can_step :: "mf_sys \<Rightarrow> nat \<Rightarrow> bool" where
  "mf_can_step s i \<longleftrightarrow> (\<exists>t. mf_step s t \<and> ms_pc t i \<noteq> ms_pc s i)"

lemma mf_can_stepI: "mf_step s t \<Longrightarrow> ms_pc t i \<noteq> ms_pc s i \<Longrightarrow> mf_can_step s i"
  by (auto simp: mf_can_step_def)

lemma mf_holder_can_step:
  assumes "ms_pc s i = PHold c"
  shows "mf_can_step s i"
proof (cases c)
  case (ReadCall nb n)
  then have pc: "ms_pc s i = PHold (ReadCall nb n)" using assms by simp
  show ?thesis
  proof (cases "myfifo_read_attempt nb (\<lambda>s. (s, 0)) n (ms_dev s)")
    case (Return x d)
    obtain r ub where x: "x = (r, ub)" by force
    show ?thesis
      by (rule mf_can_stepI [OF mf_step.read_done [OF pc user_copy_total Return [unfolded x]]])
        (simp add: pc split: sum.splits)
  next
    case (Sleep d)
    show ?thesis by (rule mf_can_stepI [OF mf_step.read_wait [OF pc Sleep]]) (simp add: pc)
  qed
next
  case (WriteCall nb bs)
  then have pc: "ms_pc s i = PHold (WriteCall nb bs)" using assms by simp
  show ?thesis
  proof (cases "myfifo_write_attempt nb (\<lambda>s. (s, 0)) bs (ms_dev s)")
    case (Return r d)
    show ?thesis
      by (rule mf_can_stepI [OF mf_step.write_done [OF pc user_copy_total Return]])
        (simp add: pc split: sum.splits)
  next
    case (Sleep d)
    show ?thesis by (rule mf_can_stepI [OF mf_step.write_wait [OF pc Sleep]]) (simp add: pc)
  qed
next
  case ClearCall
  then have pc: "ms_pc s i = PHold ClearCall" using assms by simp
  show ?thesis by (rule mf_can_stepI [OF mf_step.clear_done [OF pc]]) (simp add: pc)
qed

lemma mf_acquire_can_step: "ms_pc s i = PWant c \<Longrightarrow> 0 < mf_sem (ms_dev s) \<Longrightarrow> mf_can_step s i"
  by (rule mf_can_stepI [OF mf_step.acquire]) auto

lemma mf_check_can_step: "ms_pc s i = PCheck c \<Longrightarrow> mf_can_step s i"
  by (cases "mf_wait_cond c (ms_dev s)")
    (auto intro: mf_can_stepI [OF mf_step.check_true] mf_can_stepI [OF mf_step.check_false])

lemma mf_wake_can_step: "ms_pc s i = PWake q \<Longrightarrow> mf_can_step s i"
  by (rule mf_can_stepI [OF mf_step.wake]) auto

text \<open>Where no process inside a call has a step, all of them are asleep.\<close>

lemma mf_stuck_asleep:
  assumes "mf_sys_ok s" "\<And>j. ms_pc s j \<noteq> PIdle \<Longrightarrow> \<not> mf_can_step s j" "ms_pc s i \<noteq> PIdle"
  shows "\<exists>c. ms_pc s i = PAsleep c"
proof (cases "ms_pc s i")
  case (PWant c)
  have "\<not> mf_holds s j" for j
    using assms(2) [of j] mf_holder_can_step [of s j] by (auto simp: mf_holds_def)
  then have "0 < mf_sem (ms_dev s)" using assms(1) by (auto simp: mf_sys_ok_def)
  then show ?thesis using mf_acquire_can_step [OF PWant] assms(2,3) by blast
qed (use assms(2,3) mf_holder_can_step mf_check_can_step mf_wake_can_step in blast)+

section \<open>Properties\<close>

definition mf_dev_0 :: myfifo_dev where
  "mf_dev_0 = mf_reset (mf_zeroed\<lparr>mf_sem := 1\<rparr>)"

definition mf_sys_0 :: mf_sys where
  "mf_sys_0 = \<lparr>ms_dev = mf_dev_0, ms_pc = (\<lambda>_. PIdle), ms_in = [], ms_gone = [], ms_cleared = False\<rparr>"

lemma mf_dev_0_ok: "mf_ok mf_dev_0" "mf_sem mf_dev_0 = 1" "mf_size mf_dev_0 = 0"
  by (simp_all add: mf_dev_0_def mf_ok_def mf_reset_def mf_zeroed_def MYFIFO_SIZE_def)

lemma mf_dev_0_bytes [simp]: "mf_bytes mf_dev_0 = []"
  by (simp add: mf_dev_0_ok)

lemma mf_sys_0_ok: "mf_sys_ok mf_sys_0"
  by (simp add: mf_sys_ok_def mf_sys_0_def mf_holds_def mf_dev_0_ok)

lemma mf_sys_0_wakes: "mf_wakes_ok mf_sys_0"
  by (simp add: mf_wakes_ok_def mf_sys_0_def)

text \<open>C1. With any number of processes reading, writing, clearing, sleeping and being signalled, the
  bytes accepted by writes are, in order, the bytes delivered or cleared followed by the bytes
  in the buffer; the buffer never holds more than 4096; and at most one process is inside the
  critical section.\<close>

theorem myfifo_no_byte_lost:
  assumes "mf_any\<^sup>*\<^sup>* s t" "mf_sys_ok s"
  shows "ms_in t = ms_gone t @ mf_bytes (ms_dev t) \<and> length (mf_bytes (ms_dev t)) \<le> 4096 \<and>
    (\<forall>i j. mf_holds t i \<longrightarrow> mf_holds t j \<longrightarrow> i = j)"
proof -
  have ok: "mf_sys_ok t" by (rule mf_any_ok [OF assms])
  then have "mf_ok (ms_dev t)" "ms_in t = ms_gone t @ mf_bytes (ms_dev t)"
    by (simp_all add: mf_sys_ok_def)
  moreover have "(\<forall>i. \<not> mf_holds t i) \<or> (\<exists>k. \<forall>j. mf_holds t j \<longrightarrow> j = k)"
    using ok unfolding mf_sys_ok_def by blast
  then have "\<forall>i j. mf_holds t i \<longrightarrow> mf_holds t j \<longrightarrow> i = j" by metis
  ultimately show ?thesis using mf_ok_size [of "ms_dev t"] by (simp add: MYFIFO_SIZE_def)
qed

lemma mf_reach_holder:
  "\<exists>t. mf_any\<^sup>*\<^sup>* mf_sys_0 t \<and> ms_pc t 0 = PHold c"
proof -
  obtain s where s: "mf_step mf_sys_0 s" "ms_pc s 0 = PWant c" "ms_dev s = mf_dev_0"
    using mf_step.call [of mf_sys_0 0 c] by (force simp: mf_sys_0_def)
  have "0 < mf_sem (ms_dev s)" using s(3) mf_dev_0_ok(2) by simp
  then obtain t where t: "mf_step s t" "ms_pc t 0 = PHold c"
    using mf_step.acquire [OF s(2)] by (metis fun_upd_same mf_sys.select_convs(2) mf_sys.surjective mf_sys.update_convs(2))
  have "mf_any\<^sup>*\<^sup>* mf_sys_0 s" "mf_any s t" using s(1) t(1) by (simp_all add: mf_any_def r_into_rtranclp)
  then show ?thesis using t(2) rtranclp.rtrancl_into_rtrancl by metis
qed

theorem myfifo_no_byte_lost_witness:
  "\<exists>t. mf_any\<^sup>*\<^sup>* mf_sys_0 t \<and> ms_pc t 0 = PHold (WriteCall True [5, 6]) \<and> \<not> mf_holds t 1 \<and>
     ms_in t = ms_gone t @ mf_bytes (ms_dev t)"
proof -
  obtain t where t: "mf_any\<^sup>*\<^sup>* mf_sys_0 t" "ms_pc t 0 = PHold (WriteCall True [5, 6])"
    using mf_reach_holder by blast
  have "mf_holds t 0" using t(2) by (simp add: mf_holds_def)
  then have "\<not> mf_holds t 1"
    using myfifo_no_byte_lost [OF t(1) mf_sys_0_ok] by (metis zero_neq_one)
  then show ?thesis using t myfifo_no_byte_lost [OF t(1) mf_sys_0_ok] by blast
qed

text \<open>C14. The non-blocking write and read calls implement a bounded FIFO queue: writing \<open>bs\<close> and
  then reading \<open>k\<close> bytes conserves the byte sequence in order, never exceeds 4096 bytes, makes
  progress whenever there is room (respectively data), and leaves the semaphore as it was.\<close>

theorem myfifo_queue_refinement:
  assumes "mf_ok q" "mf_enq q bs = (q1, n)" "mf_deq q1 k = (q2, out)"
  shows "mf_bytes q @ take n bs = out @ mf_bytes q2 \<and> mf_size q + n \<le> 4096 \<and>
    (mf_size q < 4096 \<and> bs \<noteq> [] \<longrightarrow> 0 < n) \<and>
    (mf_size q1 \<noteq> 0 \<and> 0 < k \<longrightarrow> out \<noteq> []) \<and> mf_sem q2 = mf_sem q"
proof -
  have q1: "mf_ok q1" "mf_sem q1 = mf_sem q" using mf_enq_props [OF assms(1,2)] by auto
  then show ?thesis
    using mfq.conserve [OF assms] mfq.put_bound [OF assms(1,2)] mfq.put_progress [OF assms(1,2)]
      mf_deq_progress [OF q1(1) assms(3)] mf_deq_props [OF q1(1) assms(3)]
    by (simp add: MYFIFO_SIZE_def)
qed

theorem myfifo_queue_refinement_witness:
  "\<exists>q1 n q2 out. mf_enq mf_dev_0 [5, 6] = (q1, n) \<and> mf_deq q1 1 = (q2, out) \<and>
     take n [5, 6] = out @ mf_bytes q2 \<and> 0 < n"
proof -
  obtain q1 n where e: "mf_enq mf_dev_0 [5, 6] = (q1, n)" by force
  obtain q2 out where d: "mf_deq q1 1 = (q2, out)" by force
  show ?thesis
    using myfifo_queue_refinement [OF mf_dev_0_ok(1) e d] e d mf_dev_0_ok(3) by auto
qed

text \<open>C37. No lost wake-up and no deadlock. In every reachable state a sleeping reader has a wake-up
  coming when there is data, and a sleeping writer when there is room, unless the buffer has been cleared
  since the writers were woken last; and where no process inside a call has a step of its own, each of
  them is a reader asleep at an empty buffer, or a writer asleep at a full or at a cleared one.\<close>

theorem myfifo_progress:
  assumes "mf_any\<^sup>*\<^sup>* mf_sys_0 s"
  shows "(\<forall>i nb n. ms_pc s i = PAsleep (ReadCall nb n) \<and> mf_size (ms_dev s) \<noteq> 0 \<longrightarrow> (\<exists>j. ms_pc s j = PWake InQueue)) \<and>
    (\<forall>i nb bs. ms_pc s i = PAsleep (WriteCall nb bs) \<and> mf_size (ms_dev s) < 4096 \<and> \<not> ms_cleared s \<longrightarrow>
       (\<exists>j. ms_pc s j = PWake OutQueue)) \<and>
    ((\<forall>j. ms_pc s j \<noteq> PIdle \<longrightarrow> \<not> mf_can_step s j) \<longrightarrow>
       (\<forall>i. ms_pc s i = PIdle \<or> (\<exists>nb n. ms_pc s i = PAsleep (ReadCall nb n) \<and> mf_size (ms_dev s) = 0) \<or>
          (\<exists>nb bs. ms_pc s i = PAsleep (WriteCall nb bs) \<and> (mf_size (ms_dev s) = 4096 \<or> ms_cleared s))))"
proof -
  have ok: "mf_sys_ok s" and wk: "mf_wakes_ok s"
    using mf_any_ok [OF assms mf_sys_0_ok] mf_any_wakes [OF assms mf_sys_0_ok mf_sys_0_wakes] by simp_all
  have r: "\<exists>j. ms_pc s j = PWake InQueue" if "ms_pc s i = PAsleep (ReadCall nb n)" "mf_size (ms_dev s) \<noteq> 0" for i nb n
    using wk that unfolding mf_wakes_ok_def by (metis mf_queue.distinct(1) mf_wait_cond.simps(1) mf_waits_on.simps(1))
  have w: "\<exists>j. ms_pc s j = PWake OutQueue"
    if "ms_pc s i = PAsleep (WriteCall nb bs)" "mf_size (ms_dev s) < 4096" "\<not> ms_cleared s" for i nb bs
    using wk that unfolding mf_wakes_ok_def by (metis MYFIFO_SIZE_def mf_wait_cond.simps(2) mf_waits_on.simps(2))
  have le: "mf_size (ms_dev s) \<le> 4096" using ok mf_ok_size [of "ms_dev s"] by (simp add: mf_sys_ok_def MYFIFO_SIZE_def)
  have "(\<exists>nb n. ms_pc s i = PAsleep (ReadCall nb n) \<and> mf_size (ms_dev s) = 0) \<or>
      (\<exists>nb bs. ms_pc s i = PAsleep (WriteCall nb bs) \<and> (mf_size (ms_dev s) = 4096 \<or> ms_cleared s))"
    if stuck: "\<And>j. ms_pc s j \<noteq> PIdle \<Longrightarrow> \<not> mf_can_step s j" and i: "ms_pc s i \<noteq> PIdle" for i
  proof -
    have none: "\<nexists>j q. ms_pc s j = PWake q" using stuck mf_wake_can_step by fastforce
    obtain c where c: "ms_pc s i = PAsleep c" using mf_stuck_asleep [OF ok stuck i] by blast
    then have "c \<noteq> ClearCall" using wk by (auto simp: mf_wakes_ok_def)
    then show ?thesis
    proof (cases c)
      case (ReadCall nb n)
      then show ?thesis using c r none by blast
    next
      case (WriteCall nb bs)
      then show ?thesis using c w none le by (metis le_neq_implies_less)
    qed simp
  qed
  then show ?thesis using r w by blast
qed

text \<open>A process alone that reads from the empty buffer.\<close>

definition mf_reader :: "mf_pc \<Rightarrow> mf_sys" where
  "mf_reader pc = mf_goto 0 pc mf_sys_0"

lemma mf_reader_asleep: "mf_any\<^sup>*\<^sup>* mf_sys_0 (mf_reader (PAsleep (ReadCall False 3)))"
proof -
  let ?c = "ReadCall False 3"
  have "mf_any mf_sys_0 (mf_reader (PWant ?c))"
    unfolding mf_any_def mf_reader_def by (rule disjI1, rule mf_step.call) (simp add: mf_sys_0_def)
  moreover have "mf_any (mf_reader (PWant ?c)) (mf_goto 0 (PHold ?c) (mf_reader (PWant ?c)\<lparr>ms_dev := mf_down mf_dev_0\<rparr>))"
    using mf_step.acquire [of "mf_reader (PWant ?c)" 0 ?c]
    by (simp add: mf_any_def mf_reader_def mf_sys_0_def mf_dev_0_ok)
  moreover have "mf_any (mf_goto 0 (PHold ?c) (mf_reader (PWant ?c)\<lparr>ms_dev := mf_down mf_dev_0\<rparr>)) (mf_reader (PCheck ?c))"
    using mf_step.read_wait [of "mf_goto 0 (PHold ?c) (mf_reader (PWant ?c)\<lparr>ms_dev := mf_down mf_dev_0\<rparr>)" 0 False 3 "\<lambda>s. (s, 0)" mf_dev_0]
    by (simp add: mf_any_def mf_reader_def mf_sys_0_def mf_dev_0_ok myfifo_read_attempt_def)
  moreover have "mf_any (mf_reader (PCheck ?c)) (mf_reader (PAsleep ?c))"
    using mf_step.check_false [of "mf_reader (PCheck ?c)" 0 ?c]
    by (simp add: mf_any_def mf_reader_def mf_sys_0_def mf_dev_0_ok)
  ultimately show ?thesis by (meson rtranclp.rtrancl_refl rtranclp.rtrancl_into_rtrancl)
qed

theorem myfifo_progress_witness:
  "mf_any\<^sup>*\<^sup>* mf_sys_0 (mf_reader (PAsleep (ReadCall False 3))) \<and> \<not> mf_can_step (mf_reader (PAsleep (ReadCall False 3))) 0 \<and>
   mf_size (ms_dev (mf_reader (PAsleep (ReadCall False 3)))) = 0"
proof -
  let ?s = "mf_reader (PAsleep (ReadCall False 3))"
  have stuck: "\<not> mf_can_step ?s j" if "ms_pc ?s j \<noteq> PIdle" for j
    using that unfolding mf_can_step_def
    by (auto simp: mf_reader_def mf_sys_0_def split: if_splits elim!: mf_step.cases)
  from myfifo_progress [OF mf_reader_asleep] stuck have "ms_pc ?s 0 = PIdle \<or> mf_size (ms_dev ?s) = 0 \<or>
      (\<exists>nb bs. ms_pc ?s 0 = PAsleep (WriteCall nb bs))" by blast
  then show ?thesis using mf_reader_asleep stuck [of 0] by (simp add: mf_reader_def mf_sys_0_def)
qed

text \<open>The clear ioctl wakes no writer: one that sleeps at a full buffer sleeps on at the empty one, with
  nobody left to wake it.\<close>

lemma mf_enter:
  assumes "mf_any\<^sup>*\<^sup>* mf_sys_0 s" "ms_pc s i = PIdle" "mf_sem (ms_dev s) = 1"
  shows "mf_any\<^sup>*\<^sup>* mf_sys_0 (mf_goto i (PHold c) (s\<lparr>ms_dev := mf_down (ms_dev s)\<rparr>))"
proof -
  have "mf_any s (mf_goto i (PWant c) s)" using mf_step.call [OF assms(2)] by (simp add: mf_any_def)
  moreover have "mf_any (mf_goto i (PWant c) s) (mf_goto i (PHold c) (s\<lparr>ms_dev := mf_down (ms_dev s)\<rparr>))"
    using mf_step.acquire [of "mf_goto i (PWant c) s" i c] assms(3) by (simp add: mf_any_def)
  ultimately show ?thesis using assms(1) by (meson rtranclp.rtrancl_into_rtrancl)
qed

lemma mf_then: "mf_any\<^sup>*\<^sup>* mf_sys_0 s \<Longrightarrow> mf_step s t \<Longrightarrow> mf_any\<^sup>*\<^sup>* mf_sys_0 t"
  by (metis mf_any_def rtranclp.rtrancl_into_rtrancl)

lemma mf_full_reachable:
  "\<exists>s. mf_any\<^sup>*\<^sup>* mf_sys_0 s \<and> mf_size (ms_dev s) = 4096 \<and> mf_sem (ms_dev s) = 1 \<and> ms_pc s = (\<lambda>_. PIdle)"
proof -
  let ?bs = "replicate 4096 (0 :: byte)" and ?d = "mf_down mf_dev_0"
  let ?s = "mf_goto 0 (PHold (WriteCall False ?bs)) (mf_sys_0\<lparr>ms_dev := ?d\<rparr>)"
  have r: "mf_any\<^sup>*\<^sup>* mf_sys_0 ?s"
    using mf_enter [of mf_sys_0 0 "WriteCall False ?bs"] by (simp add: mf_sys_0_def mf_dev_0_ok)
  have n: "mf_write_count 4096 ?d = 4096"
    by (simp add: mf_write_count_def mf_dev_0_def mf_reset_def MYFIFO_SIZE_def)
  then have a: "myfifo_write_attempt False (\<lambda>s. (s, 0)) ?bs ?d = Return (Inr 4096) (mf_up (mf_advance_wp ?bs ?d))"
    using myfifo_write_attempt_eq [of ?d "\<lambda>s. (s, 0)" ?bs ?bs 0 False] by (simp add: mf_dev_0_ok MYFIFO_SIZE_def)
  let ?t = "mf_goto 0 (PWake InQueue) (?s\<lparr>ms_dev := mf_up (mf_advance_wp ?bs ?d), ms_in := ?bs\<rparr>)"
  have "mf_step ?s ?t"
    using mf_step.write_done [OF _ user_copy_total, of ?s 0 False ?bs "Inr 4096"] a by (simp add: mf_sys_0_def)
  then have t: "mf_any\<^sup>*\<^sup>* mf_sys_0 ?t" using r mf_then by blast
  have "mf_step ?t (?t\<lparr>ms_pc := (\<lambda>_. PIdle)\<rparr>)"
    using mf_step.wake [of ?t 0 InQueue] by (simp add: mf_sys_0_def mf_wake_all_def fun_upd_def if_distrib cong: if_cong)
  then have "mf_any\<^sup>*\<^sup>* mf_sys_0 (?t\<lparr>ms_pc := (\<lambda>_. PIdle)\<rparr>)" using t mf_then by blast
  then show ?thesis by (intro exI conjI) (auto simp: mf_advance_wp_def mf_dev_0_ok)
qed

lemma mf_asleep_needs_wake:
  assumes "mf_step s t" "ms_pc s i = PAsleep c" "ms_pc t i \<noteq> ms_pc s i"
  shows "\<exists>j q. ms_pc s j = PWake q"
  using assms by (cases rule: mf_step.cases) (auto split: if_splits)

lemma myfifo_clear_loses_wakeup:
  "\<exists>s. mf_any\<^sup>*\<^sup>* mf_sys_0 s \<and> ms_pc s = (\<lambda>_. PIdle)(1 := PAsleep (WriteCall False [1])) \<and>
     mf_size (ms_dev s) = 0 \<and> \<not> mf_can_step s 1"
proof -
  let ?c = "WriteCall False [1]"
  obtain s where s: "mf_any\<^sup>*\<^sup>* mf_sys_0 s" "mf_size (ms_dev s) = 4096" "mf_sem (ms_dev s) = 1" "ms_pc s = (\<lambda>_. PIdle)"
    using mf_full_reachable by blast
  let ?s1 = "mf_goto 1 (PHold ?c) (s\<lparr>ms_dev := mf_down (ms_dev s)\<rparr>)" and ?s2 = "mf_goto 1 (PCheck ?c) s"
  let ?s3 = "mf_goto 1 (PAsleep ?c) s"
  have "mf_any\<^sup>*\<^sup>* mf_sys_0 ?s1" using mf_enter [OF s(1)] s(3,4) by simp
  moreover have "mf_step ?s1 ?s2"
    using mf_step.write_wait [of ?s1 1 False "[1]" "\<lambda>s. (s, 0)" "ms_dev s"] s(2)
    by (simp add: myfifo_write_attempt_def MYFIFO_SIZE_def)
  moreover have "mf_step ?s2 ?s3" using mf_step.check_false [of ?s2 1 ?c] s(2) by (simp add: MYFIFO_SIZE_def)
  ultimately have r3: "mf_any\<^sup>*\<^sup>* mf_sys_0 ?s3" using mf_then by blast
  let ?s4 = "mf_goto 2 (PHold ClearCall) (?s3\<lparr>ms_dev := mf_down (ms_dev s)\<rparr>)"
  have r4: "mf_any\<^sup>*\<^sup>* mf_sys_0 ?s4" using mf_enter [OF r3, of 2 ClearCall] s(3,4) by simp
  let ?s5 = "mf_goto 2 PIdle (?s4\<lparr>ms_dev := mf_up (mf_reset (ms_dev ?s4)), ms_gone := ms_gone ?s4 @ mf_bytes (ms_dev ?s4), ms_cleared := True\<rparr>)"
  have "mf_step ?s4 ?s5" by (rule mf_step.clear_done) simp
  then have "mf_any\<^sup>*\<^sup>* mf_sys_0 ?s5" using r4 mf_then by blast
  moreover have "ms_pc ?s5 = (\<lambda>_. PIdle)(1 := PAsleep ?c)" using s(4) by auto
  moreover have "\<not> mf_can_step ?s5 1"
  proof
    assume "mf_can_step ?s5 1"
    then obtain t where "mf_step ?s5 t" "ms_pc t 1 \<noteq> ms_pc ?s5 1" unfolding mf_can_step_def by blast
    from mf_asleep_needs_wake [OF this(1) _ this(2)] show False using s(4) by (auto split: if_splits)
  qed
  ultimately show ?thesis by (intro exI [of _ ?s5] conjI) (simp_all add: mf_reset_def)
qed

text \<open>Poll reports the device writable exactly when it is not full, but readable only when it is
  neither empty nor full: a full buffer, from which a read returns at once, is not reported
  readable, because the code compares the pointers and not the size.\<close>

theorem myfifo_poll_readable:
  assumes "mf_ok dev" "myfifo_poll False dev = (m, dev')"
  shows "(m AND POLLOUT \<noteq> 0 \<longleftrightarrow> mf_size dev < 4096) \<and>
    (m AND POLLIN \<noteq> 0 \<longleftrightarrow> 0 < mf_size dev \<and> mf_size dev < 4096) \<and> dev' = dev \<and>
    (0 < mf_size dev \<longrightarrow> snd (mf_deq dev 1) \<noteq> [])"
proof -
  have "mf_rp dev \<noteq> mf_wp dev \<longleftrightarrow> 0 < mf_size dev \<and> mf_size dev < 4096"
    using mf_ok_wp [OF assms(1)] assms(1) by (auto simp: mf_ok_def MYFIFO_SIZE_def split: if_splits)
  moreover have "0 < mf_size dev \<longrightarrow> snd (mf_deq dev 1) \<noteq> []"
    using mf_deq_progress [OF assms(1), of 1] by (cases "mf_deq dev 1") auto
  ultimately show ?thesis
    using assms(2)
    by (auto simp: myfifo_poll_def Let_def POLLIN_def POLLOUT_def POLLRDNORM_def POLLWRNORM_def
        MYFIFO_SIZE_def split: if_splits)
qed

theorem myfifo_poll_readable_witness:
  "\<exists>dev. mf_size dev = 4096 \<and> fst (myfifo_poll False dev) AND POLLIN = 0 \<and> snd (mf_deq dev 1) \<noteq> []"
proof -
  let ?dev = "mf_dev_0\<lparr>mf_size := 4096\<rparr>"
  have ok: "mf_ok ?dev"
    by (simp add: mf_dev_0_def mf_ok_def mf_reset_def mf_zeroed_def MYFIFO_SIZE_def)
  obtain m d where m: "myfifo_poll False ?dev = (m, d)" by force
  show ?thesis
    using myfifo_poll_readable [OF ok m] m by (intro exI [of _ ?dev]) auto
qed

text \<open>Module init gives back everything it took whenever it does not set the device up, and exit
  gives back everything after a complete init; but when only \<open>class_create\<close> fails, init has
  freed the device and still returns 0, so the module stays loaded over a null device.\<close>

theorem myfifo_init_balanced:
  assumes "myfifo_init ans k = (r, k')" "mf_major k \<noteq> 0" "mfa_region ans = Inr 0" "mfa_cdev ans = 0"
    "mfa_device ans"
  shows "mset (mf_held (if mf_devp k' = None then k' else myfifo_exit k')) = mset (mf_held k) \<and>
    (mfa_alloc ans \<and> mfa_class ans \<longrightarrow> r = Inr 0 \<and> (\<exists>dev. mf_devp k' = Some dev \<and> mf_ok dev \<and> mf_sem dev = 1)) \<and>
    (mfa_alloc ans \<and> \<not> mfa_class ans \<longrightarrow> r = Inr 0 \<and> mf_devp k' = None) \<and>
    (\<not> mfa_alloc ans \<longrightarrow> r = Inl ENOMEM \<and> mf_devp k' = None)"
  using assms mf_dev_0_ok(1,2)
  by (auto simp: myfifo_init_def mf_fail_malloc_def myfifo_exit_def myfifo_setup_cdev_def mf_get_if_def
      mf_dev_0_def Let_def mf_reset_def split: if_splits)

theorem myfifo_init_balanced_witness:
  "\<exists>k'. myfifo_init \<lparr>mfa_region = Inr 0, mfa_major = 0, mfa_alloc = True, mfa_cdev = 0, mfa_class = False,
       mfa_device = True\<rparr> \<lparr>mf_major = 200, mf_held = [], mf_devp = None\<rparr> = (Inr 0, k') \<and>
     mf_devp k' = None"
proof -
  let ?ans = "\<lparr>mfa_region = Inr 0, mfa_major = 0, mfa_alloc = True, mfa_cdev = 0, mfa_class = False,
       mfa_device = True\<rparr>"
  obtain r k' where e: "myfifo_init ?ans \<lparr>mf_major = 200, mf_held = [], mf_devp = None\<rparr> = (r, k')"
    by force
  from myfifo_init_balanced [OF e] e show ?thesis by simp
qed

end
