(* ===== verification/MinHeap.thy ===== *)
theory MinHeap
  imports Interfaces
begin

text \<open>
  The binary min-heap of \<^verbatim>\<open>math/min_heap.c\<close>. Items live in a store by address and carry their
  own position in the heap; the heap is an array of addresses with a fill count and an
  allocated size. Indices are natural numbers: below 2147483647 elements no index computation
  of the code leaves \<open>unsigned\<close>, and the priority queue contract is stated up to that bound.
\<close>

section \<open>State and operations\<close>

record heap_item =
  hi_value :: int
  hi_idx :: int

record min_heap =
  mh_p :: "nat list"
  mh_n :: nat
  mh_a :: nat
  mh_item :: "nat \<Rightarrow> heap_item"

abbreviation mh_value :: "min_heap \<Rightarrow> nat \<Rightarrow> int" where
  "mh_value s x \<equiv> hi_value (mh_item s x)"

abbreviation mh_set_idx :: "min_heap \<Rightarrow> nat \<Rightarrow> int \<Rightarrow> min_heap" where
  "mh_set_idx s x i \<equiv> s\<lparr>mh_item := (mh_item s)(x := (mh_item s x)\<lparr>hi_idx := i\<rparr>)\<rparr>"

text \<open>\<open>(s->p[i] = x)->min_heap_idx = i\<close>\<close>

definition mh_put :: "min_heap \<Rightarrow> nat \<Rightarrow> nat \<Rightarrow> min_heap" where
  "mh_put s i x = mh_set_idx (s\<lparr>mh_p := (mh_p s)[i := x]\<rparr>) x (int i)"

definition min_heap_elem_greater :: "min_heap \<Rightarrow> nat \<Rightarrow> nat \<Rightarrow> bool" where
  "min_heap_elem_greater s a b \<longleftrightarrow> mh_value s a > mh_value s b"

definition mh_parent :: "nat \<Rightarrow> nat" where
  "mh_parent i = (i - 1) div 2"

definition min_heap_ctor :: "min_heap \<Rightarrow> min_heap" where
  "min_heap_ctor s = s\<lparr>mh_p := [], mh_n := 0, mh_a := 0\<rparr>"

definition min_heap_elem_init :: "min_heap \<Rightarrow> nat \<Rightarrow> min_heap" where
  "min_heap_elem_init s e = mh_set_idx s e (-1)"

definition min_heap_empty :: "min_heap \<Rightarrow> bool" where
  "min_heap_empty s \<longleftrightarrow> 0 = mh_n s"

definition min_heap_size :: "min_heap \<Rightarrow> nat" where
  "min_heap_size s = mh_n s"

definition min_heap_top :: "min_heap \<Rightarrow> nat option" where
  "min_heap_top s = (if mh_n s \<noteq> 0 then Some (mh_p s ! 0) else None)"

definition min_heap_elt_is_top :: "min_heap \<Rightarrow> nat \<Rightarrow> bool" where
  "min_heap_elt_is_top s e \<longleftrightarrow> hi_idx (mh_item s e) = 0"

function min_heap_shift_up :: "min_heap \<Rightarrow> nat \<Rightarrow> nat \<Rightarrow> min_heap" where
  "min_heap_shift_up s hole e =
     (if hole \<noteq> 0 \<and> min_heap_elem_greater s (mh_p s ! mh_parent hole) e
      then min_heap_shift_up (mh_put s hole (mh_p s ! mh_parent hole)) (mh_parent hole) e
      else mh_put s hole e)"
  by pat_completeness auto
termination
  by (relation "measure (\<lambda>(s, hole, e). hole)") (auto simp: mh_parent_def)

text \<open>The body once, then the loop condition: the rest is the loop of \<open>min_heap_shift_up_\<close>.\<close>

definition min_heap_shift_up_unconditional :: "min_heap \<Rightarrow> nat \<Rightarrow> nat \<Rightarrow> min_heap" where
  "min_heap_shift_up_unconditional s hole e =
     min_heap_shift_up (mh_put s hole (mh_p s ! mh_parent hole)) (mh_parent hole) e"

text \<open>The index of the smaller child: the left one when the right one is past the end or larger.\<close>

definition mh_min_child :: "min_heap \<Rightarrow> nat \<Rightarrow> nat" where
  "mh_min_child s hole =
     (let min_child = 2 * (hole + 1) in
      min_child - (if min_child = mh_n s \<or>
        min_heap_elem_greater s (mh_p s ! min_child) (mh_p s ! (min_child - 1)) then 1 else 0))"

function min_heap_shift_down :: "min_heap \<Rightarrow> nat \<Rightarrow> nat \<Rightarrow> min_heap" where
  "min_heap_shift_down s hole e =
     (if 2 * (hole + 1) \<le> mh_n s \<and> min_heap_elem_greater s e (mh_p s ! mh_min_child s hole)
      then min_heap_shift_down (mh_put s hole (mh_p s ! mh_min_child s hole)) (mh_min_child s hole) e
      else mh_put s hole e)"
  by pat_completeness auto
termination
  by (relation "measure (\<lambda>(s, hole, e). mh_n s - hole)")
    (auto simp: mh_put_def mh_min_child_def Let_def)

declare min_heap_shift_up.simps [simp del] min_heap_shift_down.simps [simp del]

text \<open>\<open>realloc\<close>: the grown array, or \<open>None\<close>; it keeps the old entries.\<close>

type_synonym mh_realloc = "nat list \<Rightarrow> nat \<Rightarrow> nat list option"

definition mh_realloc_ok :: "mh_realloc \<Rightarrow> bool" where
  "mh_realloc_ok ra \<longleftrightarrow> (\<forall>p a p'. ra p a = Some p' \<longrightarrow> length p' = a \<and>
     take (min (length p) a) p' = take (min (length p) a) p)"

text \<open>\<open>False\<close> is the return value -1. The doubling is an \<open>unsigned\<close> multiplication.\<close>

definition min_heap_reserve :: "mh_realloc \<Rightarrow> min_heap \<Rightarrow> nat \<Rightarrow> bool \<times> min_heap" where
  "min_heap_reserve ra s n =
     (if mh_a s < n then
        let a = (if mh_a s \<noteq> 0 then mh_a s * 2 mod 2 ^ 32 else 8);
            a = (if a < n then n else a) in
        (case ra (mh_p s) a of
           None \<Rightarrow> (False, s)
         | Some p \<Rightarrow> (True, s\<lparr>mh_p := p, mh_a := a\<rparr>))
      else (True, s))"

definition min_heap_push :: "mh_realloc \<Rightarrow> min_heap \<Rightarrow> nat \<Rightarrow> int \<times> min_heap" where
  "min_heap_push ra s e =
     (let (ok, s) = min_heap_reserve ra s (mh_n s + 1) in
      if \<not> ok then (-1, s)
      else let hole = mh_n s; s = s\<lparr>mh_n := mh_n s + 1\<rparr> in (0, min_heap_shift_up s hole e))"

definition min_heap_pop :: "min_heap \<Rightarrow> min_heap \<times> nat option" where
  "min_heap_pop s =
     (if mh_n s \<noteq> 0 then
        let e = mh_p s ! 0;
            s = s\<lparr>mh_n := mh_n s - 1\<rparr>;
            s = min_heap_shift_down s 0 (mh_p s ! mh_n s)
        in (mh_set_idx s e (-1), Some e)
      else (s, None))"

definition min_heap_erase :: "min_heap \<Rightarrow> nat \<Rightarrow> int \<times> min_heap" where
  "min_heap_erase s e =
     (if hi_idx (mh_item s e) \<noteq> -1 then
        let s = s\<lparr>mh_n := mh_n s - 1\<rparr>;
            last = mh_p s ! mh_n s;
            idx = nat (hi_idx (mh_item s e));
            s = (if hi_idx (mh_item s e) > 0 \<and> min_heap_elem_greater s (mh_p s ! mh_parent idx) last
                 then min_heap_shift_up_unconditional s idx last
                 else min_heap_shift_down s idx last)
        in (0, mh_set_idx s e (-1))
      else (-1, s))"

definition min_heap_adjust :: "mh_realloc \<Rightarrow> min_heap \<Rightarrow> nat \<Rightarrow> int \<times> min_heap" where
  "min_heap_adjust ra s e =
     (if hi_idx (mh_item s e) = -1 then min_heap_push ra s e
      else let idx = nat (hi_idx (mh_item s e)) in
        if hi_idx (mh_item s e) > 0 \<and> min_heap_elem_greater s (mh_p s ! mh_parent idx) e
        then (0, min_heap_shift_up_unconditional s idx e)
        else (0, min_heap_shift_down s idx e))"

section \<open>Order on the filled array\<close>

text \<open>
  The loops keep a hole; the array they stand for is the one with \<open>e\<close> in the hole. Going up,
  only the edge above the hole may be wrong; going down, only the edges below it; in both
  cases the parent of the hole is below the children of the hole.
\<close>

definition mh_ord :: "(nat \<Rightarrow> int) \<Rightarrow> nat list \<Rightarrow> nat \<Rightarrow> bool" where
  "mh_ord v q n \<longleftrightarrow> (\<forall>i. 0 < i \<and> i < n \<longrightarrow> v (q ! mh_parent i) \<le> v (q ! i))"

definition mh_bridge :: "(nat \<Rightarrow> int) \<Rightarrow> nat list \<Rightarrow> nat \<Rightarrow> nat \<Rightarrow> bool" where
  "mh_bridge v q n h \<longleftrightarrow>
     (\<forall>i. 0 < h \<and> 0 < i \<and> i < n \<and> mh_parent i = h \<longrightarrow> v (q ! mh_parent h) \<le> v (q ! i))"

definition mh_up_ord :: "(nat \<Rightarrow> int) \<Rightarrow> nat list \<Rightarrow> nat \<Rightarrow> nat \<Rightarrow> bool" where
  "mh_up_ord v q n h \<longleftrightarrow>
     (\<forall>i. 0 < i \<and> i < n \<and> i \<noteq> h \<longrightarrow> v (q ! mh_parent i) \<le> v (q ! i)) \<and> mh_bridge v q n h"

definition mh_down_ord :: "(nat \<Rightarrow> int) \<Rightarrow> nat list \<Rightarrow> nat \<Rightarrow> nat \<Rightarrow> bool" where
  "mh_down_ord v q n h \<longleftrightarrow>
     (\<forall>i. 0 < i \<and> i < n \<and> mh_parent i \<noteq> h \<longrightarrow> v (q ! mh_parent i) \<le> v (q ! i)) \<and> mh_bridge v q n h"

definition mh_swap :: "'a list \<Rightarrow> nat \<Rightarrow> nat \<Rightarrow> 'a list" where
  "mh_swap q i j = q[i := q ! j, j := q ! i]"

lemma mh_parent_less: "0 < i \<Longrightarrow> mh_parent i < i"
  by (simp add: mh_parent_def)

lemma mh_parent_iff: "0 < i \<Longrightarrow> mh_parent i = h \<longleftrightarrow> i = 2 * h + 1 \<or> i = 2 * h + 2"
  unfolding mh_parent_def by presburger

lemma mh_swap_nth:
  "i < length q \<Longrightarrow> j < length q \<Longrightarrow> mh_swap q i j ! k = (if k = j then q ! i else if k = i then q ! j else q ! k)"
  by (auto simp: mh_swap_def nth_list_update)

lemma mh_up_ord_step:
  assumes "mh_up_ord v q n h" "0 < h" "h < n" "n \<le> length q" "v (q ! h) < v (q ! mh_parent h)"
  shows "mh_up_ord v (mh_swap q h (mh_parent h)) n (mh_parent h)"
proof -
  let ?p = "mh_parent h"
  have lt: "?p < h" "h < length q" "?p < length q" using mh_parent_less [of h] assms by auto
  note nth = mh_swap_nth [OF lt(2,3)]
  have edge: "v (q ! mh_parent i) \<le> v (q ! i)" if "0 < i" "i < n" "i \<noteq> h" for i
    using assms(1) that by (simp add: mh_up_ord_def)
  have bridge: "v (q ! ?p) \<le> v (q ! i)" if "0 < i" "i < n" "mh_parent i = h" for i
    using assms(1,2) that by (simp add: mh_up_ord_def mh_bridge_def)
  have "v (mh_swap q h ?p ! mh_parent i) \<le> v (mh_swap q h ?p ! i)"
    if i: "0 < i" "i < n" "i \<noteq> ?p" for i
    using edge [OF i(1,2)] bridge [OF i(1,2)] assms(5) i lt(1) by (auto simp: nth)
  moreover have "v (mh_swap q h ?p ! mh_parent ?p) \<le> v (mh_swap q h ?p ! i)"
    if i: "0 < ?p" "0 < i" "i < n" "mh_parent i = ?p" for i
  proof -
    have up: "v (q ! mh_parent ?p) \<le> v (q ! ?p)" using edge [of ?p] i lt assms(3) by simp
    have "mh_parent ?p < ?p" using mh_parent_less [OF i(1)] .
    then show ?thesis using up edge [OF i(2,3)] i lt(1) mh_parent_less [OF i(2)] by (auto simp: nth)
  qed
  ultimately show ?thesis by (simp add: mh_up_ord_def mh_bridge_def)
qed

lemma mh_up_ord_exit:
  "mh_up_ord v q n h \<Longrightarrow> h = 0 \<or> v (q ! mh_parent h) \<le> v (q ! h) \<Longrightarrow> mh_ord v q n"
  by (auto simp: mh_up_ord_def mh_ord_def)

lemma mh_down_ord_step:
  assumes "mh_down_ord v q n h" "0 < c" "c < n" "n \<le> length q" "mh_parent c = h" "v (q ! c) < v (q ! h)"
    and "\<And>i. 0 < i \<Longrightarrow> i < n \<Longrightarrow> mh_parent i = h \<Longrightarrow> v (q ! c) \<le> v (q ! i)"
  shows "mh_down_ord v (mh_swap q h c) n c"
proof -
  have lt: "h < c" "h < length q" "c < length q" using mh_parent_less [of c] assms by auto
  note nth = mh_swap_nth [OF lt(2,3)]
  have edge: "v (q ! mh_parent i) \<le> v (q ! i)" if "0 < i" "i < n" "mh_parent i \<noteq> h" for i
    using assms(1) that by (simp add: mh_down_ord_def)
  have bridge: "v (q ! mh_parent h) \<le> v (q ! i)" if "0 < h" "0 < i" "i < n" "mh_parent i = h" for i
    using assms(1) that by (simp add: mh_down_ord_def mh_bridge_def)
  have "v (mh_swap q h c ! mh_parent i) \<le> v (mh_swap q h c ! i)"
    if i: "0 < i" "i < n" "mh_parent i \<noteq> c" for i
  proof (cases "i = h")
    case True
    then have "v (q ! mh_parent h) \<le> v (q ! c)" "mh_parent h \<noteq> h"
      using bridge [of c] assms(2,3,5) i mh_parent_less [OF i(1)] by auto
    then show ?thesis using True lt i(3) by (simp add: nth)
  next
    case False
    then show ?thesis
      using edge [OF i(1,2)] assms(7) [OF i(1,2)] assms(5,6) i lt(1) by (auto simp: nth)
  qed
  moreover have "v (mh_swap q h c ! mh_parent c) \<le> v (mh_swap q h c ! i)"
    if i: "0 < i" "i < n" "mh_parent i = c" for i
    using edge [OF i(1,2)] i lt assms(5) mh_parent_less [OF i(1)] by (auto simp: nth)
  ultimately show ?thesis by (simp add: mh_down_ord_def mh_bridge_def)
qed

lemma mh_down_ord_exit:
  "mh_down_ord v q n h \<Longrightarrow> (\<And>i. 0 < i \<Longrightarrow> i < n \<Longrightarrow> mh_parent i = h \<Longrightarrow> v (q ! h) \<le> v (q ! i)) \<Longrightarrow>
    mh_ord v q n"
  unfolding mh_down_ord_def mh_ord_def by metis

section \<open>The loops\<close>

text \<open>Every position but the hole is indexed, and \<open>e\<close> is not in the array outside the hole.\<close>

definition mh_hole_ok :: "min_heap \<Rightarrow> nat \<Rightarrow> nat \<Rightarrow> bool" where
  "mh_hole_ok s h e \<longleftrightarrow> h < mh_n s \<and> mh_n s \<le> length (mh_p s) \<and>
     (\<forall>i. i < mh_n s \<and> i \<noteq> h \<longrightarrow> hi_idx (mh_item s (mh_p s ! i)) = int i \<and> mh_p s ! i \<noteq> e)"

text \<open>\<open>t\<close> is an indexed, ordered heap over the elements of \<open>q\<close>; other items are as in \<open>s\<close>.\<close>

definition mh_settled :: "min_heap \<Rightarrow> nat list \<Rightarrow> min_heap \<Rightarrow> bool" where
  "mh_settled s q t \<longleftrightarrow> mh_n t = mh_n s \<and> mh_a t = mh_a s \<and> length (mh_p t) = length q \<and>
     mh_value t = mh_value s \<and>
     (\<forall>i < mh_n s. hi_idx (mh_item t (mh_p t ! i)) = int i) \<and>
     mset (take (mh_n s) (mh_p t)) = mset (take (mh_n s) q) \<and>
     mh_ord (mh_value s) (mh_p t) (mh_n s) \<and>
     (\<forall>x. x \<notin> set (take (mh_n s) q) \<longrightarrow> mh_item t x = mh_item s x)"

lemma mh_put_simps [simp]:
  "mh_p (mh_put s i x) = (mh_p s)[i := x]" "mh_n (mh_put s i x) = mh_n s"
  "mh_a (mh_put s i x) = mh_a s" "mh_value (mh_put s i x) = mh_value s"
  "mh_item (mh_put s i x) y = (if y = x then (mh_item s x)\<lparr>hi_idx := int i\<rparr> else mh_item s y)"
  by (auto simp: mh_put_def fun_eq_iff)

lemma mh_value_upd [simp]:
  "hi_value (if x = y then (mh_item s y)\<lparr>hi_idx := i\<rparr> else mh_item s x) = mh_value s x"
  by simp

lemma mh_swap_take:
  assumes "i < n" "j < n" "n \<le> length q"
  shows "mset (take n (mh_swap q i j)) = mset (take n q)"
proof -
  have "take n (mh_swap q i j) = (take n q)[i := take n q ! j, j := take n q ! i]"
    using assms by (simp add: mh_swap_def take_update_swap)
  then show ?thesis using assms mset_swap [of j "take n q" i] by simp
qed

lemma mh_fill_step:
  "c \<noteq> h \<Longrightarrow> h < length p \<Longrightarrow> c < length p \<Longrightarrow> p[h := p ! c, c := e] = mh_swap (p[h := e]) h c"
  by (auto simp: mh_swap_def)

lemma mh_hole_step:
  assumes "mh_hole_ok s h e" "c < mh_n s" "c \<noteq> h"
  shows "mh_hole_ok (mh_put s h (mh_p s ! c)) c e"
proof -
  have ok: "h < mh_n s" "mh_n s \<le> length (mh_p s)"
    "\<And>i. i < mh_n s \<Longrightarrow> i \<noteq> h \<Longrightarrow> hi_idx (mh_item s (mh_p s ! i)) = int i \<and> mh_p s ! i \<noteq> e"
    using assms(1) by (auto simp: mh_hole_ok_def)
  have "mh_p s ! i \<noteq> mh_p s ! c" if "i < mh_n s" "i \<noteq> h" "i \<noteq> c" for i
    using ok(3) [OF that(1,2)] ok(3) [OF assms(2,3)] that(3) by auto
  then show ?thesis using ok ok(3) [OF assms(2,3)] assms(2) by (auto simp: mh_hole_ok_def nth_list_update)
qed

lemma mh_settled_step:
  assumes "mh_hole_ok s h e" "c < mh_n s" "c \<noteq> h"
    "mh_settled (mh_put s h (mh_p s ! c)) ((mh_p (mh_put s h (mh_p s ! c)))[c := e]) t"
  shows "mh_settled s ((mh_p s)[h := e]) t"
proof -
  let ?n = "mh_n s" and ?q = "(mh_p s)[h := e]"
  have ok: "h < ?n" "?n \<le> length (mh_p s)" using assms(1) by (auto simp: mh_hole_ok_def)
  have q: "(mh_p (mh_put s h (mh_p s ! c)))[c := e] = mh_swap ?q h c"
    using mh_fill_step [of c h "mh_p s" e] ok assms(2,3) by simp
  have m: "mset (take ?n (mh_swap ?q h c)) = mset (take ?n ?q)"
    using ok assms(2) by (intro mh_swap_take) auto
  then have st: "set (take ?n (mh_swap ?q h c)) = set (take ?n ?q)" by (rule mset_eq_setD)
  have "mh_p s ! c = take ?n ?q ! c" "c < length (take ?n ?q)" using ok assms(2,3) by auto
  then have c: "mh_p s ! c \<in> set (take ?n ?q)" by (metis nth_mem)
  have "length (mh_swap ?q h c) = length ?q" by (simp add: mh_swap_def)
  then show ?thesis
    using assms(4) m st c unfolding mh_settled_def q by auto
qed

lemma mh_settled_exit:
  assumes "mh_hole_ok s h e" "mh_ord (mh_value s) ((mh_p s)[h := e]) (mh_n s)"
  shows "mh_settled s ((mh_p s)[h := e]) (mh_put s h e)"
proof -
  have ok: "h < mh_n s" "mh_n s \<le> length (mh_p s)"
    "\<And>i. i < mh_n s \<Longrightarrow> i \<noteq> h \<Longrightarrow> hi_idx (mh_item s (mh_p s ! i)) = int i \<and> mh_p s ! i \<noteq> e"
    using assms(1) by (auto simp: mh_hole_ok_def)
  have "e = take (mh_n s) ((mh_p s)[h := e]) ! h" "h < length (take (mh_n s) ((mh_p s)[h := e]))"
    using ok by auto
  then have "e \<in> set (take (mh_n s) ((mh_p s)[h := e]))" by (metis nth_mem)
  then show ?thesis using ok assms(2) by (auto simp: mh_settled_def nth_list_update)
qed

lemma min_heap_shift_up_settles:
  "mh_hole_ok s h e \<Longrightarrow> mh_up_ord (mh_value s) ((mh_p s)[h := e]) (mh_n s) h \<Longrightarrow>
    mh_settled s ((mh_p s)[h := e]) (min_heap_shift_up s h e)"
proof (induction s h e rule: min_heap_shift_up.induct)
  case (1 s h e)
  let ?c = "mh_parent h" and ?q = "(mh_p s)[h := e]"
  have ok: "h < mh_n s" "mh_n s \<le> length (mh_p s)" using "1.prems"(1) by (auto simp: mh_hole_ok_def)
  show ?case
  proof (cases "h \<noteq> 0 \<and> min_heap_elem_greater s (mh_p s ! ?c) e")
    case True
    then have c: "?c < h" using mh_parent_less by simp
    have "mh_value s (?q ! h) < mh_value s (?q ! ?c)"
      using True c ok by (simp add: min_heap_elem_greater_def)
    then have "mh_up_ord (mh_value s) (mh_swap ?q h ?c) (mh_n s) ?c"
      using mh_up_ord_step [OF "1.prems"(2)] True ok by simp
    moreover have "mh_swap ?q h ?c = (mh_p (mh_put s h (mh_p s ! ?c)))[?c := e]"
      using mh_fill_step [of ?c h "mh_p s" e] c ok by simp
    ultimately have "mh_settled (mh_put s h (mh_p s ! ?c)) ((mh_p (mh_put s h (mh_p s ! ?c)))[?c := e])
        (min_heap_shift_up (mh_put s h (mh_p s ! ?c)) ?c e)"
      using mh_hole_step [OF "1.prems"(1), of ?c] c ok by (intro "1.IH" [OF True]) simp_all
    then show ?thesis
      using True mh_settled_step [OF "1.prems"(1), of ?c] c ok
      by (subst min_heap_shift_up.simps) simp
  next
    case False
    then have "h = 0 \<or> mh_value s (?q ! ?c) \<le> mh_value s (?q ! h)"
      using mh_parent_less [of h] ok by (cases "h = 0") (simp_all add: min_heap_elem_greater_def)
    then have "mh_ord (mh_value s) ?q (mh_n s)" by (rule mh_up_ord_exit [OF "1.prems"(2)])
    then show ?thesis
      using False mh_settled_exit [OF "1.prems"(1)] by (subst min_heap_shift_up.simps) auto
  qed
qed

lemma mh_min_child_props:
  assumes "2 * (h + 1) \<le> mh_n s"
  shows "h < mh_min_child s h" "mh_min_child s h < mh_n s" "mh_parent (mh_min_child s h) = h"
    "0 < i \<Longrightarrow> i < mh_n s \<Longrightarrow> mh_parent i = h \<Longrightarrow>
      mh_value s (mh_p s ! mh_min_child s h) \<le> mh_value s (mh_p s ! i)"
  using assms mh_parent_iff [of i h] mh_parent_iff [of "mh_min_child s h" h]
  by (auto simp: mh_min_child_def Let_def min_heap_elem_greater_def)

lemma min_heap_shift_down_settles:
  "mh_hole_ok s h e \<Longrightarrow> mh_down_ord (mh_value s) ((mh_p s)[h := e]) (mh_n s) h \<Longrightarrow>
    mh_settled s ((mh_p s)[h := e]) (min_heap_shift_down s h e)"
proof (induction s h e rule: min_heap_shift_down.induct)
  case (1 s h e)
  let ?c = "mh_min_child s h" and ?q = "(mh_p s)[h := e]"
  have ok: "h < mh_n s" "mh_n s \<le> length (mh_p s)" using "1.prems"(1) by (auto simp: mh_hole_ok_def)
  show ?case
  proof (cases "2 * (h + 1) \<le> mh_n s \<and> min_heap_elem_greater s e (mh_p s ! ?c)")
    case True
    note c = mh_min_child_props [OF conjunct1 [OF True]]
    have "mh_value s (?q ! ?c) < mh_value s (?q ! h)"
      using True c(1) ok by (simp add: min_heap_elem_greater_def)
    moreover have "mh_value s (?q ! ?c) \<le> mh_value s (?q ! i)"
      if "0 < i" "i < mh_n s" "mh_parent i = h" for i
      using c(4) [OF that] c(1) that mh_parent_less [of i] by simp
    ultimately have "mh_down_ord (mh_value s) (mh_swap ?q h ?c) (mh_n s) ?c"
      using mh_down_ord_step [OF "1.prems"(2), of ?c] c(1,2,3) ok by simp
    moreover have "mh_swap ?q h ?c = (mh_p (mh_put s h (mh_p s ! ?c)))[?c := e]"
      using mh_fill_step [of ?c h "mh_p s" e] c(1,2) ok by simp
    ultimately have "mh_settled (mh_put s h (mh_p s ! ?c)) ((mh_p (mh_put s h (mh_p s ! ?c)))[?c := e])
        (min_heap_shift_down (mh_put s h (mh_p s ! ?c)) ?c e)"
      using mh_hole_step [OF "1.prems"(1), of ?c] c(1,2) by (intro "1.IH" [OF True]) simp_all
    then show ?thesis
      using True mh_settled_step [OF "1.prems"(1), of ?c] c(1,2)
      by (subst min_heap_shift_down.simps) simp
  next
    case False
    have "mh_value s (?q ! h) \<le> mh_value s (?q ! i)"
      if i: "0 < i" "i < mh_n s" "mh_parent i = h" for i
    proof (cases "2 * (h + 1) \<le> mh_n s")
      case True
      then show ?thesis
        using False mh_min_child_props(4) [OF True i] ok mh_parent_less [of i] i
        by (simp add: min_heap_elem_greater_def)
    next
      case c: False
      then have "i = 2 * h + 1" "mh_n s = 2 * h + 2" using i mh_parent_iff [of i h] by auto
      then show ?thesis using c by simp
    qed
    then have "mh_ord (mh_value s) ?q (mh_n s)" by (rule mh_down_ord_exit [OF "1.prems"(2)])
    then show ?thesis
      using False mh_settled_exit [OF "1.prems"(1)] by (subst min_heap_shift_down.simps) auto
  qed
qed

text \<open>
  Erase and adjust choose between the two loops. Either way the result is a heap, provided the
  edges away from the hole and the bridge over it are in order.
\<close>

definition mh_almost :: "(nat \<Rightarrow> int) \<Rightarrow> nat list \<Rightarrow> nat \<Rightarrow> nat \<Rightarrow> bool" where
  "mh_almost v q n h \<longleftrightarrow>
     (\<forall>i. 0 < i \<and> i < n \<and> i \<noteq> h \<and> mh_parent i \<noteq> h \<longrightarrow> v (q ! mh_parent i) \<le> v (q ! i)) \<and>
     mh_bridge v q n h"

lemma mh_almost_up:
  assumes "mh_almost v q n h" "0 < h" "v (q ! h) < v (q ! mh_parent h)"
  shows "mh_up_ord v q n h"
proof -
  have "v (q ! mh_parent i) \<le> v (q ! i)" if "0 < i" "i < n" "i \<noteq> h" for i
    using assms that unfolding mh_almost_def mh_bridge_def by (cases "mh_parent i = h") force+
  then show ?thesis using assms(1) by (simp add: mh_up_ord_def mh_almost_def)
qed

lemma mh_almost_down:
  assumes "mh_almost v q n h" "h = 0 \<or> v (q ! mh_parent h) \<le> v (q ! h)"
  shows "mh_down_ord v q n h"
  using assms unfolding mh_almost_def mh_down_ord_def by auto

lemma mh_shift_settles:
  assumes "mh_hole_ok s h e" "mh_almost (mh_value s) ((mh_p s)[h := e]) (mh_n s) h"
  shows "mh_settled s ((mh_p s)[h := e])
    (if 0 < h \<and> min_heap_elem_greater s (mh_p s ! mh_parent h) e
     then min_heap_shift_up_unconditional s h e else min_heap_shift_down s h e)"
proof -
  let ?q = "(mh_p s)[h := e]"
  have ok: "h < length (mh_p s)" using assms(1) by (auto simp: mh_hole_ok_def)
  show ?thesis
  proof (cases "0 < h \<and> min_heap_elem_greater s (mh_p s ! mh_parent h) e")
    case True
    then have "min_heap_shift_up_unconditional s h e = min_heap_shift_up s h e"
      by (simp add: min_heap_shift_up_unconditional_def min_heap_shift_up.simps [of s h e])
    moreover have "mh_value s (?q ! h) < mh_value s (?q ! mh_parent h)"
      using True ok mh_parent_less [of h] by (simp add: min_heap_elem_greater_def)
    then have "mh_up_ord (mh_value s) ?q (mh_n s) h"
      using mh_almost_up [OF assms(2)] True by simp
    ultimately show ?thesis
      using True min_heap_shift_up_settles [OF assms(1)] by simp
  next
    case False
    then have "h = 0 \<or> mh_value s (?q ! mh_parent h) \<le> mh_value s (?q ! h)"
      using ok mh_parent_less [of h] by (cases "h = 0") (simp_all add: min_heap_elem_greater_def)
    then have "mh_down_ord (mh_value s) ?q (mh_n s) h" by (rule mh_almost_down [OF assms(2)])
    then show ?thesis using False min_heap_shift_down_settles [OF assms(1)] by auto
  qed
qed

section \<open>The heap invariant\<close>

definition mh_items :: "min_heap \<Rightarrow> nat multiset" where
  "mh_items s = mset (take (mh_n s) (mh_p s))"

definition mh_indexed :: "min_heap \<Rightarrow> bool" where
  "mh_indexed s \<longleftrightarrow> mh_n s \<le> mh_a s \<and> length (mh_p s) = mh_a s \<and>
     (\<forall>i < mh_n s. hi_idx (mh_item s (mh_p s ! i)) = int i) \<and>
     (\<forall>x. x \<notin># mh_items s \<longrightarrow> hi_idx (mh_item s x) = -1)"

definition mh_ok :: "min_heap \<Rightarrow> bool" where
  "mh_ok s \<longleftrightarrow> mh_indexed s \<and> mh_ord (mh_value s) (mh_p s) (mh_n s)"

lemma mh_indexedD:
  assumes "mh_indexed s"
  shows "mh_n s \<le> length (mh_p s)" "i < mh_n s \<Longrightarrow> hi_idx (mh_item s (mh_p s ! i)) = int i"
    "x \<notin># mh_items s \<Longrightarrow> hi_idx (mh_item s x) = -1"
    "x \<in># mh_items s \<Longrightarrow> \<exists>i < mh_n s. x = mh_p s ! i"
  using assms by (auto simp: mh_indexed_def mh_items_def in_set_conv_nth)

lemma mh_in_items: "mh_indexed s \<Longrightarrow> i < mh_n s \<Longrightarrow> mh_p s ! i \<in># mh_items s"
  using mh_indexedD(1) [of s] by (auto simp: mh_items_def in_set_conv_nth intro!: exI [of _ i])

lemma mh_inj:
  "mh_indexed s \<Longrightarrow> i < mh_n s \<Longrightarrow> j < mh_n s \<Longrightarrow> mh_p s ! i = mh_p s ! j \<longleftrightarrow> i = j"
  using mh_indexedD(2) [of s] by (metis of_nat_eq_iff)

text \<open>The stored index of an item in the heap is its position; others have -1.\<close>

lemma mh_idx_iff:
  assumes "mh_indexed s"
  shows "hi_idx (mh_item s e) \<noteq> -1 \<longleftrightarrow> e \<in># mh_items s"
    "e \<in># mh_items s \<Longrightarrow> \<exists>h. h < mh_n s \<and> mh_p s ! h = e \<and> hi_idx (mh_item s e) = int h"
  using mh_indexedD [OF assms] by (metis int_ops(6) of_nat_neq_0 of_nat_0_le_iff neg_0_le_iff_le
      not_one_le_zero) (use mh_indexedD [OF assms] in metis)

lemma mh_top_le:
  assumes "mh_ok s" "i < mh_n s"
  shows "mh_value s (mh_p s ! 0) \<le> mh_value s (mh_p s ! i)"
  using assms(2)
proof (induction i rule: less_induct)
  case (less i)
  show ?case
  proof (cases "i = 0")
    case False
    then have "mh_value s (mh_p s ! mh_parent i) \<le> mh_value s (mh_p s ! i)"
      using assms(1) less.prems by (simp add: mh_ok_def mh_ord_def)
    then show ?thesis
      using less.IH [of "mh_parent i"] mh_parent_less [of i] False less.prems by simp
  qed simp
qed

lemma mh_settled_ok:
  assumes "mh_settled s q t" "mh_n s \<le> mh_a s" "length q = mh_a s"
    "\<And>x. x \<notin> set (take (mh_n s) q) \<Longrightarrow> hi_idx (mh_item s x) = -1"
  shows "mh_ok t" "mh_items t = mset (take (mh_n s) q)"
proof -
  have m: "mh_items t = mset (take (mh_n s) q)"
    using assms(1) by (simp add: mh_settled_def mh_items_def)
  show "mh_items t = mset (take (mh_n s) q)" by (fact m)
  show "mh_ok t"
    using assms unfolding mh_ok_def mh_indexed_def m by (simp add: mh_settled_def)
qed

section \<open>The operations keep the invariant\<close>

lemma min_heap_reserve_props:
  assumes "mh_realloc_ok ra" "mh_ok s" "min_heap_reserve ra s m = (True, t)"
  shows "mh_ok t" "mh_n t = mh_n s" "mh_item t = mh_item s" "mh_items t = mh_items s" "m \<le> mh_a t"
    "\<And>i. i < mh_n s \<Longrightarrow> mh_p t ! i = mh_p s ! i"
proof -
  have ix: "mh_n s \<le> mh_a s" "length (mh_p s) = mh_a s"
    using assms(2) by (auto simp: mh_ok_def mh_indexed_def)
  have "mh_n t = mh_n s \<and> mh_item t = mh_item s \<and> m \<le> mh_a t \<and> mh_n t \<le> mh_a t \<and>
      length (mh_p t) = mh_a t \<and> take (mh_n s) (mh_p t) = take (mh_n s) (mh_p s)"
  proof (cases "mh_a s < m")
    case True
    define a where "a = (if mh_a s \<noteq> 0 then mh_a s * 2 mod 2 ^ 32 else 8)"
    define a' where "a' = (if a < m then m else a)"
    have "min_heap_reserve ra s m = (case ra (mh_p s) a' of None \<Rightarrow> (False, s)
        | Some p \<Rightarrow> (True, s\<lparr>mh_p := p, mh_a := a'\<rparr>))"
      using True unfolding min_heap_reserve_def a_def a'_def Let_def by simp
    then obtain p' where p': "m \<le> a'" "ra (mh_p s) a' = Some p'" "t = s\<lparr>mh_p := p', mh_a := a'\<rparr>"
      using assms(3) by (auto simp: a'_def split: option.splits)
    then have "length p' = a'" "take (min (mh_a s) a') p' = take (min (mh_a s) a') (mh_p s)"
      using assms(1) [unfolded mh_realloc_ok_def, rule_format, OF p'(2)] ix by simp_all
    then have "length p' = a'" "take (mh_n s) p' = take (mh_n s) (mh_p s)"
      using True ix p'(1) by (auto simp: min_def) (metis min.absorb1 take_take)
    then show ?thesis using p' True ix by simp
  next
    case False
    then show ?thesis using assms(3) ix by (auto simp: min_heap_reserve_def)
  qed
  then have t: "mh_n t = mh_n s" "mh_item t = mh_item s" "m \<le> mh_a t" "mh_n t \<le> mh_a t"
    "length (mh_p t) = mh_a t" "take (mh_n s) (mh_p t) = take (mh_n s) (mh_p s)" by auto
  show nth: "mh_p t ! i = mh_p s ! i" if "i < mh_n s" for i
    using t(6) that by (metis nth_take)
  show it: "mh_items t = mh_items s" using t by (simp add: mh_items_def)
  have "mh_indexed t"
    using assms(2) t nth it by (simp add: mh_ok_def mh_indexed_def)
  moreover have "mh_ord (mh_value t) (mh_p t) (mh_n t)"
    using assms(2) t nth mh_parent_less unfolding mh_ok_def mh_ord_def
    by (metis (no_types, lifting) less_trans)
  ultimately show "mh_ok t" by (simp add: mh_ok_def)
qed (use assms in \<open>auto simp: min_heap_reserve_def Let_def split: option.splits if_splits\<close>)

text \<open>A refused reservation changes nothing.\<close>

lemma min_heap_reserve_fail: "min_heap_reserve ra s m = (False, t) \<Longrightarrow> t = s"
  by (auto simp: min_heap_reserve_def Let_def split: option.splits if_splits)

lemma min_heap_push_ok:
  assumes "mh_realloc_ok ra" "mh_ok s" "e \<notin># mh_items s" "min_heap_push ra s e = (0, t)"
  shows "mh_ok t" "mh_items t = add_mset e (mh_items s)" "mh_value t = mh_value s"
proof -
  obtain r where r: "min_heap_reserve ra s (mh_n s + 1) = (True, r)"
    using assms(4) by (auto simp: min_heap_push_def Let_def split: prod.splits if_splits)
  note rp = min_heap_reserve_props [OF assms(1,2) r]
  let ?r = "r\<lparr>mh_n := mh_n s + 1\<rparr>" and ?n = "mh_n s" and ?q = "(mh_p r)[mh_n s := e]"
  have t: "t = min_heap_shift_up ?r ?n e"
    using assms(4) r rp(2) by (simp add: min_heap_push_def Let_def)
  have ir: "mh_indexed r" using rp(1) by (simp add: mh_ok_def)
  have len: "length (mh_p r) = mh_a r" using ir by (simp add: mh_indexed_def)
  have e: "e \<notin># mh_items r" using assms(3) rp(4) by simp
  have h: "mh_hole_ok ?r ?n e"
    unfolding mh_hole_ok_def
  proof (intro conjI allI impI)
    fix i assume "i < mh_n ?r \<and> i \<noteq> ?n"
    then have i: "i < mh_n r" using rp(2) by auto
    then show "hi_idx (mh_item ?r (mh_p ?r ! i)) = int i" using mh_indexedD(2) [OF ir i] by simp
    show "mh_p ?r ! i \<noteq> e" using mh_in_items [OF ir i] e by auto
  qed (use rp(5) len in simp_all)
  have "mh_up_ord (mh_value r) ?q (?n + 1) ?n"
    unfolding mh_up_ord_def mh_bridge_def
  proof (intro conjI allI impI)
    fix i assume i: "0 < i \<and> i < ?n + 1 \<and> i \<noteq> ?n"
    then have "mh_parent i < i" "mh_value r (mh_p r ! mh_parent i) \<le> mh_value r (mh_p r ! i)"
      using rp(1,2) mh_parent_less [of i] by (simp_all add: mh_ok_def mh_ord_def)
    then show "mh_value r (?q ! mh_parent i) \<le> mh_value r (?q ! i)" using i by simp
  next
    fix i assume i: "0 < ?n \<and> 0 < i \<and> i < ?n + 1 \<and> mh_parent i = ?n"
    then show "mh_value r (?q ! mh_parent ?n) \<le> mh_value r (?q ! i)" using mh_parent_less [of i] by simp
  qed
  then have st: "mh_settled ?r ?q t"
    using min_heap_shift_up_settles [OF h] t by simp
  have "take (?n + 1) ?q = take ?n (mh_p r) @ [e]"
    using rp(5) len by (simp add: take_Suc_conv_app_nth)
  then have q: "mset (take (?n + 1) ?q) = add_mset e (mh_items r)"
    "set (take (?n + 1) ?q) = insert e (set_mset (mh_items r))"
    using rp(2) by (auto simp: mh_items_def)
  have "hi_idx (mh_item r x) = -1" if "x \<notin> set (take (?n + 1) ?q)" for x
    using mh_indexedD(3) [OF ir, of x] that q(2) by simp
  then show "mh_ok t" "mh_items t = add_mset e (mh_items s)"
    using mh_settled_ok [OF st] q(1) rp(4,5) len by simp_all
  show "mh_value t = mh_value s" using st rp(3) by (simp add: mh_settled_def)
qed

lemma mh_remove_mset:
  assumes "h < n" "n \<le> length p"
  shows "mset (take n p) = add_mset (p ! h) (mset (take (n - 1) (p[h := p ! (n - 1)])))"
proof -
  have n: "take n p = take (n - 1) p @ [p ! (n - 1)]"
    using assms take_Suc_conv_app_nth [of "n - 1" p] by simp
  show ?thesis
  proof (cases "h = n - 1")
    case False
    then have "h < length (take (n - 1) p)" using assms by simp
    then have "mset ((take (n - 1) p)[h := p ! (n - 1)]) =
        add_mset (p ! (n - 1)) (mset (take (n - 1) p) - {#take (n - 1) p ! h#})"
      by (rule mset_update)
    moreover have "p ! h \<in># mset (take (n - 1) p)"
      using \<open>h < length (take (n - 1) p)\<close> by (metis in_multiset_in_set nth_mem nth_take length_take min_less_iff_conj)
    ultimately show ?thesis
      using n \<open>h < length (take (n - 1) p)\<close> by (simp add: take_update_swap)
  qed (use n in simp)
qed

text \<open>The edges that stay in order when position \<open>h\<close> is overwritten.\<close>

lemma mh_almost_overwrite:
  assumes "mh_ord v p n" "m \<le> n" "h < m" "m \<le> length p"
  shows "mh_almost v (p[h := e]) m h"
proof -
  have edge: "v (p ! mh_parent i) \<le> v (p ! i)" if "0 < i" "i < m" for i
    using assms(1,2) that by (simp add: mh_ord_def)
  have "v (p ! mh_parent h) \<le> v (p ! i)" if "0 < h" "0 < i" "i < m" "mh_parent i = h" for i
    using edge [of h] edge [of i] that assms(3) by simp
  then have bridge: "v (p ! mh_parent h) \<le> v (p ! i)" if "0 < h" "0 < i" "i < m" "mh_parent i = h" for i
    using that by blast
  show ?thesis
    unfolding mh_almost_def mh_bridge_def
  proof (intro conjI allI impI)
    fix i assume i: "0 < i \<and> i < m \<and> i \<noteq> h \<and> mh_parent i \<noteq> h"
    then show "v (p[h := e] ! mh_parent i) \<le> v (p[h := e] ! i)" using edge [of i] by simp
  next
    fix i assume i: "0 < h \<and> 0 < i \<and> i < m \<and> mh_parent i = h"
    then have "i \<noteq> h" "mh_parent h \<noteq> h" using mh_parent_less [of i] mh_parent_less [of h] by auto
    then show "v (p[h := e] ! mh_parent h) \<le> v (p[h := e] ! i)" using bridge [of i] i by simp
  qed
qed

lemma mh_distinct: "mh_indexed s \<Longrightarrow> distinct (take (mh_n s) (mh_p s))"
  using mh_inj [of s] mh_indexedD(1) [of s] by (simp add: distinct_conv_nth)

lemma mh_removed_notin:
  assumes "mh_indexed s" "mh_items s = add_mset e M"
  shows "e \<notin># M"
proof -
  have "count (mh_items s) e \<le> 1"
    using mh_distinct [OF assms(1)] unfolding mh_items_def by (simp add: distinct_count_atmost_1)
  then show ?thesis using assms(2) by (simp add: not_in_iff)
qed

text \<open>The tail of erase and pop: the removed item is marked as outside.\<close>

lemma mh_unlink_ok:
  assumes "mh_indexed t'" "e \<notin># mh_items t'" "mh_ord (mh_value t') (mh_p t') (mh_n t')"
  shows "mh_ok (mh_set_idx t' e (-1))" "mh_items (mh_set_idx t' e (-1)) = mh_items t'"
    "mh_value (mh_set_idx t' e (-1)) = mh_value t'"
proof -
  show v: "mh_value (mh_set_idx t' e (-1)) = mh_value t'" by (simp add: fun_eq_iff)
  show it: "mh_items (mh_set_idx t' e (-1)) = mh_items t'" by (simp add: mh_items_def)
  have "mh_p t' ! i \<noteq> e" if "i < mh_n t'" for i using mh_in_items [OF assms(1) that] assms(2) by auto
  then have "mh_indexed (mh_set_idx t' e (-1))"
    using assms(1) unfolding mh_indexed_def it by simp
  then show "mh_ok (mh_set_idx t' e (-1))" using assms(3) v unfolding mh_ok_def by simp
qed

lemma mh_settled_unlink:
  assumes "mh_settled s q t'" "mh_n s \<le> mh_a s" "length q = mh_a s" "e \<notin> set (take (mh_n s) q)"
    "\<And>x. x \<noteq> e \<Longrightarrow> x \<notin> set (take (mh_n s) q) \<Longrightarrow> hi_idx (mh_item s x) = -1"
  shows "mh_ok (mh_set_idx t' e (-1))" "mh_items (mh_set_idx t' e (-1)) = mset (take (mh_n s) q)"
    "mh_value (mh_set_idx t' e (-1)) = mh_value s"
proof -
  let ?t = "mh_set_idx t' e (-1)"
  have m: "mh_items ?t = mset (take (mh_n s) q)"
    using assms(1) by (simp add: mh_settled_def mh_items_def)
  have st: "mset (take (mh_n s) (mh_p t')) = mset (take (mh_n s) q)" "mh_n s \<le> length (mh_p t')"
    using assms(1-3) by (simp_all add: mh_settled_def)
  have ne: "mh_p t' ! i \<noteq> e" if "i < mh_n s" for i
  proof -
    have "mh_p t' ! i \<in> set (take (mh_n s) (mh_p t'))"
      using that st(2) by (auto simp: in_set_conv_nth intro!: exI [of _ i])
    then show ?thesis using mset_eq_setD [OF st(1)] assms(4) by auto
  qed
  show "mh_items ?t = mset (take (mh_n s) q)" by (fact m)
  show v: "mh_value ?t = mh_value s" using assms(1) by (simp add: mh_settled_def fun_eq_iff)
  have "mh_indexed ?t"
    unfolding mh_indexed_def m using assms(1-3) assms(5) ne by (simp add: mh_settled_def)
  then show "mh_ok ?t" using assms(1) v unfolding mh_ok_def by (simp add: mh_settled_def)
qed

lemma min_heap_erase_ok:
  assumes "mh_ok s" "e \<in># mh_items s" "min_heap_erase s e = (r, t)"
  shows "r = 0" "mh_ok t" "mh_items s = add_mset e (mh_items t)" "mh_value t = mh_value s"
proof -
  have ix: "mh_indexed s" "mh_ord (mh_value s) (mh_p s) (mh_n s)" using assms(1) by (auto simp: mh_ok_def)
  obtain h where h: "h < mh_n s" "mh_p s ! h = e" "hi_idx (mh_item s e) = int h"
    using mh_idx_iff(2) [OF ix(1) assms(2)] by auto
  let ?N = "mh_n s - 1"
  let ?s = "s\<lparr>mh_n := ?N\<rparr>" and ?last = "mh_p s ! ?N" and ?q = "(mh_p s)[h := mh_p s ! ?N]"
  define t' where "t' = (if 0 < h \<and> min_heap_elem_greater ?s (mh_p ?s ! mh_parent h) ?last
     then min_heap_shift_up_unconditional ?s h ?last else min_heap_shift_down ?s h ?last)"
  have eq: "r = 0" "t = mh_set_idx t' e (-1)"
    using assms(3) h(3) unfolding min_heap_erase_def t'_def Let_def by (auto split: if_splits)
  have len: "mh_n s \<le> length (mh_p s)" "length (mh_p s) = mh_a s" using ix(1) by (auto simp: mh_indexed_def)
  have m: "mh_items s = add_mset e (mset (take ?N ?q))"
    unfolding mh_items_def using mh_remove_mset [OF h(1) len(1)] h(2) by simp
  have e: "e \<notin> set (take ?N ?q)" using mh_removed_notin [OF ix(1) m] by simp
  have out: "hi_idx (mh_item ?s x) = -1" if "x \<noteq> e" "x \<notin> set (take ?N ?q)" for x
    using mh_indexedD(3) [OF ix(1), of x] that unfolding m by simp
  have "mh_settled ?s ?q t'" if hN: "h < ?N"
  proof -
    have "mh_p s ! i \<noteq> ?last" if "i < ?N" for i using mh_inj [OF ix(1), of i ?N] that h(1) by simp
    then have "mh_hole_ok ?s h ?last"
      using hN len mh_indexedD(2) [OF ix(1)] by (auto simp: mh_hole_ok_def)
    moreover have "mh_almost (mh_value ?s) ((mh_p ?s)[h := ?last]) (mh_n ?s) h"
      using mh_almost_overwrite [OF ix(2), of ?N h ?last] hN len by simp
    ultimately show ?thesis using mh_shift_settles [of ?s h ?last] unfolding t'_def by simp
  qed
  moreover have "mh_settled ?s ?q t'" if hN: "\<not> h < ?N"
  proof -
    have "h = ?N" using hN h(1) by linarith
    then have hn: "h = ?N" "?last = e" using h(2) by simp_all
    have up: "0 < h \<Longrightarrow> mh_value s (mh_p s ! mh_parent h) \<le> mh_value s e"
      using ix(2) h(1,2) by (auto simp: mh_ord_def)
    have "\<not> (0 < h \<and> min_heap_elem_greater ?s (mh_p ?s ! mh_parent h) ?last)"
      using up unfolding hn(2) min_heap_elem_greater_def by auto
    then have "t' = mh_put ?s h e"
      unfolding t'_def using hn by (subst min_heap_shift_down.simps) auto
    moreover have "mh_p s ! i \<noteq> e" if "i < ?N" for i using mh_inj [OF ix(1), of i h] that h hn by auto
    ultimately show ?thesis
      using hn h len ix(2) mh_indexedD(2) [OF ix(1)] by (auto simp: mh_settled_def mh_ord_def)
  qed
  ultimately have "mh_settled ?s ?q t'" by blast
  from mh_settled_unlink [OF this, of e] eq m e out len
  show "r = 0" "mh_ok t" "mh_items s = add_mset e (mh_items t)" "mh_value t = mh_value s"
    by (simp_all add: fun_eq_iff)
qed

lemma min_heap_erase_absent:
  "mh_ok s \<Longrightarrow> e \<notin># mh_items s \<Longrightarrow> min_heap_erase s e = (-1, s)"
  using mh_idx_iff(1) [of s e] by (simp add: min_heap_erase_def mh_ok_def)

text \<open>Pop erases the top.\<close>

lemma min_heap_pop_erase:
  assumes "mh_ok s" "mh_n s \<noteq> 0"
  shows "min_heap_pop s = (snd (min_heap_erase s (mh_p s ! 0)), Some (mh_p s ! 0))"
  using assms mh_indexedD(2) [of s 0]
  by (simp add: mh_ok_def min_heap_pop_def min_heap_erase_def Let_def)

lemma min_heap_pop_ok:
  assumes "mh_ok s" "min_heap_pop s = (t, Some e)"
  shows "mh_ok t" "mh_items s = add_mset e (mh_items t)" "mh_value t = mh_value s"
    "x \<in># mh_items s \<Longrightarrow> mh_value s e \<le> mh_value s x"
proof -
  have n: "mh_n s \<noteq> 0" using assms(2) by (auto simp: min_heap_pop_def split: if_splits)
  have ix: "mh_indexed s" using assms(1) by (simp add: mh_ok_def)
  have e: "e = mh_p s ! 0" "t = snd (min_heap_erase s e)" "e \<in># mh_items s"
    using min_heap_pop_erase [OF assms(1) n] assms(2) mh_in_items [OF ix, of 0] n by auto
  show "mh_ok t" "mh_items s = add_mset e (mh_items t)" "mh_value t = mh_value s"
    using min_heap_erase_ok(2-4) [OF assms(1) e(3), of "fst (min_heap_erase s e)" t] e(2)
    by (metis prod.collapse)+
  show "x \<in># mh_items s \<Longrightarrow> mh_value s e \<le> mh_value s x"
    using mh_indexedD(4) [OF ix] mh_top_le [OF assms(1)] e(1) by blast
qed

lemma min_heap_pop_None: "mh_indexed s \<Longrightarrow> snd (min_heap_pop s) = None \<longleftrightarrow> mh_items s = {#}"
  using mh_indexedD(1) [of s] by (auto simp: min_heap_pop_def mh_items_def Let_def)

section \<open>Adjusting a changed priority\<close>

text \<open>What a caller does before \<open>min_heap_adjust_\<close>: it stores a new value in the item.\<close>

definition mh_set_value :: "min_heap \<Rightarrow> nat \<Rightarrow> int \<Rightarrow> min_heap" where
  "mh_set_value s e w = s\<lparr>mh_item := (mh_item s)(e := (mh_item s e)\<lparr>hi_value := w\<rparr>)\<rparr>"

lemma mh_set_value_simps [simp]:
  "mh_p (mh_set_value s e w) = mh_p s" "mh_n (mh_set_value s e w) = mh_n s"
  "mh_a (mh_set_value s e w) = mh_a s" "mh_items (mh_set_value s e w) = mh_items s"
  "mh_value (mh_set_value s e w) = (mh_value s)(e := w)"
  "hi_value (mh_item (mh_set_value s e w) x) = (if x = e then w else mh_value s x)"
  "hi_idx (mh_item (mh_set_value s e w) x) = hi_idx (mh_item s x)"
  by (auto simp: mh_set_value_def mh_items_def fun_eq_iff)

lemma mh_set_value_indexed [simp]: "mh_indexed (mh_set_value s e w) = mh_indexed s"
  by (simp add: mh_indexed_def)

lemma min_heap_adjust_inside:
  assumes "mh_ok s" "e \<in># mh_items s" "min_heap_adjust ra (mh_set_value s e w) e = (r, t)"
  shows "r = 0" "mh_ok t" "mh_items t = mh_items s" "mh_value t = (mh_value s)(e := w)"
proof -
  let ?s = "mh_set_value s e w"
  have ix: "mh_indexed s" "mh_ord (mh_value s) (mh_p s) (mh_n s)" using assms(1) by (auto simp: mh_ok_def)
  obtain h where h: "h < mh_n s" "mh_p s ! h = e" "hi_idx (mh_item s e) = int h"
    using mh_idx_iff(2) [OF ix(1) assms(2)] by auto
  have len: "mh_n s \<le> length (mh_p s)" "length (mh_p s) = mh_a s" using ix(1) by (auto simp: mh_indexed_def)
  have q: "(mh_p ?s)[h := e] = mh_p s" using h by auto
  have rt: "r = 0" "t = (if 0 < h \<and> min_heap_elem_greater ?s (mh_p ?s ! mh_parent h) e
     then min_heap_shift_up_unconditional ?s h e else min_heap_shift_down ?s h e)"
    using assms(3) h(3) by (auto simp: min_heap_adjust_def Let_def split: if_splits)
  have ne: "mh_p s ! i \<noteq> e" if "i < mh_n s" "i \<noteq> h" for i
    using mh_inj [OF ix(1) that(1) h(1)] that(2) h(2) by simp
  then have hole: "mh_hole_ok ?s h e"
    using h(1) len mh_indexedD(2) [OF ix(1)] by (auto simp: mh_hole_ok_def)
  have edge: "mh_value s (mh_p s ! mh_parent i) \<le> mh_value s (mh_p s ! i)" "mh_parent i < i"
    if "0 < i" "i < mh_n s" for i using ix(2) that mh_parent_less by (auto simp: mh_ord_def)
  have "mh_almost (mh_value ?s) (mh_p s) (mh_n s) h"
    unfolding mh_almost_def mh_bridge_def
  proof (intro conjI allI impI)
    fix i assume i: "0 < i \<and> i < mh_n s \<and> i \<noteq> h \<and> mh_parent i \<noteq> h"
    then show "mh_value ?s (mh_p s ! mh_parent i) \<le> mh_value ?s (mh_p s ! i)"
      using edge [of i] ne [of i] ne [of "mh_parent i"] by simp
  next
    fix i assume i: "0 < h \<and> 0 < i \<and> i < mh_n s \<and> mh_parent i = h"
    then show "mh_value ?s (mh_p s ! mh_parent h) \<le> mh_value ?s (mh_p s ! i)"
      using edge [of i] edge [of h] ne [of i] ne [of "mh_parent h"] h(1) by simp
  qed
  then have st: "mh_settled ?s (mh_p s) t"
    using mh_shift_settles [OF hole] q rt(2) by simp
  have "hi_idx (mh_item ?s x) = -1" if "x \<notin> set (take (mh_n ?s) (mh_p s))" for x
    using mh_indexedD(3) [OF ix(1), of x] that by (simp add: mh_items_def)
  then show "r = 0" "mh_ok t" "mh_items t = mh_items s" "mh_value t = (mh_value s)(e := w)"
    using mh_settled_ok [OF st] len rt(1) st by (simp_all add: mh_items_def mh_settled_def fun_upd_def)
qed

lemma min_heap_adjust_outside:
  assumes "mh_realloc_ok ra" "mh_ok s" "e \<notin># mh_items s"
    "min_heap_adjust ra (mh_set_value s e w) e = (0, t)"
  shows "mh_ok t" "mh_items t = add_mset e (mh_items s)" "mh_value t = (mh_value s)(e := w)"
proof -
  let ?s = "mh_set_value s e w"
  have ix: "mh_indexed s" using assms(2) by (simp add: mh_ok_def)
  have "mh_ord (mh_value ?s) (mh_p s) (mh_n s)"
    unfolding mh_ord_def
  proof (intro allI impI)
    fix i assume i: "0 < i \<and> i < mh_n s"
    then have "mh_p s ! i \<noteq> e" "mh_p s ! mh_parent i \<noteq> e"
      using mh_in_items [OF ix, of i] mh_in_items [OF ix, of "mh_parent i"] assms(3) mh_parent_less [of i] by auto
    then show "mh_value ?s (mh_p s ! mh_parent i) \<le> mh_value ?s (mh_p s ! i)"
      using assms(2) i by (simp add: mh_ok_def mh_ord_def)
  qed
  then have ok: "mh_ok ?s" using ix by (simp add: mh_ok_def)
  have "hi_idx (mh_item ?s e) = -1" using mh_indexedD(3) [OF ix assms(3)] by simp
  then have "min_heap_push ra ?s e = (0, t)" using assms(4) by (simp add: min_heap_adjust_def)
  from min_heap_push_ok [OF assms(1) ok _ this] assms(3)
  show "mh_ok t" "mh_items t = add_mset e (mh_items s)" "mh_value t = (mh_value s)(e := w)"
    by (simp_all add: fun_upd_def)
qed

section \<open>The heap as a priority queue\<close>

text \<open>
  The client's view: pushing is an option, popping returns the new heap and the element. The
  reallocation is the one of a C library that grants every request.
\<close>

definition mh_grow :: mh_realloc where
  "mh_grow p a = Some (take a p @ replicate (a - length p) 0)"

lemma mh_grow_ok: "mh_realloc_ok mh_grow"
  by (auto simp: mh_realloc_ok_def mh_grow_def min_def)

definition mh_push :: "mh_realloc \<Rightarrow> min_heap \<Rightarrow> nat \<Rightarrow> min_heap option" where
  "mh_push ra s e = (case min_heap_push ra s e of (r, t) \<Rightarrow> if r = 0 then Some t else None)"

definition mh_pop :: "min_heap \<Rightarrow> (min_heap \<times> nat) option" where
  "mh_pop s = (case min_heap_pop s of (t, None) \<Rightarrow> None | (t, Some e) \<Rightarrow> Some (t, e))"

lemma mh_push_Some: "mh_push ra s e = Some t \<longleftrightarrow> min_heap_push ra s e = (0, t)"
  by (auto simp: mh_push_def split: prod.splits)

lemma mh_pop_Some: "mh_pop s = Some (t, e) \<longleftrightarrow> min_heap_pop s = (t, Some e)"
  by (auto simp: mh_pop_def split: prod.splits option.splits)

lemma mh_shift_up_value: "mh_value (min_heap_shift_up s h e) = mh_value s"
proof (induction s h e rule: min_heap_shift_up.induct)
  case (1 s h e)
  then show ?case by (subst min_heap_shift_up.simps) (simp add: fun_eq_iff)
qed

lemma mh_shift_down_value: "mh_value (min_heap_shift_down s h e) = mh_value s"
proof (induction s h e rule: min_heap_shift_down.induct)
  case (1 s h e)
  then show ?case by (subst min_heap_shift_down.simps) (simp add: fun_eq_iff)
qed

lemma mh_push_value:
  assumes "mh_push ra s e = Some t"
  shows "mh_value t = mh_value s"
proof -
  obtain ok u where u: "min_heap_reserve ra s (mh_n s + 1) = (ok, u)" by force
  then have "mh_item u = mh_item s"
    by (auto simp: min_heap_reserve_def Let_def split: if_splits option.splits)
  then show ?thesis
    using assms u mh_shift_up_value [of "u\<lparr>mh_n := mh_n u + 1\<rparr>"]
    by (auto simp: mh_push_Some min_heap_push_def Let_def split: if_splits)
qed

lemma mh_pop_value: "min_heap_pop s = (t, Some e) \<Longrightarrow> mh_value t = mh_value s"
  using mh_shift_down_value [of "s\<lparr>mh_n := mh_n s - 1\<rparr>"]
  by (auto simp: min_heap_pop_def Let_def fun_eq_iff split: if_splits)

text \<open>The bound is the number of elements up to which the index arithmetic fits \<open>unsigned\<close>.\<close>

definition mh_bound :: nat where
  "mh_bound = 2147483647"

lemma mh_push_laws:
  assumes "mh_realloc_ok ra" "mh_ok s" "e \<notin># mh_items s" "mh_push ra s e = Some t"
  shows "mh_items t = add_mset e (mh_items s)" "mh_ok t"
  using min_heap_push_ok [OF assms(1-3)] assms(4) by (simp_all add: mh_push_Some)

lemma mh_pop_None:
  assumes "mh_ok s"
  shows "mh_pop s = None \<longleftrightarrow> mh_items s = {#}"
proof -
  have "mh_pop s = None \<longleftrightarrow> snd (min_heap_pop s) = None"
    by (cases "min_heap_pop s") (simp add: mh_pop_def split: option.splits)
  then show ?thesis using assms min_heap_pop_None by (simp add: mh_ok_def)
qed

lemma mh_pop_laws:
  assumes "mh_ok s" "mh_pop s = Some (t, e)"
  shows "mh_items s = add_mset e (mh_items t)" "mh_ok t" "x \<in># mh_items s \<Longrightarrow> mh_value s e \<le> mh_value s x"
  using min_heap_pop_ok [OF assms(1) assms(2) [unfolded mh_pop_Some]] by simp_all

lemma mh_prio_queue:
  assumes "mh_realloc_ok ra"
  shows "prio_queue mh_items mh_value mh_bound (mh_push ra) mh_pop mh_ok"
proof (unfold_locales, goal_cases)
  case (1 q a q')
  then show ?case using mh_push_laws(1) [OF assms] by blast
next
  case (2 q a q')
  then show ?case using mh_push_laws(2) [OF assms] by blast
next
  case (3 q a q')
  then show ?case by (rule mh_push_value)
next
  case (4 q)
  then show ?case by (rule mh_pop_None)
next
  case (5 q q' a)
  then show ?case by (rule mh_pop_laws(1))
next
  case (6 q q' a)
  then show ?case by (rule mh_pop_laws(2))
next
  case (7 q q' a)
  then show ?case by (simp add: mh_pop_Some mh_pop_value)
next
  case (8 q q' a b)
  then show ?case by (rule mh_pop_laws(3))
qed

interpretation mhq: prio_queue mh_items mh_value mh_bound "mh_push mh_grow" mh_pop mh_ok
  by (rule mh_prio_queue [OF mh_grow_ok])

section \<open>The program's main\<close>

text \<open>
  The values are put into an array of items, all pushed, all popped. The results of the pushes
  are ignored; popping an empty heap gives a null pointer that main would follow (\<open>None\<close>).
\<close>

definition mh_array :: "int list \<Rightarrow> min_heap" where
  "mh_array vals = min_heap_ctor \<lparr>mh_p = [], mh_n = 0, mh_a = 0,
     mh_item = (\<lambda>i. \<lparr>hi_value = (if i < length vals then vals ! i else 0), hi_idx = -1\<rparr>)\<rparr>"

fun mh_push_loop :: "mh_realloc \<Rightarrow> min_heap \<Rightarrow> nat list \<Rightarrow> min_heap" where
  "mh_push_loop ra s [] = s"
| "mh_push_loop ra s (x # xs) = mh_push_loop ra (snd (min_heap_push ra s x)) xs"

fun mh_pop_loop :: "nat \<Rightarrow> min_heap \<Rightarrow> int list option" where
  "mh_pop_loop 0 s = Some []"
| "mh_pop_loop (Suc k) s =
     (case min_heap_pop s of
        (s, None) \<Rightarrow> None
      | (s, Some e) \<Rightarrow> map_option (\<lambda>vs. mh_value s e # vs) (mh_pop_loop k s))"

definition mh_sort :: "mh_realloc \<Rightarrow> int list \<Rightarrow> int list option" where
  "mh_sort ra vals = mh_pop_loop (length vals) (mh_push_loop ra (mh_array vals) [0..<length vals])"

definition min_heap_main :: "mh_realloc \<Rightarrow> int list option" where
  "min_heap_main ra = mh_sort ra [20, 12, 40, 36, 25, 45, 48, 50]"

lemma mh_array_ok: "mh_ok (mh_array vals)" "mh_items (mh_array vals) = {#}"
  "i < length vals \<Longrightarrow> mh_value (mh_array vals) i = vals ! i"
  by (auto simp: mh_array_def min_heap_ctor_def mh_ok_def mh_indexed_def mh_items_def mh_ord_def)

lemma mh_push_total:
  assumes "\<And>p a. ra p a \<noteq> None"
  shows "mh_push ra s e = Some (snd (min_heap_push ra s e))"
proof -
  define f where "f p a = the (ra p a)" for p a
  have "ra p a = Some (f p a)" for p a using assms [of p a] by (auto simp: f_def)
  then obtain u where "min_heap_reserve ra s (mh_n s + 1) = (True, u)"
    by (cases "mh_a s < mh_n s + 1") (simp_all add: min_heap_reserve_def Let_def)
  then show ?thesis by (simp add: mh_push_def min_heap_push_def Let_def)
qed

lemma mh_push_loop_eq:
  assumes "mh_realloc_ok ra" "\<And>p a. ra p a \<noteq> None"
  shows "prio_queue.push_all (mh_push ra) s xs = Some (mh_push_loop ra s xs)"
  by (induction xs arbitrary: s)
    (simp_all add: prio_queue.push_all.simps [OF mh_prio_queue [OF assms(1)]] mh_push_total [OF assms(2)])

lemma mh_pop_loop_eq:
  "mh_ok s \<Longrightarrow> k \<le> size (mh_items s) \<Longrightarrow> mh_pop_loop k s = Some (map (mh_value s) (mhq.drain k s))"
proof (induction k arbitrary: s)
  case (Suc k)
  then have "mh_pop s \<noteq> None" using mh_pop_None [of s] by auto
  then obtain t e where p: "mh_pop s = Some (t, e)" by auto
  note l = mh_pop_laws [OF Suc.prems(1) p]
  have "mh_value t = mh_value s" using p mh_pop_value by (simp add: mh_pop_Some)
  then have "mh_value t e = mh_value s e" "mh_value t = mh_value s" by metis+
  moreover have "k \<le> size (mh_items t)" using Suc.prems(2) l(1) by simp
  ultimately show ?case using Suc.IH [OF l(2)] p p [unfolded mh_pop_Some] by simp
qed simp

section \<open>Properties\<close>

text \<open>C2. Pushing the items of an array and popping them all, as main does, yields the values in
  ascending order, for any number of values below the index bound and any \<open>realloc\<close> that
  grants its requests: no pop meets an empty heap and no value is lost or doubled.\<close>

theorem min_heap_sorts:
  assumes "mh_realloc_ok ra" "\<And>p a. ra p a \<noteq> None" "length vals \<le> 2147483647"
  shows "mh_sort ra vals = Some (sort vals)"
proof -
  let ?s = "mh_array vals" and ?xs = "[0..<length vals]"
  let ?t = "mh_push_loop ra ?s ?xs" and ?out = "mhq.drain (length ?xs) (mh_push_loop ra ?s ?xs)"
  note laws = mh_prio_queue [OF assms(1)]
  have len: "length ?xs \<le> mh_bound" using assms(3) by (simp add: mh_bound_def)
  have pushed: "prio_queue.push_all (mh_push ra) ?s ?xs = Some ?t"
    by (rule mh_push_loop_eq [OF assms(1,2)])
  have t: "mh_ok ?t" "mh_items ?t = mset ?xs" "mh_value ?t = mh_value ?s"
    using prio_queue.push_all_props [OF laws mh_array_ok(1) _ _ _ pushed] mh_array_ok(2) len by auto
  have out: "mset ?out = mset ?xs" "sorted_wrt (\<lambda>a b. mh_value ?s a \<le> mh_value ?s b) ?out"
    using prio_queue.push_drain_sorts [OF laws mh_array_ok(1,2) _ len pushed] by auto
  have "mh_sort ra vals = Some (map (mh_value ?s) ?out)"
    using mh_pop_loop_eq [OF t(1), of "length ?xs"] t(2,3) by (simp add: mh_sort_def)
  moreover have "sorted (map (mh_value ?s) ?out)" using out(2) by (simp add: sorted_map)
  moreover have "mset (map (mh_value ?s) ?out) = mset vals"
  proof -
    have "map (mh_value ?s) ?xs = vals" by (rule nth_equalityI) (auto simp: mh_array_ok(3))
    then show ?thesis using out(1) by (metis mset_map)
  qed
  ultimately show ?thesis by (metis properties_for_sort)
qed

theorem min_heap_sorts_witness:
  "min_heap_main mh_grow = Some [12, 20, 25, 36, 40, 45, 48, 50]"
proof -
  have "min_heap_main mh_grow = Some (sort [20, 12, 40, 36, 25, 45, 48, 50])"
    unfolding min_heap_main_def by (rule min_heap_sorts [OF mh_grow_ok]) (simp_all add: mh_grow_def)
  then show ?thesis by simp
qed

text \<open>C21. Erasing an item takes exactly that item out and marks it, whatever its position, and giving an
  item of the heap an arbitrary new value and adjusting it restores a heap with the same items;
  the ordering of the array and the stored positions stay consistent in both cases. Positions are
  natural numbers; those of the code are \<open>unsigned\<close>, stored as \<open>int\<close>, and agree with them for a heap
  of at most \<open>2^31 - 1\<close> items.\<close>

theorem min_heap_erase_adjust:
  assumes "mh_ok s" "e \<in># mh_items s" "min_heap_erase s e = (r1, s1)"
    "min_heap_adjust ra (mh_set_value s e w) e = (r2, s2)"
  shows "r1 = 0 \<and> mh_ok s1 \<and> mh_items s = add_mset e (mh_items s1) \<and> mh_value s1 = mh_value s \<and>
    hi_idx (mh_item s1 e) = -1 \<and> min_heap_erase s1 e = (-1, s1) \<and>
    r2 = 0 \<and> mh_ok s2 \<and> mh_items s2 = mh_items s \<and> mh_value s2 = (mh_value s)(e := w)"
proof -
  note e = min_heap_erase_ok [OF assms(1-3)] and a = min_heap_adjust_inside [OF assms(1,2,4)]
  have n: "e \<notin># mh_items s1" using mh_removed_notin [of s e] assms(1) e(3) by (simp add: mh_ok_def)
  then have "hi_idx (mh_item s1 e) = -1" using mh_indexedD(3) [of s1 e] e(2) by (simp add: mh_ok_def)
  then show ?thesis using e a min_heap_erase_absent [OF e(2) n] by simp
qed

text \<open>A heap with the single item 0.\<close>

lemma mh_one: "\<exists>t. mh_ok t \<and> mh_items t = {#0#} \<and> mh_value t 0 = 7"
proof -
  have p: "mh_push mh_grow (mh_array [7]) 0 = Some (snd (min_heap_push mh_grow (mh_array [7]) 0))"
    by (rule mh_push_total) (simp add: mh_grow_def)
  let ?t = "snd (min_heap_push mh_grow (mh_array [7]) 0)"
  have "mh_ok ?t" "mh_items ?t = {#0#}"
    using mh_push_laws [OF mh_grow_ok mh_array_ok(1) _ p] mh_array_ok(2) by simp_all
  moreover have "mh_value ?t 0 = 7"
    using fun_cong [OF mh_push_value [OF p], of 0] mh_array_ok(3) [of 0 "[7]"] by simp
  ultimately show ?thesis by blast
qed

theorem min_heap_erase_adjust_witness:
  "\<exists>s s1 s2. mh_items s = {#0#} \<and> min_heap_erase s 0 = (0, s1) \<and> mh_items s1 = {#} \<and>
     min_heap_adjust mh_grow (mh_set_value s 0 9) 0 = (0, s2) \<and> mh_items s2 = {#0#} \<and> mh_value s2 0 = 9"
proof -
  obtain s where s: "mh_ok s" "mh_items s = {#0#}" using mh_one by blast
  obtain r1 s1 where e1: "min_heap_erase s 0 = (r1, s1)" by force
  obtain r2 s2 where e2: "min_heap_adjust mh_grow (mh_set_value s 0 9) 0 = (r2, s2)" by force
  have "r1 = 0 \<and> mh_items s1 = {#} \<and> r2 = 0 \<and> mh_items s2 = {#0#} \<and> mh_value s2 = (mh_value s)(0 := 9)"
    using min_heap_erase_adjust [OF s(1) _ e1 e2] s(2) by auto
  moreover from this have "mh_value s2 0 = 9" by (metis fun_upd_same)
  ultimately show ?thesis using s e1 e2 by blast
qed

text \<open>A push either puts exactly the new item into the heap or, when \<open>realloc\<close> refuses to grow the
  array, returns -1 and leaves the heap as it was; within the allocated size it never fails.\<close>

theorem min_heap_push_cases:
  assumes "mh_realloc_ok ra" "mh_ok s" "e \<notin># mh_items s" "min_heap_push ra s e = (r, t)"
  shows "(r = 0 \<and> mh_ok t \<and> mh_items t = add_mset e (mh_items s) \<and> mh_value t = mh_value s) \<or>
    (r = -1 \<and> t = s \<and> mh_n s = mh_a s)"
proof (cases "min_heap_reserve ra s (mh_n s + 1)")
  case (Pair ok u)
  show ?thesis
  proof (cases ok)
    case True
    then have r: "r = 0" using Pair assms(4) by (auto simp: min_heap_push_def Let_def)
    then show ?thesis using min_heap_push_ok [OF assms(1-3)] assms(4) by simp
  next
    case False
    then have u: "u = s" using min_heap_reserve_fail [of ra s _ u] Pair by simp
    have "mh_n s \<le> mh_a s" using assms(2) by (simp add: mh_ok_def mh_indexed_def)
    moreover have "mh_a s < mh_n s + 1" using Pair False by (auto simp: min_heap_reserve_def split: if_splits)
    ultimately show ?thesis using u Pair False assms(4) by (auto simp: min_heap_push_def)
  qed
qed

theorem min_heap_push_cases_witness:
  "min_heap_push (\<lambda>_ _. None) (mh_array [7]) 0 = (-1, mh_array [7])"
proof -
  obtain r t where e: "min_heap_push (\<lambda>_ _. None) (mh_array [7]) 0 = (r, t)" by force
  have "r \<noteq> 0"
    using e by (auto simp: min_heap_push_def min_heap_reserve_def mh_array_def min_heap_ctor_def split: prod.splits)
  then show ?thesis
    using min_heap_push_cases [OF _ mh_array_ok(1) _ e] mh_array_ok(2) e by (simp add: mh_realloc_ok_def)
qed

end
