(* ===== verification/Md5.thy ===== *)
theory Md5
  imports Interfaces
begin

text \<open>
  The MD5 digest of \<^verbatim>\<open>md5sum/md5.c\<close> and \<^verbatim>\<open>md5sum/md5.h\<close>, on 32-bit words, for both byte
  orders of the machine, with a reference algorithm written after RFC 1321. The buffering of
  \<open>MD5Update\<close> and \<open>MD5Final\<close> is related to feeding a message byte by byte.
\<close>

section \<open>Memory of the machine\<close>

text \<open>
  \<open>setByteOrder\<close> looks at the first byte of 0x1234 in memory. The global \<open>byteOrder\<close> caches its
  answer, so the models take the machine's order where the code reads the global.
\<close>

datatype byte_order = UNKNOWN | MSB1st | LSB1st

definition le_bytes :: "u32 \<Rightarrow> byte list" where
  "le_bytes w = [ucast w, ucast (drop_bit 8 w), ucast (drop_bit 16 w), ucast (drop_bit 24 w)]"

definition store32 :: "byte_order \<Rightarrow> u32 \<Rightarrow> byte list" where
  "store32 m w = (if m = MSB1st then rev (le_bytes w) else le_bytes w)"

definition setByteOrder :: "byte_order \<Rightarrow> byte_order" where
  "setByteOrder m = (let uc = (if m = MSB1st then [0x12, 0x34] else [0x34, 0x12 :: byte]) in
     if uc ! 0 = 0x12 then MSB1st else LSB1st)"

text \<open>The word that four bytes denote, lowest first, as \<open>byteReverse\<close> computes it.\<close>

definition le_word :: "byte list \<Rightarrow> u32" where
  "le_word b = push_bit 16 (push_bit 8 (ucast (b ! 3)) OR ucast (b ! 2)) OR
     (push_bit 8 (ucast (b ! 1)) OR ucast (b ! 0))"

definition load32 :: "byte_order \<Rightarrow> byte list \<Rightarrow> u32" where
  "load32 m b = (if m = MSB1st then le_word (rev b) else le_word b)"

fun byteReverse :: "byte_order \<Rightarrow> byte list \<Rightarrow> nat \<Rightarrow> byte list" where
  "byteReverse m buf 0 = buf"
| "byteReverse m buf (Suc longs) =
     (if setByteOrder m = LSB1st then buf
      else store32 m (le_word (take 4 buf)) @ byteReverse m (drop 4 buf) longs)"

text \<open>\<open>(uint32 *) in\<close> as an array of \<open>n\<close> words.\<close>

fun load_words :: "byte_order \<Rightarrow> byte list \<Rightarrow> nat \<Rightarrow> u32 list" where
  "load_words m b 0 = []"
| "load_words m b (Suc n) = load32 m (take 4 b) # load_words m (drop 4 b) n"

section \<open>The transform\<close>

type_synonym md5_hash = "u32 \<times> u32 \<times> u32 \<times> u32"

datatype md5_reg = Ra | Rb | Rc | Rd

fun reg_get :: "md5_reg \<Rightarrow> md5_hash \<Rightarrow> u32" where
  "reg_get Ra (a, b, c, d) = a"
| "reg_get Rb (a, b, c, d) = b"
| "reg_get Rc (a, b, c, d) = c"
| "reg_get Rd (a, b, c, d) = d"

fun reg_set :: "md5_reg \<Rightarrow> u32 \<Rightarrow> md5_hash \<Rightarrow> md5_hash" where
  "reg_set Ra v (a, b, c, d) = (v, b, c, d)"
| "reg_set Rb v (a, b, c, d) = (a, v, c, d)"
| "reg_set Rc v (a, b, c, d) = (a, b, v, d)"
| "reg_set Rd v (a, b, c, d) = (a, b, c, v)"

definition F1 :: "u32 \<Rightarrow> u32 \<Rightarrow> u32 \<Rightarrow> u32" where
  "F1 x y z = z XOR (x AND (y XOR z))"

definition F2 :: "u32 \<Rightarrow> u32 \<Rightarrow> u32 \<Rightarrow> u32" where
  "F2 x y z = F1 z x y"

definition F3 :: "u32 \<Rightarrow> u32 \<Rightarrow> u32 \<Rightarrow> u32" where
  "F3 x y z = x XOR y XOR z"

definition F4 :: "u32 \<Rightarrow> u32 \<Rightarrow> u32 \<Rightarrow> u32" where
  "F4 x y z = y XOR (x OR NOT z)"

definition MD5STEP ::
  "(u32 \<Rightarrow> u32 \<Rightarrow> u32 \<Rightarrow> u32) \<Rightarrow> md5_reg \<Rightarrow> md5_reg \<Rightarrow> md5_reg \<Rightarrow> md5_reg \<Rightarrow> u32 \<Rightarrow> nat \<Rightarrow>
    md5_hash \<Rightarrow> md5_hash" where
  "MD5STEP f w x y z data s r =
     (let v = reg_get w r + (f (reg_get x r) (reg_get y r) (reg_get z r) + data);
          v = push_bit s v OR drop_bit (32 - s) v;
          v = v + reg_get x r
      in reg_set w v r)"

text \<open>The 64 steps of the body, in order, and the transform they make up.\<close>

definition md5_steps :: "u32 list \<Rightarrow> (md5_hash \<Rightarrow> md5_hash) list" where
  "md5_steps inw =
      [MD5STEP F1 Ra Rb Rc Rd (inw ! 0 + 0xd76aa478) 7,
       MD5STEP F1 Rd Ra Rb Rc (inw ! 1 + 0xe8c7b756) 12,
       MD5STEP F1 Rc Rd Ra Rb (inw ! 2 + 0x242070db) 17,
       MD5STEP F1 Rb Rc Rd Ra (inw ! 3 + 0xc1bdceee) 22,
       MD5STEP F1 Ra Rb Rc Rd (inw ! 4 + 0xf57c0faf) 7,
       MD5STEP F1 Rd Ra Rb Rc (inw ! 5 + 0x4787c62a) 12,
       MD5STEP F1 Rc Rd Ra Rb (inw ! 6 + 0xa8304613) 17,
       MD5STEP F1 Rb Rc Rd Ra (inw ! 7 + 0xfd469501) 22,
       MD5STEP F1 Ra Rb Rc Rd (inw ! 8 + 0x698098d8) 7,
       MD5STEP F1 Rd Ra Rb Rc (inw ! 9 + 0x8b44f7af) 12,
       MD5STEP F1 Rc Rd Ra Rb (inw ! 10 + 0xffff5bb1) 17,
       MD5STEP F1 Rb Rc Rd Ra (inw ! 11 + 0x895cd7be) 22,
       MD5STEP F1 Ra Rb Rc Rd (inw ! 12 + 0x6b901122) 7,
       MD5STEP F1 Rd Ra Rb Rc (inw ! 13 + 0xfd987193) 12,
       MD5STEP F1 Rc Rd Ra Rb (inw ! 14 + 0xa679438e) 17,
       MD5STEP F1 Rb Rc Rd Ra (inw ! 15 + 0x49b40821) 22,
       MD5STEP F2 Ra Rb Rc Rd (inw ! 1 + 0xf61e2562) 5,
       MD5STEP F2 Rd Ra Rb Rc (inw ! 6 + 0xc040b340) 9,
       MD5STEP F2 Rc Rd Ra Rb (inw ! 11 + 0x265e5a51) 14,
       MD5STEP F2 Rb Rc Rd Ra (inw ! 0 + 0xe9b6c7aa) 20,
       MD5STEP F2 Ra Rb Rc Rd (inw ! 5 + 0xd62f105d) 5,
       MD5STEP F2 Rd Ra Rb Rc (inw ! 10 + 0x02441453) 9,
       MD5STEP F2 Rc Rd Ra Rb (inw ! 15 + 0xd8a1e681) 14,
       MD5STEP F2 Rb Rc Rd Ra (inw ! 4 + 0xe7d3fbc8) 20,
       MD5STEP F2 Ra Rb Rc Rd (inw ! 9 + 0x21e1cde6) 5,
       MD5STEP F2 Rd Ra Rb Rc (inw ! 14 + 0xc33707d6) 9,
       MD5STEP F2 Rc Rd Ra Rb (inw ! 3 + 0xf4d50d87) 14,
       MD5STEP F2 Rb Rc Rd Ra (inw ! 8 + 0x455a14ed) 20,
       MD5STEP F2 Ra Rb Rc Rd (inw ! 13 + 0xa9e3e905) 5,
       MD5STEP F2 Rd Ra Rb Rc (inw ! 2 + 0xfcefa3f8) 9,
       MD5STEP F2 Rc Rd Ra Rb (inw ! 7 + 0x676f02d9) 14,
       MD5STEP F2 Rb Rc Rd Ra (inw ! 12 + 0x8d2a4c8a) 20,
       MD5STEP F3 Ra Rb Rc Rd (inw ! 5 + 0xfffa3942) 4,
       MD5STEP F3 Rd Ra Rb Rc (inw ! 8 + 0x8771f681) 11,
       MD5STEP F3 Rc Rd Ra Rb (inw ! 11 + 0x6d9d6122) 16,
       MD5STEP F3 Rb Rc Rd Ra (inw ! 14 + 0xfde5380c) 23,
       MD5STEP F3 Ra Rb Rc Rd (inw ! 1 + 0xa4beea44) 4,
       MD5STEP F3 Rd Ra Rb Rc (inw ! 4 + 0x4bdecfa9) 11,
       MD5STEP F3 Rc Rd Ra Rb (inw ! 7 + 0xf6bb4b60) 16,
       MD5STEP F3 Rb Rc Rd Ra (inw ! 10 + 0xbebfbc70) 23,
       MD5STEP F3 Ra Rb Rc Rd (inw ! 13 + 0x289b7ec6) 4,
       MD5STEP F3 Rd Ra Rb Rc (inw ! 0 + 0xeaa127fa) 11,
       MD5STEP F3 Rc Rd Ra Rb (inw ! 3 + 0xd4ef3085) 16,
       MD5STEP F3 Rb Rc Rd Ra (inw ! 6 + 0x04881d05) 23,
       MD5STEP F3 Ra Rb Rc Rd (inw ! 9 + 0xd9d4d039) 4,
       MD5STEP F3 Rd Ra Rb Rc (inw ! 12 + 0xe6db99e5) 11,
       MD5STEP F3 Rc Rd Ra Rb (inw ! 15 + 0x1fa27cf8) 16,
       MD5STEP F3 Rb Rc Rd Ra (inw ! 2 + 0xc4ac5665) 23,
       MD5STEP F4 Ra Rb Rc Rd (inw ! 0 + 0xf4292244) 6,
       MD5STEP F4 Rd Ra Rb Rc (inw ! 7 + 0x432aff97) 10,
       MD5STEP F4 Rc Rd Ra Rb (inw ! 14 + 0xab9423a7) 15,
       MD5STEP F4 Rb Rc Rd Ra (inw ! 5 + 0xfc93a039) 21,
       MD5STEP F4 Ra Rb Rc Rd (inw ! 12 + 0x655b59c3) 6,
       MD5STEP F4 Rd Ra Rb Rc (inw ! 3 + 0x8f0ccc92) 10,
       MD5STEP F4 Rc Rd Ra Rb (inw ! 10 + 0xffeff47d) 15,
       MD5STEP F4 Rb Rc Rd Ra (inw ! 1 + 0x85845dd1) 21,
       MD5STEP F4 Ra Rb Rc Rd (inw ! 8 + 0x6fa87e4f) 6,
       MD5STEP F4 Rd Ra Rb Rc (inw ! 15 + 0xfe2ce6e0) 10,
       MD5STEP F4 Rc Rd Ra Rb (inw ! 6 + 0xa3014314) 15,
       MD5STEP F4 Rb Rc Rd Ra (inw ! 13 + 0x4e0811a1) 21,
       MD5STEP F4 Ra Rb Rc Rd (inw ! 4 + 0xf7537e82) 6,
       MD5STEP F4 Rd Ra Rb Rc (inw ! 11 + 0xbd3af235) 10,
       MD5STEP F4 Rc Rd Ra Rb (inw ! 2 + 0x2ad7d2bb) 15,
       MD5STEP F4 Rb Rc Rd Ra (inw ! 9 + 0xeb86d391) 21]"

definition MD5Transform :: "md5_hash \<Rightarrow> u32 list \<Rightarrow> md5_hash" where
  "MD5Transform buf inw =
     (let r = fold (\<lambda>step r. step r) (md5_steps inw) buf
      in (reg_get Ra buf + reg_get Ra r, reg_get Rb buf + reg_get Rb r,
          reg_get Rc buf + reg_get Rc r, reg_get Rd buf + reg_get Rd r))"

section \<open>Init, update, final\<close>

record md5_ctx =
  md_buf :: md5_hash
  md_bits :: "u32 \<times> u32"
  md_in :: "byte list"

definition MD5Init :: "md5_ctx \<Rightarrow> md5_ctx" where
  "MD5Init ctx = ctx\<lparr>md_buf := (0x67452301, 0xefcdab89, 0x98badcfe, 0x10325476), md_bits := (0, 0)\<rparr>"

text \<open>\<open>byteReverse(ctx->in, 16); MD5Transform(ctx->buf, (uint32 *) ctx->in)\<close>\<close>

definition md5_consume :: "byte_order \<Rightarrow> md5_ctx \<Rightarrow> md5_ctx" where
  "md5_consume m ctx =
     (let ctx = ctx\<lparr>md_in := byteReverse m (md_in ctx) 16\<rparr>
      in ctx\<lparr>md_buf := MD5Transform (md_buf ctx) (load_words m (md_in ctx) 16)\<rparr>)"

text \<open>The update of the 64-bit bit count held in two words.\<close>

definition md5_add_bits :: "u32 \<times> u32 \<Rightarrow> u32 \<Rightarrow> u32 \<times> u32" where
  "md5_add_bits bits len =
     (let (b0, b1) = bits; t = b0; b0 = t + push_bit 3 len;
          b1 = (if b0 < t then b1 + 1 else b1);
          b1 = b1 + drop_bit 29 len
      in (b0, b1))"

text \<open>The loop over whole blocks, and the copy of what is left.\<close>

function md5_blocks :: "byte_order \<Rightarrow> md5_ctx \<Rightarrow> byte list \<Rightarrow> md5_ctx" where
  "md5_blocks m ctx buf =
     (if 64 \<le> length buf
      then md5_blocks m (md5_consume m (ctx\<lparr>md_in := mem_put (md_in ctx) 0 (take 64 buf)\<rparr>)) (drop 64 buf)
      else ctx\<lparr>md_in := mem_put (md_in ctx) 0 buf\<rparr>)"
  by pat_completeness auto
termination by (relation "measure (\<lambda>(m, ctx, buf). length buf)") auto

declare md5_blocks.simps [simp del]

definition MD5Update :: "byte_order \<Rightarrow> md5_ctx \<Rightarrow> byte list \<Rightarrow> md5_ctx" where
  "MD5Update m ctx buf =
     (let t = fst (md_bits ctx);
          ctx = ctx\<lparr>md_bits := md5_add_bits (md_bits ctx) (of_nat (length buf))\<rparr>;
          t = unat (drop_bit 3 t AND 0x3f) in
      if t \<noteq> 0 then
        let p = t; t = 64 - t in
        if length buf < t then ctx\<lparr>md_in := mem_put (md_in ctx) p buf\<rparr>
        else let ctx = md5_consume m (ctx\<lparr>md_in := mem_put (md_in ctx) p (take t buf)\<rparr>)
             in md5_blocks m ctx (drop t buf)
      else md5_blocks m ctx buf)"

text \<open>The padding in front of the length: 0x80, then zeros up to 56 modulo 64.\<close>

definition md5_final_pad :: "byte_order \<Rightarrow> md5_ctx \<Rightarrow> md5_ctx" where
  "md5_final_pad m ctx =
     (let count = unat (drop_bit 3 (fst (md_bits ctx)) AND 0x3F);
          ctx = ctx\<lparr>md_in := (md_in ctx)[count := 0x80]\<rparr>;
          p = count + 1;
          count = 64 - 1 - count in
      if count < 8 then
        let ctx = ctx\<lparr>md_in := mem_put (md_in ctx) p (replicate count 0)\<rparr>;
            ctx = md5_consume m ctx
        in ctx\<lparr>md_in := mem_put (md_in ctx) 0 (replicate 56 0)\<rparr>
      else ctx\<lparr>md_in := mem_put (md_in ctx) p (replicate (count - 8) 0)\<rparr>)"

text \<open>
  The digest and the context left behind. The final \<open>memset(ctx, 0, sizeof(ctx))\<close> clears the
  size of a pointer, that is the first two words of \<open>buf\<close>.
\<close>

definition MD5Final :: "byte_order \<Rightarrow> md5_ctx \<Rightarrow> byte list \<times> md5_ctx" where
  "MD5Final m ctx =
     (let ctx = md5_final_pad m ctx;
          ctx = ctx\<lparr>md_in := byteReverse m (md_in ctx) 14\<rparr>;
          ctx = ctx\<lparr>md_in := mem_put (md_in ctx) 56 (store32 m (fst (md_bits ctx)))\<rparr>;
          ctx = ctx\<lparr>md_in := mem_put (md_in ctx) 60 (store32 m (snd (md_bits ctx)))\<rparr>;
          ctx = ctx\<lparr>md_buf := MD5Transform (md_buf ctx) (load_words m (md_in ctx) 16)\<rparr>;
          (a, b, c, d) = md_buf ctx;
          raw = byteReverse m (concat (map (store32 m) [a, b, c, d])) 4
      in (raw, ctx\<lparr>md_buf := (0, 0, load32 m (mem_get raw 8 4), load32 m (mem_get raw 12 4))\<rparr>))"

section \<open>The reference algorithm\<close>

text \<open>RFC 1321: the auxiliary functions, the sine table, the rotation amounts, the word order.\<close>

definition rfc_fun :: "nat \<Rightarrow> u32 \<Rightarrow> u32 \<Rightarrow> u32 \<Rightarrow> u32" where
  "rfc_fun i x y z =
     (if i < 16 then (x AND y) OR (NOT x AND z)
      else if i < 32 then (x AND z) OR (y AND NOT z)
      else if i < 48 then x XOR y XOR z
      else y XOR (x OR NOT z))"

definition rfc_word :: "nat \<Rightarrow> nat" where
  "rfc_word i = (if i < 16 then i else if i < 32 then 5 * i + 1
     else if i < 48 then 3 * i + 5 else 7 * i) mod 16"

definition rfc_shift :: "nat \<Rightarrow> nat" where
  "rfc_shift i = [[7, 12, 17, 22], [5, 9, 14, 20], [4, 11, 16, 23], [6, 10, 15, 21]] ! (i div 16) ! (i mod 4)"

definition rfc_sine :: "u32 list" where
  "rfc_sine =
    [0xd76aa478, 0xe8c7b756, 0x242070db, 0xc1bdceee,
     0xf57c0faf, 0x4787c62a, 0xa8304613, 0xfd469501,
     0x698098d8, 0x8b44f7af, 0xffff5bb1, 0x895cd7be,
     0x6b901122, 0xfd987193, 0xa679438e, 0x49b40821,
     0xf61e2562, 0xc040b340, 0x265e5a51, 0xe9b6c7aa,
     0xd62f105d, 0x02441453, 0xd8a1e681, 0xe7d3fbc8,
     0x21e1cde6, 0xc33707d6, 0xf4d50d87, 0x455a14ed,
     0xa9e3e905, 0xfcefa3f8, 0x676f02d9, 0x8d2a4c8a,
     0xfffa3942, 0x8771f681, 0x6d9d6122, 0xfde5380c,
     0xa4beea44, 0x4bdecfa9, 0xf6bb4b60, 0xbebfbc70,
     0x289b7ec6, 0xeaa127fa, 0xd4ef3085, 0x04881d05,
     0xd9d4d039, 0xe6db99e5, 0x1fa27cf8, 0xc4ac5665,
     0xf4292244, 0x432aff97, 0xab9423a7, 0xfc93a039,
     0x655b59c3, 0x8f0ccc92, 0xffeff47d, 0x85845dd1,
     0x6fa87e4f, 0xfe2ce6e0, 0xa3014314, 0x4e0811a1,
     0xf7537e82, 0xbd3af235, 0x2ad7d2bb, 0xeb86d391]"

definition rfc_step :: "u32 list \<Rightarrow> nat \<Rightarrow> md5_hash \<Rightarrow> md5_hash" where
  "rfc_step X i = (\<lambda>(a, b, c, d).
     (d, b + word_rotl (rfc_shift i) (a + rfc_fun i b c d + X ! rfc_word i + rfc_sine ! i), b, c))"

definition rfc_block :: "u32 list \<Rightarrow> md5_hash \<Rightarrow> md5_hash" where
  "rfc_block X = (\<lambda>(a, b, c, d).
     case fold (rfc_step X) [0..<64] (a, b, c, d) of
       (a', b', c', d') \<Rightarrow> (a + a', b + b', c + c', d + d'))"

fun le_words :: "nat \<Rightarrow> byte list \<Rightarrow> u32 list" where
  "le_words 0 b = []"
| "le_words (Suc n) b = le_word (take 4 b) # le_words n (drop 4 b)"

fun rfc_hash :: "nat \<Rightarrow> byte list \<Rightarrow> md5_hash \<Rightarrow> md5_hash" where
  "rfc_hash 0 b h = h"
| "rfc_hash (Suc n) b h = rfc_hash n (drop 64 b) (rfc_block (le_words 16 (take 64 b)) h)"

text \<open>Padding: one bit, zero bits up to 448 modulo 512, the bit length as 64 bits.\<close>

definition rfc_pad :: "byte list \<Rightarrow> byte list" where
  "rfc_pad bs = bs @ [0x80] @ replicate ((119 - length bs mod 64) mod 64) 0 @
     le_bytes (of_nat (8 * length bs)) @ le_bytes (of_int (8 * int (length bs) div 2 ^ 32))"

definition md5_rfc :: "byte list \<Rightarrow> byte list" where
  "md5_rfc bs = (case rfc_hash (length (rfc_pad bs) div 64) (rfc_pad bs)
       (0x67452301, 0xefcdab89, 0x98badcfe, 0x10325476) of
     (a, b, c, d) \<Rightarrow> le_bytes a @ le_bytes b @ le_bytes c @ le_bytes d)"

section \<open>The transform is the reference block function\<close>

lemma rotl_eq:
  assumes "0 < s" "s < 32"
  shows "push_bit s v OR drop_bit (32 - s) v = word_rotl s (v :: u32)"
proof (rule bit_word_eqI)
  fix i :: nat
  assume i: "i < LENGTH(32)"
  have "bit (word_rotl s v) i \<longleftrightarrow> bit v ((i + (32 - s)) mod 32)"
    using i assms by (simp add: bit_word_rotl_iff)
  moreover have "(i + (32 - s)) mod 32 = (if s \<le> i then i - s else i + (32 - s))"
    using i assms by (auto simp: mod_if)
  moreover have "bit (push_bit s v OR drop_bit (32 - s) v) i \<longleftrightarrow> s \<le> i \<and> bit v (i - s) \<or> bit v (32 - s + i)"
    using i by (auto simp: bit_simps)
  moreover have "\<not> bit v (32 - s + i)" if "s \<le> i"
    using bit_imp_le_length [of v "32 - s + i"] that assms by auto
  ultimately show "bit (push_bit s v OR drop_bit (32 - s) v) i = bit (word_rotl s v) i"
    by (auto simp: add.commute)
qed

definition md5_gstep :: "(u32 \<Rightarrow> u32 \<Rightarrow> u32 \<Rightarrow> u32) \<Rightarrow> u32 \<Rightarrow> nat \<Rightarrow> md5_hash \<Rightarrow> md5_hash" where
  "md5_gstep f dat s = (\<lambda>(a, b, c, d). (d, b + word_rotl s (a + (f b c d + dat)), b, c))"

lemma md5_quad:
  assumes "0 < s1" "s1 < 32" "0 < s2" "s2 < 32" "0 < s3" "s3 < 32" "0 < s4" "s4 < 32"
  shows "md5_gstep f d4 s4 (md5_gstep f d3 s3 (md5_gstep f d2 s2 (md5_gstep f d1 s1 h))) =
    MD5STEP f Rb Rc Rd Ra d4 s4 (MD5STEP f Rc Rd Ra Rb d3 s3
      (MD5STEP f Rd Ra Rb Rc d2 s2 (MD5STEP f Ra Rb Rc Rd d1 s1 h)))"
  by (cases h) (simp add: md5_gstep_def MD5STEP_def Let_def rotl_eq assms add.commute)

lemma rfc_fun_eq:
  "i < 16 \<Longrightarrow> rfc_fun i = F1"
  "16 \<le> i \<Longrightarrow> i < 32 \<Longrightarrow> rfc_fun i = F2"
  "32 \<le> i \<Longrightarrow> i < 48 \<Longrightarrow> rfc_fun i = F3"
  "48 \<le> i \<Longrightarrow> rfc_fun i = F4"
proof -
  show "rfc_fun i = F1" if "i < 16"
    using that by (intro ext bit_word_eqI) (auto simp: rfc_fun_def F1_def bit_simps)
  show "rfc_fun i = F2" if "16 \<le> i" "i < 32"
    using that by (intro ext bit_word_eqI) (auto simp: rfc_fun_def F1_def F2_def bit_simps)
qed (auto simp: rfc_fun_def F3_def F4_def fun_eq_iff)

lemma rfc_step_gstep:
  "rfc_step X i = md5_gstep (rfc_fun i) (X ! rfc_word i + rfc_sine ! i) (rfc_shift i)"
  by (auto simp: rfc_step_def md5_gstep_def add.assoc)

lemma upt_64:
  "[0..<64] = [0, 1, 2, 3, 4, 5, 6, 7, 8, 9, 10, 11, 12, 13, 14, 15, 16, 17, 18, 19, 20, 21, 22, 23, 24,
    25, 26, 27, 28, 29, 30, 31, 32, 33, 34, 35, 36, 37, 38, 39, 40, 41, 42, 43, 44, 45, 46, 47, 48, 49,
    50, 51, 52, 53, 54, 55, 56, 57, 58, 59, 60, 61, 62, 63 :: nat]"
  by (simp add: upt_rec)

lemma md5_steps_rfc: "fold (\<lambda>step r. step r) (md5_steps X) h = fold (rfc_step X) [0..<64] h"
  unfolding upt_64
  by (simp add: rfc_step_gstep rfc_fun_eq rfc_word_def rfc_shift_def rfc_sine_def md5_quad md5_steps_def)

lemma MD5Transform_rfc: "MD5Transform h X = rfc_block X h"
  by (cases h) (simp add: MD5Transform_def md5_steps_rfc rfc_block_def Let_def split: prod.split)

section \<open>Memory lemmas\<close>

lemma setByteOrder_eq: "setByteOrder m = (if m = MSB1st then MSB1st else LSB1st)"
  by (simp add: setByteOrder_def)

lemma length_le_bytes [simp]: "length (le_bytes w) = 4"
  by (simp add: le_bytes_def)

lemma length_store32 [simp]: "length (store32 m w) = 4"
  by (simp add: store32_def)

lemma le_word_bytes [simp]: "le_word (le_bytes w) = w"
proof (rule bit_word_eqI)
  fix i :: nat
  assume "i < LENGTH(32)"
  moreover have "i < 8 \<or> 8 \<le> i \<and> i < 16 \<or> 16 \<le> i \<and> i < 24 \<or> 24 \<le> i" by linarith
  ultimately show "bit (le_word (le_bytes w)) i = bit w i"
    by (elim disjE) (auto simp: le_word_def le_bytes_def bit_simps)
qed

lemma list4:
  assumes "length b = 4"
  shows "\<exists>b0 b1 b2 b3. b = [b0, b1, b2, b3]"
  using assms by (auto simp: numeral_eq_Suc length_Suc_conv)

lemma byte_bit_high [simp]: "8 \<le> k \<Longrightarrow> \<not> bit (b :: byte) (k + n)"
  using bit_imp_le_length [of b "k + n"] by auto

lemma le_bytes_word:
  assumes "length b = 4"
  shows "le_bytes (le_word b) = b"
proof -
  obtain b0 b1 b2 b3 where b: "b = [b0, b1, b2, b3]" using list4 [OF assms] by blast
  have "ucast (le_word b) = b0" "ucast (drop_bit 8 (le_word b)) = b1"
    "ucast (drop_bit 16 (le_word b)) = b2" "ucast (drop_bit 24 (le_word b)) = b3"
    unfolding b by (auto simp: le_word_def bit_simps intro!: bit_word_eqI)
  then show ?thesis unfolding b by (simp add: le_bytes_def)
qed

lemma load_store32 [simp]: "load32 m (store32 m w) = w"
  by (simp add: load32_def store32_def)

lemma store_load32: "length b = 4 \<Longrightarrow> store32 m (load32 m b) = b"
  by (simp add: load32_def store32_def le_bytes_word)

lemma length_byteReverse [simp]: "4 * n \<le> length b \<Longrightarrow> length (byteReverse m b n) = length b"
  by (induction m b n rule: byteReverse.induct) (auto simp: setByteOrder_eq)

text \<open>After \<open>byteReverse\<close> the words in memory are the little-endian words of the bytes.\<close>

lemma load_words_byteReverse:
  "length b = 4 * n \<Longrightarrow> load_words m (byteReverse m b n) n = le_words n b"
proof (induction n arbitrary: b)
  case (Suc n)
  have w: "load32 MSB1st (rev (le_bytes (le_word (take 4 b)))) = le_word (take 4 b)"
    using load_store32 [of MSB1st "le_word (take 4 b)"] by (simp add: store32_def)
  show ?case
  proof (cases "m = MSB1st")
    case True
    then show ?thesis using Suc w by (simp add: setByteOrder_eq store32_def)
  next
    case False
    then have "byteReverse m (drop 4 b) n = drop 4 b" by (cases n) (simp_all add: setByteOrder_eq)
    then show ?thesis using Suc.IH [of "drop 4 b"] Suc.prems False by (simp add: setByteOrder_eq load32_def)
  qed
qed simp

lemma mem_put_Cons:
  "p + length bs < length q \<Longrightarrow> mem_put (q[p := b]) (Suc p) bs = mem_put q p (b # bs)"
  by (simp add: mem_put_def take_Suc_conv_app_nth)

lemma mem_put_one: "p < length q \<Longrightarrow> mem_put q p [b] = q[p := b]"
  by (simp add: mem_put_def upd_conv_take_nth_drop)

section \<open>Feeding bytes\<close>

text \<open>
  The state is the position in the block, the block buffer and the hash. A byte goes into the
  buffer; the byte that fills it triggers the transform.
\<close>

type_synonym md5_state = "nat \<times> byte list \<times> md5_hash"

definition md5_put :: "byte_order \<Rightarrow> byte \<Rightarrow> md5_state \<Rightarrow> md5_state" where
  "md5_put m b = (\<lambda>(t, ib, h). let ib = ib[t := b] in
     if Suc t = 64
     then let ib = byteReverse m ib 16 in (0, ib, MD5Transform h (load_words m ib 16))
     else (Suc t, ib, h))"

definition md5_feed :: "byte_order \<Rightarrow> byte list \<Rightarrow> md5_state \<Rightarrow> md5_state" where
  "md5_feed m = fold (md5_put m)"

definition md5_turn :: "byte_order \<Rightarrow> byte list \<Rightarrow> md5_hash \<Rightarrow> md5_state" where
  "md5_turn m ib h = (let ib = byteReverse m ib 16 in (0, ib, MD5Transform h (load_words m ib 16)))"

lemma md5_feed_simps [simp]:
  "md5_feed m [] x = x" "md5_feed m (b # bs) x = md5_feed m bs (md5_put m b x)"
  "md5_feed m (bs @ cs) x = md5_feed m cs (md5_feed m bs x)"
  by (simp_all add: md5_feed_def)

lemma md5_feed_short:
  "t + length bs < 64 \<Longrightarrow> length ib = 64 \<Longrightarrow>
    md5_feed m bs (t, ib, h) = (t + length bs, mem_put ib t bs, h)"
proof (induction bs arbitrary: t ib)
  case (Cons b bs)
  then show ?case by (simp add: md5_put_def mem_put_Cons)
qed simp

lemma md5_feed_full:
  assumes "t + length bs = 64" "t < 64" "length ib = 64"
  shows "md5_feed m bs (t, ib, h) = md5_turn m (mem_put ib t bs) h"
proof -
  obtain cs c where bs: "bs = cs @ [c]" using assms(1,2) by (cases bs rule: rev_cases) auto
  have tc: "t + length cs = 63" using assms(1) bs by simp
  have len: "length (mem_put ib t cs) = 64" by (subst length_mem_put) (use tc assms(3) in linarith)+
  have "mem_put (mem_put ib t cs) 63 [c] = mem_put ib t (cs @ [c])"
    by (rule mem_put_put) (use tc assms(3) in simp_all)
  then have "mem_put ib t bs = (mem_put ib t cs)[63 := c]"
    using mem_put_one [of 63 "mem_put ib t cs" c] len bs by simp
  moreover have "md5_feed m bs (t, ib, h) = md5_put m c (63, mem_put ib t cs, h)"
    unfolding bs md5_feed_simps using md5_feed_short [of t cs ib m h] tc assms(3) by simp
  ultimately show ?thesis by (simp add: md5_put_def md5_turn_def)
qed

lemma md5_feed_ok:
  "length ib = 64 \<Longrightarrow> t < 64 \<Longrightarrow>
    fst (md5_feed m bs (t, ib, h)) = (t + length bs) mod 64 \<and> length (fst (snd (md5_feed m bs (t, ib, h)))) = 64"
proof (induction bs arbitrary: t ib h)
  case (Cons b bs)
  show ?case
  proof (cases "Suc t = 64")
    case True
    then have t: "t = 63" by simp
    have "(63 + length (b # bs)) mod 64 = (0 + length bs) mod 64" by simp
    then show ?thesis using Cons.IH [of "byteReverse m (ib[63 := b]) 16" 0] Cons.prems
      unfolding t by (simp add: md5_put_def Let_def)
  next
    case False
    then show ?thesis using Cons.IH [of "ib[t := b]" "Suc t" h] Cons.prems by (simp add: md5_put_def)
  qed
qed simp

section \<open>The bit count\<close>

definition md5_bits_of :: "nat \<Rightarrow> u32 \<times> u32" where
  "md5_bits_of n = (of_nat n, of_nat (n div 4294967296))"

lemma md5_bits_surj: "\<exists>n. bits = md5_bits_of n"
proof -
  obtain b0 b1 where b: "bits = (b0, b1)" by force
  have "of_nat (unat b0 + 4294967296 * unat b1) = b0"
  proof -
    have "(of_nat 4294967296 :: u32) = 0" by simp
    then show ?thesis by (simp only: of_nat_add of_nat_mult) simp
  qed
  moreover have "(unat b0 + 4294967296 * unat b1) div 4294967296 = unat b1"
    using unsigned_less [of b0, where ?'a = nat] by simp
  ultimately have "bits = md5_bits_of (unat b0 + 4294967296 * unat b1)" by (simp add: md5_bits_of_def b)
  then show ?thesis by blast
qed

lemma add_div_carry:
  fixes a b c :: nat
  assumes "a < c" "b < c"
  shows "(a + b) div c = (if (a + b) mod c < a then 1 else 0)"
proof (cases "a + b < c")
  case False
  then have "a + b = (a + b - c) + c" "a + b - c < c" "a + b - c < a" using assms by simp_all
  then have "(a + b) div c = 1" "(a + b) mod c = a + b - c"
    by (metis add_cancel_left_left div_add_self2 div_less less_nat_zero_code)
      (metis \<open>a + b - c < c\<close> \<open>a + b = (a + b - c) + c\<close> mod_add_self2 mod_less)
  then show ?thesis using \<open>a + b - c < a\<close> by simp
qed simp

lemma md5_carry:
  assumes "l < (4294967296 :: nat)"
  shows "(n + 8 * l) div 4294967296 = n div 4294967296 +
    (if (n + 8 * l) mod 4294967296 < n mod 4294967296 then 1 else 0) + l div 536870912"
proof -
  let ?c = "4294967296 :: nat"
  have l: "(8 * l) div ?c = l div 536870912"
    using div_mult_mult1 [of 8 l 536870912] by simp
  have s: "(n + 8 * l) div ?c = n div ?c + (8 * l) div ?c + (n mod ?c + (8 * l) mod ?c) div ?c"
    by (rule div_add1_eq)
  have "(n mod ?c + (8 * l) mod ?c) div ?c =
      (if (n mod ?c + (8 * l) mod ?c) mod ?c < n mod ?c then 1 else 0)"
    by (rule add_div_carry) simp_all
  then show ?thesis unfolding s l mod_add_eq by simp
qed

lemma md5_add_bits_of:
  assumes "l < 4294967296"
  shows "md5_add_bits (md5_bits_of n) (of_nat l) = md5_bits_of (n + 8 * l)"
proof -
  have b0: "(of_nat n :: u32) + push_bit 3 (of_nat l) = of_nat (n + 8 * l)"
    by (simp add: push_bit_eq_mult)
  have d: "drop_bit 29 (of_nat l :: u32) = of_nat (l div 536870912)"
  proof (rule word_unat_eq_iff [THEN iffD2])
    have "unat (of_nat l :: u32) = l" using assms by (simp add: unat_of_nat)
    moreover have "unat (of_nat (l div 536870912) :: u32) = l div 536870912"
      using assms div_le_dividend [of l 536870912] by (simp add: unat_of_nat)
    ultimately show "unat (drop_bit 29 (of_nat l :: u32)) = unat (of_nat (l div 536870912) :: u32)"
      by (simp add: unat_drop_bit_eq drop_bit_eq_div unat_div_distrib)
  qed
  have c: "(of_nat (n + 8 * l) :: u32) < of_nat n \<longleftrightarrow> (n + 8 * l) mod 4294967296 < n mod 4294967296"
    by (simp only: word_less_nat_alt unat_of_nat) simp
  show ?thesis
    unfolding md5_add_bits_def md5_bits_of_def Let_def prod.case b0 c d md5_carry [OF assms]
    by simp
qed

lemma md5_pos_of: "unat (drop_bit 3 (fst (md5_bits_of n)) AND 0x3f) = n div 8 mod 64"
proof -
  have "(0x3f :: u32) = mask 6" by (simp add: mask_eq_exp_minus_1)
  then have "unat (drop_bit 3 (of_nat n :: u32) AND 0x3f) = unat (drop_bit 3 (of_nat n :: u32)) mod 64"
    by (simp only: take_bit_eq_mask [symmetric] unsigned_take_bit_eq) (simp add: take_bit_eq_mod)
  also have "unat (drop_bit 3 (of_nat n :: u32)) = (n mod 4294967296) div 8"
    by (simp add: drop_bit_eq_div unat_div_distrib unat_of_nat)
  also have "(n mod 4294967296) div 8 mod 64 = n div 8 mod 64"
  proof -
    have "n mod 4294967296 = 8 * (n div 8 mod 536870912) + n mod 8"
      using mod_mult2_eq [of n 8 536870912] by simp
    then have "(n mod 4294967296) div 8 = n div 8 mod 536870912" by simp
    then show ?thesis by (simp add: mod_mod_cancel)
  qed
  finally show ?thesis by (simp add: md5_bits_of_def)
qed

section \<open>Update feeds its bytes\<close>

definition md5_pos :: "md5_ctx \<Rightarrow> nat" where
  "md5_pos ctx = unat (drop_bit 3 (fst (md_bits ctx)) AND 0x3f)"

definition md5_state_of :: "md5_ctx \<Rightarrow> md5_state" where
  "md5_state_of ctx = (md5_pos ctx, md_in ctx, md_buf ctx)"

lemma md5_pos_less: "md5_pos ctx < 64"
proof -
  obtain n where "md_bits ctx = md5_bits_of n" using md5_bits_surj by blast
  then show ?thesis by (simp add: md5_pos_def md5_pos_of)
qed

lemma md5_consume_turn:
  assumes "md5_turn m (md_in ctx) (md_buf ctx) = (t, ib, h)"
  shows "md_in (md5_consume m ctx) = ib" "md_buf (md5_consume m ctx) = h"
    "md_bits (md5_consume m ctx) = md_bits ctx" "t = 0"
  using assms by (auto simp: md5_consume_def md5_turn_def Let_def)

lemma md5_blocks_feed:
  "length (md_in ctx) = 64 \<Longrightarrow> md_bits (md5_blocks m ctx buf) = md_bits ctx \<and>
    (length buf mod 64, md_in (md5_blocks m ctx buf), md_buf (md5_blocks m ctx buf)) =
      md5_feed m buf (0, md_in ctx, md_buf ctx)"
proof (induction m ctx buf rule: md5_blocks.induct)
  case (1 m ctx buf)
  show ?case
  proof (cases "64 \<le> length buf")
    case True
    let ?c = "ctx\<lparr>md_in := mem_put (md_in ctx) 0 (take 64 buf)\<rparr>"
    obtain t ib h where turn: "md5_turn m (md_in ?c) (md_buf ?c) = (t, ib, h)"
      by (cases "md5_turn m (md_in ?c) (md_buf ?c)")
    note cons = md5_consume_turn [OF turn]
    have len: "length (take 64 buf) = 64" using True by simp
    have "length (md_in ?c) = 64" using "1.prems" True by (simp add: length_mem_put)
    then have ib: "length ib = 64" using turn by (auto simp: md5_turn_def Let_def)
    have "md5_feed m (take 64 buf) (0, md_in ctx, md_buf ctx) = (0, ib, h)"
      using md5_feed_full [of 0 "take 64 buf" "md_in ctx"] len "1.prems" turn cons(4) by simp
    then have "md5_feed m buf (0, md_in ctx, md_buf ctx) = md5_feed m (drop 64 buf) (0, ib, h)"
      using md5_feed_simps(3) [of m "take 64 buf" "drop 64 buf"] by simp
    moreover have "length (drop 64 buf) mod 64 = length buf mod 64"
      using True by (simp add: le_mod_geq)
    ultimately show ?thesis
      using "1.IH" [OF True] cons ib True by (subst (1 2 3) md5_blocks.simps) simp
  next
    case False
    then show ?thesis
      using md5_feed_short [of 0 buf "md_in ctx" m "md_buf ctx"] "1.prems"
      by (subst (1 2 3) md5_blocks.simps) simp
  qed
qed

lemma MD5Update_feed:
  assumes "length (md_in ctx) = 64" "length buf < 4294967296"
  shows "md_bits (MD5Update m ctx buf) = md5_add_bits (md_bits ctx) (of_nat (length buf))"
    "md5_state_of (MD5Update m ctx buf) = md5_feed m buf (md5_state_of ctx)"
proof -
  let ?t = "md5_pos ctx" and ?bits = "md5_add_bits (md_bits ctx) (of_nat (length buf))"
  obtain n where n: "md_bits ctx = md5_bits_of n" using md5_bits_surj by blast
  have t: "?t = n div 8 mod 64" "?t < 64" using n md5_pos_less by (simp_all add: md5_pos_def md5_pos_of)
  have bits: "?bits = md5_bits_of (n + 8 * length buf)" using n md5_add_bits_of [OF assms(2)] by simp
  define c where "c = ctx\<lparr>md_bits := ?bits\<rparr>"
  have c: "md_in c = md_in ctx" "md_buf c = md_buf ctx" "md_bits c = ?bits" by (simp_all add: c_def)
  have upd: "MD5Update m ctx buf =
    (if ?t \<noteq> 0 then
       if length buf < 64 - ?t then c\<lparr>md_in := mem_put (md_in c) ?t buf\<rparr>
       else md5_blocks m (md5_consume m (c\<lparr>md_in := mem_put (md_in c) ?t (take (64 - ?t) buf)\<rparr>)) (drop (64 - ?t) buf)
     else md5_blocks m c buf)"
    unfolding MD5Update_def md5_pos_def c_def Let_def by simp
  have "md_bits (MD5Update m ctx buf) = ?bits \<and>
    (\<exists>t'. (t', md_in (MD5Update m ctx buf), md_buf (MD5Update m ctx buf)) = md5_feed m buf (md5_state_of ctx))"
  proof -
    consider "?t = 0" | "?t \<noteq> 0" "length buf < 64 - ?t" | "?t \<noteq> 0" "64 - ?t \<le> length buf" by linarith
    then show ?thesis
    proof cases
      case 1
      then show ?thesis using md5_blocks_feed [of c m buf] assms(1) c upd by (auto simp: md5_state_of_def)
    next
      case 2
      then show ?thesis
        using md5_feed_short [of ?t buf "md_in ctx" m "md_buf ctx"] assms(1) c upd t(2)
        by (auto simp: md5_state_of_def)
    next
      case 3
      let ?k = "64 - ?t"
      let ?c = "c\<lparr>md_in := mem_put (md_in c) ?t (take ?k buf)\<rparr>"
      obtain z ib h where turn: "md5_turn m (md_in ?c) (md_buf ?c) = (z, ib, h)"
        by (cases "md5_turn m (md_in ?c) (md_buf ?c)")
      note cons = md5_consume_turn [OF turn]
      have full: "?t + length (take ?k buf) = 64" using 3 t(2) by simp
      have "length (md_in ?c) = 64" using full assms(1) c by (simp add: length_mem_put)
      then have ib: "length ib = 64" using turn by (auto simp: md5_turn_def Let_def)
      have "md5_feed m (take ?k buf) (md5_state_of ctx) = (0, ib, h)"
        unfolding md5_state_of_def
        using md5_feed_full [OF full t(2) assms(1)] turn cons(4) c by simp
      then have "md5_feed m buf (md5_state_of ctx) = md5_feed m (drop ?k buf) (0, ib, h)"
        using md5_feed_simps(3) [of m "take ?k buf" "drop ?k buf"] by simp
      then show ?thesis
        using md5_blocks_feed [of "md5_consume m ?c" m "drop ?k buf"] 3 cons ib c upd by auto
    qed
  qed
  then obtain t' where r: "md_bits (MD5Update m ctx buf) = ?bits"
    "(t', md_in (MD5Update m ctx buf), md_buf (MD5Update m ctx buf)) = md5_feed m buf (md5_state_of ctx)"
    by blast
  show "md_bits (MD5Update m ctx buf) = ?bits" by (fact r(1))
  have "t' = (?t + length buf) mod 64"
    using md5_feed_ok [OF assms(1) t(2), of m buf "md_buf ctx"] r(2) by (metis fst_conv md5_state_of_def)
  also have "\<dots> = (n + 8 * length buf) div 8 mod 64" unfolding t(1) mod_add_left_eq by (simp add: add.commute)
  also have "\<dots> = md5_pos (MD5Update m ctx buf)" using r(1) bits by (simp add: md5_pos_def md5_pos_of)
  finally show "md5_state_of (MD5Update m ctx buf) = md5_feed m buf (md5_state_of ctx)"
    using r(2) unfolding md5_state_of_def by simp
qed

definition md5_ready :: "md5_ctx \<Rightarrow> bool" where
  "md5_ready ctx \<longleftrightarrow> length (md_in ctx) = 64"

definition md5_fits :: "byte list \<Rightarrow> bool" where
  "md5_fits buf \<longleftrightarrow> length buf < 4294967296"

lemma md5_add_bits_add:
  "l1 + l2 < 4294967296 \<Longrightarrow>
    md5_add_bits (md5_add_bits bits (of_nat l1)) (of_nat l2) = md5_add_bits bits (of_nat (l1 + l2))"
  using md5_bits_surj [of bits] by (auto simp: md5_add_bits_of add.assoc simp del: of_nat_add)

lemma MD5Update_ready:
  assumes "md5_ready ctx" "md5_fits buf"
  shows "md5_ready (MD5Update m ctx buf)"
proof -
  have "length (fst (snd (md5_state_of (MD5Update m ctx buf)))) = 64"
    using MD5Update_feed(2) [of ctx buf m] md5_feed_ok [of "md_in ctx" "md5_pos ctx" m buf "md_buf ctx"]
      md5_pos_less assms by (simp add: md5_ready_def md5_fits_def md5_state_of_def)
  then show ?thesis by (simp add: md5_ready_def md5_state_of_def)
qed

lemma md5_ctx_eqI:
  assumes "md5_state_of c = md5_state_of d" "md_bits c = md_bits (d :: md5_ctx)"
  shows "c = d"
  using assms by (intro md5_ctx.equality) (auto simp: md5_state_of_def)

lemma md5_stream: "stream_digest (MD5Update m) md5_ready md5_fits"
proof (unfold_locales, goal_cases)
  case (1 c bs)
  then show ?case by (rule MD5Update_ready)
next
  case (2 c as bs)
  then have f: "md5_fits as" "md5_fits bs" "length as + length bs < 4294967296" by (auto simp: md5_fits_def)
  have r: "md5_ready (MD5Update m c as)" by (rule MD5Update_ready [OF 2(1) f(1)])
  show ?case
    using MD5Update_feed [of c as m] MD5Update_feed [of "MD5Update m c as" bs m]
      MD5Update_feed [of c "as @ bs" m] md5_add_bits_add [OF f(3)] 2 f r
    by (intro md5_ctx_eqI) (simp_all add: md5_ready_def md5_fits_def)
next
  case (3 c)
  have "md5_add_bits (md_bits c) (of_nat 0) = md_bits c"
    using md5_bits_surj [of "md_bits c"] md5_add_bits_of [of 0] by auto
  then show ?case
    using MD5Update_feed [of c "[]" m] 3 by (intro md5_ctx_eqI) (simp_all add: md5_ready_def)
next
  case (4 as bs)
  then show ?case by (simp add: md5_fits_def)
qed

interpretation md5_le: stream_digest "MD5Update LSB1st" md5_ready md5_fits
  by (rule md5_stream)

interpretation md5_be: stream_digest "MD5Update MSB1st" md5_ready md5_fits
  by (rule md5_stream)

section \<open>The digest is the reference digest\<close>

lemma load_words_append:
  "length a = 4 * n \<Longrightarrow> load_words m (a @ b) (n + k) = load_words m a n @ load_words m b k"
  by (induction n arbitrary: a) auto

lemma le_words_append:
  "length a = 4 * n \<Longrightarrow> le_words (n + k) (a @ b) = le_words n a @ le_words k b"
  by (induction n arbitrary: a) auto

lemma take_byteReverse:
  "4 * n \<le> length b \<Longrightarrow> take (4 * n) (byteReverse m b n) = byteReverse m (take (4 * n) b) n"
proof (induction n arbitrary: b)
  case (Suc n)
  then show ?case
    using Suc.IH [of "drop 4 b"] by (cases "m = MSB1st") (simp_all add: setByteOrder_eq drop_take)
qed simp

lemma md5_final_words:
  assumes "length X = 64"
  shows "load_words m (mem_put (mem_put (byteReverse m X 14) 56 (store32 m b0)) 60 (store32 m b1)) 16 =
    le_words 16 (take 56 X @ le_bytes b0 @ le_bytes b1)"
proof -
  let ?A = "byteReverse m X 14"
  have tA: "take 56 ?A = byteReverse m (take 56 X) 14" using take_byteReverse [of 14 X m] assms by simp
  have "mem_put (mem_put ?A 56 (store32 m b0)) 60 (store32 m b1) = take 56 ?A @ store32 m b0 @ store32 m b1"
    using assms by (simp add: mem_put_def)
  moreover have "load_words m (take 56 ?A @ store32 m b0 @ store32 m b1) (14 + 2) =
      load_words m (take 56 ?A) 14 @ load_words m (store32 m b0 @ store32 m b1) 2"
    using assms by (intro load_words_append) simp
  moreover have "load_words m (take 56 ?A) 14 = le_words 14 (take 56 X)"
    unfolding tA using assms by (intro load_words_byteReverse) simp
  moreover have "load_words m (store32 m b0 @ store32 m b1) 2 = le_words 2 (le_bytes b0 @ le_bytes b1)"
    by (simp add: numeral_2_eq_2)
  moreover have "le_words (14 + 2) (take 56 X @ le_bytes b0 @ le_bytes b1) =
      le_words 14 (take 56 X) @ le_words 2 (le_bytes b0 @ le_bytes b1)"
    using assms by (intro le_words_append) simp
  ultimately show ?thesis by simp
qed

lemma md5_digest_bytes:
  "byteReverse m (concat (map (store32 m) [a, b, c, d])) 4 = le_bytes a @ le_bytes b @ le_bytes c @ le_bytes d"
  using le_bytes_word [of "rev (le_bytes _)"]
  by (simp add: numeral_eq_Suc setByteOrder_eq store32_def)

text \<open>The transform at the end of a block, in terms of the reference.\<close>

lemma md5_turn_rfc:
  "length ib = 64 \<Longrightarrow> \<exists>ib'. length ib' = 64 \<and> md5_turn m ib h = (0, ib', rfc_block (le_words 16 ib) h)"
  using load_words_byteReverse [of ib 16 m] by (simp add: md5_turn_def Let_def MD5Transform_rfc)

definition md5_len_bytes :: "u32 \<times> u32 \<Rightarrow> byte list" where
  "md5_len_bytes bits = le_bytes (fst bits) @ le_bytes (snd bits)"

definition md5_tail :: "nat \<Rightarrow> u32 \<times> u32 \<Rightarrow> byte list" where
  "md5_tail t bits = [0x80] @ replicate ((119 - t) mod 64) 0 @ md5_len_bytes bits"

definition md5_out :: "md5_hash \<Rightarrow> byte list" where
  "md5_out = (\<lambda>(a, b, c, d). le_bytes a @ le_bytes b @ le_bytes c @ le_bytes d)"

text \<open>Everything after the padding, as a function of the hash, the count and the block.\<close>

definition md5_last :: "byte_order \<Rightarrow> md5_hash \<Rightarrow> u32 \<times> u32 \<Rightarrow> byte list \<Rightarrow> md5_hash" where
  "md5_last m h bits X = MD5Transform h (load_words m
     (mem_put (mem_put (byteReverse m X 14) 56 (store32 m (fst bits))) 60 (store32 m (snd bits))) 16)"

lemma MD5Final_last:
  "fst (MD5Final m ctx) = (let p = md5_final_pad m ctx in md5_out (md5_last m (md_buf p) (md_bits p) (md_in p)))"
proof -
  define p where "p = md5_final_pad m ctx"
  obtain a b c d where q: "md5_last m (md_buf p) (md_bits p) (md_in p) = (a, b, c, d)"
    by (cases "md5_last m (md_buf p) (md_bits p) (md_in p)")
  have "fst (MD5Final m ctx) = byteReverse m (concat (map (store32 m) [a, b, c, d])) 4"
    using q unfolding MD5Final_def p_def [symmetric] md5_last_def Let_def by simp
  then show ?thesis unfolding p_def [symmetric] Let_def q md5_out_def md5_digest_bytes by simp
qed

lemma md5_last_rfc:
  "length X = 64 \<Longrightarrow> md5_last m h bits X = rfc_block (le_words 16 (take 56 X @ md5_len_bytes bits)) h"
  by (simp add: md5_last_def md5_final_words MD5Transform_rfc md5_len_bytes_def)

lemma length_md5_tail: "t < 64 \<Longrightarrow> length (md5_tail t bits) = (if t < 56 then 64 - t else 128 - t)"
  by (auto simp: md5_tail_def md5_len_bytes_def mod_if)

text \<open>Final hashes what feeding the tail would hash.\<close>

lemma MD5Final_feed:
  assumes "length (md_in ctx) = 64"
  shows "\<exists>ib h. md5_feed m (md5_tail (md5_pos ctx) (md_bits ctx)) (md5_state_of ctx) = (0, ib, h) \<and>
    fst (MD5Final m ctx) = md5_out h"
proof (cases "md5_pos ctx < 56")
  case True
  let ?t = "md5_pos ctx" and ?X = "(md_in ctx)[md5_pos ctx := 0x80]"
  let ?Y = "mem_put ?X (?t + 1) (replicate (55 - ?t) 0)" and ?z = "replicate (55 - ?t) (0 :: byte)"
  have pad: "md5_final_pad m ctx = ctx\<lparr>md_in := ?Y\<rparr>"
    unfolding md5_final_pad_def md5_pos_def [symmetric] Let_def using True by simp
  have tail: "md5_tail ?t (md_bits ctx) = (0x80 # ?z) @ md5_len_bytes (md_bits ctx)"
    using True by (simp add: md5_tail_def mod_if)
  have Y: "?Y = mem_put (md_in ctx) ?t (0x80 # ?z)" using mem_put_Cons [of ?t ?z "md_in ctx" "0x80"] assms True by simp
  have len: "length ?Y = 64" using assms True by (simp add: length_mem_put)
  have full: "take 56 ?Y @ md5_len_bytes (md_bits ctx) = mem_put (md_in ctx) ?t (md5_tail ?t (md_bits ctx))"
  proof -
    have "56 - ?t = Suc (55 - ?t)" using True by simp
    then show ?thesis unfolding Y tail using assms True by (simp add: mem_put_def md5_len_bytes_def)
  qed
  have l: "length (mem_put (md_in ctx) ?t (md5_tail ?t (md_bits ctx))) = 64"
    unfolding full [symmetric] using len by (simp add: md5_len_bytes_def)
  obtain ib where "md5_turn m (mem_put (md_in ctx) ?t (md5_tail ?t (md_bits ctx))) (md_buf ctx) =
      (0, ib, rfc_block (le_words 16 (take 56 ?Y @ md5_len_bytes (md_bits ctx))) (md_buf ctx))"
    using md5_turn_rfc [OF l, of m "md_buf ctx"] full by auto
  moreover have "md5_feed m (md5_tail ?t (md_bits ctx)) (md5_state_of ctx) =
      md5_turn m (mem_put (md_in ctx) ?t (md5_tail ?t (md_bits ctx))) (md_buf ctx)"
    unfolding md5_state_of_def using True length_md5_tail [of ?t "md_bits ctx"] assms by (intro md5_feed_full) auto
  ultimately show ?thesis
    using MD5Final_last [of m ctx] md5_last_rfc [OF len] by (simp add: pad Let_def)
next
  case False
  let ?t = "md5_pos ctx" and ?X = "(md_in ctx)[md5_pos ctx := 0x80]"
  have t: "?t < 64" by (rule md5_pos_less)
  have lt: "63 - ?t < 8" using False by linarith
  let ?z = "replicate (63 - ?t) (0 :: byte)" and ?w = "replicate 56 (0 :: byte) @ md5_len_bytes (md_bits ctx)"
  let ?Y = "mem_put ?X (?t + 1) ?z"
  have Y: "?Y = mem_put (md_in ctx) ?t (0x80 # ?z)" using mem_put_Cons [of ?t ?z "md_in ctx" "0x80"] assms t by simp
  have lenY: "length ?Y = 64" using assms t by (simp add: length_mem_put)
  obtain ib where turn: "length ib = 64" "md5_turn m ?Y (md_buf ctx) = (0, ib, rfc_block (le_words 16 ?Y) (md_buf ctx))"
    using md5_turn_rfc [OF lenY] by blast
  let ?h = "rfc_block (le_words 16 ?Y) (md_buf ctx)" and ?Z = "mem_put ib 0 (replicate 56 0)"
  have pad: "md_buf (md5_final_pad m ctx) = ?h" "md_bits (md5_final_pad m ctx) = md_bits ctx"
    "md_in (md5_final_pad m ctx) = ?Z"
    using md5_consume_turn [of m "ctx\<lparr>md_in := ?Y\<rparr>"] turn(2) lt
    unfolding md5_final_pad_def md5_pos_def [symmetric] Let_def by simp_all
  have lenZ: "length ?Z = 64" "take 56 ?Z = replicate 56 0" using turn(1) by (simp_all add: mem_put_def)
  have "md5_tail ?t (md_bits ctx) = (0x80 # ?z) @ ?w"
  proof -
    have "(119 - ?t) mod 64 = (63 - ?t) + 56" using False t by simp
    then show ?thesis by (simp only: md5_tail_def replicate_add append_Cons append_Nil append_assoc)
  qed
  moreover have "md5_feed m (0x80 # ?z) (md5_state_of ctx) = (0, ib, ?h)"
    unfolding md5_state_of_def using t assms Y turn(2) md5_feed_full [of ?t "0x80 # ?z" "md_in ctx" m "md_buf ctx"] by simp
  moreover have "md5_feed m ?w (0, ib, ?h) = md5_turn m ?w ?h"
    using md5_feed_full [of 0 ?w ib m ?h] turn(1) by (simp add: md5_len_bytes_def mem_put_def del: md5_feed_simps)
  moreover obtain ib2 where "md5_turn m ?w ?h = (0, ib2, rfc_block (le_words 16 ?w) ?h)"
    using md5_turn_rfc [of ?w m ?h] by (auto simp: md5_len_bytes_def)
  ultimately have "md5_feed m (md5_tail ?t (md_bits ctx)) (md5_state_of ctx) = (0, ib2, rfc_block (le_words 16 ?w) ?h)"
    by (simp only: md5_feed_simps(3))
  moreover have "fst (MD5Final m ctx) = md5_out (rfc_block (le_words 16 ?w) ?h)"
    unfolding MD5Final_last Let_def pad md5_last_rfc [OF lenZ(1)] lenZ(2) ..
  ultimately show ?thesis by blast
qed

lemma md5_feed_rfc:
  "length ib = 64 \<Longrightarrow> length bs = 64 * k \<Longrightarrow>
    \<exists>ib'. md5_feed m bs (0, ib, h) = (0, ib', rfc_hash k bs h)"
proof (induction k arbitrary: ib bs h)
  case (Suc k)
  have tk: "length (take 64 bs) = 64" using Suc.prems by simp
  obtain ib2 where t: "length ib2 = 64" "md5_turn m (take 64 bs) h = (0, ib2, rfc_block (le_words 16 (take 64 bs)) h)"
    using md5_turn_rfc [OF tk] by blast
  have "mem_put ib 0 (take 64 bs) = take 64 bs" using Suc.prems tk by (intro mem_put_whole) simp
  then have "md5_feed m (take 64 bs) (0, ib, h) = md5_turn m (take 64 bs) h"
    using md5_feed_full [of 0 "take 64 bs" ib m h] tk Suc.prems by simp
  then have "md5_feed m bs (0, ib, h) = md5_feed m (drop 64 bs) (0, ib2, rfc_block (le_words 16 (take 64 bs)) h)"
    using md5_feed_simps(3) [of m "take 64 bs" "drop 64 bs"] t(2) by simp
  then show ?case using Suc.IH [of ib2 "drop 64 bs"] t(1) Suc.prems by simp
qed simp

lemma MD5Update_chunks:
  "md5_ready ctx \<Longrightarrow> \<forall>cs \<in> set css. md5_fits cs \<Longrightarrow> md_bits ctx = md5_bits_of (8 * k) \<Longrightarrow>
    md5_ready (fold (\<lambda>cs c. MD5Update m c cs) css ctx) \<and>
    md_bits (fold (\<lambda>cs c. MD5Update m c cs) css ctx) = md5_bits_of (8 * (k + length (concat css))) \<and>
    md5_state_of (fold (\<lambda>cs c. MD5Update m c cs) css ctx) = md5_feed m (concat css) (md5_state_of ctx)"
proof (induction css arbitrary: ctx k)
  case (Cons cs css)
  note u = MD5Update_feed [of ctx cs m]
  have "md_bits (MD5Update m ctx cs) = md5_bits_of (8 * (k + length cs))"
    using u(1) Cons.prems by (simp add: md5_ready_def md5_fits_def md5_add_bits_of algebra_simps)
  then show ?case
    using Cons.IH [of "MD5Update m ctx cs" "k + length cs"] Cons.prems u(2) MD5Update_ready [of ctx cs m]
    by (simp add: md5_ready_def md5_fits_def add.assoc)
qed simp

lemma rfc_pad_tail: "rfc_pad bs = bs @ md5_tail (length bs mod 64) (md5_bits_of (8 * length bs))"
proof -
  have "8 * int (length bs) div 2 ^ 32 = int (8 * length bs div 4294967296)" by (simp add: zdiv_int)
  then have "(of_int (8 * int (length bs) div 2 ^ 32) :: u32) = of_nat (8 * length bs div 4294967296)"
    by (metis of_int_of_nat_eq)
  then show ?thesis by (simp add: rfc_pad_def md5_tail_def md5_len_bytes_def md5_bits_of_def)
qed

lemma length_rfc_pad: "\<exists>k. length (rfc_pad bs) = 64 * k"
proof -
  obtain q r where r: "r < 64" "length bs = 64 * q + r" "length bs mod 64 = r"
    using mult_div_mod_eq [of 64 "length bs"] by (metis mod_less_divisor zero_less_numeral)
  then have "length (rfc_pad bs) = (64 * q + r) + (if r < 56 then 64 - r else 128 - r)"
    by (simp add: rfc_pad_tail length_md5_tail)
  also have "\<dots> = 64 * (q + (if r < 56 then 1 else 2))" using r(1) by simp
  finally show ?thesis by blast
qed

lemma md5_digest_eq:
  assumes "length (md_in ctx) = 64" "\<forall>cs \<in> set css. length cs < 4294967296"
  shows "fst (MD5Final m (fold (\<lambda>cs c. MD5Update m c cs) css (MD5Init ctx))) = md5_rfc (concat css)"
proof -
  let ?c = "fold (\<lambda>cs c. MD5Update m c cs) css (MD5Init ctx)" and ?M = "concat css"
  let ?h0 = "(0x67452301, 0xefcdab89, 0x98badcfe, 0x10325476) :: md5_hash"
  have init: "md5_ready (MD5Init ctx)" "md_bits (MD5Init ctx) = md5_bits_of (8 * 0)"
    "md5_state_of (MD5Init ctx) = (0, md_in ctx, ?h0)"
    using assms(1) by (simp_all add: md5_ready_def MD5Init_def md5_bits_of_def md5_state_of_def md5_pos_def)
  have c: "md5_ready ?c" "md_bits ?c = md5_bits_of (8 * length ?M)"
    "md5_state_of ?c = md5_feed m ?M (0, md_in ctx, ?h0)"
    using MD5Update_chunks [OF init(1) _ init(2), of css m] assms(2) init(3) by (auto simp: md5_fits_def)
  have pos: "md5_pos ?c = length ?M mod 64" using c(2) by (simp add: md5_pos_def md5_pos_of)
  obtain ib h where f: "md5_feed m (md5_tail (md5_pos ?c) (md_bits ?c)) (md5_state_of ?c) = (0, ib, h)"
    "fst (MD5Final m ?c) = md5_out h"
    using MD5Final_feed [of ?c m] c(1) by (auto simp: md5_ready_def)
  have fed: "md5_feed m (rfc_pad ?M) (0, md_in ctx, ?h0) = (0, ib, h)"
    using f(1) unfolding rfc_pad_tail pos c(2,3) md5_feed_simps .
  have "length (rfc_pad ?M) = 64 * (length (rfc_pad ?M) div 64)" using length_rfc_pad [of ?M] by auto
  then have "h = rfc_hash (length (rfc_pad ?M) div 64) (rfc_pad ?M) ?h0"
    using md5_feed_rfc [OF assms(1), of "rfc_pad ?M" "length (rfc_pad ?M) div 64" m ?h0] fed by auto
  then show ?thesis using f(2) by (simp add: md5_rfc_def md5_out_def)
qed

section \<open>Properties\<close>

text \<open>C4. On a machine of either byte order, initialising a context, updating it with any sequence of
  buffers, each shorter than 2^32 bytes, and finishing it gives the MD5 digest of RFC 1321 of the
  concatenation of the buffers.\<close>

theorem md5_digest_correct:
  assumes "length (md_in ctx) = 64" "\<forall>cs \<in> set css. length cs < 4294967296"
  shows "fst (MD5Final m (fold (\<lambda>cs c. MD5Update m c cs) css (MD5Init ctx))) = md5_rfc (concat css)"
  using assms by (rule md5_digest_eq)

definition md5_ctx_0 :: md5_ctx where
  "md5_ctx_0 = \<lparr>md_buf = (0, 0, 0, 0), md_bits = (0, 0), md_in = replicate 64 0\<rparr>"

text \<open>The test vector for \<open>abc\<close>, fed in two pieces.\<close>

theorem md5_digest_correct_witness:
  "md5_rfc [97, 98, 99] = [0x90, 0x01, 0x50, 0x98, 0x3c, 0xd2, 0x4f, 0xb0,
     0xd6, 0x96, 0x3f, 0x7d, 0x28, 0xe1, 0x7f, 0x72]"
proof -
  have "fst (MD5Final LSB1st (MD5Update LSB1st (MD5Update LSB1st (MD5Init md5_ctx_0) [97]) [98, 99])) =
      [0x90, 0x01, 0x50, 0x98, 0x3c, 0xd2, 0x4f, 0xb0, 0xd6, 0x96, 0x3f, 0x7d, 0x28, 0xe1, 0x7f, 0x72]"
    by code_simp
  then show ?thesis
    using md5_digest_correct [of md5_ctx_0 "[[97], [98, 99]]" LSB1st] by (simp add: md5_ctx_0_def)
qed

text \<open>C23. How a message is cut into buffers does not matter: after two sequences of updates with the
  same bytes the contexts are equal, the block buffer and the bit count included.\<close>

theorem md5_chunking_irrelevant:
  assumes "length (md_in ctx) = 64" "length (concat css) < 4294967296" "concat css = concat dss"
  shows "fold (\<lambda>cs c. MD5Update m c cs) css ctx = fold (\<lambda>cs c. MD5Update m c cs) dss ctx"
  using assms by (intro stream_digest.chunking_irrelevant [OF md5_stream]) (simp_all add: md5_ready_def md5_fits_def)

theorem md5_chunking_irrelevant_witness:
  "MD5Update LSB1st (MD5Update LSB1st md5_ctx_0 [1, 2]) [3] = MD5Update LSB1st md5_ctx_0 [1, 2, 3]"
  using md5_chunking_irrelevant [of md5_ctx_0 "[[1, 2], [3]]" "[[1, 2, 3]]" LSB1st]
  by (simp add: md5_ctx_0_def)

text \<open>\<open>MD5Final\<close> does not wipe the context: the second half of the digest stays in \<open>buf\<close>, the bit
  count stays, and, when the message ends within the first 56 bytes of a block, a little-endian
  machine keeps the end of the message itself in the block buffer.\<close>

theorem md5_final_leaves_context:
  assumes "length (md_in ctx) = 64" "MD5Final m ctx = (digest, ctx')"
  shows "(\<exists>c d. md_buf ctx' = (0, 0, c, d) \<and> drop 8 digest = store32 m c @ store32 m d) \<and>
    md_bits ctx' = md_bits ctx \<and>
    (m = LSB1st \<and> md5_pos ctx < 56 \<longrightarrow> take (md5_pos ctx) (md_in ctx') = take (md5_pos ctx) (md_in ctx))"
proof -
  define p where "p = md5_final_pad m ctx"
  let ?ib = "mem_put (mem_put (byteReverse m (md_in p) 14) 56 (store32 m (fst (md_bits p)))) 60 (store32 m (snd (md_bits p)))"
  obtain a b c d where h: "md5_last m (md_buf p) (md_bits p) (md_in p) = (a, b, c, d)"
    by (cases "md5_last m (md_buf p) (md_bits p) (md_in p)")
  let ?raw = "le_bytes a @ le_bytes b @ le_bytes c @ le_bytes d"
  have r: "digest = ?raw" "ctx' = p\<lparr>md_in := ?ib,
      md_buf := (0, 0, load32 m (mem_get ?raw 8 4), load32 m (mem_get ?raw 12 4))\<rparr>"
    using assms(2) h md5_digest_bytes [of m a b c d]
    unfolding MD5Final_def p_def [symmetric] md5_last_def Let_def by auto
  have g: "mem_get ?raw 8 4 = le_bytes c" "mem_get ?raw 12 4 = le_bytes d" by (simp_all add: mem_get_def)
  have "md_buf ctx' = (0, 0, load32 m (le_bytes c), load32 m (le_bytes d))" unfolding r g by simp
  moreover have "drop 8 digest = store32 m (load32 m (le_bytes c)) @ store32 m (load32 m (le_bytes d))"
    unfolding r(1) by (simp add: store_load32)
  moreover have "md_bits p = md_bits ctx"
    by (simp add: p_def md5_final_pad_def md5_consume_def Let_def)
  moreover have "take (md5_pos ctx) (md_in ctx') = take (md5_pos ctx) (md_in ctx)" if "m = LSB1st" "md5_pos ctx < 56"
  proof -
    have "md_in p = mem_put ((md_in ctx)[md5_pos ctx := 0x80]) (md5_pos ctx + 1) (replicate (55 - md5_pos ctx) 0)"
    proof -
      have "\<not> 64 - 1 - md5_pos ctx < 8" using that(2) by linarith
      then show ?thesis unfolding p_def md5_final_pad_def md5_pos_def [symmetric] Let_def by simp
    qed
    moreover have "byteReverse m X 14 = X" for X using that(1) by (simp add: numeral_eq_Suc setByteOrder_eq)
    ultimately show ?thesis unfolding r(2) using assms(1) that(2) by (simp add: mem_put_def)
  qed
  ultimately show ?thesis using r(2) by auto
qed

theorem md5_final_leaves_context_witness:
  "take 3 (md_in (snd (MD5Final LSB1st (MD5Update LSB1st (MD5Init md5_ctx_0) [97, 98, 99])))) = [97, 98, 99]"
proof -
  let ?c = "MD5Update LSB1st (MD5Init md5_ctx_0) [97, 98, 99]"
  have i: "length (md_in (MD5Init md5_ctx_0)) = 64" "md_bits (MD5Init md5_ctx_0) = md5_bits_of 0"
    "md5_pos (MD5Init md5_ctx_0) = 0"
    by (simp_all add: MD5Init_def md5_ctx_0_def md5_bits_of_def md5_pos_def)
  have "md5_state_of ?c = (3, mem_put (md_in (MD5Init md5_ctx_0)) 0 [97, 98, 99], md_buf (MD5Init md5_ctx_0))"
    using MD5Update_feed(2) [OF i(1), of "[97, 98, 99]" LSB1st] i(3)
      md5_feed_short [of 0 "[97, 98, 99]" "md_in (MD5Init md5_ctx_0)" LSB1st "md_buf (MD5Init md5_ctx_0)"] i(1)
    unfolding md5_state_of_def [of "MD5Init md5_ctx_0"] by simp
  then have c: "md5_pos ?c = 3" "md_in ?c = mem_put (md_in (MD5Init md5_ctx_0)) 0 [97, 98, 99]"
    by (simp_all add: md5_state_of_def)
  then have "length (md_in ?c) = 64" "take 3 (md_in ?c) = [97, 98, 99]" using i(1) by (simp_all add: mem_put_def)
  moreover obtain dg c' where f: "MD5Final LSB1st ?c = (dg, c')" by force
  ultimately show ?thesis using md5_final_leaves_context [OF _ f] c(1) by simp
qed

end
