(* ===== verification/Stdio.thy ===== *)
theory Stdio
  imports Prelude
begin

text \<open>
  What the programs use of the C library: lines read by \<open>fgets\<close>, the conversions of
  \<open>sscanf\<close> they ask for, \<open>atoi\<close>, prefixes compared by \<open>strncmp\<close>, padded output and the
  option scan of \<open>getopt\<close>. Strings are lists of characters without the terminating null.
\<close>

named_theorems scan_simps \<open>reading numbers and words from text\<close>

section \<open>Lines\<close>

text \<open>\<open>fgets\<close>: at most \<open>n - 1\<close> characters, up to and with the first newline.\<close>

fun fgets_take :: "nat \<Rightarrow> string \<Rightarrow> string \<times> string" where
  "fgets_take 0 s = ([], s)"
| "fgets_take (Suc n) [] = ([], [])"
| "fgets_take (Suc n) (c # s) =
     (if c = CHR 10 then ([c], s) else let (l, r) = fgets_take n s in (c # l, r))"

definition fgets :: "nat \<Rightarrow> string \<Rightarrow> (string \<times> string) option" where
  "fgets n s = (if s = [] then None else Some (fgets_take (n - 1) s))"

lemma fgets_take_shorter: "length (snd (fgets_take n s)) \<le> length s"
  by (induction n s rule: fgets_take.induct) (auto split: prod.splits)

lemma fgets_take_consumes: "length (snd (fgets_take (Suc n) (c # s))) \<le> length s"
  using fgets_take_shorter [of n s] by (auto split: prod.splits)

lemma fgets_take_line:
  "CHR 10 \<notin> set s \<Longrightarrow> length s < n \<Longrightarrow> fgets_take n (s @ CHR 10 # rest) = (s @ [CHR 10], rest)"
proof (induction s arbitrary: n)
  case Nil
  then show ?case by (cases n) auto
next
  case (Cons c s)
  then show ?case by (cases n) auto
qed

lemma fgets_take_last:
  "CHR 10 \<notin> set s \<Longrightarrow> length s \<le> n \<Longrightarrow> fgets_take n s = (s, [])"
proof (induction s arbitrary: n)
  case Nil
  then show ?case by (cases n) auto
next
  case (Cons c s)
  then show ?case by (cases n) auto
qed

text \<open>
  The strings a loop \<open>while (fgets(buf, Suc (Suc n), fp))\<close> sees: the lines of the file, the
  long ones cut in pieces of \<open>Suc n\<close> characters.
\<close>

function fgets_all :: "nat \<Rightarrow> string \<Rightarrow> string list" where
  "fgets_all n [] = []"
| "fgets_all n (c # s) =
     (let (l, r) = fgets_take (Suc n) (c # s) in l # fgets_all n r)"
  by pat_completeness auto
termination
proof (relation "measure (length \<circ> snd)", goal_cases)
  case (2 n c s x l r)
  then show ?case using fgets_take_consumes [of n c s] by (metis comp_apply in_measure le_imp_less_Suc length_Cons snd_conv)
qed simp

declare fgets_all.simps(2) [simp del]

lemma fgets_all_line:
  assumes "CHR 10 \<notin> set s" "length s \<le> n"
  shows "fgets_all n (s @ CHR 10 # rest) = (s @ [CHR 10]) # fgets_all n rest"
proof -
  obtain c t where ct: "s @ CHR 10 # rest = c # t" by (cases s) auto
  have "fgets_take (Suc n) (c # t) = (s @ [CHR 10], rest)"
    using fgets_take_line [of s "Suc n" rest] assms ct by simp
  then show ?thesis unfolding ct by (subst fgets_all.simps(2)) simp
qed

text \<open>The C string at the start of a buffer, and \<open>strncmp(s, p, strlen p) = 0\<close>.\<close>

definition c_str :: "string \<Rightarrow> string" where
  "c_str s = takeWhile (\<lambda>c. c \<noteq> CHR 0x00) s"

definition has_prefix :: "string \<Rightarrow> string \<Rightarrow> bool" where
  "has_prefix p s \<longleftrightarrow> take (length p) s = p"

lemma c_str_no_null: "CHR 0x00 \<notin> set s \<Longrightarrow> c_str s = s"
  by (simp add: c_str_def takeWhile_eq_all_conv) (metis)

section \<open>Numbers and words\<close>

definition is_space :: "char \<Rightarrow> bool" where
  "is_space c \<longleftrightarrow> c \<in> {CHR '' '', CHR 9, CHR 10, CHR 11, CHR 12, CHR 13}"

text \<open>An optional sign and digits; \<open>None\<close> when there is no digit.\<close>

definition scan_number :: "string \<Rightarrow> (bool \<times> nat \<times> string) option" where
  "scan_number s =
     (let neg = (s \<noteq> [] \<and> hd s = CHR ''-'');
          t = (if s \<noteq> [] \<and> hd s \<in> {CHR ''-'', CHR ''+''} then tl s else s);
          ds = takeWhile is_digit t in
      if ds = [] then None else Some (neg, dec_val ds, dropWhile is_digit t))"

text \<open>\<open>strtol\<close> and \<open>strtoul\<close> on 64 bits saturate.\<close>

definition strtol_val :: "bool \<Rightarrow> nat \<Rightarrow> int" where
  "strtol_val neg v = (if neg then max (- (2 ^ 63)) (- int v) else min (2 ^ 63 - 1) (int v))"

definition strtoul_val :: "bool \<Rightarrow> nat \<Rightarrow> int" where
  "strtoul_val neg v =
     (if 2 ^ 64 \<le> int v then 2 ^ 64 - 1 else if neg then to_u64 (- int v) else int v)"

definition atoi :: "string \<Rightarrow> int" where
  "atoi s = (case scan_number (dropWhile is_space s) of None \<Rightarrow> 0
     | Some (neg, v, _) \<Rightarrow> to_s32 (strtol_val neg v))"

section \<open>sscanf\<close>

text \<open>
  The directives used: white space, a literal character, \<open>%d\<close> with an optional width,
  \<open>%u\<close> (and its longer forms, which differ in the width of the variable assigned only),
  \<open>%s\<close> with an optional width, \<open>%c\<close>, and conversions whose result is dropped.
\<close>

datatype conv = Dec "nat option" | Unsigned | Word "nat option" | Chr

datatype directive = Ws | Lit char | Conv conv | Skip conv

datatype sval = SInt int | SStr string

fun sval_int :: "sval \<Rightarrow> int" where
  "sval_int (SInt i) = i"
| "sval_int (SStr s) = 0"

fun sval_str :: "sval \<Rightarrow> string" where
  "sval_str (SStr s) = s"
| "sval_str (SInt i) = []"

definition limit :: "nat option \<Rightarrow> 'a list \<Rightarrow> 'a list" where
  "limit w s = (case w of None \<Rightarrow> s | Some n \<Rightarrow> take n s)"

definition beyond :: "nat option \<Rightarrow> 'a list \<Rightarrow> 'a list" where
  "beyond w s = (case w of None \<Rightarrow> [] | Some n \<Rightarrow> drop n s)"

fun convert :: "conv \<Rightarrow> string \<Rightarrow> (sval \<times> string) option" where
  "convert (Dec w) s = (let t = dropWhile is_space s in
     case scan_number (limit w t) of None \<Rightarrow> None
     | Some (neg, v, r) \<Rightarrow> Some (SInt (strtol_val neg v), r @ beyond w t))"
| "convert Unsigned s =
     (case scan_number (dropWhile is_space s) of None \<Rightarrow> None
     | Some (neg, v, r) \<Rightarrow> Some (SInt (strtoul_val neg v), r))"
| "convert (Word w) s = (let t = dropWhile is_space s; l = limit w t;
       x = takeWhile (\<lambda>c. \<not> is_space c) l in
     if x = [] then None else Some (SStr x, dropWhile (\<lambda>c. \<not> is_space c) l @ beyond w t))"
| "convert Chr s = (case s of [] \<Rightarrow> None | c # r \<Rightarrow> Some (SStr [c], r))"

fun sscanf :: "directive list \<Rightarrow> string \<Rightarrow> sval list" where
  "sscanf [] s = []"
| "sscanf (Ws # f) s = sscanf f (dropWhile is_space s)"
| "sscanf (Lit c # f) s = (case s of [] \<Rightarrow> [] | x # r \<Rightarrow> if x = c then sscanf f r else [])"
| "sscanf (Conv k # f) s = (case convert k s of None \<Rightarrow> [] | Some (v, r) \<Rightarrow> v # sscanf f r)"
| "sscanf (Skip k # f) s = (case convert k s of None \<Rightarrow> [] | Some (v, r) \<Rightarrow> sscanf f r)"

text \<open>Reading back what \<open>printf\<close> wrote.\<close>

lemma is_digit_not_space: "is_digit c \<Longrightarrow> \<not> is_space c \<and> c \<noteq> CHR ''-'' \<and> c \<noteq> CHR ''+''"
  by (auto simp: is_digit_def is_space_def)

lemma scan_number_digits:
  assumes "r = [] \<or> \<not> is_digit (hd r)"
  shows "scan_number (dec_digits n @ r) = Some (False, n, r)"
proof -
  have all: "\<forall>c \<in> set (dec_digits n). is_digit c"
    using dec_digits_all_digits by blast
  have hd: "hd (dec_digits n @ r) \<notin> {CHR ''-'', CHR ''+''}"
    using all is_digit_not_space [of "hd (dec_digits n)"] by (simp add: hd_append)
  have tw: "takeWhile is_digit (dec_digits n @ r) = dec_digits n"
    "dropWhile is_digit (dec_digits n @ r) = r"
    using all assms by (auto simp: takeWhile_append dropWhile_append takeWhile_eq_all_conv
        takeWhile_eq_Nil_iff dropWhile_eq_self_iff)
  show ?thesis using hd tw by (simp add: scan_number_def)
qed

lemma drop_space_digits: "dropWhile is_space (dec_digits n @ r) = dec_digits n @ r"
proof -
  have "is_digit (hd (dec_digits n))" using dec_digits_all_digits [of "hd (dec_digits n)" n] by simp
  then have "\<not> is_space (hd (dec_digits n @ r))" using is_digit_not_space by (simp add: hd_append)
  then show ?thesis by (simp add: dropWhile_eq_self_iff)
qed

lemma drop_spaces: "\<forall>c \<in> set sp. is_space c \<Longrightarrow> dropWhile is_space (sp @ r) = dropWhile is_space r"
  by (simp add: dropWhile_append)

lemma convert_unsigned_digits [scan_simps]:
  assumes "r = [] \<or> \<not> is_digit (hd r)" "n < 2 ^ 64"
  shows "convert Unsigned (dec_digits n @ r) = Some (SInt (int n), r)"
  using assms by (simp add: drop_space_digits scan_number_digits strtoul_val_def)

lemma convert_dec_digits [scan_simps]:
  assumes "r = [] \<or> \<not> is_digit (hd r)" "n < 2 ^ 63"
  shows "convert (Dec None) (dec_digits n @ r) = Some (SInt (int n), r)"
  using assms by (simp add: drop_space_digits scan_number_digits strtol_val_def limit_def beyond_def)

lemma convert_dec_width [scan_simps]:
  assumes "length (dec_digits n) \<le> w" "r = [] \<or> \<not> is_digit (hd r)" "n < 2 ^ 63"
  shows "convert (Dec (Some w)) (dec_digits n @ r) = Some (SInt (int n), r)"
proof -
  define k where "k = w - length (dec_digits n)"
  have "take k r = [] \<or> \<not> is_digit (hd (take k r))"
    using assms(2) by (cases r; cases k) auto
  then show ?thesis
    using assms by (simp add: drop_space_digits scan_number_digits strtol_val_def limit_def
        beyond_def flip: k_def)
qed

lemma is_space_simps [simp]: "is_space (CHR '' '')" "is_space (CHR 10)" "\<not> is_space (CHR ''-'')"
  by (simp_all add: is_space_def)

lemma not_digit_simps [simp]: "\<not> is_digit (CHR '' '')" "\<not> is_digit (CHR 10)" "\<not> is_digit (CHR ''-'')"
  by (simp_all add: is_digit_def)

text \<open>A signed number followed by no digit, saturated to 64 bits.\<close>

lemma convert_dec_int:
  assumes "r = [] \<or> \<not> is_digit (hd r)"
  shows "convert (Dec None) (dec_int i @ r) = Some (SInt (strtol_val (i < 0) (nat \<bar>i\<bar>)), r)"
proof (cases "i < 0")
  case True
  have all: "\<forall>c \<in> set (dec_digits (nat (- i))). is_digit c"
    using dec_digits_all_digits by blast
  have "takeWhile is_digit (dec_digits (nat (- i)) @ r) = dec_digits (nat (- i))"
    "dropWhile is_digit (dec_digits (nat (- i)) @ r) = r"
    using all assms by (auto simp: takeWhile_append dropWhile_append takeWhile_eq_all_conv
        takeWhile_eq_Nil_iff dropWhile_eq_self_iff)
  then show ?thesis
    using True by (simp add: dec_int_def scan_number_def limit_def beyond_def Let_def)
next
  case False
  then show ?thesis
    using assms by (simp add: dec_int_def drop_space_digits scan_number_digits limit_def beyond_def)
qed

lemma strtol_val_id:
  "- (2 ^ 63) \<le> i \<Longrightarrow> i < 2 ^ 63 \<Longrightarrow> strtol_val (i < 0) (nat \<bar>i\<bar>) = i"
  by (auto simp: strtol_val_def)

lemma drop_space_int: "dropWhile is_space (dec_int i @ r) = dec_int i @ r"
  by (simp add: dec_int_def drop_space_digits)

lemma dec_digits_length_4: "n < 10000 \<Longrightarrow> length (dec_digits n) \<le> 4"
proof -
  assume n: "n < 10000"
  have len: "length (dec_digits m) = (if m < 10 then 1 else Suc (length (dec_digits (m div 10))))" for m
    by (subst dec_digits.simps) simp
  have "n div 1000 < 10" using n by auto
  then have "n div 10 div 10 div 10 < 10" by (simp add: div_mult2_eq flip: div_mult2_eq)
  then show ?thesis
    using len [of n] len [of "n div 10"] len [of "n div 10 div 10"] len [of "n div 10 div 10 div 10"]
    by auto
qed

text \<open>Fields separated by blanks.\<close>

definition field_end :: "string \<Rightarrow> bool" where
  "field_end r \<longleftrightarrow> r \<noteq> [] \<and> hd r \<in> {CHR '' '', CHR 10}"

definition int_fields :: "int list \<Rightarrow> string" where
  "int_fields is = concat (map (\<lambda>i. CHR '' '' # dec_int i) is)"

lemma int_fields_simps [simp]:
  "int_fields [] = []" "int_fields (i # is) = CHR '' '' # dec_int i @ int_fields is"
  "int_fields (is @ js) = int_fields is @ int_fields js"
  by (simp_all add: int_fields_def)

lemma length_int_fields: "\<forall>i \<in> set is. 0 \<le> i \<and> i < 10000 \<Longrightarrow> length (int_fields is) \<le> 5 * length is"
proof (induction "is")
  case (Cons i "is")
  then have "0 \<le> i" "nat i < 10000" by auto
  then have "length (dec_int i) \<le> 4"
    using dec_digits_length_4 [of "nat i"] by (simp add: dec_int_def)
  then show ?case using Cons by simp
qed simp

lemma field_end_simps [simp]: "field_end (CHR '' '' # r)" "field_end (CHR 10 # r)"
  "field_end (int_fields is @ CHR 10 # r)"
  by (simp_all add: field_end_def) (cases "is"; simp)

lemma field_end_no_digit: "field_end r \<Longrightarrow> r = [] \<or> \<not> is_digit (hd r)"
  by (auto simp: field_end_def)

lemma scan_int_field:
  assumes "field_end r"
  shows "sscanf (Ws # Conv (Dec None) # f) (CHR '' '' # dec_int i @ r) =
      SInt (strtol_val (i < 0) (nat \<bar>i\<bar>)) # sscanf f r"
    and "sscanf (Ws # Skip (Dec None) # f) (CHR '' '' # dec_int i @ r) = sscanf f r"
  using convert_dec_int [OF field_end_no_digit [OF assms], of i]
  by (simp_all add: drop_space_int del: convert.simps)

lemma scan_nat_field:
  assumes "field_end r" "n < 2 ^ 64"
  shows "sscanf (Ws # Conv Unsigned # f) (CHR '' '' # dec_digits n @ r) = SInt (int n) # sscanf f r"
    and "sscanf (Ws # Skip Unsigned # f) (CHR '' '' # dec_digits n @ r) = sscanf f r"
  using convert_unsigned_digits [OF field_end_no_digit [OF assms(1)] assms(2)]
  by (simp_all add: drop_space_digits del: convert.simps)

lemma scan_skip_fields:
  "length is = n \<Longrightarrow> field_end r \<Longrightarrow>
    sscanf (concat (replicate n [Ws, Skip (Dec None)]) @ f) (int_fields is @ r) = sscanf f r"
proof (induction "is" arbitrary: n)
  case (Cons i "is")
  then obtain m where m: "n = Suc m" "length is = m" by auto
  have "field_end (int_fields is @ r)"
    using Cons.prems(2) by (cases "is") (simp_all add: field_end_def)
  then show ?case
    using scan_int_field(2) [of "int_fields is @ r" "concat (replicate m [Ws, Skip (Dec None)]) @ f" i]
      Cons.IH [OF m(2) Cons.prems(2)] m(1) by simp
qed simp

lemma convert_word [scan_simps]:
  assumes "x \<noteq> []" "\<forall>c \<in> set x. \<not> is_space c" "r = [] \<or> is_space (hd r)"
  shows "convert (Word None) (x @ r) = Some (SStr x, r)"
    and "length x \<le> n \<Longrightarrow> convert (Word (Some n)) (x @ r) = Some (SStr x, r)"
proof -
  have d: "dropWhile is_space (x @ r) = x @ r"
    using assms(1,2) by (simp add: dropWhile_eq_self_iff hd_append)
  have t: "takeWhile (\<lambda>c. \<not> is_space c) (x @ take k r) = x"
    "dropWhile (\<lambda>c. \<not> is_space c) (x @ take k r) = take k r" for k
    using assms(2,3)
    by (cases r; cases k; auto simp: takeWhile_append dropWhile_append takeWhile_eq_all_conv)+
  show "convert (Word None) (x @ r) = Some (SStr x, r)"
    using t [of "length r"] assms(1) by (simp add: d limit_def beyond_def)
  show "length x \<le> n \<Longrightarrow> convert (Word (Some n)) (x @ r) = Some (SStr x, r)"
    using t [of "n - length x"] assms(1) by (simp add: d limit_def beyond_def)
qed

section \<open>Output and options\<close>

definition pad_left :: "nat \<Rightarrow> string \<Rightarrow> string" where
  "pad_left w s = replicate (w - length s) (CHR '' '') @ s"

definition pad_right :: "nat \<Rightarrow> string \<Rightarrow> string" where
  "pad_right w s = s @ replicate (w - length s) (CHR '' '')"

text \<open>
  \<open>getopt\<close> of the GNU library for options without arguments: the option characters in order,
  the operands in the order they have after the permutation, and whether any argument was
  consumed (\<open>optind > 1\<close>). \<open>--\<close> ends the options, a single \<open>-\<close> is an operand.
\<close>

fun getopt_scan :: "string list \<Rightarrow> string \<times> string list \<times> bool" where
  "getopt_scan [] = ([], [], False)"
| "getopt_scan (a # as) =
     (if a = ''--'' then ([], as, True)
      else let (opts, operands, used) = getopt_scan as in
        if length a > 1 \<and> hd a = CHR ''-'' then (tl a @ opts, operands, True)
        else (opts, a # operands, used))"

end
