(* ===== verification/Md5sum.thy ===== *)
theory Md5sum
  imports Md5 Stdio
begin

text \<open>
  The program \<^verbatim>\<open>md5sum/md5sum.c\<close>: printing digests, reading check lists, and the exit codes.
  A file is its bytes and whether reading it ends in an error; \<open>fs name bin\<close> is what \<open>fopen\<close>
  finds in text or binary mode (\<open>None\<close>: it fails). Text on standard output is the result,
  messages on standard error are left out.
\<close>

section \<open>Digests as text\<close>

text \<open>\<open>-1\<close> for a character that is not a lower-case hexadecimal digit.\<close>

definition hex_digit :: "char \<Rightarrow> int" where
  "hex_digit ch =
     (let c = int (of_char ch) in
      if 48 \<le> c \<and> c \<le> 57 then c - 48
      else if 97 \<le> c \<and> c \<le> 102 then c - 97 + 10
      else -1)"

definition hex_char :: "nat \<Rightarrow> char" where
  "hex_char d = char_of (if d < 10 then 48 + d else 87 + d)"

text \<open>\<open>sprintf("%02x")\<close> of a byte\<close>

definition hex02 :: "byte \<Rightarrow> string" where
  "hex02 b = [hex_char (unat b div 16), hex_char (unat b mod 16)]"

definition print_digest :: "byte list \<Rightarrow> string" where
  "print_digest p = concat (map hex02 (take 16 p))"

section \<open>Reading a check list\<close>

text \<open>
  The sixteen pairs of digits at \<open>p\<close>, and what follows. The string ends with a null character,
  which is no digit, so the code stops there before it would read further.
\<close>

fun md5_line_digits :: "nat \<Rightarrow> string \<Rightarrow> (byte list \<times> string) option" where
  "md5_line_digits 0 p = Some ([], p)"
| "md5_line_digits (Suc i) (c1 # c2 # p) =
     (let d1 = hex_digit c1 in
      if d1 = -1 then None
      else let d2 = hex_digit c2 in
      if d2 = -1 then None
      else case md5_line_digits i p of
             None \<Rightarrow> None
           | Some (ds, p) \<Rightarrow> Some (word_of_int (d1 * 16 + d2) # ds, p))"
| "md5_line_digits (Suc i) _ = None"

text \<open>\<open>None\<close> is the return value 0; otherwise the return value, the digest and the file name.\<close>

definition md5_line_parse :: "string \<Rightarrow> (nat \<times> byte list \<times> string) option" where
  "md5_line_parse buf =
     (case md5_line_digits 16 (buf @ [CHR 0x00]) of
        None \<Rightarrow> None
      | Some (digest, p) \<Rightarrow>
          (case p of
             c # a # p \<Rightarrow>
               if c \<noteq> CHR '' '' then None
               else if a \<noteq> CHR '' '' \<and> a \<noteq> CHR ''*'' then None
               else let rc = (if a = CHR '' '' then 1 else 2);
                        p = takeWhile (\<lambda>c. c \<noteq> CHR 0x00) p;
                        i = length p in
                 if i < 2 \<or> i > 255 then None
                 else Some (rc, digest, take (i - 1) p)
           | _ \<Rightarrow> None))"

text \<open>One call: \<open>None\<close> at the end of the file, else the parsed line and the rest of the file.\<close>

definition get_md5_line :: "string \<Rightarrow> ((nat \<times> byte list \<times> string) option \<times> string) option" where
  "get_md5_line fp =
     (case fgets 1024 fp of
        None \<Rightarrow> None
      | Some (buf, rest) \<Rightarrow> Some (md5_line_parse buf, rest))"

section \<open>Digest of a file\<close>

type_synonym md5_file = "byte list \<times> bool"
type_synonym md5_fs = "string \<Rightarrow> bool \<Rightarrow> md5_file option"

function mdfile_loop :: "byte_order \<Rightarrow> md5_ctx \<Rightarrow> byte list \<Rightarrow> md5_ctx" where
  "mdfile_loop m ctx fp =
     (let buf = take 1024 fp in
      if 0 < length buf then mdfile_loop m (MD5Update m ctx buf) (drop 1024 fp) else ctx)"
  by pat_completeness auto
termination by (relation "measure (\<lambda>(m, ctx, fp). length fp)") auto

declare mdfile_loop.simps [simp del]

text \<open>The context on the stack is not initialised: \<open>ctx\<close> is whatever is there.\<close>

definition mdfile :: "byte_order \<Rightarrow> md5_ctx \<Rightarrow> md5_file \<Rightarrow> int \<times> byte list" where
  "mdfile m ctx fp =
     (let digest = fst (MD5Final m (mdfile_loop m (MD5Init ctx) (fst fp)))
      in (if snd fp then -1 else 0, digest))"

section \<open>Checking\<close>

record md5_check =
  ck_ex :: int
  ck_failed :: nat
  ck_checked :: nat

definition md5_check_line ::
  "byte_order \<Rightarrow> md5_ctx \<Rightarrow> md5_fs \<Rightarrow> bool \<Rightarrow> (nat \<times> byte list \<times> string) option \<Rightarrow> md5_check \<Rightarrow> md5_check" where
  "md5_check_line m ctx fs bin_mode line ck =
     (case line of
        None \<Rightarrow> ck
      | Some (rc, chk_digest, filename) \<Rightarrow>
          (case (if bin_mode \<or> rc = 2 then fs filename True else fs filename False) of
             None \<Rightarrow> ck\<lparr>ck_ex := 2\<rparr>
           | Some fp \<Rightarrow>
               (let (r, file_digest) = mdfile m ctx fp in
                if r \<noteq> 0 then ck\<lparr>ck_ex := 2\<rparr>
                else let ck = (if chk_digest \<noteq> file_digest then ck\<lparr>ck_failed := ck_failed ck + 1\<rparr> else ck)
                     in ck\<lparr>ck_checked := ck_checked ck + 1\<rparr>)))"

lemma get_md5_line_shorter:
  assumes "get_md5_line fp = Some (line, rest)"
  shows "length rest < length fp"
proof -
  obtain c s where "fp = c # s" "rest = snd (fgets_take 1023 (c # s))"
    using assms by (cases fp) (auto simp: get_md5_line_def fgets_def split: prod.splits)
  then show ?thesis using fgets_take_consumes [of 1022 c s] by simp
qed

function do_check_loop ::
  "byte_order \<Rightarrow> md5_ctx \<Rightarrow> md5_fs \<Rightarrow> bool \<Rightarrow> string \<Rightarrow> md5_check \<Rightarrow> md5_check" where
  "do_check_loop m ctx fs bin_mode chkf ck =
     (case get_md5_line chkf of
        None \<Rightarrow> ck
      | Some (line, rest) \<Rightarrow>
          do_check_loop m ctx fs bin_mode rest (md5_check_line m ctx fs bin_mode line ck))"
  by pat_completeness auto
termination
  by (relation "measure (\<lambda>(m, ctx, fs, bin_mode, chkf, ck). length chkf)") (auto simp: get_md5_line_shorter)

declare do_check_loop.simps [simp del]

definition do_check :: "byte_order \<Rightarrow> md5_ctx \<Rightarrow> md5_fs \<Rightarrow> bool \<Rightarrow> string \<Rightarrow> int" where
  "do_check m ctx fs bin_mode chkf =
     (let ck = do_check_loop m ctx fs bin_mode chkf \<lparr>ck_ex = 0, ck_failed = 0, ck_checked = 0\<rparr> in
      if ck_checked ck = 0 then 3
      else if ck_ex ck = 0 \<and> ck_failed ck \<noteq> 0 then 1
      else ck_ex ck)"

section \<open>The program\<close>

text \<open>Standard output and the exit code of the loop over the file arguments.\<close>

definition md5sum_line :: "bool \<Rightarrow> byte list \<Rightarrow> string \<Rightarrow> string" where
  "md5sum_line bin_mode digest name =
     print_digest digest @ [CHR '' '', if bin_mode then CHR ''*'' else CHR '' ''] @ name @ [CHR 10]"

fun md5sum_files ::
  "byte_order \<Rightarrow> md5_ctx \<Rightarrow> md5_fs \<Rightarrow> bool \<Rightarrow> string list \<Rightarrow> int \<Rightarrow> string \<times> int" where
  "md5sum_files m ctx fs bin_mode [] rc = ([], rc)"
| "md5sum_files m ctx fs bin_mode (arg # args) rc =
     (case fs arg bin_mode of
        None \<Rightarrow> md5sum_files m ctx fs bin_mode args 2
      | Some fp \<Rightarrow>
          (let (r, digest) = mdfile m ctx fp in
           if r \<noteq> 0 then md5sum_files m ctx fs bin_mode args 2
           else let (out, rc) = md5sum_files m ctx fs bin_mode args rc
                in (md5sum_line bin_mode digest arg @ out, rc)))"

text \<open>
  \<open>opts\<close> are the option characters \<open>getopt\<close> returns, \<open>args\<close> the arguments from \<open>optind\<close> on,
  \<open>argc\<close> the argument count of the program, its name included. In check mode the list comes
  from standard input or from the one argument, read as text.
\<close>

fun md5sum_options :: "string \<Rightarrow> bool \<times> bool \<Rightarrow> (bool \<times> bool) option" where
  "md5sum_options [] f = Some f"
| "md5sum_options (opt # opts) (chk, bin_mode) =
     (if opt = CHR ''c'' then md5sum_options opts (True, bin_mode)
      else if opt = CHR ''v'' then md5sum_options opts (chk, bin_mode)
      else if opt = CHR ''b'' then md5sum_options opts (chk, True)
      else None)"

definition md5_text :: "byte list \<Rightarrow> string" where
  "md5_text = map (\<lambda>b. char_of (unat b))"

definition md5sum_main ::
  "byte_order \<Rightarrow> md5_ctx \<Rightarrow> md5_fs \<Rightarrow> md5_file \<Rightarrow> string \<Rightarrow> nat \<Rightarrow> string list \<Rightarrow> string \<times> int" where
  "md5sum_main m ctx fs stdin opts argc args =
     (case md5sum_options opts (False, False) of
        None \<Rightarrow> ([], 2)
      | Some (chk, bin_mode) \<Rightarrow>
          if chk then
            (case args of
               [] \<Rightarrow> ([], do_check m ctx fs bin_mode (md5_text (fst stdin)))
             | [arg] \<Rightarrow>
                 (case fs arg False of
                    None \<Rightarrow> ([], 2)
                  | Some fp \<Rightarrow> ([], do_check m ctx fs bin_mode (md5_text (fst fp))))
             | _ \<Rightarrow> ([], 2))
          else if argc = 0 then
            (let (r, digest) = mdfile m ctx stdin in
             if r \<noteq> 0 then ([], 2) else (print_digest digest @ [CHR 10], 0))
          else md5sum_files m ctx fs bin_mode args 0)"

section \<open>Lines\<close>

lemma hex_digit_char: "d < 16 \<Longrightarrow> hex_digit (hex_char d) = int d"
  by (auto simp: hex_digit_def hex_char_def of_char_of Let_def)

lemma hex_char_not_newline: "d < 16 \<Longrightarrow> hex_char d \<noteq> CHR 10"
  using hex_digit_char [of d] by (auto simp: hex_digit_def)

lemma byte_div_16: "unat (b :: byte) div 16 < 16"
  using unsigned_less [of b, where ?'a = nat] by simp

lemma hex02_parse:
  "md5_line_digits (Suc n) (hex02 b @ p) =
     (case md5_line_digits n p of None \<Rightarrow> None | Some (ds, p) \<Rightarrow> Some (b # ds, p))"
proof -
  have "int (unat b div 16) * 16 + int (unat b mod 16) = int (unat b)" by presburger
  then have "(word_of_int (int (unat b div 16) * 16 + int (unat b mod 16)) :: byte) = b"
    by (simp add: of_nat_unat)
  then show ?thesis by (simp add: byte_div_16 hex02_def hex_digit_char Let_def split: option.split)
qed

lemma md5_line_digits_print:
  "md5_line_digits (length ds) (concat (map hex02 ds) @ p) = Some (ds, p)"
  by (induction ds) (simp_all add: hex02_parse del: md5_line_digits.simps(2))

text \<open>The file names a check list can carry.\<close>

definition md5_name_ok :: "string \<Rightarrow> bool" where
  "md5_name_ok name \<longleftrightarrow> 1 \<le> length name \<and> length name \<le> 254 \<and> CHR 10 \<notin> set name \<and> CHR 0x00 \<notin> set name"

lemma print_digest_props:
  assumes "length digest = 16"
  shows "length (print_digest digest) = 32" "CHR 10 \<notin> set (print_digest digest)"
    "md5_line_digits 16 (print_digest digest @ p) = Some (digest, p)"
proof -
  have p: "print_digest digest = concat (map hex02 digest)" using assms by (simp add: print_digest_def)
  have "length (concat (map hex02 ds)) = 2 * length ds" for ds by (induction ds) (simp_all add: hex02_def)
  then show "length (print_digest digest) = 32" using assms p by simp
  have "CHR 10 \<notin> set (hex02 b)" for b
    using hex_char_not_newline [of "unat b div 16"] hex_char_not_newline [of "unat b mod 16"]
    by (auto simp: hex02_def byte_div_16)
  then show "CHR 10 \<notin> set (print_digest digest)" unfolding p by auto
  show "md5_line_digits 16 (print_digest digest @ p) = Some (digest, p)"
    using md5_line_digits_print [of digest p] assms by (simp add: p)
qed

text \<open>A line is parsed from a digest, two more characters, and at least two after them.\<close>

lemma md5_line_parse_eq:
  assumes "length digest = 16" "CHR 0x00 \<notin> set tail"
  shows "md5_line_parse (print_digest digest @ CHR '' '' # (if bin then CHR ''*'' else CHR '' '') # tail) =
    (if length tail < 2 \<or> 255 < length tail then None
     else Some (if bin then 2 else 1, digest, butlast tail))"
proof -
  have "takeWhile (\<lambda>c. c \<noteq> CHR 0x00) (tail @ [CHR 0x00]) = tail" using assms(2) by (induction tail) auto
  then show ?thesis
    using print_digest_props(3) [OF assms(1), of "CHR '' '' # (if bin then CHR ''*'' else CHR '' '') # tail @ [CHR 0x00]"]
    by (simp add: md5_line_parse_def Let_def butlast_conv_take)
qed

lemma get_md5_line_print:
  assumes "length digest = 16" "md5_name_ok name"
  shows "get_md5_line (md5sum_line bin digest name @ rest) = Some (Some (if bin then 2 else 1, digest, name), rest)"
proof -
  let ?s = "print_digest digest @ CHR '' '' # (if bin then CHR ''*'' else CHR '' '') # name"
  have n: "name \<noteq> []" using assms(2) by (auto simp: md5_name_ok_def)
  have "CHR 10 \<notin> set ?s" "length ?s < 1023"
    using print_digest_props(1,2) [OF assms(1)] assms(2) by (auto simp: md5_name_ok_def)
  then have "fgets_take 1023 (?s @ CHR 10 # rest) = (?s @ [CHR 10], rest)" by (rule fgets_take_line)
  then have "fgets 1024 (md5sum_line bin digest name @ rest) = Some (?s @ [CHR 10], rest)"
    by (simp add: fgets_def md5sum_line_def)
  moreover have "md5_line_parse (?s @ [CHR 10]) = Some (if bin then 2 else 1, digest, name)"
    using md5_line_parse_eq [OF assms(1), of "name @ [CHR 10]" bin] assms(2) n by (simp add: md5_name_ok_def)
  ultimately show ?thesis by (simp add: get_md5_line_def)
qed

text \<open>The same line at the end of a file that has no final newline: the name loses its last character.\<close>

lemma get_md5_line_unterminated:
  assumes "length digest = 16" "md5_name_ok name" "2 \<le> length name"
  shows "get_md5_line (butlast (md5sum_line bin digest name)) = Some (Some (if bin then 2 else 1, digest, butlast name), [])"
proof -
  let ?s = "print_digest digest @ CHR '' '' # (if bin then CHR ''*'' else CHR '' '') # name"
  have "CHR 10 \<notin> set ?s" "length ?s \<le> 1023"
    using print_digest_props(1,2) [OF assms(1)] assms(2) by (auto simp: md5_name_ok_def)
  then have "fgets_take 1023 ?s = (?s, [])" by (rule fgets_take_last)
  moreover have "butlast (md5sum_line bin digest name) = ?s" by (simp add: md5sum_line_def butlast_append)
  ultimately have "fgets 1024 (butlast (md5sum_line bin digest name)) = Some (?s, [])" by (simp add: fgets_def)
  then show ?thesis
    using md5_line_parse_eq [OF assms(1), of name bin] assms(2,3) by (simp add: get_md5_line_def md5_name_ok_def)
qed

section \<open>Files\<close>

fun md5_reads :: "nat \<Rightarrow> byte list \<Rightarrow> byte list list" where
  "md5_reads 0 fp = []"
| "md5_reads (Suc n) fp = (if fp = [] then [] else take 1024 fp # md5_reads n (drop 1024 fp))"

lemma mdfile_loop_reads:
  "length fp \<le> n \<Longrightarrow> mdfile_loop m ctx fp = fold (\<lambda>cs c. MD5Update m c cs) (md5_reads n fp) ctx"
proof (induction n arbitrary: ctx fp)
  case 0
  then show ?case by (subst mdfile_loop.simps) simp
next
  case (Suc n)
  then show ?case using Suc.IH [of "drop 1024 fp"] by (subst mdfile_loop.simps) (simp add: Let_def)
qed

lemma md5_reads_props: "length fp \<le> n \<Longrightarrow> concat (md5_reads n fp) = fp \<and> (\<forall>cs \<in> set (md5_reads n fp). length cs \<le> 1024)"
proof (induction n arbitrary: fp)
  case (Suc n)
  show ?case
  proof (cases "fp = []")
    case False
    then have "length (drop 1024 fp) \<le> n" using Suc.prems by (cases fp) auto
    from Suc.IH [OF this] show ?thesis using False by simp
  qed simp
qed simp

lemma mdfile_rfc:
  assumes "md5_ready ctx"
  shows "mdfile m ctx fp = (if snd fp then -1 else 0, md5_rfc (fst fp))"
proof -
  note r = md5_reads_props [of "fst fp" "length (fst fp)"]
  have "\<forall>cs \<in> set (md5_reads (length (fst fp)) (fst fp)). length cs < 4294967296"
    using r by fastforce
  then show ?thesis
    using md5_digest_eq [of ctx "md5_reads (length (fst fp)) (fst fp)" m] assms r
    by (simp add: mdfile_def mdfile_loop_reads [OF order_refl] md5_ready_def)
qed

section \<open>Generating and checking\<close>

text \<open>Every name opens, in both modes alike, and reads without an error.\<close>

definition md5_readable :: "md5_fs \<Rightarrow> string \<Rightarrow> bool" where
  "md5_readable fs name \<longleftrightarrow> fs name True = fs name False \<and> (\<exists>bs. fs name False = Some (bs, False))"

definition md5_content :: "md5_fs \<Rightarrow> string \<Rightarrow> byte list" where
  "md5_content fs name = (case fs name False of Some (bs, _) \<Rightarrow> bs | None \<Rightarrow> [])"

lemma md5_readableD:
  "md5_readable fs name \<Longrightarrow> fs name bin = Some (md5_content fs name, False)"
  by (cases bin) (auto simp: md5_readable_def md5_content_def)

lemma length_md5_rfc: "length (md5_rfc bs) = 16"
  by (simp add: md5_rfc_def split: prod.split)

lemma md5sum_files_readable:
  assumes "md5_ready ctx"
  shows "\<forall>name \<in> set names. md5_readable fs name \<Longrightarrow>
    md5sum_files m ctx fs bin names rc = (concat (map (\<lambda>n. md5sum_line bin (md5_rfc (md5_content fs n)) n) names), rc)"
  by (induction names arbitrary: rc) (simp_all add: md5_readableD mdfile_rfc [OF assms])

text \<open>What checking the printed lines does to the counters.\<close>

definition md5_count_step :: "md5_fs \<Rightarrow> md5_fs \<Rightarrow> string \<Rightarrow> md5_check \<Rightarrow> md5_check" where
  "md5_count_step fs fs' name ck =
     ck\<lparr>ck_failed := ck_failed ck + (if md5_rfc (md5_content fs name) = md5_rfc (md5_content fs' name) then 0 else 1),
        ck_checked := ck_checked ck + 1\<rparr>"

lemma do_check_loop_lines:
  assumes "md5_ready ctx"
  shows "\<forall>name \<in> set names. md5_name_ok name \<and> md5_readable fs' name \<Longrightarrow>
    do_check_loop m ctx fs' bin' (concat (map (\<lambda>n. md5sum_line bin (md5_rfc (md5_content fs n)) n) names)) ck =
      fold (md5_count_step fs fs') names ck"
proof (induction names arbitrary: ck)
  case Nil
  then show ?case by (subst do_check_loop.simps) (simp add: get_md5_line_def fgets_def)
next
  case (Cons name names)
  have "md5_check_line m ctx fs' bin' (Some (if bin then 2 else 1, md5_rfc (md5_content fs name), name)) ck =
      md5_count_step fs fs' name ck"
    using md5_readableD [of fs' name] Cons.prems
    by (simp add: md5_check_line_def mdfile_rfc [OF assms] md5_count_step_def)
  then show ?case
    using Cons.IH [of "md5_count_step fs fs' name ck"] Cons.prems
      get_md5_line_print [of "md5_rfc (md5_content fs name)" name bin] length_md5_rfc
    by (subst do_check_loop.simps) simp
qed

lemma md5_count_fold:
  "ck_ex (fold (md5_count_step fs fs') names ck) = ck_ex ck \<and>
   ck_checked (fold (md5_count_step fs fs') names ck) = ck_checked ck + length names \<and>
   (ck_failed (fold (md5_count_step fs fs') names ck) = 0 \<longleftrightarrow> ck_failed ck = 0 \<and>
     (\<forall>name \<in> set names. md5_rfc (md5_content fs name) = md5_rfc (md5_content fs' name)))"
  by (induction names arbitrary: ck) (auto simp: md5_count_step_def)

lemma md5sum_options_generate:
  "set opts \<subseteq> {CHR ''b'', CHR ''v''} \<Longrightarrow> \<exists>bin'. md5sum_options opts (False, bin) = Some (False, bin')"
  by (induction opts arbitrary: bin) auto

section \<open>Properties\<close>

text \<open>C6. End to end: a list of digests that the program prints for some files is accepted when the
  program checks it. If every file still opens and reads, the exit code is 0 when all digests are
  unchanged and 1 when some file's digest differs; no file of the list is skipped.\<close>

theorem md5sum_generate_check:
  assumes "length (md_in ctx) = 64" "names \<noteq> []"
    "\<forall>name \<in> set names. md5_name_ok name \<and> md5_readable fs name \<and> md5_readable fs' name"
    "md5sum_main m ctx fs stdin opts (Suc argc) names = (out, rc)" "set opts \<subseteq> {CHR ''b'', CHR ''v''}"
  shows "rc = 0 \<and> do_check m ctx fs' bin' out =
    (if \<forall>name \<in> set names. md5_rfc (md5_content fs name) = md5_rfc (md5_content fs' name) then 0 else 1)"
proof -
  have ready: "md5_ready ctx" using assms(1) by (simp add: md5_ready_def)
  obtain bin where o: "md5sum_options opts (False, False) = Some (False, bin)"
    using md5sum_options_generate assms(5) by blast
  have out: "out = concat (map (\<lambda>n. md5sum_line bin (md5_rfc (md5_content fs n)) n) names)" "rc = 0"
    using assms(4) md5sum_files_readable [OF ready, of names fs m bin 0] assms(3) o
    by (simp_all add: md5sum_main_def)
  have "\<forall>name \<in> set names. md5_name_ok name \<and> md5_readable fs' name" using assms(3) by blast
  from do_check_loop_lines [OF ready this, of m bin' bin fs] show ?thesis
    using md5_count_fold [of fs fs' names "\<lparr>ck_ex = 0, ck_failed = 0, ck_checked = 0\<rparr>"] assms(2)
    by (simp add: do_check_def out Let_def)
qed

definition md5_fs_1 :: "byte \<Rightarrow> md5_fs" where
  "md5_fs_1 b = (\<lambda>name bin. if name = ''a'' then Some ([b], False) else None)"

theorem md5sum_generate_check_witness:
  "do_check LSB1st md5_ctx_0 (md5_fs_1 7) False
     (fst (md5sum_main LSB1st md5_ctx_0 (md5_fs_1 7) ([], False) ''b'' 3 [''a''])) = 0"
proof -
  obtain out rc where e: "md5sum_main LSB1st md5_ctx_0 (md5_fs_1 7) ([], False) ''b'' (Suc 2) [''a''] = (out, rc)"
    by force
  show ?thesis
    using md5sum_generate_check [OF _ _ _ e, of "md5_fs_1 7" False] e
    by (simp add: md5_ctx_0_def md5_name_ok_def md5_readable_def md5_fs_1_def)
qed

text \<open>Round trip: reading a printed line gives back the digest, the file name and the mode, and
  consumes exactly that line, for every file name of 1 to 254 characters without newline and null.\<close>

theorem md5sum_line_roundtrip:
  assumes "length digest = 16" "1 \<le> length name" "length name \<le> 254" "CHR 10 \<notin> set name" "CHR 0x00 \<notin> set name"
  shows "get_md5_line (md5sum_line bin digest name @ rest) = Some (Some (if bin then 2 else 1, digest, name), rest)"
  using assms by (intro get_md5_line_print) (simp_all add: md5_name_ok_def)

theorem md5sum_line_roundtrip_witness:
  "get_md5_line (md5sum_line True (replicate 16 0x5a) ''x y'' @ ''tail'') = Some (Some (2, replicate 16 0x5a, ''x y''), ''tail'')"
  using md5sum_line_roundtrip [of "replicate 16 0x5a" "''x y''" True "''tail''"] by simp

text \<open>A list whose last line has no newline is read with the last character of the last file name
  missing: the reader drops the final character of every line, newline or not.\<close>

theorem md5sum_last_line_truncated:
  assumes "length digest = 16" "2 \<le> length name" "length name \<le> 254" "CHR 10 \<notin> set name" "CHR 0x00 \<notin> set name"
  shows "get_md5_line (butlast (md5sum_line bin digest name)) =
    Some (Some (if bin then 2 else 1, digest, butlast name), [])"
  using assms by (intro get_md5_line_unterminated) (simp_all add: md5_name_ok_def)

theorem md5sum_last_line_truncated_witness:
  "get_md5_line (butlast (md5sum_line False (replicate 16 1) ''notes'')) = Some (Some (1, replicate 16 1, ''note''), [])"
  using md5sum_last_line_truncated [of "replicate 16 1" "''notes''" False] by simp

text \<open>The exit codes of a check: 3 exactly when no listed file could be compared; otherwise 2 when
  some file could not be opened or read, else 1 when some digest differed, else 0. Lines that are not
  check lines change nothing.\<close>

theorem md5sum_check_exit_codes:
  "do_check m ctx fs bin chkf =
     (let ck = do_check_loop m ctx fs bin chkf \<lparr>ck_ex = 0, ck_failed = 0, ck_checked = 0\<rparr> in
      if ck_checked ck = 0 then 3 else if ck_ex ck = 2 then 2 else if 0 < ck_failed ck then 1 else 0) \<and>
   md5_check_line m ctx fs bin None ck = ck"
proof -
  have step: "ck_ex (md5_check_line m ctx fs bin line ck) \<in> {0, 2}" if "ck_ex ck \<in> {0, 2}" for line ck
    using that by (auto simp: md5_check_line_def Let_def split: option.splits prod.splits)
  have "ck_ex (do_check_loop m ctx fs bin chkf ck) \<in> {0, 2}" if "ck_ex ck \<in> {0, 2}" for chkf ck
    using that
  proof (induction m ctx fs bin chkf ck rule: do_check_loop.induct)
    case (1 m ctx fs bin chkf ck)
    show ?case
    proof (cases "get_md5_line chkf")
      case None
      then show ?thesis using "1.prems" by (subst do_check_loop.simps) simp
    next
      case (Some lr)
      obtain line rest where lr: "lr = (line, rest)" by force
      have "ck_ex (md5_check_line m ctx fs bin line ck) \<in> {0, 2}"
        using "1.prems" by (auto simp: md5_check_line_def Let_def split: option.splits prod.splits)
      then show ?thesis using "1.IH" [OF Some lr [symmetric]] Some lr by (subst do_check_loop.simps) simp
    qed
  qed
  from this [of "\<lparr>ck_ex = 0, ck_failed = 0, ck_checked = 0\<rparr>" chkf] show ?thesis
    by (auto simp: do_check_def md5_check_line_def Let_def)
qed

text \<open>Without file arguments the program prints nothing and exits with 0, whatever is on standard
  input: the branch that would hash standard input tests \<open>argc == 0\<close>, and \<open>argc\<close> counts the
  program's name.\<close>

theorem md5sum_ignores_stdin:
  assumes "set opts \<subseteq> {CHR ''b'', CHR ''v''}" "1 \<le> argc"
  shows "md5sum_main m ctx fs stdin opts argc [] = ([], 0)"
proof -
  obtain bin where "md5sum_options opts (False, False) = Some (False, bin)"
    using md5sum_options_generate assms(1) by blast
  then show ?thesis using assms(2) by (simp add: md5sum_main_def)
qed

theorem md5sum_ignores_stdin_witness:
  "md5sum_main LSB1st md5_ctx_0 (md5_fs_1 7) ([97, 98, 99], False) [] 1 [] = ([], 0)"
  using md5sum_ignores_stdin [of "[]" 1 LSB1st md5_ctx_0 "md5_fs_1 7" "([97, 98, 99], False)"] by simp

end
