(* ===== verification/WrapMalloc.thy ===== *)
theory WrapMalloc
  imports Prelude
begin

text \<open>
  The accounting allocator \<^verbatim>\<open>wrap_func/wrap_malloc.c\<close>: every block gets a header of two
  \<open>size_t\<close> words, its size and the address of the caller, and a global counter holds the bytes
  in use. The real allocator is a parameter: for the live blocks and a size it names a base
  address and the bytes found there, or fails. \<open>None\<close> as the result of an operation is an access
  outside a live block. Sizes are 64-bit words.
\<close>

section \<open>State\<close>

type_synonym size_t = "64 word"

definition SIZE_T_SIZE :: nat where
  "SIZE_T_SIZE = 8"

definition MEM_SIZE_T_OFFSET :: nat where
  "MEM_SIZE_T_OFFSET = 2"

definition MEM_OFFSET :: nat where
  "MEM_OFFSET = SIZE_T_SIZE * MEM_SIZE_T_OFFSET"

definition MAX_SIZE_T :: size_t where
  "MAX_SIZE_T = NOT 0"

text \<open>A block of the real allocator: its two header words and the bytes after them.\<close>

record wm_block =
  bk_size :: size_t
  bk_addr :: size_t
  bk_data :: "byte list"

type_synonym wm_heap = "nat \<Rightarrow> wm_block option"

record wm_state =
  wm_heap :: wm_heap
  g_mem_used_size :: size_t
  g_mem_debug :: bool

type_synonym real_malloc = "wm_heap \<Rightarrow> size_t \<Rightarrow> (nat \<times> byte list) option"

text \<open>What the real allocator promises: a fresh, non-null block of the size asked for.\<close>

definition real_malloc_ok :: "real_malloc \<Rightarrow> bool" where
  "real_malloc_ok rm \<longleftrightarrow> (\<forall>h n b bs. rm h n = Some (b, bs) \<longrightarrow> h b = None \<and> b \<noteq> 0 \<and> length bs = unat n)"

section \<open>Operations\<close>

text \<open>
  What follows a call of \<open>__real_malloc(size)\<close> in every allocation function: count the size,
  write the header, step over it. The header does not fit when the block is below 16 bytes.
  The inner \<open>None\<close> is a null pointer.
\<close>

definition wm_take :: "real_malloc \<Rightarrow> size_t \<Rightarrow> size_t \<Rightarrow> wm_state \<Rightarrow> (nat option \<times> wm_state) option" where
  "wm_take rm addr sz st =
     (case rm (wm_heap st) sz of
        None \<Rightarrow> Some (None, st)
      | Some (b, bytes) \<Rightarrow>
          let st = st\<lparr>g_mem_used_size := g_mem_used_size st + sz\<rparr> in
          if length bytes < MEM_OFFSET then None
          else let blk = \<lparr>bk_size = sz, bk_addr = addr, bk_data = drop MEM_OFFSET bytes\<rparr>
               in Some (Some (b + MEM_OFFSET), st\<lparr>wm_heap := (wm_heap st)(b \<mapsto> blk)\<rparr>))"

definition wrap_malloc :: "real_malloc \<Rightarrow> size_t \<Rightarrow> size_t \<Rightarrow> wm_state \<Rightarrow> (nat option \<times> wm_state) option" where
  "wrap_malloc rm addr sz st = (let sz = sz + of_nat MEM_OFFSET in wm_take rm addr sz st)"

definition wrap_free :: "nat option \<Rightarrow> wm_state \<Rightarrow> wm_state option" where
  "wrap_free ptr st =
     (case ptr of
        None \<Rightarrow> Some st
      | Some p \<Rightarrow>
          (let b = p - MEM_OFFSET in
           case (if p < MEM_OFFSET then None else wm_heap st b) of
             None \<Rightarrow> None
           | Some blk \<Rightarrow>
               let sz = bk_size blk;
                   st = st\<lparr>g_mem_used_size := g_mem_used_size st - sz\<rparr>
               in Some (st\<lparr>wm_heap := (wm_heap st)(b := None)\<rparr>)))"

text \<open>\<open>memcpy(dst, src, n)\<close> between two blocks; \<open>None\<close> when either is too short.\<close>

definition wm_copy :: "nat \<Rightarrow> nat \<Rightarrow> nat \<Rightarrow> wm_state \<Rightarrow> wm_state option" where
  "wm_copy dst src n st =
     (case (wm_heap st dst, wm_heap st src) of
        (Some d, Some s) \<Rightarrow>
          if n \<le> length (bk_data d) \<and> n \<le> length (bk_data s)
          then Some (st\<lparr>wm_heap := (wm_heap st)(dst \<mapsto> d\<lparr>bk_data := mem_put (bk_data d) 0 (take n (bk_data s))\<rparr>)\<rparr>)
          else None
      | _ \<Rightarrow> None)"

text \<open>
  \<open>*((size_t *)ptr - 1)\<close> is the word just before the data, the second header word. The old
  block is released also when it was a null pointer (which does nothing).
\<close>

definition wrap_realloc ::
  "real_malloc \<Rightarrow> size_t \<Rightarrow> nat option \<Rightarrow> size_t \<Rightarrow> wm_state \<Rightarrow> (nat option \<times> wm_state) option" where
  "wrap_realloc rm addr ptr sz st =
     (if sz = 0 then
        (case wrap_free ptr st of None \<Rightarrow> None | Some st \<Rightarrow> Some (None, st))
      else
        let req_size = sz + of_nat MEM_OFFSET in
        case wm_take rm addr req_size st of
          None \<Rightarrow> None
        | Some (None, st) \<Rightarrow> Some (None, st)
        | Some (Some new_ptr, st) \<Rightarrow>
            (case (case ptr of
                     None \<Rightarrow> Some st
                   | Some p \<Rightarrow>
                       (case (if p < MEM_OFFSET then None else wm_heap st (p - MEM_OFFSET)) of
                          None \<Rightarrow> None
                        | Some blk \<Rightarrow>
                            let old_size = bk_addr blk - of_nat MEM_OFFSET;
                                old_size = (if old_size > sz then sz else old_size)
                            in wm_copy (new_ptr - MEM_OFFSET) (p - MEM_OFFSET) (unat old_size) st)) of
               None \<Rightarrow> None
             | Some st \<Rightarrow>
                 (case wrap_free ptr st of
                    None \<Rightarrow> None
                  | Some st \<Rightarrow> Some (Some new_ptr, st))))"

text \<open>The number of bytes \<open>calloc\<close> asks for, all ones when it takes the product for an overflow.\<close>

definition calloc_req :: "size_t \<Rightarrow> size_t \<Rightarrow> size_t" where
  "calloc_req n_elements elem_size =
     (if n_elements \<noteq> 0 then
        let req = n_elements * elem_size in
        if (n_elements OR elem_size) AND NOT 0xffff \<noteq> 0 \<and> req div n_elements \<noteq> elem_size
        then MAX_SIZE_T else req
      else 0)"

definition wrap_calloc ::
  "real_malloc \<Rightarrow> size_t \<Rightarrow> size_t \<Rightarrow> size_t \<Rightarrow> wm_state \<Rightarrow> (nat option \<times> wm_state) option" where
  "wrap_calloc rm addr n_elements elem_size st =
     (let req = calloc_req n_elements elem_size;
          req_size = req + of_nat MEM_OFFSET in
      case wm_take rm addr req_size st of
        None \<Rightarrow> None
      | Some (None, st) \<Rightarrow> Some (None, st)
      | Some (Some mem, st) \<Rightarrow>
          (let b = mem - MEM_OFFSET in
           case wm_heap st b of
             None \<Rightarrow> None
           | Some blk \<Rightarrow>
               if unat req \<le> length (bk_data blk)
               then Some (Some mem, st\<lparr>wm_heap := (wm_heap st)(b \<mapsto>
                      blk\<lparr>bk_data := mem_put (bk_data blk) 0 (replicate (unat req) 0)\<rparr>)\<rparr>)
               else None))"

text \<open>The C++ operators \<open>new\<close>, \<open>new[]\<close>, \<open>delete\<close>, \<open>delete[]\<close> have the bodies of malloc and free.\<close>

definition wrap_Znwm :: "real_malloc \<Rightarrow> size_t \<Rightarrow> size_t \<Rightarrow> wm_state \<Rightarrow> (nat option \<times> wm_state) option" where
  "wrap_Znwm rm addr sz st = (let sz = sz + of_nat MEM_OFFSET in wm_take rm addr sz st)"

definition wrap_Znam :: "real_malloc \<Rightarrow> size_t \<Rightarrow> size_t \<Rightarrow> wm_state \<Rightarrow> (nat option \<times> wm_state) option" where
  "wrap_Znam rm addr sz st = (let sz = sz + of_nat MEM_OFFSET in wm_take rm addr sz st)"

definition wrap_ZdlPv :: "nat option \<Rightarrow> wm_state \<Rightarrow> wm_state option" where
  "wrap_ZdlPv ptr st = wrap_free ptr st"

definition wrap_ZdaPv :: "nat option \<Rightarrow> wm_state \<Rightarrow> wm_state option" where
  "wrap_ZdaPv ptr st = wrap_free ptr st"

text \<open>\<open>strncpy\<close>: at most \<open>n\<close> characters of the string, filled up with null characters.\<close>

definition wm_strncpy :: "byte list \<Rightarrow> nat \<Rightarrow> byte list" where
  "wm_strncpy src n = take n src @ replicate (n - length src) 0"

text \<open>\<open>src\<close> is the string without its terminator.\<close>

definition wrap_strndup ::
  "real_malloc \<Rightarrow> size_t \<Rightarrow> byte list \<Rightarrow> size_t \<Rightarrow> wm_state \<Rightarrow> (nat option \<times> wm_state) option" where
  "wrap_strndup rm addr src len st =
     (case wrap_malloc rm addr (len + 1) st of
        None \<Rightarrow> None
      | Some (None, st) \<Rightarrow> Some (None, st)
      | Some (Some dst, st) \<Rightarrow>
          (let b = dst - MEM_OFFSET; n = unat (len + 1) in
           case wm_heap st b of
             None \<Rightarrow> None
           | Some blk \<Rightarrow>
               if n \<le> length (bk_data blk)
               then Some (Some dst, st\<lparr>wm_heap := (wm_heap st)(b \<mapsto>
                      blk\<lparr>bk_data := mem_put (bk_data blk) 0 (wm_strncpy src n)\<rparr>)\<rparr>)
               else None))"

definition wrap_strdup ::
  "real_malloc \<Rightarrow> size_t \<Rightarrow> byte list \<Rightarrow> wm_state \<Rightarrow> (nat option \<times> wm_state) option" where
  "wrap_strdup rm addr src st = (let len = of_nat (length src) in wrap_strndup rm addr src len st)"

definition wrap_malloc_debug :: "bool \<Rightarrow> wm_state \<Rightarrow> wm_state" where
  "wrap_malloc_debug enable st = st\<lparr>g_mem_debug := enable\<rparr>"

section \<open>Programs over the allocator\<close>

datatype wm_op =
    OMalloc size_t size_t | OFree "nat option" | ORealloc size_t "nat option" size_t
  | OCalloc size_t size_t size_t | ONew size_t size_t | ONewArray size_t size_t
  | ODelete "nat option" | ODeleteArray "nat option" | OStrndup size_t "byte list" size_t
  | OStrdup size_t "byte list" | ODebug bool

definition wm_step :: "real_malloc \<Rightarrow> wm_op \<Rightarrow> wm_state \<Rightarrow> wm_state option" where
  "wm_step rm op st =
     (case op of
        OMalloc addr n \<Rightarrow> map_option snd (wrap_malloc rm addr n st)
      | OFree p \<Rightarrow> wrap_free p st
      | ORealloc addr p n \<Rightarrow> map_option snd (wrap_realloc rm addr p n st)
      | OCalloc addr n k \<Rightarrow> map_option snd (wrap_calloc rm addr n k st)
      | ONew addr n \<Rightarrow> map_option snd (wrap_Znwm rm addr n st)
      | ONewArray addr n \<Rightarrow> map_option snd (wrap_Znam rm addr n st)
      | ODelete p \<Rightarrow> wrap_ZdlPv p st
      | ODeleteArray p \<Rightarrow> wrap_ZdaPv p st
      | OStrndup addr src n \<Rightarrow> map_option snd (wrap_strndup rm addr src n st)
      | OStrdup addr src \<Rightarrow> map_option snd (wrap_strdup rm addr src st)
      | ODebug e \<Rightarrow> Some (wrap_malloc_debug e st))"

fun wm_run :: "real_malloc \<Rightarrow> wm_op list \<Rightarrow> wm_state \<Rightarrow> wm_state option" where
  "wm_run rm [] st = Some st"
| "wm_run rm (op # ops) st = (case wm_step rm op st of None \<Rightarrow> None | Some st \<Rightarrow> wm_run rm ops st)"

section \<open>The accounting invariant\<close>

definition wm_live :: "wm_heap \<Rightarrow> size_t" where
  "wm_live h = (\<Sum>b \<in> dom h. bk_size (the (h b)))"

definition wm_ok :: "wm_state \<Rightarrow> bool" where
  "wm_ok st \<longleftrightarrow> finite (dom (wm_heap st)) \<and> g_mem_used_size st = wm_live (wm_heap st) \<and>
     (\<forall>b blk. wm_heap st b = Some blk \<longrightarrow> b \<noteq> 0 \<and> unat (bk_size blk) = length (bk_data blk) + MEM_OFFSET)"

lemma wm_live_insert:
  "finite (dom h) \<Longrightarrow> h b = None \<Longrightarrow> wm_live (h(b \<mapsto> blk)) = wm_live h + bk_size blk"
proof -
  assume a: "finite (dom h)" "h b = None"
  then have "b \<notin> dom h" by blast
  moreover have "(\<Sum>x \<in> dom h. bk_size (the ((h(b \<mapsto> blk)) x))) = wm_live h"
    unfolding wm_live_def using a by (intro sum.cong) auto
  ultimately show ?thesis using a(1) by (simp add: wm_live_def add.commute)
qed

lemma wm_live_remove:
  assumes "finite (dom h)" "h b = Some blk"
  shows "wm_live (h(b := None)) = wm_live h - bk_size blk"
proof -
  have "b \<in> dom h" using assms(2) by blast
  moreover have "(\<Sum>x \<in> dom h - {b}. bk_size (the ((h(b := None)) x))) = (\<Sum>x \<in> dom h - {b}. bk_size (the (h x)))"
    by (intro sum.cong) auto
  ultimately show ?thesis using assms by (simp add: wm_live_def sum.remove [of "dom h" b])
qed

lemma wm_live_same:
  assumes "h b = Some blk" "bk_size blk' = bk_size blk"
  shows "wm_live (h(b \<mapsto> blk')) = wm_live h" "dom (h(b \<mapsto> blk')) = dom h"
proof -
  show d: "dom (h(b \<mapsto> blk')) = dom h" using assms(1) by auto
  show "wm_live (h(b \<mapsto> blk')) = wm_live h"
    unfolding wm_live_def d using assms by (intro sum.cong) auto
qed

lemma wm_take_ok:
  assumes "real_malloc_ok rm" "wm_ok st" "wm_take rm addr sz st = Some (r, st')"
  shows "wm_ok st'"
    "r = None \<Longrightarrow> st' = st"
    "r = Some p \<Longrightarrow> \<exists>b bytes. p = b + MEM_OFFSET \<and> wm_heap st b = None \<and> length bytes = unat sz \<and> MEM_OFFSET \<le> unat sz \<and>
       st' = st\<lparr>g_mem_used_size := g_mem_used_size st + sz,
                wm_heap := (wm_heap st)(b \<mapsto> \<lparr>bk_size = sz, bk_addr = addr, bk_data = drop MEM_OFFSET bytes\<rparr>)\<rparr>"
proof -
  have cases: "(r = None \<and> st' = st) \<or> (\<exists>b bytes. r = Some (b + MEM_OFFSET) \<and> wm_heap st b = None \<and> b \<noteq> 0 \<and>
      length bytes = unat sz \<and> MEM_OFFSET \<le> unat sz \<and>
       st' = st\<lparr>g_mem_used_size := g_mem_used_size st + sz,
                wm_heap := (wm_heap st)(b \<mapsto> \<lparr>bk_size = sz, bk_addr = addr, bk_data = drop MEM_OFFSET bytes\<rparr>)\<rparr>)"
  proof (cases "rm (wm_heap st) sz")
    case (Some x)
    obtain b bytes where x: "x = (b, bytes)" by force
    have "wm_heap st b = None \<and> b \<noteq> 0 \<and> length bytes = unat sz"
      using assms(1) [unfolded real_malloc_ok_def, rule_format, of "wm_heap st" sz b bytes] Some x by simp
    then show ?thesis
      using assms(3) Some x by (auto simp: wm_take_def Let_def split: if_splits)
  qed (use assms(3) in \<open>simp add: wm_take_def\<close>)
  show "r = None \<Longrightarrow> st' = st" using cases by auto
  show "r = Some p \<Longrightarrow> \<exists>b bytes. p = b + MEM_OFFSET \<and> wm_heap st b = None \<and> length bytes = unat sz \<and> MEM_OFFSET \<le> unat sz \<and>
       st' = st\<lparr>g_mem_used_size := g_mem_used_size st + sz,
                wm_heap := (wm_heap st)(b \<mapsto> \<lparr>bk_size = sz, bk_addr = addr, bk_data = drop MEM_OFFSET bytes\<rparr>)\<rparr>"
    using cases by blast
  show "wm_ok st'"
    using cases assms(2) wm_live_insert [of "wm_heap st"] by (auto simp: wm_ok_def split: if_splits)
qed

lemma MEM_OFFSET_16 [simp]: "MEM_OFFSET = 16"
  by (simp add: MEM_OFFSET_def SIZE_T_SIZE_def MEM_SIZE_T_OFFSET_def)

lemma wm_free_ok:
  assumes "wm_ok st" "wrap_free ptr st = Some st'"
  shows "wm_ok st'"
proof (cases ptr)
  case (Some p)
  then obtain blk where b: "wm_heap st (p - MEM_OFFSET) = Some blk"
    "st' = st\<lparr>g_mem_used_size := g_mem_used_size st - bk_size blk,
             wm_heap := (wm_heap st)(p - MEM_OFFSET := None)\<rparr>"
    using assms(2) by (auto simp: wrap_free_def Let_def split: option.splits if_splits)
  then show ?thesis
    using assms(1) wm_live_remove [of "wm_heap st" "p - MEM_OFFSET" blk] by (auto simp: wm_ok_def)
qed (use assms in \<open>simp add: wrap_free_def\<close>)

text \<open>Overwriting data in place.\<close>

lemma wm_write_ok:
  assumes "wm_ok st" "wm_heap st b = Some blk" "length bs = length (bk_data blk)"
  shows "wm_ok (st\<lparr>wm_heap := (wm_heap st)(b \<mapsto> blk\<lparr>bk_data := bs\<rparr>)\<rparr>)"
  using assms wm_live_same [of "wm_heap st" b blk "blk\<lparr>bk_data := bs\<rparr>"] by (auto simp: wm_ok_def)

lemma wm_copy_ok:
  assumes "wm_ok st" "wm_copy dst src n st = Some st'"
  shows "wm_ok st'"
proof -
  obtain d s where h: "wm_heap st dst = Some d" "wm_heap st src = Some s" "n \<le> length (bk_data d)" "n \<le> length (bk_data s)"
    "st' = st\<lparr>wm_heap := (wm_heap st)(dst \<mapsto> d\<lparr>bk_data := mem_put (bk_data d) 0 (take n (bk_data s))\<rparr>)\<rparr>"
    using assms(2) by (auto simp: wm_copy_def split: option.splits if_splits)
  then show ?thesis using wm_write_ok [OF assms(1) h(1)] by (simp add: length_mem_put)
qed

lemma wrap_realloc_ok:
  assumes "real_malloc_ok rm" "wm_ok st" "wrap_realloc rm addr ptr sz st = Some (r, st')"
  shows "wm_ok st'"
proof (cases "sz = 0")
  case True
  then show ?thesis using assms wm_free_ok by (auto simp: wrap_realloc_def split: option.splits)
next
  case False
  then obtain r1 st1 where t: "wm_take rm addr (sz + of_nat MEM_OFFSET) st = Some (r1, st1)"
    using assms(3) by (auto simp: wrap_realloc_def split: option.splits)
  have ok1: "wm_ok st1" by (rule wm_take_ok(1) [OF assms(1,2) t])
  show ?thesis
  proof (cases r1)
    case None
    then show ?thesis using assms(3) False t ok1 by (simp add: wrap_realloc_def)
  next
    case (Some np)
    then obtain st2 where st2: "st2 = st1 \<or> (\<exists>d s n. wm_copy d s n st1 = Some st2)" "wrap_free ptr st2 = Some st'"
      using assms(3) False t by (auto simp: wrap_realloc_def Let_def split: option.splits if_splits)
    then show ?thesis using ok1 wm_copy_ok wm_free_ok by blast
  qed
qed

lemma wrap_malloc_ok:
  "real_malloc_ok rm \<Longrightarrow> wm_ok st \<Longrightarrow> wrap_malloc rm addr n st = Some (r, st') \<Longrightarrow> wm_ok st'"
  unfolding wrap_malloc_def Let_def by (rule wm_take_ok(1))

lemma wrap_calloc_ok:
  assumes "real_malloc_ok rm" "wm_ok st" "wrap_calloc rm addr n k st = Some (r, st')"
  shows "wm_ok st'"
proof -
  obtain r1 st1 where t: "wm_take rm addr (calloc_req n k + of_nat MEM_OFFSET) st = Some (r1, st1)"
    using assms(3) by (auto simp: wrap_calloc_def Let_def split: option.splits)
  have ok1: "wm_ok st1" by (rule wm_take_ok(1) [OF assms(1,2) t])
  show ?thesis
  proof (cases r1)
    case (Some p)
    then obtain blk where "wm_heap st1 (p - MEM_OFFSET) = Some blk" "unat (calloc_req n k) \<le> length (bk_data blk)"
      "st' = st1\<lparr>wm_heap := (wm_heap st1)(p - MEM_OFFSET \<mapsto>
         blk\<lparr>bk_data := mem_put (bk_data blk) 0 (replicate (unat (calloc_req n k)) 0)\<rparr>)\<rparr>"
      using assms(3) t by (auto simp: wrap_calloc_def Let_def split: option.splits if_splits)
    then show ?thesis using wm_write_ok [OF ok1] by (simp add: length_mem_put)
  qed (use assms(3) t ok1 in \<open>simp add: wrap_calloc_def Let_def\<close>)
qed

lemma length_wm_strncpy [simp]: "length (wm_strncpy src n) = n"
  by (simp add: wm_strncpy_def)

lemma wrap_strndup_ok:
  assumes "real_malloc_ok rm" "wm_ok st" "wrap_strndup rm addr src n st = Some (r, st')"
  shows "wm_ok st'"
proof -
  obtain r1 st1 where t: "wrap_malloc rm addr (n + 1) st = Some (r1, st1)"
    using assms(3) by (auto simp: wrap_strndup_def split: option.splits)
  have ok1: "wm_ok st1" by (rule wrap_malloc_ok [OF assms(1,2) t])
  show ?thesis
  proof (cases r1)
    case (Some p)
    then obtain blk where "wm_heap st1 (p - MEM_OFFSET) = Some blk" "unat (n + 1) \<le> length (bk_data blk)"
      "st' = st1\<lparr>wm_heap := (wm_heap st1)(p - MEM_OFFSET \<mapsto>
         blk\<lparr>bk_data := mem_put (bk_data blk) 0 (wm_strncpy src (unat (n + 1)))\<rparr>)\<rparr>"
      using assms(3) t by (auto simp: wrap_strndup_def Let_def split: option.splits if_splits)
    then show ?thesis using wm_write_ok [OF ok1] by (simp add: length_mem_put)
  qed (use assms(3) t ok1 in \<open>simp add: wrap_strndup_def\<close>)
qed

lemma wm_step_ok:
  assumes "real_malloc_ok rm" "wm_ok st" "wm_step rm op st = Some st'"
  shows "wm_ok st'"
proof -
  have m: "map_option snd x = Some y \<longleftrightarrow> (\<exists>r. x = Some (r, y))" for x :: "('a \<times> wm_state) option" and y
    by (cases x) auto
  note s = assms(3) [unfolded wm_step_def]
  show ?thesis
  proof (cases op)
    case (OMalloc a n)
    then show ?thesis using s wrap_malloc_ok [OF assms(1,2)] by (auto simp: m)
  next
    case (OFree p)
    then show ?thesis using s wm_free_ok [OF assms(2)] by simp
  next
    case (ORealloc a p n)
    then show ?thesis using s wrap_realloc_ok [OF assms(1,2)] by (auto simp: m)
  next
    case (OCalloc a n k)
    then show ?thesis using s wrap_calloc_ok [OF assms(1,2)] by (auto simp: m)
  next
    case (ONew a n)
    then show ?thesis using s wm_take_ok(1) [OF assms(1,2)] by (auto simp: m wrap_Znwm_def Let_def)
  next
    case (ONewArray a n)
    then show ?thesis using s wm_take_ok(1) [OF assms(1,2)] by (auto simp: m wrap_Znam_def Let_def)
  next
    case (ODelete p)
    then show ?thesis using s wm_free_ok [OF assms(2)] by (simp add: wrap_ZdlPv_def)
  next
    case (ODeleteArray p)
    then show ?thesis using s wm_free_ok [OF assms(2)] by (simp add: wrap_ZdaPv_def)
  next
    case (OStrndup a src n)
    then show ?thesis using s wrap_strndup_ok [OF assms(1,2)] by (auto simp: m)
  next
    case (OStrdup a src)
    then show ?thesis using s wrap_strndup_ok [OF assms(1,2)] by (auto simp: m wrap_strdup_def Let_def)
  next
    case (ODebug e)
    then show ?thesis using s assms(2) by (auto simp: wrap_malloc_debug_def wm_ok_def)
  qed
qed

lemma wm_run_ok:
  "real_malloc_ok rm \<Longrightarrow> wm_ok st \<Longrightarrow> wm_run rm ops st = Some st' \<Longrightarrow> wm_ok st'"
proof (induction ops arbitrary: st)
  case (Cons op ops)
  then obtain st1 where "wm_step rm op st = Some st1" "wm_run rm ops st1 = Some st'"
    by (auto split: option.splits)
  then show ?case using Cons.IH wm_step_ok Cons.prems(1,2) by blast
qed simp

section \<open>The overflow test of calloc\<close>

lemma high_zero_less:
  assumes "(w :: size_t) AND NOT 0xffff = 0"
  shows "unat w < 65536"
proof -
  have m: "(0xffff :: size_t) = mask 16" by (simp add: mask_eq_exp_minus_1)
  have "take_bit 16 w = w"
  proof (rule bit_word_eqI)
    fix i :: nat
    assume "i < LENGTH(64)"
    then have "bit (w AND NOT (mask 16)) i \<longleftrightarrow> bit w i \<and> 16 \<le> i" by (auto simp: bit_simps)
    then show "bit (take_bit 16 w) i = bit w i" using assms unfolding m by (auto simp: bit_simps)
  qed
  then have "unat w = take_bit 16 (unat w)" by (metis unsigned_take_bit_eq)
  then show ?thesis using take_bit_nat_less_exp [of 16 "unat w"] by simp
qed

text \<open>The test is exact: it fires exactly when the product does not fit in 64 bits.\<close>

lemma calloc_req_eq:
  "calloc_req n k = (if unat n * unat k < 2 ^ 64 then n * k else MAX_SIZE_T)"
proof (cases "n = 0")
  case False
  then have n: "0 < unat n" by (simp add: unat_gt_0)
  have u: "unat (n * k) = unat n * unat k mod 2 ^ 64" by (simp add: unat_word_ariths)
  have d: "unat (n * k div n) = unat (n * k) div unat n" by (simp add: unat_div_distrib)
  show ?thesis
  proof (cases "unat n * unat k < 2 ^ 64")
    case True
    then have "unat (n * k) = unat n * unat k" using u by simp
    then have "n * k div n = k" using d n by (simp add: word_unat_eq_iff)
    then show ?thesis using True False by (simp add: calloc_req_def Let_def)
  next
    case ov: False
    have "unat n * unat k mod 2 ^ 64 < unat n * unat k" 
    proof -
      have "unat n * unat k mod 2 ^ 64 < 2 ^ 64" by simp
      with ov show ?thesis by linarith
    qed
    then have "unat (n * k) div unat n < unat k" using u n by (simp add: div_less_iff_less_mult mult.commute)
    then have q: "n * k div n \<noteq> k" using d by auto
    have "(n OR k) AND NOT 0xffff \<noteq> 0"
    proof
      assume "(n OR k) AND NOT 0xffff = 0"
      then have "n AND NOT 0xffff = 0" "k AND NOT 0xffff = 0" by (simp_all only: bit.conj_disj_distrib2 or_eq_0_iff)
      then have "unat n < 65536" "unat k < 65536" using high_zero_less by blast+
      then have "unat n * unat k \<le> 65535 * 65535" by (intro mult_le_mono) simp_all
      then show False using ov by simp
    qed
    then show ?thesis using ov q False by (simp add: calloc_req_def Let_def)
  qed
qed (simp add: calloc_req_def)

section \<open>What a granted request gives\<close>

lemma wm_take_granted:
  assumes "real_malloc_ok rm" "rm (wm_heap st) sz = Some (b, bytes)" "16 \<le> unat sz"
  shows "wm_take rm addr sz st = Some (Some (b + 16), st\<lparr>g_mem_used_size := g_mem_used_size st + sz,
      wm_heap := (wm_heap st)(b \<mapsto> \<lparr>bk_size = sz, bk_addr = addr, bk_data = drop 16 bytes\<rparr>)\<rparr>)"
    "wm_heap st b = None" "length bytes = unat sz"
  using assms by (auto simp: wm_take_def Let_def real_malloc_ok_def)

lemma unat_add_16: "unat (n :: size_t) + 16 < 2 ^ 64 \<Longrightarrow> unat (n + 16) = unat n + 16"
  by (simp add: unat_word_ariths)

definition wm_state_0 :: wm_state where
  "wm_state_0 = \<lparr>wm_heap = Map.empty, g_mem_used_size = 0, g_mem_debug = False\<rparr>"

lemma wm_state_0_ok: "wm_ok wm_state_0"
  by (simp add: wm_ok_def wm_state_0_def wm_live_def)

text \<open>A real allocator with two addresses, for the examples.\<close>

definition wm_rm :: real_malloc where
  "wm_rm h n = (if h 4096 = None then Some (4096, replicate (unat n) 0xaa)
     else if h 8192 = None then Some (8192, replicate (unat n) 0xbb) else None)"

lemma wm_rm_ok: "real_malloc_ok wm_rm"
  by (auto simp: real_malloc_ok_def wm_rm_def split: if_splits)

section \<open>Properties\<close>

text \<open>C8. After any sequence of allocations, reallocations, duplications and releases that stays inside
  live blocks, the counter of used memory is the sum of the sizes in the headers of the live blocks;
  every header says how long its block is; and a program that released everything sees 0.\<close>

theorem wrap_accounting:
  assumes "real_malloc_ok rm" "wm_run rm ops wm_state_0 = Some st"
  shows "g_mem_used_size st = wm_live (wm_heap st) \<and>
    (\<forall>b blk. wm_heap st b = Some blk \<longrightarrow> unat (bk_size blk) = length (bk_data blk) + 16) \<and>
    (wm_heap st = Map.empty \<longrightarrow> g_mem_used_size st = 0)"
  using wm_run_ok [OF assms(1) wm_state_0_ok assms(2)] by (auto simp: wm_ok_def wm_live_def)

theorem wrap_accounting_witness:
  "\<exists>st. wm_run wm_rm [OMalloc 1 4, OStrdup 1 [104, 105], OFree (Some 4112)] wm_state_0 = Some st \<and>
     g_mem_used_size st = 19 \<and> wm_live (wm_heap st) = 19"
proof -
  obtain st where st: "wm_run wm_rm [OMalloc 1 4, OStrdup 1 [104, 105], OFree (Some 4112)] wm_state_0 = Some st"
      "g_mem_used_size st = 19"
    by (simp add: wm_step_def wrap_malloc_def wm_take_def wm_rm_def wm_state_0_def wrap_free_def wrap_strdup_def
        wrap_strndup_def Let_def)
  then show ?thesis using wrap_accounting [OF wm_rm_ok st(1)] by auto
qed

text \<open>\<open>calloc\<close> without overflow: when the real allocator grants the request the result is a new
  block of exactly the product of the sizes, all zero; when it refuses, the result is a null pointer
  and nothing changes.\<close>

theorem wrap_calloc_zeroed:
  assumes "real_malloc_ok rm" "unat n * unat k + 16 < 2 ^ 64"
  shows "case rm (wm_heap st) (n * k + 16) of
      None \<Rightarrow> wrap_calloc rm addr n k st = Some (None, st)
    | Some (b, bytes) \<Rightarrow> wm_heap st b = None \<and>
        wrap_calloc rm addr n k st = Some (Some (b + 16), st\<lparr>g_mem_used_size := g_mem_used_size st + (n * k + 16),
          wm_heap := (wm_heap st)(b \<mapsto> \<lparr>bk_size = n * k + 16, bk_addr = addr, bk_data = replicate (unat n * unat k) 0\<rparr>)\<rparr>)"
proof (cases "rm (wm_heap st) (n * k + 16)")
  case None
  then show ?thesis using assms(2) by (simp add: wrap_calloc_def calloc_req_eq wm_take_def)
next
  case (Some x)
  obtain b bytes where x: "x = (b, bytes)" by force
  have u: "unat (n * k) = unat n * unat k" using assms(2) by (simp add: unat_word_ariths)
  then have u16: "unat (n * k + 16) = unat n * unat k + 16" using assms(2) unat_add_16 [of "n * k"] by simp
  note t = wm_take_granted [OF assms(1) Some [unfolded x]]
  have "mem_put (drop 16 bytes) 0 (replicate (unat n * unat k) 0) = replicate (unat n * unat k) 0"
    using t(3) u16 by (intro mem_put_whole) simp
  then show ?thesis
    using t(1) [of addr] t(2,3) u16 u assms(2) x Some by (simp add: wrap_calloc_def calloc_req_eq Let_def)
qed

theorem wrap_calloc_zeroed_witness:
  "wrap_calloc wm_rm 1 2 3 wm_state_0 = Some (Some 4112, \<lparr>wm_heap =
     [4096 \<mapsto> \<lparr>bk_size = 22, bk_addr = 1, bk_data = replicate 6 0\<rparr>], g_mem_used_size = 22, g_mem_debug = False\<rparr>)"
  using wrap_calloc_zeroed [where rm = wm_rm and n = 2 and k = 3 and st = wm_state_0 and addr = 1] wm_rm_ok
  by (simp add: wm_rm_def wm_state_0_def)

text \<open>The overflow test of \<open>calloc\<close> fires exactly when the product does not fit in 64 bits, but the
  value it then uses does not make the request fail: adding the header wraps around to a request of
  15 bytes, and when that is granted the header is written past its end.\<close>

theorem wrap_calloc_overflow:
  "(unat n * unat k \<ge> 2 ^ 64 \<longleftrightarrow> calloc_req n k \<noteq> n * k \<or> unat n * unat k \<ge> 2 ^ 64 \<and> n * k = MAX_SIZE_T) \<and>
    (unat n * unat k \<ge> 2 ^ 64 \<and> real_malloc_ok rm \<longrightarrow>
      wrap_calloc rm addr n k st = (if rm (wm_heap st) 15 = None then Some (None, st) else None))"
proof -
  have m: "MAX_SIZE_T + 16 = (15 :: size_t)" by (simp add: MAX_SIZE_T_def)
  have "wm_take rm addr 15 st = (if rm (wm_heap st) 15 = None then Some (None, st) else None)" if "real_malloc_ok rm"
    using that by (auto simp: wm_take_def Let_def real_malloc_ok_def split: option.splits)
  then show ?thesis by (auto simp: calloc_req_eq wrap_calloc_def m)
qed

theorem wrap_calloc_overflow_witness:
  "wrap_calloc wm_rm 1 (2 ^ 33) (2 ^ 33) wm_state_0 = None"
  using wrap_calloc_overflow [where n = "2 ^ 33" and k = "2 ^ 33" and rm = wm_rm and addr = 1 and st = wm_state_0] wm_rm_ok
  by (simp add: wm_rm_def wm_state_0_def)

text \<open>Growing or shrinking a live block with \<open>realloc\<close>. The number of bytes to copy is not taken from
  the size in the header but from the word next to the data, the address of the caller: the copy is
  as long as that number minus 16, at most the new size. When it is longer than the old data the call
  reads past the old block; otherwise the new block starts with those bytes, the old block is
  released, and the counter changes by the difference of the two sizes.\<close>

theorem wrap_realloc_copies_by_caller:
  assumes "real_malloc_ok rm" "wm_ok st" "wm_heap st b = Some blk" "n \<noteq> 0" "unat n + 16 < 2 ^ 64"
    "rm (wm_heap st) (n + 16) = Some (b', bytes)"
    "copied = min (unat (bk_addr blk - 16)) (unat n)"
  shows "wrap_realloc rm addr (Some (b + 16)) n st =
    (if length (bk_data blk) < copied then None
     else Some (Some (b' + 16), st\<lparr>g_mem_used_size := g_mem_used_size st + (n + 16) - bk_size blk,
       wm_heap := (wm_heap st)(b' \<mapsto> \<lparr>bk_size = n + 16, bk_addr = addr,
         bk_data = take copied (bk_data blk) @ drop (16 + copied) bytes\<rparr>, b := None)\<rparr>))"
proof -
  have u: "unat (n + 16) = unat n + 16" by (rule unat_add_16 [OF assms(5)])
  then have "16 \<le> unat (n + 16)" by simp
  note t = wm_take_granted [OF assms(1,6) this]
  have ne: "b' \<noteq> b" using t(2) assms(3) by auto
  have c: "unat (if bk_addr blk - 16 > n then n else bk_addr blk - 16) = copied"
    using assms(7) by (simp add: min_def word_le_nat_alt word_less_nat_alt)
  have len: "length (drop 16 bytes) = unat n" using t(3) u by simp
  have "mem_put (drop 16 bytes) 0 (take copied (bk_data blk)) = take copied (bk_data blk) @ drop (16 + copied) bytes"
    if "copied \<le> length (bk_data blk)" using that by (simp add: mem_put_def add.commute)
  moreover have "copied \<le> unat n" using assms(7) by simp
  ultimately show ?thesis
    using t(1) [of addr] assms(3,4) ne c len
    by (auto simp: wrap_realloc_def Let_def wm_copy_def wrap_free_def fun_upd_twist)
qed

theorem wrap_realloc_copies_by_caller_witness:
  "wrap_realloc wm_rm 1 (Some 4112) 8
     (wm_state_0\<lparr>wm_heap := [4096 \<mapsto> \<lparr>bk_size = 20, bk_addr = 0x400700, bk_data = [1, 2, 3, 4]\<rparr>], g_mem_used_size := 20\<rparr>) = None"
proof -
  let ?blk = "\<lparr>bk_size = 20, bk_addr = 0x400700, bk_data = [1, 2, 3, 4]\<rparr> :: wm_block"
  let ?st = "wm_state_0\<lparr>wm_heap := [4096 \<mapsto> ?blk], g_mem_used_size := 20\<rparr>"
  have h: "wm_heap ?st 4096 = Some ?blk" "g_mem_used_size ?st = 20" "wm_heap ?st = [4096 \<mapsto> ?blk]" by simp_all
  have ok: "wm_ok ?st" unfolding wm_ok_def h(2,3) wm_live_def by simp
  have r: "wm_rm (wm_heap ?st) (8 + 16) = Some (8192, replicate 24 0xbb)" unfolding h(3) by (simp add: wm_rm_def)
  have c: "8 = min (unat (bk_addr ?blk - 16)) (unat (8 :: size_t))" by simp
  have n: "(8 :: size_t) \<noteq> 0" "unat (8 :: size_t) + 16 < 2 ^ 64" by simp_all
  have l: "length (bk_data ?blk) < 8" and e: "4112 = 4096 + (16 :: nat)" by simp_all
  show ?thesis
    unfolding e using wrap_realloc_copies_by_caller [OF wm_rm_ok ok h(1) n r c, of 1] unfolding if_P [OF l] .
qed

text \<open>\<open>strndup\<close> stores the first \<open>len + 1\<close> characters of the string, filled up with null characters,
  so the copy is terminated exactly when \<open>len\<close> is at least the length of the string; \<open>strdup\<close> always
  makes a terminated copy.\<close>

theorem wrap_strndup_content:
  assumes "real_malloc_ok rm" "0 \<notin> set src" "unat len + 17 < 2 ^ 64"
    "wrap_strndup rm addr src len st = Some (Some p, st')"
  shows "\<exists>blk. wm_heap st' (p - 16) = Some blk \<and>
    bk_data blk = take (unat len + 1) src @ replicate (unat len + 1 - length src) 0 \<and>
    (0 \<in> set (bk_data blk) \<longleftrightarrow> length src \<le> unat len)"
proof -
  have u: "unat (len + 1) = unat len + 1" using assms(3) by (simp add: unat_word_ariths)
  then have u16: "unat (len + 1 + 16) = unat len + 17" using assms(3) unat_add_16 [of "len + 1"] by simp
  have "rm (wm_heap st) (len + 1 + 16) \<noteq> None"
  proof
    assume "rm (wm_heap st) (len + 1 + 16) = None"
    then show False using assms(4) by (simp add: wrap_strndup_def wrap_malloc_def wm_take_def)
  qed
  then obtain b bytes where r: "rm (wm_heap st) (len + 1 + 16) = Some (b, bytes)" by auto
  have "16 \<le> unat (len + 1 + 16)" using u16 by simp
  note t = wm_take_granted [OF assms(1) r this]
  have "length (drop 16 bytes) = unat len + 1" using t(3) u16 by simp
  then have m: "mem_put (drop 16 bytes) 0 (wm_strncpy src (unat len + 1)) = wm_strncpy src (unat len + 1)"
    by (intro mem_put_whole) simp
  have "p = b + 16" "wm_heap st' b = Some \<lparr>bk_size = len + 1 + 16, bk_addr = addr, bk_data = wm_strncpy src (unat len + 1)\<rparr>"
    using assms(4) t(1) [of addr] m u \<open>length (drop 16 bytes) = unat len + 1\<close>
    by (auto simp: wrap_strndup_def wrap_malloc_def Let_def split: if_splits)
  moreover have "0 \<in> set (wm_strncpy src (unat len + 1)) \<longleftrightarrow> length src \<le> unat len"
    using assms(2) set_take_subset [of "unat len + 1" src] by (auto simp: wm_strncpy_def)
  ultimately show ?thesis by (simp add: wm_strncpy_def)
qed

theorem wrap_strndup_content_witness:
  "\<exists>st'. wrap_strndup wm_rm 1 [104, 105, 106] 1 wm_state_0 = Some (Some 4112, st') \<and>
     (\<exists>blk. wm_heap st' 4096 = Some blk \<and> bk_data blk = [104, 105])"
proof -
  obtain st' where st: "wrap_strndup wm_rm 1 [104, 105, 106] 1 wm_state_0 = Some (Some 4112, st')"
    by (simp add: wrap_strndup_def wrap_malloc_def wm_take_def wm_rm_def wm_state_0_def Let_def)
  then show ?thesis using wrap_strndup_content [OF wm_rm_ok _ _ st] by auto
qed

end
