(* ===== verification/Mychrdev.thy ===== *)
theory Mychrdev
  imports Prelude
begin

text \<open>
  The character driver \<^verbatim>\<open>driver/program-examples/syscall-exam-kern.c\<close>: four 64 KiB buffers with
  a window between a head and a tail, reachable through read, write, ioctl, seek and mmap, opened
  by one privileged process at a time. Allocations are objects of a heap by address; \<open>None\<close> as the
  result of an operation is an access outside the buffer or to an object that is not allocated.
\<close>

section \<open>State\<close>

definition MYCHRDEV_MAX_MINOR :: nat where
  "MYCHRDEV_MAX_MINOR = 4"

definition MYCHRDEV_CAPACITY :: int where
  "MYCHRDEV_CAPACITY = 65536"

record mychrdev_data =
  mc_buf :: "byte list"
  mc_headptr :: int
  mc_tailptr :: int

text \<open>The private data of an open file; \<open>mp_data\<close> is the address of the device data.\<close>

record mychrdev_private =
  mp_user_pid :: int
  mp_user_name :: string
  mp_minor :: nat
  mp_data :: nat

record mychrdev_file =
  mcf_private :: nat
  mcf_pos :: int
  mcf_version :: int

section \<open>Read, write, seek\<close>



text \<open>
  The cases of the switch have no \<open>break\<close> and fall through: each case function ends by running
  the next one.
\<close>

definition mychrdev_llseek_2 :: "int \<Rightarrow> int \<Rightarrow> int kresult" where
  "mychrdev_llseek_2 len offset =
     (if offset > 0 \<or> to_s64 (- offset) > len then Inl EINVAL else Inr (to_s64 (offset + len)))"

definition mychrdev_llseek_1 :: "int \<Rightarrow> int \<Rightarrow> int \<Rightarrow> int kresult" where
  "mychrdev_llseek_1 len f_pos offset =
     (if to_s64 (offset + f_pos) < 0 \<or> to_s64 (offset + f_pos) > len then Inl EINVAL
      else mychrdev_llseek_2 len (to_s64 (offset + f_pos)))"

definition mychrdev_llseek_0 :: "int \<Rightarrow> int \<Rightarrow> int \<Rightarrow> int kresult" where
  "mychrdev_llseek_0 len f_pos offset =
     (if offset > len \<or> offset < 0 then Inl EINVAL else mychrdev_llseek_1 len f_pos offset)"

definition mychrdev_llseek :: "mychrdev_data \<Rightarrow> mychrdev_file \<Rightarrow> int \<Rightarrow> int \<Rightarrow> int kresult \<times> mychrdev_file" where
  "mychrdev_llseek d file offset seek_flags =
     (let len = to_s32 (mc_tailptr d - mc_headptr d) in
      case (if seek_flags = 0 then mychrdev_llseek_0 len (mcf_pos file) offset
            else if seek_flags = 1 then mychrdev_llseek_1 len (mcf_pos file) offset
            else if seek_flags = 2 then mychrdev_llseek_2 len offset
            else Inl EINVAL) of
        Inl e \<Rightarrow> (Inl e, file)
      | Inr offset \<Rightarrow>
          if offset \<ge> 0 \<and> offset \<le> len
          then (Inr offset, file\<lparr>mcf_pos := offset, mcf_version := 0\<rparr>)
          else (Inl EINVAL, file))"

section \<open>Ioctl\<close>

record mydev_info =
  mi_user_pid :: int
  mi_user_name :: string
  mi_available_len :: int
  mi_len :: int
  mi_offset_in_ppage :: int

record mychrdev_window =
  mw_head :: int
  mw_tail :: int

datatype mychrdev_cmd = GET_INFO | SET_TRUNCATE mychrdev_window | MC_OTHER int

text \<open>
  \<open>junk\<close> is what the stack holds in the 16 bytes of \<open>a.user_name\<close>: the name is copied over it
  without its terminator. \<open>pa\<close> is the physical address of the private data, \<open>fault\<close> whether the
  copy to or from user space failed.
\<close>

definition mychrdev_ioctl ::
  "bool \<Rightarrow> int \<Rightarrow> string \<Rightarrow> mychrdev_private \<Rightarrow> mychrdev_data \<Rightarrow> mychrdev_cmd \<Rightarrow>
    int kresult \<times> mydev_info option \<times> mychrdev_data" where
  "mychrdev_ioctl fault pa junk priv d cmd =
     (case cmd of
        GET_INFO \<Rightarrow>
          let a = \<lparr>mi_user_pid = mp_user_pid priv,
                   mi_user_name = mem_put junk 0 (mp_user_name priv),
                   mi_available_len = to_u32 (MYCHRDEV_CAPACITY - mc_tailptr d),
                   mi_len = to_u32 (mc_tailptr d - mc_headptr d),
                   mi_offset_in_ppage = pa mod 4096\<rparr> in
          if fault then (Inl EFAULT, None, d) else (Inr 0, Some a, d)
      | SET_TRUNCATE window \<Rightarrow>
          if fault then (Inl EFAULT, None, d)
          else if mw_head window < mc_headptr d then (Inl EINVAL, None, d)
          else if mw_tail window > mc_tailptr d then (Inl EINVAL, None, d)
          else (Inr 0, None, d\<lparr>mc_headptr := mw_head window, mc_tailptr := mw_tail window\<rparr>)
      | MC_OTHER _ \<Rightarrow> (Inl EINVAL, None, d))"

section \<open>Open, release, module init\<close>

datatype mc_object = ObjData mychrdev_data | ObjPrivate mychrdev_private

record mychrdev_sys =
  mc_heap :: "nat \<Rightarrow> mc_object option"
  mydata :: "nat option list"
  mychrdev_use_stats :: "int list"
  mychrdev_major :: int
  mc_registered :: bool

text \<open>
  \<open>kmalloc\<close> is a parameter that names a fresh address or fails. Opening is two steps, the test of
  the use count and the rest; the code does not make them atomic.
\<close>

type_synonym mc_kmalloc = "(nat \<Rightarrow> mc_object option) \<Rightarrow> nat option"

definition mc_kmalloc_ok :: "mc_kmalloc \<Rightarrow> bool" where
  "mc_kmalloc_ok km \<longleftrightarrow> (\<forall>h a. km h = Some a \<longrightarrow> h a = None \<and> a \<noteq> 0)"

definition mychrdev_open_check :: "int \<Rightarrow> nat \<Rightarrow> mychrdev_sys \<Rightarrow> errno option" where
  "mychrdev_open_check euid minor s =
     (if euid \<noteq> 0 then Some EPERM
      else if mychrdev_use_stats s ! minor \<noteq> 0 then Some EBUSY
      else None)"

definition mychrdev_open_rest ::
  "mc_kmalloc \<Rightarrow> int \<Rightarrow> string \<Rightarrow> nat \<Rightarrow> mychrdev_sys \<Rightarrow> nat kresult \<times> mychrdev_sys" where
  "mychrdev_open_rest km pid comm minor s =
     (let s = s\<lparr>mychrdev_use_stats := (mychrdev_use_stats s)[minor := mychrdev_use_stats s ! minor + 1]\<rparr> in
      case km (mc_heap s) of
        None \<Rightarrow> (Inl ENOMEM, s)
      | Some a \<Rightarrow>
          let priv = \<lparr>mp_user_pid = pid, mp_user_name = comm, mp_minor = minor,
                      mp_data = (case mydata s ! minor of Some x \<Rightarrow> x | None \<Rightarrow> 0)\<rparr>
          in (Inr a, s\<lparr>mc_heap := (mc_heap s)(a \<mapsto> ObjPrivate priv)\<rparr>))"

definition mychrdev_open ::
  "mc_kmalloc \<Rightarrow> int \<Rightarrow> int \<Rightarrow> string \<Rightarrow> nat \<Rightarrow> mychrdev_sys \<Rightarrow> nat kresult \<times> mychrdev_sys" where
  "mychrdev_open km euid pid comm minor s =
     (case mychrdev_open_check euid minor s of
        Some e \<Rightarrow> (Inl e, s)
      | None \<Rightarrow> mychrdev_open_rest km pid comm minor s)"

text \<open>\<open>kfree\<close> ignores a null pointer; of an address that is not allocated it is an error (\<open>None\<close>).\<close>

definition mc_kfree :: "nat \<Rightarrow> mychrdev_sys \<Rightarrow> mychrdev_sys option" where
  "mc_kfree a s = (if a = 0 then Some s else if mc_heap s a = None then None else Some (s\<lparr>mc_heap := (mc_heap s)(a := None)\<rparr>))"

definition mychrdev_release :: "nat \<Rightarrow> nat \<Rightarrow> mychrdev_sys \<Rightarrow> mychrdev_sys option" where
  "mychrdev_release minor priv s =
     (let s = s\<lparr>mychrdev_use_stats := (mychrdev_use_stats s)[minor := mychrdev_use_stats s ! minor - 1]\<rparr> in
      case mc_heap s priv of
        Some (ObjPrivate p) \<Rightarrow>
          (case mc_kfree (mp_data p) s of
             None \<Rightarrow> None
           | Some s \<Rightarrow> mc_kfree priv s)
      | _ \<Rightarrow> None)"

text \<open>The device data an open file reaches; \<open>None\<close> when either object is gone.\<close>

definition mc_reach :: "nat \<Rightarrow> mychrdev_sys \<Rightarrow> mychrdev_data option" where
  "mc_reach priv s =
     (case mc_heap s priv of
        Some (ObjPrivate p) \<Rightarrow> (case mc_heap s (mp_data p) of Some (ObjData d) \<Rightarrow> Some d | _ \<Rightarrow> None)
      | _ \<Rightarrow> None)"

text \<open>
  The whole requested range is mapped, whatever its length: the result is the first page and the
  length. \<open>page\<close> is the page number of the buffer, the booleans are the kernel's answers.
\<close>

definition mychrdev_mmap ::
  "bool \<Rightarrow> bool \<Rightarrow> int \<Rightarrow> int \<Rightarrow> int \<Rightarrow> (int \<times> int) kresult" where
  "mychrdev_mmap pfn_ok remap_ok page vm_start vm_end =
     (if \<not> pfn_ok then Inl EIO
      else if \<not> remap_ok then Inl EAGAIN
      else Inr (page, vm_end - vm_start))"

definition mychrdev_new_data :: mychrdev_data where
  "mychrdev_new_data = \<lparr>mc_buf = replicate (nat MYCHRDEV_CAPACITY) 0, mc_headptr = 0, mc_tailptr = 0\<rparr>"

fun mychardev_init_loop :: "mc_kmalloc \<Rightarrow> nat list \<Rightarrow> mychrdev_sys \<Rightarrow> bool \<times> mychrdev_sys" where
  "mychardev_init_loop km [] s = (True, s)"
| "mychardev_init_loop km (i # is) s =
     (let s = s\<lparr>mychrdev_use_stats := (mychrdev_use_stats s)[i := 0]\<rparr>;
          s = s\<lparr>mydata := (mydata s)[i := None]\<rparr> in
      case km (mc_heap s) of
        None \<Rightarrow> (False, s)
      | Some a \<Rightarrow> mychardev_init_loop km is
          (s\<lparr>mydata := (mydata s)[i := Some a], mc_heap := (mc_heap s)(a \<mapsto> ObjData mychrdev_new_data)\<rparr>))"

definition mychardev_init :: "mc_kmalloc \<Rightarrow> int \<Rightarrow> mychrdev_sys \<Rightarrow> int kresult \<times> mychrdev_sys" where
  "mychardev_init km major s =
     (let (ok, s) = mychardev_init_loop km [0..<MYCHRDEV_MAX_MINOR] s in
      if \<not> ok then (Inl ENOMEM, s)
      else let s = s\<lparr>mychrdev_major := major, mc_registered := 0 < major\<rparr> in
        if major \<le> 0 then (Inl EPERM, s) else (Inr 0, s))"

definition mychardev_remove :: "mychrdev_sys \<Rightarrow> mychrdev_sys" where
  "mychardev_remove s = s\<lparr>mc_registered := False\<rparr>"

section \<open>The window\<close>

definition mc_ok :: "mychrdev_data \<Rightarrow> bool" where
  "mc_ok d \<longleftrightarrow> length (mc_buf d) = 65536 \<and> 0 \<le> mc_headptr d \<and> mc_headptr d \<le> mc_tailptr d \<and> mc_tailptr d \<le> 65536"

lemma mc_len: "mc_ok d \<Longrightarrow> to_s32 (mc_tailptr d - mc_headptr d) = mc_tailptr d - mc_headptr d"
  by (simp add: mc_ok_def c_int)





section \<open>Properties\<close>

definition mc_example :: mychrdev_data where
  "mc_example = mychrdev_new_data\<lparr>mc_tailptr := 40000\<rparr>"

lemma mc_example_ok: "mc_ok mc_example" "mc_headptr mc_example = 0" "mc_tailptr mc_example = 40000"
  by (simp_all add: mc_ok_def mc_example_def mychrdev_new_data_def MYCHRDEV_CAPACITY_def)



text \<open>Seeking from the start fails for every offset but 0, and for 0 it goes to the end, because the
  cases fall through; seeking from the current position succeeds only back to the start, and then
  also ends at the end; only seeking from the end does what it says.\<close>

theorem mychrdev_llseek_falls_through:
  assumes "mc_ok d" "0 \<le> mcf_pos file" "mcf_pos file \<le> 65536" "- 4611686018427387904 \<le> offset" "offset \<le> 4611686018427387904"
    "len = mc_tailptr d - mc_headptr d"
  shows "fst (mychrdev_llseek d file offset 0) = (if offset = 0 \<and> mcf_pos file = 0 then Inr len else Inl EINVAL) \<and>
    fst (mychrdev_llseek d file offset 1) = (if offset + mcf_pos file = 0 then Inr len else Inl EINVAL) \<and>
    fst (mychrdev_llseek d file offset 2) = (if - len \<le> offset \<and> offset \<le> 0 then Inr (len + offset) else Inl EINVAL)"
proof -
  have l: "0 \<le> len" "len \<le> 65536" using assms(1,6) by (auto simp: mc_ok_def)
  have s: "to_s64 (offset + mcf_pos file) = offset + mcf_pos file" "to_s64 (- offset) = - offset"
    "to_s64 (- (offset + mcf_pos file)) = - (offset + mcf_pos file)"
    "to_s64 (offset + len) = offset + len" "to_s64 (offset + mcf_pos file + len) = offset + mcf_pos file + len"
    using assms l by (simp_all add: to_s64_id)
  have L: "to_s32 (mc_tailptr d - mc_headptr d) = len" using mc_len [OF assms(1)] assms(6) by simp
  note defs = mychrdev_llseek_def mychrdev_llseek_0_def mychrdev_llseek_1_def mychrdev_llseek_2_def Let_def
  show ?thesis
    unfolding defs L s using l assms(2) by auto
qed

theorem mychrdev_llseek_falls_through_witness:
  "fst (mychrdev_llseek mc_example \<lparr>mcf_private = 1, mcf_pos = 0, mcf_version = 0\<rparr> 100 0) = Inl EINVAL \<and>
   fst (mychrdev_llseek mc_example \<lparr>mcf_private = 1, mcf_pos = 0, mcf_version = 0\<rparr> 0 0) = Inr 40000"
  using mychrdev_llseek_falls_through [OF mc_example_ok(1), of "\<lparr>mcf_private = 1, mcf_pos = 0, mcf_version = 0\<rparr>" 100]
    mychrdev_llseek_falls_through [OF mc_example_ok(1), of "\<lparr>mcf_private = 1, mcf_pos = 0, mcf_version = 0\<rparr>" 0]
    mc_example_ok by simp

text \<open>The life of an open file. Opening takes root and a free device, and gives access to the device
  data; a second open is refused; after the release, which frees the device data with the file, the
  device can be opened again, but the data is gone for that file and releasing it frees it twice.
  When the allocation fails, the use count stays raised and the device is busy for good.\<close>

theorem mychrdev_lifecycle:
  assumes "mc_kmalloc_ok km" "mydata s ! minor = Some a" "mc_heap s a = Some (ObjData d)" "a \<noteq> 0"
    "mychrdev_use_stats s ! minor = 0" "minor < length (mychrdev_use_stats s)"
  shows "case mychrdev_open km 0 pid comm minor s of
      (Inl e, s1) \<Rightarrow> e = ENOMEM \<and> fst (mychrdev_open km 0 pid comm minor s1) = Inl EBUSY
    | (Inr p, s1) \<Rightarrow> mc_reach p s1 = Some d \<and> fst (mychrdev_open km 0 pid comm minor s1) = Inl EBUSY \<and>
        (\<exists>s2. mychrdev_release minor p s1 = Some s2 \<and> mychrdev_use_stats s2 ! minor = 0 \<and>
          (case mychrdev_open km 0 pid comm minor s2 of
             (Inl e, _) \<Rightarrow> e = ENOMEM
           | (Inr q, s3) \<Rightarrow> mc_reach q s3 = None \<and> mychrdev_release minor q s3 = None))"
proof -
  have km: "h x = None \<and> x \<noteq> 0" if "km h = Some x" for h x using assms(1) that by (simp add: mc_kmalloc_ok_def)
  show ?thesis
  proof (cases "km (mc_heap s)")
    case None
    then show ?thesis using assms by (simp add: mychrdev_open_def mychrdev_open_check_def mychrdev_open_rest_def Let_def)
  next
    case (Some p)
    then have p: "mc_heap s p = None" "p \<noteq> 0" "p \<noteq> a" using km assms(3) by fastforce+
    let ?use = "(mychrdev_use_stats s)[minor := 1]"
    let ?priv = "\<lparr>mp_user_pid = pid, mp_user_name = comm, mp_minor = minor, mp_data = a\<rparr>"
    let ?s1 = "s\<lparr>mychrdev_use_stats := ?use, mc_heap := (mc_heap s)(p \<mapsto> ObjPrivate ?priv)\<rparr>"
    have o: "mychrdev_open km 0 pid comm minor s = (Inr p, ?s1)"
      using assms Some by (simp add: mychrdev_open_def mychrdev_open_check_def mychrdev_open_rest_def Let_def)
    let ?h2 = "(mc_heap s)(a := None)"
    let ?s2 = "s\<lparr>mychrdev_use_stats := (mychrdev_use_stats s)[minor := 0], mc_heap := ?h2\<rparr>"
    have h2: "((mc_heap s)(p \<mapsto> ObjPrivate ?priv, a := None))(p := None) = ?h2"
      using p by (auto simp: fun_eq_iff)
    have r: "mychrdev_release minor p ?s1 = Some ?s2"
      using assms p h2 by (simp add: mychrdev_release_def mc_kfree_def Let_def)
    have again: "case mychrdev_open km 0 pid comm minor ?s2 of
        (Inl e, _) \<Rightarrow> e = ENOMEM
      | (Inr q, s3) \<Rightarrow> mc_reach q s3 = None \<and> mychrdev_release minor q s3 = None"
    proof (cases "km ?h2")
      case None
      then show ?thesis using assms by (simp add: mychrdev_open_def mychrdev_open_check_def mychrdev_open_rest_def Let_def)
    next
      case (Some q)
      have "q \<noteq> 0" using km Some by blast
      then show ?thesis
        using assms Some
        by (auto simp: mychrdev_open_def mychrdev_open_check_def mychrdev_open_rest_def Let_def mc_reach_def
            mychrdev_release_def mc_kfree_def split: if_splits)
    qed
    have "mc_reach p ?s1 = Some d" using assms(3) p by (simp add: mc_reach_def)
    moreover have "fst (mychrdev_open km 0 pid comm minor ?s1) = Inl EBUSY"
      using assms by (simp add: mychrdev_open_def mychrdev_open_check_def)
    ultimately show ?thesis using o r again assms(6) by auto
  qed
qed

definition mc_km :: mc_kmalloc where
  "mc_km h = (if h 1 = None then Some 1 else if h 2 = None then Some 2 else None)"

definition mc_sys_1 :: mychrdev_sys where
  "mc_sys_1 = \<lparr>mc_heap = [1 \<mapsto> ObjData mychrdev_new_data], mydata = [Some 1], mychrdev_use_stats = [0],
     mychrdev_major = 240, mc_registered = True\<rparr>"

theorem mychrdev_lifecycle_witness:
  "\<exists>s1. mychrdev_open mc_km 0 7 ''sh'' 0 mc_sys_1 = (Inr 2, s1) \<and> mc_reach 2 s1 = Some mychrdev_new_data"
proof -
  obtain r s1 where o: "mychrdev_open mc_km 0 7 ''sh'' 0 mc_sys_1 = (r, s1)" by force
  then have r: "r = Inr 2"
    by (auto simp: mychrdev_open_def mychrdev_open_check_def mychrdev_open_rest_def mc_sys_1_def mc_km_def Let_def)
  have "mc_kmalloc_ok mc_km" by (auto simp: mc_kmalloc_ok_def mc_km_def split: if_splits)
  from mychrdev_lifecycle [OF this, of mc_sys_1 0 1 mychrdev_new_data 7 "''sh''"] show ?thesis
    using o r by (simp add: mc_sys_1_def)
qed

end
