(* ===== verification/Eeprom.thy ===== *)
theory Eeprom
  imports Prelude
begin

text \<open>
  The EEPROM driver \<^verbatim>\<open>driver/eeprom.c\<close>: a 256 byte cache of a serial EEPROM in eight slices
  that are refreshed on demand, a sysfs file that reads and writes it, privacy for Vaio devices,
  detection and probing. The bus is a parameter; so are the clock (\<open>now\<close>, the jiffies) and the
  tick rate. \<open>None\<close> as the result of an operation is an access outside an array.
\<close>

section \<open>State and bus\<close>

definition EEPROM_SIZE :: nat where
  "EEPROM_SIZE = 256"

datatype eeprom_nature = UNKNOWN | VAIO

record eeprom_data =
  ed_valid :: "8 word"
  ed_last_updated :: "int list"
  ed_data :: "byte list"
  ed_nature :: eeprom_nature

text \<open>
  What the adapter can do and what it answers: the bytes a block read delivers, the word or the
  negative error of a word read, the byte or error of a byte read.
\<close>

record i2c_bus =
  bus_nr :: int
  bus_class_spd :: bool
  bus_has_block :: bool
  bus_has_word :: bool
  bus_has_byte :: bool
  bus_block :: "nat \<Rightarrow> byte list"
  bus_word :: "nat \<Rightarrow> int"
  bus_byte :: "nat \<Rightarrow> int"

definition time_after :: "int \<Rightarrow> int \<Rightarrow> bool" where
  "time_after a b \<longleftrightarrow> to_s64 (b - a) < 0"

section \<open>Refreshing a slice\<close>

text \<open>Both loops start at the first byte of the slice and end at the first byte of the next one.\<close>

function eeprom_block_loop :: "i2c_bus \<Rightarrow> nat \<Rightarrow> nat \<Rightarrow> byte list \<Rightarrow> bool \<times> byte list" where
  "eeprom_block_loop bus i stop dat =
     (if i < stop then
        let got = bus_block bus i; dat = mem_put dat i got in
        if length got \<noteq> 32 then (False, dat) else eeprom_block_loop bus (i + 32) stop dat
      else (True, dat))"
  by pat_completeness auto
termination by (relation "measure (\<lambda>(bus, i, stop, dat). stop - i)") auto

function eeprom_word_loop :: "i2c_bus \<Rightarrow> nat \<Rightarrow> nat \<Rightarrow> byte list \<Rightarrow> bool \<times> byte list" where
  "eeprom_word_loop bus i stop dat =
     (if i < stop then
        let w = bus_word bus i in
        if w < 0 then (False, dat)
        else let dat = dat[i := word_of_int (w mod 256)];
                 dat = dat[i + 1 := word_of_int (w div 256)]
             in eeprom_word_loop bus (i + 2) stop dat
      else (True, dat))"
  by pat_completeness auto
termination by (relation "measure (\<lambda>(bus, i, stop, dat). stop - i)") auto

declare eeprom_block_loop.simps [simp del] eeprom_word_loop.simps [simp del]

definition eeprom_update_client :: "int \<Rightarrow> int \<Rightarrow> i2c_bus \<Rightarrow> nat \<Rightarrow> eeprom_data \<Rightarrow> eeprom_data option" where
  "eeprom_update_client HZ now bus sl d =
     (if length (ed_last_updated d) \<le> sl then None
      else if \<not> bit (ed_valid d) sl \<or> time_after now (to_u64 (ed_last_updated d ! sl + 300 * HZ)) then
        let (ok, dat) = (if bus_has_block bus then eeprom_block_loop bus (32 * sl) (32 * (sl + 1)) (ed_data d)
                         else eeprom_word_loop bus (32 * sl) (32 * (sl + 1)) (ed_data d));
            d = d\<lparr>ed_data := dat\<rparr> in
        Some (if \<not> ok then d
              else d\<lparr>ed_last_updated := (ed_last_updated d)[sl := now],
                     ed_valid := ed_valid d OR push_bit sl 1\<rparr>)
      else Some d)"

section \<open>Reading\<close>

text \<open>
  The loop over the slices, up to and with \<open>hi\<close>. The counter is a \<open>u8\<close>; it leaves the eight
  slices, and so the arrays, before it could wrap around.
\<close>

function eeprom_update_loop ::
  "int \<Rightarrow> int \<Rightarrow> i2c_bus \<Rightarrow> nat \<Rightarrow> int \<Rightarrow> eeprom_data \<Rightarrow> eeprom_data option" where
  "eeprom_update_loop HZ now bus sl hi d =
     (if int sl \<le> hi then
        if 8 \<le> sl then None
        else (case eeprom_update_client HZ now bus sl d of
                None \<Rightarrow> None
              | Some d \<Rightarrow> eeprom_update_loop HZ now bus (sl + 1) hi d)
      else Some d)"
  by pat_completeness auto
termination by (relation "measure (\<lambda>(HZ, now, bus, sl, hi, d). 8 - sl)") auto

declare eeprom_update_loop.simps [simp del]

text \<open>\<open>(off + count - 1) >> 5\<close>, computed in \<open>size_t\<close>\<close>

definition eeprom_last_slice :: "int \<Rightarrow> int \<Rightarrow> int" where
  "eeprom_last_slice off cnt = to_u64 (off + cnt - 1) div 32"

definition eeprom_clip :: "int \<Rightarrow> int \<Rightarrow> int" where
  "eeprom_clip off cnt = (if to_u64 (off + cnt) > int EEPROM_SIZE then to_u64 (int EEPROM_SIZE - off) else cnt)"

text \<open>The bytes for the caller and the new cache; \<open>admin\<close> is \<open>capable(CAP_SYS_ADMIN)\<close>.\<close>

definition eeprom_read ::
  "int \<Rightarrow> int \<Rightarrow> i2c_bus \<Rightarrow> bool \<Rightarrow> int \<Rightarrow> int \<Rightarrow> eeprom_data \<Rightarrow> (int \<times> byte list \<times> eeprom_data) option" where
  "eeprom_read HZ now bus admin off cnt d =
     (if off > int EEPROM_SIZE then Some (0, [], d)
      else let cnt = eeprom_clip off cnt in
        case eeprom_update_loop HZ now bus (nat (off div 32)) (eeprom_last_slice off cnt) d of
          None \<Rightarrow> None
        | Some d \<Rightarrow>
            let buf = (if ed_nature d = VAIO \<and> \<not> admin
                       then map (\<lambda>i. let p = off + int i in
                              if p \<le> 0x1f \<or> (p \<ge> 0xc0 \<and> p \<le> 0xdf) then 0 else ed_data d ! nat p)
                            [0..<nat cnt]
                       else mem_get (ed_data d) (nat off) (nat cnt))
            in Some (cnt, buf, d))"

section \<open>Writing\<close>

definition AT24_PAGE_SIZE :: nat where
  "AT24_PAGE_SIZE = 16"

definition AT24_PAGES_PER_BLK :: nat where
  "AT24_PAGES_PER_BLK = 2"

text \<open>
  One page: the attempts are pairs of the time before the attempt and what the bus returned; an
  attempt that returns 0 or 16 stores the page. \<open>None\<close>: no attempt left, still trying.
\<close>

fun eeprom_page_loop ::
  "int \<Rightarrow> byte list \<Rightarrow> nat \<Rightarrow> (int \<times> int) list \<Rightarrow> byte list \<Rightarrow> (bool \<times> (int \<times> int) list \<times> byte list) option" where
  "eeprom_page_loop timeout buf offset [] dev = None"
| "eeprom_page_loop timeout buf offset ((write_time, ret) # tries) dev =
     (if ret = 0 \<or> ret = int AT24_PAGE_SIZE
      then Some (True, tries, mem_put dev (offset mod 256) (mem_get buf offset AT24_PAGE_SIZE))
      else if time_after timeout write_time then eeprom_page_loop timeout buf offset tries dev
      else Some (False, tries, dev))"

text \<open>\<open>timeout\<close> is 30 ms after the start of the page. The pages come from \<open>buf + offset\<close>.\<close>

definition eeprom_write_page ::
  "int \<Rightarrow> byte list \<Rightarrow> nat \<Rightarrow> (int \<times> int) list \<Rightarrow> byte list \<Rightarrow> (bool \<times> (int \<times> int) list \<times> byte list) option" where
  "eeprom_write_page ticks buf offset tries dev =
     (if length buf < offset + AT24_PAGE_SIZE then None
      else let timeout = to_u64 ((case tries of [] \<Rightarrow> 0 | (t, _) # _ \<Rightarrow> t) + ticks)
           in eeprom_page_loop timeout buf offset tries dev)"

fun eeprom_pages ::
  "nat \<Rightarrow> int \<Rightarrow> byte list \<Rightarrow> nat \<Rightarrow> (int \<times> int) list \<Rightarrow> byte list \<Rightarrow>
    (bool \<times> nat \<times> (int \<times> int) list \<times> byte list) option" where
  "eeprom_pages 0 ticks buf wr_cnt tries dev = Some (True, wr_cnt, tries, dev)"
| "eeprom_pages (Suc n) ticks buf wr_cnt tries dev =
     (case eeprom_write_page ticks buf wr_cnt tries dev of
        None \<Rightarrow> None
      | Some (ok, tries, dev) \<Rightarrow>
          if \<not> ok then Some (False, wr_cnt, tries, dev)
          else eeprom_pages n ticks buf (wr_cnt + AT24_PAGE_SIZE) tries dev)"

text \<open>
  The loop over the slices. It ends because every round moves 32 bytes on in \<open>buf\<close>, and the page
  routine fails at the end of \<open>buf\<close>: \<open>fuel\<close> bounds the rounds.
\<close>

fun eeprom_write_loop ::
  "nat \<Rightarrow> int \<Rightarrow> byte list \<Rightarrow> nat \<Rightarrow> int \<Rightarrow> nat \<Rightarrow> (int \<times> int) list \<Rightarrow> eeprom_data \<Rightarrow> byte list \<Rightarrow>
    (nat \<times> eeprom_data \<times> byte list) option" where
  "eeprom_write_loop 0 ticks buf sl hi wr_cnt tries d dev = None"
| "eeprom_write_loop (Suc fuel) ticks buf sl hi wr_cnt tries d dev =
     (if int sl \<le> hi then
        let d = d\<lparr>ed_valid := ed_valid d AND NOT (push_bit sl 1)\<rparr> in
        case eeprom_pages AT24_PAGES_PER_BLK ticks buf wr_cnt tries dev of
          None \<Rightarrow> None
        | Some (ok, wr_cnt, tries, dev) \<Rightarrow>
            if \<not> ok then Some (wr_cnt, d, dev)
            else eeprom_write_loop fuel ticks buf (sl + 1) hi wr_cnt tries d dev
      else Some (wr_cnt, d, dev))"

definition eeprom_write ::
  "int \<Rightarrow> byte list \<Rightarrow> int \<Rightarrow> int \<Rightarrow> (int \<times> int) list \<Rightarrow> eeprom_data \<Rightarrow> byte list \<Rightarrow>
    (int \<times> eeprom_data \<times> byte list) option" where
  "eeprom_write ticks buf off cnt tries d dev =
     (if off > int EEPROM_SIZE then Some (0, d, dev)
      else let cnt = eeprom_clip off cnt in
        map_option (\<lambda>(wr_cnt, d, dev). (int wr_cnt, d, dev))
          (eeprom_write_loop (length buf + 1) ticks buf (nat (off div 32)) (eeprom_last_slice off cnt) 0 tries d dev))"

section \<open>Detection and probing\<close>

definition eeprom_detect :: "i2c_bus \<Rightarrow> int \<Rightarrow> string kresult" where
  "eeprom_detect bus addr =
     (if bus_nr bus \<noteq> 1 then Inl ENODEV
      else if \<not> bus_class_spd bus \<and> addr \<ge> 0x51 then Inl ENODEV
      else if \<not> bus_has_word bus \<and> \<not> bus_has_block bus then Inl ENODEV
      else Inr ''eeprom'')"

text \<open>\<open>alloc\<close>: whether \<open>kzalloc\<close> succeeded; \<open>file_err\<close>: what creating the sysfs file answered.\<close>

definition eeprom_probe :: "bool \<Rightarrow> errno option \<Rightarrow> i2c_bus \<Rightarrow> int \<Rightarrow> eeprom_data kresult" where
  "eeprom_probe alloc file_err bus addr =
     (if \<not> alloc then Inl ENOMEM
      else let d = \<lparr>ed_valid = 0, ed_last_updated = replicate 8 0, ed_data = replicate EEPROM_SIZE 0xff,
                    ed_nature = UNKNOWN\<rparr>;
               d = (if addr = 0x57 \<and> bus_has_byte bus then
                      let name = map (\<lambda>p. word_of_int (bus_byte bus p) :: byte) [0x80, 0x81, 0x82, 0x83] in
                      if name = [0x50, 0x43, 0x47, 0x2d] \<or> name = [0x56, 0x47, 0x4e, 0x2d]
                      then d\<lparr>ed_nature := VAIO\<rparr> else d
                    else d) in
        case file_err of Some e \<Rightarrow> Inl e | None \<Rightarrow> Inr d)"

definition eeprom_remove :: "eeprom_data option \<Rightarrow> int \<times> eeprom_data option" where
  "eeprom_remove d = (0, None)"

section \<open>Refreshing from a reliable bus\<close>

text \<open>The bus answers with the content \<open>C\<close> of the device, in the way the driver asks.\<close>

definition bus_reliable :: "byte list \<Rightarrow> i2c_bus \<Rightarrow> bool" where
  "bus_reliable C bus \<longleftrightarrow> length C = 256 \<and>
     (bus_has_block bus \<longrightarrow> (\<forall>i \<le> 224. bus_block bus i = mem_get C i 32)) \<and>
     (\<not> bus_has_block bus \<longrightarrow> (\<forall>i < 255. bus_word bus i = int (unat (C ! i)) + 256 * int (unat (C ! (i + 1)))))"

text \<open>\<open>dat'\<close> is \<open>dat\<close> with the bytes from \<open>i\<close> up to \<open>stop\<close> taken from \<open>C\<close>.\<close>

definition ed_filled :: "byte list \<Rightarrow> nat \<Rightarrow> nat \<Rightarrow> byte list \<Rightarrow> byte list \<Rightarrow> bool" where
  "ed_filled C i stop dat dat' \<longleftrightarrow> length dat' = 256 \<and>
     (\<forall>k < 256. dat' ! k = (if i \<le> k \<and> k < stop then C ! k else dat ! k))"

lemma eeprom_block_filled:
  assumes "bus_reliable C bus" "bus_has_block bus" "length dat = 256" "sl < 8"
  shows "\<exists>dat'. eeprom_block_loop bus (32 * sl) (32 * (sl + 1)) dat = (True, dat') \<and>
    ed_filled C (32 * sl) (32 * (sl + 1)) dat dat'"
proof -
  let ?p = "32 * sl" and ?got = "mem_get C (32 * sl) 32"
  have b: "bus_block bus ?p = ?got" "length C = 256" using assms by (auto simp: bus_reliable_def)
  have len: "length ?got = 32" "?p + length ?got \<le> length dat" using b(2) assms(3,4) by (simp_all add: length_mem_get)
  have "eeprom_block_loop bus ?p (32 * (sl + 1)) dat = (True, mem_put dat ?p ?got)"
    using b(1) len by (subst eeprom_block_loop.simps, subst eeprom_block_loop.simps) simp
  moreover have "ed_filled C ?p (32 * (sl + 1)) dat (mem_put dat ?p ?got)"
    unfolding ed_filled_def using length_mem_put [OF len(2)] mem_put_nth [OF len(2)] b(2) assms(3,4) len(1)
    by (auto simp: mem_get_nth)
  ultimately show ?thesis by blast
qed

lemma eeprom_word_filled:
  "bus_reliable C bus \<Longrightarrow> \<not> bus_has_block bus \<Longrightarrow> length dat = 256 \<Longrightarrow> stop \<le> 256 \<Longrightarrow> even stop \<Longrightarrow> even i \<Longrightarrow>
    \<exists>dat'. eeprom_word_loop bus i stop dat = (True, dat') \<and> ed_filled C i stop dat dat'"
proof (induction bus i stop dat rule: eeprom_word_loop.induct)
  case (1 bus i stop dat)
  show ?case
  proof (cases "i < stop")
    case True
    let ?w = "bus_word bus i" and ?d = "dat[i := C ! i, i + 1 := C ! (i + 1)]"
    have i: "i + 1 < stop" "i < 255"
      using True "1.prems"(4-6) by (auto elim!: evenE)
    have w: "?w = int (unat (C ! i)) + 256 * int (unat (C ! (i + 1)))"
      using "1.prems"(1,2) i by (simp add: bus_reliable_def)
    have m: "?w mod 256 = int (unat (C ! i))" "?w div 256 = int (unat (C ! (i + 1)))" "\<not> ?w < 0"
    proof -
      define a b where "a = int (unat (C ! i))" and "b = int (unat (C ! (i + 1)))"
      have "0 \<le> a" "a < 256" "0 \<le> b"
        using unsigned_less [of "C ! i", where ?'a = int] by (simp_all add: a_def b_def)
      then show "?w mod 256 = int (unat (C ! i))" "?w div 256 = int (unat (C ! (i + 1)))" "\<not> ?w < 0"
        unfolding w a_def [symmetric] b_def [symmetric] by simp_all
    qed
    have d: "dat[i := word_of_int (?w mod 256), i + 1 := word_of_int (?w div 256)] = ?d"
      unfolding m(1,2) by (simp add: of_nat_unat)
    have "\<exists>dat'. eeprom_word_loop bus (i + 2) stop ?d = (True, dat') \<and> ed_filled C (i + 2) stop ?d dat'"
      using "1.IH" [OF True refl m(3) refl refl] "1.prems" d by simp
    then obtain dat' where r: "eeprom_word_loop bus (i + 2) stop ?d = (True, dat')" "ed_filled C (i + 2) stop ?d dat'"
      by blast
    have "ed_filled C i stop dat dat'"
      using r(2) i "1.prems"(3) unfolding ed_filled_def
      by (auto simp: nth_list_update le_Suc_eq elim!: allE)
    moreover have "eeprom_word_loop bus i stop dat = (True, dat')"
      using r(1) d True m(3) by (subst eeprom_word_loop.simps) (simp add: Let_def)
    ultimately show ?thesis by blast
  next
    case False
    then show ?thesis using "1.prems"(3) by (subst eeprom_word_loop.simps) (auto simp: ed_filled_def)
  qed
qed

text \<open>Every valid slice of the cache holds what the device holds.\<close>

definition ed_coherent :: "byte list \<Rightarrow> eeprom_data \<Rightarrow> bool" where
  "ed_coherent C d \<longleftrightarrow> length (ed_data d) = 256 \<and> length (ed_last_updated d) = 8 \<and>
     (\<forall>k < 256. bit (ed_valid d) (k div 32) \<longrightarrow> ed_data d ! k = C ! k)"

lemma eeprom_update_coherent:
  assumes "bus_reliable C bus" "ed_coherent C d" "sl < 8"
  shows "\<exists>d'. eeprom_update_client HZ now bus sl d = Some d' \<and> ed_coherent C d' \<and> bit (ed_valid d') sl \<and>
    (\<forall>s. bit (ed_valid d) s \<longrightarrow> bit (ed_valid d') s) \<and> ed_nature d' = ed_nature d"
proof (cases "\<not> bit (ed_valid d) sl \<or> time_after now (to_u64 (ed_last_updated d ! sl + 300 * HZ))")
  case True
  have len: "length (ed_data d) = 256" "length (ed_last_updated d) = 8" using assms(2) by (auto simp: ed_coherent_def)
  have "\<exists>dat'. (if bus_has_block bus then eeprom_block_loop bus (32 * sl) (32 * (sl + 1)) (ed_data d)
      else eeprom_word_loop bus (32 * sl) (32 * (sl + 1)) (ed_data d)) = (True, dat') \<and>
    ed_filled C (32 * sl) (32 * (sl + 1)) (ed_data d) dat'"
    using eeprom_block_filled [OF assms(1) _ len(1) assms(3)]
      eeprom_word_filled [OF assms(1) _ len(1), of "32 * (sl + 1)" "32 * sl"] assms(3) by (cases "bus_has_block bus") auto
  then obtain dat' where dat: "(if bus_has_block bus then eeprom_block_loop bus (32 * sl) (32 * (sl + 1)) (ed_data d)
      else eeprom_word_loop bus (32 * sl) (32 * (sl + 1)) (ed_data d)) = (True, dat')"
    "ed_filled C (32 * sl) (32 * (sl + 1)) (ed_data d) dat'" by blast
  let ?d = "d\<lparr>ed_data := dat', ed_last_updated := (ed_last_updated d)[sl := now],
      ed_valid := ed_valid d OR push_bit sl 1\<rparr>"
  have e: "eeprom_update_client HZ now bus sl d = Some ?d"
    unfolding eeprom_update_client_def using True dat(1) len(2) assms(3) by (simp add: Let_def)
  have b: "bit (ed_valid ?d) s \<longleftrightarrow> bit (ed_valid d) s \<or> s = sl" for s
    using assms(3) bit_imp_le_length [of "ed_valid d" s] by (auto simp: bit_simps)
  have "ed_coherent C ?d"
    unfolding ed_coherent_def
  proof (intro conjI allI impI)
    fix k :: nat
    assume k: "k < 256" and v: "bit (ed_valid ?d) (k div 32)"
    have f: "dat' ! k = (if 32 * sl \<le> k \<and> k < 32 * (sl + 1) then C ! k else ed_data d ! k)"
      using dat(2) k by (simp add: ed_filled_def)
    show "ed_data ?d ! k = C ! k"
    proof (cases "k div 32 = sl")
      case True
      then have "32 * sl \<le> k" "k < 32 * (sl + 1)" by auto
      then show ?thesis using f by simp
    next
      case False
      then have "bit (ed_valid d) (k div 32)" using v b by blast
      then have "ed_data d ! k = C ! k" using assms(2) k by (simp add: ed_coherent_def)
      then show ?thesis using f by simp
    qed
  qed (use dat(2) len in \<open>simp_all add: ed_filled_def\<close>)
  then show ?thesis using e b by auto
next
  case False
  then show ?thesis using assms by (auto simp: eeprom_update_client_def ed_coherent_def)
qed

lemma eeprom_update_loop_coherent:
  "bus_reliable C bus \<Longrightarrow> ed_coherent C d \<Longrightarrow> hi \<le> 7 \<Longrightarrow>
    \<exists>d'. eeprom_update_loop HZ now bus sl hi d = Some d' \<and> ed_coherent C d' \<and>
      (\<forall>s. bit (ed_valid d) s \<or> sl \<le> s \<and> int s \<le> hi \<longrightarrow> bit (ed_valid d') s) \<and> ed_nature d' = ed_nature d"
proof (induction HZ now bus sl hi d rule: eeprom_update_loop.induct)
  case (1 HZ now bus sl hi d)
  show ?case
  proof (cases "int sl \<le> hi")
    case True
    then have sl: "\<not> 8 \<le> sl" "sl < 8" using "1.prems"(3) by auto
    obtain d1 where d1: "eeprom_update_client HZ now bus sl d = Some d1" "ed_coherent C d1" "bit (ed_valid d1) sl"
      "\<And>s. bit (ed_valid d) s \<Longrightarrow> bit (ed_valid d1) s" "ed_nature d1 = ed_nature d"
      using eeprom_update_coherent [OF "1.prems"(1,2) sl(2), of HZ now] by blast
    obtain d2 where d2: "eeprom_update_loop HZ now bus (sl + 1) hi d1 = Some d2" "ed_coherent C d2"
      "\<And>s. bit (ed_valid d1) s \<or> sl + 1 \<le> s \<and> int s \<le> hi \<Longrightarrow> bit (ed_valid d2) s" "ed_nature d2 = ed_nature d1"
      using "1.IH" [OF True sl(1) d1(1) "1.prems"(1) d1(2) "1.prems"(3)] by blast
    have "bit (ed_valid d2) s" if "bit (ed_valid d) s \<or> sl \<le> s \<and> int s \<le> hi" for s
      using that d1(3,4) d2(3) [of s] by (cases "s = sl") auto
    moreover have "eeprom_update_loop HZ now bus sl hi d = Some d2"
      using True sl d1(1) d2(1) by (subst eeprom_update_loop.simps) simp
    ultimately show ?thesis using d1(5) d2(2,4) by auto
  next
    case False
    then show ?thesis using "1.prems"(2) by (subst eeprom_update_loop.simps) auto
  qed
qed

lemma eeprom_update_loop_overrun: "8 \<le> hi \<Longrightarrow> sl \<le> 8 \<Longrightarrow> eeprom_update_loop HZ now bus sl hi d = None"
proof (induction HZ now bus sl hi d rule: eeprom_update_loop.induct)
  case (1 HZ now bus sl hi d)
  show ?case
  proof (cases "8 \<le> sl")
    case True
    then show ?thesis using "1.prems" by (subst eeprom_update_loop.simps) auto
  next
    case False
    then have "eeprom_update_loop HZ now bus (sl + 1) hi d1 = None"
      if "eeprom_update_client HZ now bus sl d = Some d1" for d1
      using "1.IH" [OF _ False that] "1.prems" by auto
    moreover have "int sl \<le> hi" using False "1.prems" by linarith
    ultimately show ?thesis using False by (subst eeprom_update_loop.simps) (simp split: option.split)
  qed
qed

section \<open>Writing pages\<close>

lemma eeprom_pages_good:
  "\<forall>(t, r) \<in> set tries. r = 0 \<Longrightarrow> n \<le> length tries \<Longrightarrow> w + 16 * n \<le> length buf \<Longrightarrow> w + 16 * n \<le> 256 \<Longrightarrow>
    length dev = 256 \<Longrightarrow>
    eeprom_pages n ticks buf w tries dev =
      Some (True, w + 16 * n, drop n tries, mem_put dev w (mem_get buf w (16 * n)))"
proof (induction n arbitrary: w tries dev)
  case (Suc n)
  then obtain t rest where t: "tries = (t, 0) # rest" by (cases tries) auto
  let ?dev = "mem_put dev w (mem_get buf w 16)"
  have g: "length (mem_get buf w 16) = 16" using Suc.prems(3) by (simp add: length_mem_get)
  have p: "eeprom_write_page ticks buf w tries dev = Some (True, rest, ?dev)"
    using t Suc.prems(3,4) by (simp add: eeprom_write_page_def AT24_PAGE_SIZE_def)
  have ih: "eeprom_pages n ticks buf (w + 16) rest ?dev =
      Some (True, w + 16 + 16 * n, drop n rest, mem_put ?dev (w + 16) (mem_get buf (w + 16) (16 * n)))"
    using Suc.prems t g by (intro Suc.IH) (auto simp: length_mem_put)
  have "mem_put ?dev (w + 16) (mem_get buf (w + 16) (16 * n)) =
      mem_put dev w (mem_get buf w 16 @ mem_get buf (w + 16) (16 * n))"
    using g Suc.prems by (intro mem_put_put) (simp_all add: length_mem_get)
  then show ?case using p ih t by (simp add: AT24_PAGE_SIZE_def mem_get_append add.assoc)
qed simp

lemma eeprom_write_loop_good:
  "\<forall>(t, r) \<in> set tries. r = 0 \<Longrightarrow> 2 * k \<le> length tries \<Longrightarrow> w + 32 * k \<le> length buf \<Longrightarrow> w + 32 * k \<le> 256 \<Longrightarrow>
    length dev = 256 \<Longrightarrow> k < fuel \<Longrightarrow> hi + 1 = int sl + int k \<Longrightarrow>
    \<exists>d'. eeprom_write_loop fuel ticks buf sl hi w tries d dev =
      Some (w + 32 * k, d', mem_put dev w (mem_get buf w (32 * k))) \<and> ed_data d' = ed_data d"
proof (induction k arbitrary: fuel sl w tries d dev)
  case 0
  then show ?case by (cases fuel) auto
next
  case (Suc k)
  then obtain f where f: "fuel = Suc f" by (cases fuel) auto
  let ?dev = "mem_put dev w (mem_get buf w 32)" and ?d = "d\<lparr>ed_valid := ed_valid d AND NOT (push_bit sl 1)\<rparr>"
  have g: "length (mem_get buf w 32) = 32" using Suc.prems(3) by (simp add: length_mem_get)
  have p: "eeprom_pages 2 ticks buf w tries dev = Some (True, w + 32, drop 2 tries, ?dev)"
    using eeprom_pages_good [OF Suc.prems(1), of 2 w buf dev ticks] Suc.prems by simp
  have l: "2 * k \<le> length (drop 2 tries)" unfolding length_drop using Suc.prems(2) by arith
  have "\<forall>(t, r) \<in> set (drop 2 tries). r = 0" using Suc.prems(1) in_set_dropD by fastforce
  then obtain d' where d': "eeprom_write_loop f ticks buf (sl + 1) hi (w + 32) (drop 2 tries) ?d ?dev =
      Some (w + 32 + 32 * k, d', mem_put ?dev (w + 32) (mem_get buf (w + 32) (32 * k)))" "ed_data d' = ed_data ?d"
    using Suc.IH [OF \<open>\<forall>(t, r) \<in> set (drop 2 tries). r = 0\<close>, of "w + 32" ?dev f "sl + 1" ?d] l Suc.prems f g
    by (auto simp: length_mem_put)
  have "mem_put ?dev (w + 32) (mem_get buf (w + 32) (32 * k)) =
      mem_put dev w (mem_get buf w 32 @ mem_get buf (w + 32) (32 * k))"
    using g Suc.prems by (intro mem_put_put) (simp_all add: length_mem_get)
  then show ?case
    using p d' f Suc.prems(7) by (simp add: AT24_PAGES_PER_BLK_def mem_get_append add.assoc)
qed

section \<open>Properties\<close>

text \<open>The positions hidden from regular users of a Vaio device.\<close>

definition ed_private :: "nat \<Rightarrow> bool" where
  "ed_private p \<longleftrightarrow> p < 0x20 \<or> 0xc0 \<le> p \<and> p < 0xe0"

lemma eeprom_clip_eq:
  "0 \<le> off \<Longrightarrow> off \<le> 256 \<Longrightarrow> 0 \<le> cnt \<Longrightarrow> cnt < 9223372036854775808 \<Longrightarrow> eeprom_clip off cnt = min cnt (256 - off)"
  by (simp add: eeprom_clip_def EEPROM_SIZE_def to_u64_id min_def)

text \<open>C12. Reading through a reliable bus with a coherent cache returns, for any offset and count inside
  the device, exactly the bytes of the device, clipped at its end, with the private positions of a
  Vaio device zeroed for regular users; the cache stays coherent whatever slices were refreshed. The
  one exception is a read of no bytes at offset 0: the last slice number wraps around and the refresh
  loop runs past the eight slices.\<close>

theorem eeprom_read_exact:
  assumes "bus_reliable C bus" "ed_coherent C d" "off \<le> 256" "cnt < 9223372036854775808"
  shows "case eeprom_read HZ now bus admin (int off) (int cnt) d of
      None \<Rightarrow> off = 0 \<and> cnt = 0
    | Some (n, out, d') \<Rightarrow> (off \<noteq> 0 \<or> cnt \<noteq> 0) \<and> n = int (min cnt (256 - off)) \<and> ed_coherent C d' \<and>
        out = map (\<lambda>p. if ed_nature d = VAIO \<and> \<not> admin \<and> ed_private p then 0 else C ! p) [off..<off + min cnt (256 - off)]"
proof -
  let ?n = "min cnt (256 - off)"
  have clip: "eeprom_clip (int off) (int cnt) = int ?n" using eeprom_clip_eq [of "int off" "int cnt"] assms(3,4) by auto
  show ?thesis
  proof (cases "off = 0 \<and> cnt = 0")
    case True
    then have "eeprom_last_slice 0 0 \<ge> 8" by (simp add: eeprom_last_slice_def to_u64_def)
    then have "eeprom_update_loop HZ now bus 0 (eeprom_last_slice 0 0) d = None"
      by (intro eeprom_update_loop_overrun) simp_all
    then show ?thesis using True clip by (simp add: eeprom_read_def Let_def)
  next
    case False
    then have pos: "1 \<le> off + ?n" "off + ?n \<le> 256" using assms(3) by auto
    have hi: "eeprom_last_slice (int off) (int ?n) = int ((off + ?n - 1) div 32)"
    proof -
      have "to_u64 (int off + int ?n - 1) = int (off + ?n - 1)" using pos by (subst to_u64_id) auto
      then show ?thesis unfolding eeprom_last_slice_def by (simp add: zdiv_int)
    qed
    have "int ((off + ?n - 1) div 32) \<le> 7" using pos by auto
    then obtain d' where d': "eeprom_update_loop HZ now bus (off div 32) (int ((off + ?n - 1) div 32)) d = Some d'"
      "ed_coherent C d'" "ed_nature d' = ed_nature d"
      "\<And>s. off div 32 \<le> s \<and> int s \<le> int ((off + ?n - 1) div 32) \<Longrightarrow> bit (ed_valid d') s"
      using eeprom_update_loop_coherent [OF assms(1,2), of "int ((off + ?n - 1) div 32)" HZ now "off div 32"] by blast
    have val: "ed_data d' ! p = C ! p" if "off \<le> p" "p < off + ?n" for p
    proof -
      have "off div 32 \<le> p div 32" "p div 32 \<le> (off + ?n - 1) div 32" "p < 256"
        using that pos by (auto intro!: div_le_mono)
      then show ?thesis using d'(2) d'(4) [of "p div 32"] unfolding ed_coherent_def by simp
    qed
    have len: "length (ed_data d') = 256" using d'(2) by (simp add: ed_coherent_def)
    define out where "out = (if ed_nature d' = VAIO \<and> \<not> admin
         then map (\<lambda>i. let p = int off + int i in
                if p \<le> 0x1f \<or> (p \<ge> 0xc0 \<and> p \<le> 0xdf) then 0 else ed_data d' ! nat p) [0..<?n]
         else mem_get (ed_data d') off ?n)"
    have od: "nat (int off div 32) = off div 32" by (metis nat_int of_nat_numeral zdiv_int)
    have r: "eeprom_read HZ now bus admin (int off) (int cnt) d = Some (int ?n, out, d')"
      unfolding eeprom_read_def Let_def clip hi out_def
      using d'(1) assms(3) od by (simp add: EEPROM_SIZE_def Let_def)
    have "out = map (\<lambda>p. if ed_nature d = VAIO \<and> \<not> admin \<and> ed_private p then 0 else C ! p) [off..<off + ?n]"
    proof (rule nth_equalityI)
      show "length out = length (map (\<lambda>p. if ed_nature d = VAIO \<and> \<not> admin \<and> ed_private p then 0 else C ! p) [off..<off + ?n])"
        using len pos by (simp add: out_def length_mem_get)
      fix i
      assume "i < length out"
      then have i: "i < ?n" using len pos by (auto simp: out_def length_mem_get split: if_splits)
      have n: "nat (int off + int i) = off + i" by simp
      show "out ! i = map (\<lambda>p. if ed_nature d = VAIO \<and> \<not> admin \<and> ed_private p then 0 else C ! p) [off..<off + ?n] ! i"
        using i val [of "off + i"] len pos d'(3)
        by (auto simp: out_def mem_get_nth ed_private_def n Let_def)
    qed
    then show ?thesis using r False d'(2) by auto
  qed
qed

definition ed_bus :: "byte list \<Rightarrow> i2c_bus" where
  "ed_bus C = \<lparr>bus_nr = 1, bus_class_spd = True, bus_has_block = True, bus_has_word = False, bus_has_byte = True,
     bus_block = (\<lambda>i. mem_get C i 32), bus_word = (\<lambda>_. -1), bus_byte = (\<lambda>_. 0)\<rparr>"

definition ed_new :: "eeprom_nature \<Rightarrow> eeprom_data" where
  "ed_new nat' = \<lparr>ed_valid = 0, ed_last_updated = replicate 8 0, ed_data = replicate 256 0xff, ed_nature = nat'\<rparr>"

theorem eeprom_read_exact_witness:
  "\<exists>d'. eeprom_read 100 5 (ed_bus (replicate 256 7)) False 30 4 (ed_new VAIO) = Some (4, [0, 0, 7, 7], d')"
proof -
  have "bus_reliable (replicate 256 7) (ed_bus (replicate 256 7))" by (simp add: bus_reliable_def ed_bus_def)
  moreover have "ed_coherent (replicate 256 7) (ed_new VAIO)" by (simp add: ed_coherent_def ed_new_def)
  ultimately show ?thesis
    using eeprom_read_exact [where C = "replicate 256 7" and bus = "ed_bus (replicate 256 7)" and d = "ed_new VAIO"
        and off = 30 and cnt = 4 and HZ = 100 and now = 5 and admin = False]
    by (auto split: option.splits simp: ed_private_def ed_new_def upt_rec)
qed

text \<open>Writing ignores the offset: when every page succeeds at once, a write that touches \<open>k\<close> slices puts
  the first 32 \<open>k\<close> bytes of the buffer at the start of the device, wherever it was asked to write, and
  returns 32 \<open>k\<close>, which can exceed the count.\<close>

theorem eeprom_write_ignores_offset:
  assumes "off \<le> 256" "1 \<le> cnt" "off + cnt \<le> 256" "length dev = 256" "length buf = 4096"
    "\<forall>(t, r) \<in> set tries. r = 0" "16 \<le> length tries"
    "k = (off + cnt - 1) div 32 + 1 - off div 32"
  shows "\<exists>d'. eeprom_write ticks buf (int off) (int cnt) tries d dev =
    Some (int (32 * k), d', take (32 * k) buf @ drop (32 * k) dev)"
proof -
  have clip: "eeprom_clip (int off) (int cnt) = int cnt" using eeprom_clip_eq [of "int off" "int cnt"] assms(1,3) by simp
  have hi: "eeprom_last_slice (int off) (int cnt) = int ((off + cnt - 1) div 32)"
  proof -
    have "to_u64 (int off + int cnt - 1) = int (off + cnt - 1)" using assms(2,3) by (subst to_u64_id) auto
    then show ?thesis unfolding eeprom_last_slice_def by (simp add: zdiv_int)
  qed
  have od: "nat (int off div 32) = off div 32" by (metis nat_int of_nat_numeral zdiv_int)
  have "off div 32 \<le> (off + cnt - 1) div 32" "(off + cnt - 1) div 32 \<le> 7" using assms(2,3) by (auto intro!: div_le_mono)
  then have k: "k \<le> 8" "int ((off + cnt - 1) div 32) + 1 = int (off div 32) + int k" using assms(8) by linarith+
  have p: "2 * k \<le> length tries" "0 + 32 * k \<le> length buf" "0 + 32 * k \<le> 256" "k < length buf + 1"
    using k(1) assms(5,7) by auto
  obtain d' where "eeprom_write_loop (length buf + 1) ticks buf (off div 32) (int ((off + cnt - 1) div 32)) 0 tries d dev =
      Some (0 + 32 * k, d', mem_put dev 0 (mem_get buf 0 (32 * k)))"
    using eeprom_write_loop_good [OF assms(6) p(1-3) assms(4) p(4) k(2), of ticks d] by blast
  then show ?thesis
    unfolding eeprom_write_def Let_def clip hi od using assms(1) p(2)
    by (auto simp: EEPROM_SIZE_def mem_put_def mem_get_def)
qed

theorem eeprom_write_ignores_offset_witness:
  "\<exists>d'. eeprom_write 3 (replicate 4096 9) 100 1 (replicate 16 (0, 0)) (ed_new UNKNOWN) (replicate 256 0) =
     Some (32, d', replicate 32 9 @ replicate 224 0)"
  using eeprom_write_ignores_offset [of 100 1 "replicate 256 0" "replicate 4096 9" "replicate 16 (0, 0)" 1 3 "ed_new UNKNOWN"]
  by simp

end
