(* ===== verification/Atomics.thy ===== *)
theory Atomics
  imports Interfaces
begin

text \<open>
  The atomic operations of atomic/atomic-arm.h, atomic/atomic-mips.h and atomic/atomic-x86.h.
  One processor runs an operation on one aligned 32 bit cell while the other processors store
  to it: before each memory access of the operation the next item of a schedule happens, a
  list of foreign stores and possibly the loss of the exclusive monitor. Once the schedule is
  used up the other processors are quiet. The memory events of the run, fences included, are
  logged in a trace, so that the place of the operation among the foreign stores can be stated.
\<close>

section \<open>Memory and instructions\<close>

datatype fence = Compiler_fence | Store_fence | Full_fence

datatype event = Foreign u32 | Ld u32 | Own u32 | Fence fence

record cpu =
  cell :: u32
  linked :: bool
  sched :: "(u32 list \<times> bool) list"
  trace :: "event list"

definition emit :: "event \<Rightarrow> cpu \<Rightarrow> cpu" where
  "emit e s = s\<lparr>trace := trace s @ [e]\<rparr>"

definition interfere :: "cpu \<Rightarrow> cpu" where
  "interfere s = (case sched s of [] \<Rightarrow> s
     | (ws, lose) # rest \<Rightarrow>
         s\<lparr>cell := last (cell s # ws), linked := linked s \<and> ws = [] \<and> \<not> lose, sched := rest,
           trace := trace s @ map Foreign ws\<rparr>)"

definition load_word :: "cpu \<Rightarrow> u32 \<times> cpu" where
  "load_word s = (let s1 = interfere s in (cell s1, emit (Ld (cell s1)) s1))"

definition store_word :: "u32 \<Rightarrow> cpu \<Rightarrow> cpu" where
  "store_word v s = emit (Own v) ((interfere s)\<lparr>cell := v, linked := False\<rparr>)"

definition load_linked :: "cpu \<Rightarrow> u32 \<times> cpu" where
  "load_linked s = (let s1 = interfere s in (cell s1, emit (Ld (cell s1)) (s1\<lparr>linked := True\<rparr>)))"

definition store_cond :: "u32 \<Rightarrow> cpu \<Rightarrow> bool \<times> cpu" where
  "store_cond v s = (let s1 = interfere s in
     if linked s1 then (True, emit (Own v) (s1\<lparr>cell := v, linked := False\<rparr>))
     else (False, s1\<lparr>linked := False\<rparr>))"

text \<open>
  \<open>lock; xaddl\<close> and \<open>lock; cmpxchgl\<close>: one bus transaction each, so the foreign stores come
  before it. A \<open>cmpxchgl\<close> whose comparison fails writes the old value back; that store changes
  nothing and is not logged.
\<close>

definition lock_xadd :: "u32 \<Rightarrow> cpu \<Rightarrow> u32 \<times> cpu" where
  "lock_xadd inc s = (let s1 = interfere s; prev = cell s1 in
     (prev, emit (Own (prev + inc)) (emit (Ld prev) (s1\<lparr>cell := prev + inc\<rparr>))))"

definition lock_cmpxchg :: "u32 \<Rightarrow> u32 \<Rightarrow> cpu \<Rightarrow> u32 \<times> cpu" where
  "lock_cmpxchg old_value new_value s = (let s1 = interfere s; prev = cell s1 in
     (prev, if prev = old_value
            then emit (Own new_value) (emit (Ld prev) (s1\<lparr>cell := new_value\<rparr>))
            else emit (Ld prev) s1))"

lemmas instr_defs = interfere_def load_word_def store_word_def load_linked_def store_cond_def
  lock_xadd_def lock_cmpxchg_def

text \<open>The stores to the cell, in memory order.\<close>

definition is_store :: "event \<Rightarrow> bool" where
  "is_store e = (case e of Foreign v \<Rightarrow> True | Own v \<Rightarrow> True | _ \<Rightarrow> False)"

definition stores :: "cpu \<Rightarrow> event list" where
  "stores s = filter is_store (trace s)"

lemma is_store_simps [simp]:
  "is_store (Foreign v)" "is_store (Own v)" "\<not> is_store (Ld v)" "\<not> is_store (Fence f)"
  by (simp_all add: is_store_def)

lemma filter_foreign [simp]: "filter is_store (map Foreign ws) = map Foreign ws"
  by (induction ws) simp_all

lemma emit_simps [simp]:
  "cell (emit e s) = cell s" "linked (emit e s) = linked s" "sched (emit e s) = sched s"
  "trace (emit e s) = trace s @ [e]"
  "stores (emit e s) = stores s @ (if is_store e then [e] else [])"
  by (simp_all add: emit_def stores_def)

text \<open>
  \<open>pending s\<close>: the foreign stores still to come. \<open>seen s ws s'\<close>: between \<open>s\<close> and \<open>s'\<close>
  exactly the foreign stores \<open>ws\<close>, the next ones of the schedule, took effect.
\<close>

definition pending :: "cpu \<Rightarrow> u32 list" where
  "pending s = concat (map fst (sched s))"

definition seen :: "cpu \<Rightarrow> u32 list \<Rightarrow> cpu \<Rightarrow> bool" where
  "seen s ws s' \<longleftrightarrow> stores s' = stores s @ map Foreign ws \<and> cell s' = last (cell s # ws) \<and>
     pending s = ws @ pending s'"

lemma pending_emit [simp]: "pending (emit e s) = pending s"
  by (simp add: pending_def)

lemma last_append_Cons: "last (last (c # vs) # ws) = last (c # vs @ ws)"
  by (cases ws) auto

lemma seen_refl: "seen s [] s"
  by (simp add: seen_def)

lemma seen_trans: "seen s vs s1 \<Longrightarrow> seen s1 ws s2 \<Longrightarrow> seen s (vs @ ws) s2"
  by (simp add: seen_def last_append_Cons del: last.simps)

lemma interfere_seen: "\<exists>ws. seen s ws (interfere s)"
proof (cases "sched s")
  case Nil
  then have "seen s [] (interfere s)" by (simp add: interfere_def seen_refl)
  then show ?thesis ..
next
  case (Cons a rest)
  then have "seen s (fst a) (interfere s)"
    by (simp add: interfere_def seen_def stores_def pending_def split: prod.split del: last.simps)
  then show ?thesis ..
qed

lemma interfere_sched: "sched (interfere s) = tl (sched s)"
  by (simp add: interfere_def split: list.split prod.split)

lemma interfere_quiet: "sched s = [] \<Longrightarrow> interfere s = s"
  by (simp add: interfere_def)

lemma interfere_linked: "linked (interfere s) \<Longrightarrow> linked s \<and> seen s [] (interfere s)"
  by (auto simp: interfere_def seen_def stores_def pending_def split: list.splits prod.splits)

text \<open>The law of a single load, a failed and a successful store-conditional.\<close>

lemma load_word_seen: "load_word s = (v, s') \<Longrightarrow> (\<exists>ws. seen s ws s') \<and> cell s' = v"
  using interfere_seen [of s] by (auto simp: load_word_def Let_def seen_def simp del: last.simps)

lemma load_linked_seen:
  "load_linked s = (v, s') \<Longrightarrow> (\<exists>ws. seen s ws s') \<and> cell s' = v \<and> linked s'"
  using interfere_seen [of s]
  by (auto simp: load_linked_def Let_def seen_def emit_def stores_def pending_def
      simp del: last.simps)

lemma store_cond_fail: "store_cond v s = (False, s') \<Longrightarrow> \<exists>ws. seen s ws s'"
  using interfere_seen [of s]
  by (auto simp: store_cond_def Let_def seen_def stores_def pending_def
      simp del: last.simps split: if_splits)

lemma store_cond_ok:
  "store_cond v s = (True, s') \<Longrightarrow>
    cell s' = v \<and> stores s' = stores s @ [Own v] \<and> pending s' = pending s"
  using interfere_linked [of s]
  by (auto simp: store_cond_def Let_def seen_def stores_def emit_def pending_def split: if_splits)

text \<open>
  What an atomic read-modify-write with the function \<open>f\<close> is: it returns the value the cell
  held after some foreign stores, and its own store of \<open>f\<close> of that value comes immediately
  after them.
\<close>

definition atomic_rmw :: "(u32 \<Rightarrow> u32) \<Rightarrow> cpu \<Rightarrow> u32 \<Rightarrow> cpu \<Rightarrow> bool" where
  "atomic_rmw f s r s' \<longleftrightarrow> (\<exists>ws. r = last (cell s # ws) \<and> cell s' = f r \<and>
     stores s' = stores s @ map Foreign ws @ [Own (f r)] \<and> pending s = ws @ pending s')"

lemma atomic_rmw_seen: "seen s vs s1 \<Longrightarrow> atomic_rmw f s1 r s2 \<Longrightarrow> atomic_rmw f s r s2"
  unfolding atomic_rmw_def seen_def
  by (elim exE conjE, rule exI [of _ "vs @ _"]) (simp add: last_append_Cons del: last.simps)

lemma store_cond_rmw:
  "store_cond v s = (True, s') \<Longrightarrow> v = f (cell s) \<Longrightarrow> atomic_rmw f s (cell s) s'"
  using store_cond_ok [of v s s'] by (auto simp: atomic_rmw_def intro: exI [of _ "[]"])

lemma access_sched:
  "sched (snd (load_word s)) = tl (sched s)" "sched (snd (load_linked s)) = tl (sched s)"
  "sched (snd (store_cond v s)) = tl (sched s)" "sched (snd (lock_cmpxchg a b s)) = tl (sched s)"
  by (simp_all add: instr_defs(2-) Let_def interfere_sched)

lemma store_cond_quiet: "linked s \<Longrightarrow> sched s = [] \<Longrightarrow> fst (store_cond v s)"
  by (simp add: store_cond_def Let_def interfere_quiet)

text \<open>
  A retry consumes a schedule item: when nothing happens between the load and the store, the
  store succeeds. The loops below therefore end for every schedule.
\<close>

lemma llsc_retry_decreases:
  assumes "load_linked s = (prev, s1)" "store_cond v s1 = (False, s2)"
  shows "length (sched s2) < length (sched s)"
proof -
  have s1: "linked s1" "sched s1 = tl (sched s)"
    using load_linked_seen [OF assms(1)] access_sched(2) [of s] assms(1) by simp_all
  have s2: "sched s2 = tl (sched s1)"
    using access_sched(3) [of v s1] assms(2) by simp
  have "sched s1 \<noteq> []"
    using store_cond_quiet [OF s1(1), of v] assms(2) by auto
  then show ?thesis
    using s1(2) s2 by (cases "sched s") auto
qed

lemma cmpxchg_retry_decreases:
  assumes "load_word s = (prev, s1)" "lock_cmpxchg prev v s1 = (p, s2)" "p \<noteq> prev"
  shows "length (sched s2) < length (sched s)"
proof -
  have s1: "cell s1 = prev" "sched s1 = tl (sched s)"
    using assms(1) access_sched(1) [of s] by (auto simp: load_word_def Let_def)
  have s2: "sched s2 = tl (sched s1)"
    using access_sched(4) [of prev v s1] assms(2) by simp
  have "sched s1 \<noteq> []"
    using assms(2,3) s1(1) by (auto simp: lock_cmpxchg_def Let_def interfere_quiet)
  then show ?thesis
    using s1(2) s2 by (cases "sched s") auto
qed

section \<open>Barriers\<close>

text \<open>The argument \<open>smp\<close> is the build's \<open>ANDROID_SMP \<noteq> 0\<close>.\<close>

definition android_compiler_barrier :: "cpu \<Rightarrow> cpu" where
  "android_compiler_barrier s = emit (Fence Compiler_fence) s"

definition arm_memory_barrier :: "bool \<Rightarrow> cpu \<Rightarrow> cpu" where
  "arm_memory_barrier smp s =
     (if \<not> smp then android_compiler_barrier s else emit (Fence Full_fence) s)"

definition arm_memory_store_barrier :: "bool \<Rightarrow> cpu \<Rightarrow> cpu" where
  "arm_memory_store_barrier smp s =
     (if \<not> smp then android_compiler_barrier s else emit (Fence Store_fence) s)"

definition mips_compiler_barrier :: "cpu \<Rightarrow> cpu" where
  "mips_compiler_barrier s = emit (Fence Compiler_fence) s"

definition mips_memory_barrier :: "bool \<Rightarrow> cpu \<Rightarrow> cpu" where
  "mips_memory_barrier smp s =
     (if smp then emit (Fence Full_fence) s else mips_compiler_barrier s)"

definition mips_memory_store_barrier :: "bool \<Rightarrow> cpu \<Rightarrow> cpu" where
  "mips_memory_store_barrier smp s =
     (if smp then emit (Fence Full_fence) s else mips_compiler_barrier s)"

definition x86_compiler_barrier :: "cpu \<Rightarrow> cpu" where
  "x86_compiler_barrier s = emit (Fence Compiler_fence) s"

definition x86_memory_barrier :: "bool \<Rightarrow> cpu \<Rightarrow> cpu" where
  "x86_memory_barrier smp s =
     (if smp then emit (Fence Full_fence) s else x86_compiler_barrier s)"

definition x86_memory_store_barrier :: "bool \<Rightarrow> cpu \<Rightarrow> cpu" where
  "x86_memory_store_barrier smp s = x86_compiler_barrier s"

lemmas barrier_defs = android_compiler_barrier_def arm_memory_barrier_def
  arm_memory_store_barrier_def mips_compiler_barrier_def mips_memory_barrier_def
  mips_memory_store_barrier_def x86_compiler_barrier_def x86_memory_barrier_def
  x86_memory_store_barrier_def

section \<open>ARM\<close>

definition arm_acquire_load :: "bool \<Rightarrow> cpu \<Rightarrow> u32 \<times> cpu" where
  "arm_acquire_load smp s = (let (v, s1) = load_word s in (v, arm_memory_barrier smp s1))"

definition arm_release_load :: "bool \<Rightarrow> cpu \<Rightarrow> u32 \<times> cpu" where
  "arm_release_load smp s = load_word (arm_memory_barrier smp s)"

definition arm_acquire_store :: "bool \<Rightarrow> u32 \<Rightarrow> cpu \<Rightarrow> cpu" where
  "arm_acquire_store smp v s = arm_memory_barrier smp (store_word v s)"

definition arm_release_store :: "bool \<Rightarrow> u32 \<Rightarrow> cpu \<Rightarrow> cpu" where
  "arm_release_store smp v s = store_word v (arm_memory_barrier smp s)"

text \<open>
  \<open>ldrex; mov status, #0; teq; strexeq\<close>: the status stays 0 when the comparison fails, and
  \<open>strex\<close> sets it to 1 when the exclusive access was lost.
\<close>

function arm_cas :: "u32 \<Rightarrow> u32 \<Rightarrow> cpu \<Rightarrow> int \<times> cpu" where
  "arm_cas old_value new_value s = (let (prev, s1) = load_linked s;
      (status, s2) = (if prev = old_value
         then let (ok, s2) = store_cond new_value s1 in (if ok then 0 else 1, s2)
         else (0 :: u32, s1)) in
     if status \<noteq> 0 then arm_cas old_value new_value s2
     else (if prev \<noteq> old_value then 1 else 0, s2))"
  by pat_completeness auto
termination
  by (relation "measure (\<lambda>(_, _, s). length (sched s))")
    (auto simp: Let_def split: if_splits prod.splits intro: llsc_retry_decreases [OF sym sym]
        llsc_retry_decreases [OF sym])

definition arm_acquire_cas :: "bool \<Rightarrow> u32 \<Rightarrow> u32 \<Rightarrow> cpu \<Rightarrow> int \<times> cpu" where
  "arm_acquire_cas smp old_value new_value s =
     (let (status, s1) = arm_cas old_value new_value s in (status, arm_memory_barrier smp s1))"

definition arm_release_cas :: "bool \<Rightarrow> u32 \<Rightarrow> u32 \<Rightarrow> cpu \<Rightarrow> int \<times> cpu" where
  "arm_release_cas smp old_value new_value s =
     arm_cas old_value new_value (arm_memory_barrier smp s)"

text \<open>
  The loop \<open>ldrex; op; strex\<close> of add, and, or, with the instruction between the two
  accesses as argument.
\<close>

function arm_llsc_loop :: "(u32 \<Rightarrow> u32) \<Rightarrow> cpu \<Rightarrow> u32 \<times> cpu" where
  "arm_llsc_loop f s = (let (prev, s1) = load_linked s; tmp = f prev;
      (ok, s2) = store_cond tmp s1; status = (if ok then 0 else 1 :: u32) in
     if status \<noteq> 0 then arm_llsc_loop f s2 else (prev, s2))"
  by pat_completeness auto
termination
  by (relation "measure (\<lambda>(_, s). length (sched s))")
    (auto simp: Let_def split: if_splits prod.splits intro: llsc_retry_decreases [OF sym sym]
        llsc_retry_decreases [OF sym])

definition arm_add :: "bool \<Rightarrow> u32 \<Rightarrow> cpu \<Rightarrow> u32 \<times> cpu" where
  "arm_add smp increment s =
     arm_llsc_loop (\<lambda>prev. prev + increment) (arm_memory_barrier smp s)"

definition arm_inc :: "bool \<Rightarrow> cpu \<Rightarrow> u32 \<times> cpu" where
  "arm_inc smp s = arm_add smp 1 s"

definition arm_dec :: "bool \<Rightarrow> cpu \<Rightarrow> u32 \<times> cpu" where
  "arm_dec smp s = arm_add smp (- 1) s"

definition arm_and :: "bool \<Rightarrow> u32 \<Rightarrow> cpu \<Rightarrow> u32 \<times> cpu" where
  "arm_and smp value s = arm_llsc_loop (\<lambda>prev. prev AND value) (arm_memory_barrier smp s)"

definition arm_or :: "bool \<Rightarrow> u32 \<Rightarrow> cpu \<Rightarrow> u32 \<times> cpu" where
  "arm_or smp value s = arm_llsc_loop (\<lambda>prev. prev OR value) (arm_memory_barrier smp s)"

section \<open>MIPS\<close>

definition mips_acquire_load :: "bool \<Rightarrow> cpu \<Rightarrow> u32 \<times> cpu" where
  "mips_acquire_load smp s = (let (v, s1) = load_word s in (v, mips_memory_barrier smp s1))"

definition mips_release_load :: "bool \<Rightarrow> cpu \<Rightarrow> u32 \<times> cpu" where
  "mips_release_load smp s = load_word (mips_memory_barrier smp s)"

definition mips_acquire_store :: "bool \<Rightarrow> u32 \<Rightarrow> cpu \<Rightarrow> cpu" where
  "mips_acquire_store smp v s = mips_memory_barrier smp (store_word v s)"

definition mips_release_store :: "bool \<Rightarrow> u32 \<Rightarrow> cpu \<Rightarrow> cpu" where
  "mips_release_store smp v s = store_word v (mips_memory_barrier smp s)"

text \<open>
  \<open>ll; li status, 1; bne 9f; move status, new; sc\<close>: the status is 1 when the comparison
  fails and when \<open>sc\<close> stored, 0 when the link was lost.
\<close>

function mips_cas :: "u32 \<Rightarrow> u32 \<Rightarrow> cpu \<Rightarrow> int \<times> cpu" where
  "mips_cas old_value new_value s = (let (prev, s1) = load_linked s;
      (status, s2) = (if prev \<noteq> old_value then (1 :: u32, s1)
         else let (ok, s2) = store_cond new_value s1 in (if ok then 1 else 0, s2)) in
     if status = 0 then mips_cas old_value new_value s2
     else (if prev \<noteq> old_value then 1 else 0, s2))"
  by pat_completeness auto
termination
  by (relation "measure (\<lambda>(_, _, s). length (sched s))")
    (auto simp: Let_def split: if_splits prod.splits intro: llsc_retry_decreases [OF sym sym]
        llsc_retry_decreases [OF sym])

definition mips_acquire_cas :: "bool \<Rightarrow> u32 \<Rightarrow> u32 \<Rightarrow> cpu \<Rightarrow> int \<times> cpu" where
  "mips_acquire_cas smp old_value new_value s =
     (let (status, s1) = mips_cas old_value new_value s in (status, mips_memory_barrier smp s1))"

definition mips_release_cas :: "bool \<Rightarrow> u32 \<Rightarrow> u32 \<Rightarrow> cpu \<Rightarrow> int \<times> cpu" where
  "mips_release_cas smp old_value new_value s =
     mips_cas old_value new_value (mips_memory_barrier smp s)"

function mips_llsc_loop :: "(u32 \<Rightarrow> u32) \<Rightarrow> cpu \<Rightarrow> u32 \<times> cpu" where
  "mips_llsc_loop f s = (let (prev, s1) = load_linked s;
      (ok, s2) = store_cond (f prev) s1; status = (if ok then 1 else 0 :: u32) in
     if status = 0 then mips_llsc_loop f s2 else (prev, s2))"
  by pat_completeness auto
termination
  by (relation "measure (\<lambda>(_, s). length (sched s))")
    (auto simp: Let_def split: if_splits prod.splits intro: llsc_retry_decreases [OF sym sym]
        llsc_retry_decreases [OF sym])

definition mips_swap :: "bool \<Rightarrow> u32 \<Rightarrow> cpu \<Rightarrow> u32 \<times> cpu" where
  "mips_swap smp new_value s =
     (let (prev, s1) = mips_llsc_loop (\<lambda>_. new_value) s in (prev, mips_memory_barrier smp s1))"

definition mips_add :: "bool \<Rightarrow> u32 \<Rightarrow> cpu \<Rightarrow> u32 \<times> cpu" where
  "mips_add smp increment s =
     mips_llsc_loop (\<lambda>prev. prev + increment) (mips_memory_barrier smp s)"

definition mips_inc :: "bool \<Rightarrow> cpu \<Rightarrow> u32 \<times> cpu" where
  "mips_inc smp s = mips_add smp 1 s"

definition mips_dec :: "bool \<Rightarrow> cpu \<Rightarrow> u32 \<times> cpu" where
  "mips_dec smp s = mips_add smp (- 1) s"

definition mips_and :: "bool \<Rightarrow> u32 \<Rightarrow> cpu \<Rightarrow> u32 \<times> cpu" where
  "mips_and smp value s = mips_llsc_loop (\<lambda>prev. prev AND value) (mips_memory_barrier smp s)"

definition mips_or :: "bool \<Rightarrow> u32 \<Rightarrow> cpu \<Rightarrow> u32 \<times> cpu" where
  "mips_or smp value s = mips_llsc_loop (\<lambda>prev. prev OR value) (mips_memory_barrier smp s)"

section \<open>x86\<close>

definition x86_acquire_load :: "bool \<Rightarrow> cpu \<Rightarrow> u32 \<times> cpu" where
  "x86_acquire_load smp s = (let (v, s1) = load_word s in (v, x86_compiler_barrier s1))"

definition x86_release_load :: "bool \<Rightarrow> cpu \<Rightarrow> u32 \<times> cpu" where
  "x86_release_load smp s = load_word (x86_memory_barrier smp s)"

definition x86_acquire_store :: "bool \<Rightarrow> u32 \<Rightarrow> cpu \<Rightarrow> cpu" where
  "x86_acquire_store smp v s = x86_memory_barrier smp (store_word v s)"

definition x86_release_store :: "bool \<Rightarrow> u32 \<Rightarrow> cpu \<Rightarrow> cpu" where
  "x86_release_store smp v s = store_word v (x86_compiler_barrier s)"

definition x86_cas :: "u32 \<Rightarrow> u32 \<Rightarrow> cpu \<Rightarrow> int \<times> cpu" where
  "x86_cas old_value new_value s = (let (prev, s1) = lock_cmpxchg old_value new_value s in
     (if prev \<noteq> old_value then 1 else 0, s1))"

definition x86_acquire_cas :: "bool \<Rightarrow> u32 \<Rightarrow> u32 \<Rightarrow> cpu \<Rightarrow> int \<times> cpu" where
  "x86_acquire_cas smp old_value new_value s = x86_cas old_value new_value s"

definition x86_release_cas :: "bool \<Rightarrow> u32 \<Rightarrow> u32 \<Rightarrow> cpu \<Rightarrow> int \<times> cpu" where
  "x86_release_cas smp old_value new_value s = x86_cas old_value new_value s"

definition x86_add :: "bool \<Rightarrow> u32 \<Rightarrow> cpu \<Rightarrow> u32 \<times> cpu" where
  "x86_add smp increment s = lock_xadd increment s"

definition x86_inc :: "bool \<Rightarrow> cpu \<Rightarrow> u32 \<times> cpu" where
  "x86_inc smp s = x86_add smp 1 s"

definition x86_dec :: "bool \<Rightarrow> cpu \<Rightarrow> u32 \<times> cpu" where
  "x86_dec smp s = x86_add smp (- 1) s"

text \<open>The loop of and, or: a plain load and a compare-and-swap from the loaded value.\<close>

function x86_cas_loop :: "(u32 \<Rightarrow> u32) \<Rightarrow> cpu \<Rightarrow> u32 \<times> cpu" where
  "x86_cas_loop f s = (let (prev, s1) = load_word s; (status, s2) = x86_cas prev (f prev) s1 in
     if status \<noteq> 0 then x86_cas_loop f s2 else (prev, s2))"
  by pat_completeness auto
termination
  by (relation "measure (\<lambda>(_, s). length (sched s))")
    (auto simp: x86_cas_def Let_def split: if_splits prod.splits intro: cmpxchg_retry_decreases [OF sym])

definition x86_and :: "bool \<Rightarrow> u32 \<Rightarrow> cpu \<Rightarrow> u32 \<times> cpu" where
  "x86_and smp value s = x86_cas_loop (\<lambda>prev. prev AND value) s"

definition x86_or :: "bool \<Rightarrow> u32 \<Rightarrow> cpu \<Rightarrow> u32 \<times> cpu" where
  "x86_or smp value s = x86_cas_loop (\<lambda>prev. prev OR value) s"

declare arm_cas.simps [simp del] mips_cas.simps [simp del] arm_llsc_loop.simps [simp del]
  mips_llsc_loop.simps [simp del] x86_cas_loop.simps [simp del]

section \<open>Every loop is one atomic read-modify-write\<close>

lemma arm_llsc_loop_unfold:
  assumes "load_linked s = (prev, s1)" "store_cond (f prev) s1 = (ok, s2)"
  shows "arm_llsc_loop f s = (if ok then (prev, s2) else arm_llsc_loop f s2)"
  using assms by (subst arm_llsc_loop.simps) simp

lemma x86_cas_loop_unfold:
  assumes "load_word s = (prev, s1)" "lock_cmpxchg prev (f prev) s1 = (p, s2)"
  shows "x86_cas_loop f s = (if p = prev then (prev, s2) else x86_cas_loop f s2)"
  using assms by (subst x86_cas_loop.simps) (simp add: x86_cas_def)

lemma arm_llsc_loop_rmw: "arm_llsc_loop f s = (r, s') \<Longrightarrow> atomic_rmw f s r s'"
proof (induction "length (sched s)" arbitrary: s rule: less_induct)
  case less
  obtain prev s1 where ll: "load_linked s = (prev, s1)" by force
  obtain ok s2 where sc: "store_cond (f prev) s1 = (ok, s2)" by force
  obtain ws where s1: "seen s ws s1" "cell s1 = prev"
    using load_linked_seen [OF ll] by blast
  note eq = arm_llsc_loop_unfold [where f = f, OF ll sc]
  show ?case
  proof (cases ok)
    case True
    then have "store_cond (f (cell s1)) s1 = (True, s2)"
      unfolding s1(2) using sc by simp
    then have "atomic_rmw f s1 prev s2"
      using store_cond_rmw [OF _ refl] s1(2) by blast
    moreover have "r = prev" "s' = s2"
      using True eq less.prems by simp_all
    ultimately show ?thesis using atomic_rmw_seen [OF s1(1)] by simp
  next
    case False
    then have dec: "length (sched s2) < length (sched s)" and next_round: "arm_llsc_loop f s2 = (r, s')"
      using llsc_retry_decreases [of s prev s1 "f prev" s2] ll sc eq less.prems by simp_all
    obtain vs where "seen s1 vs s2"
      using store_cond_fail [of "f prev" s1 s2] sc False by auto
    then show ?thesis
      using less.hyps [OF dec next_round] atomic_rmw_seen s1(1) by blast
  qed
qed

lemma mips_llsc_loop_eq: "mips_llsc_loop f s = arm_llsc_loop f s"
proof (induction f s rule: mips_llsc_loop.induct)
  case (1 f s)
  then show ?case
    by (subst mips_llsc_loop.simps, subst arm_llsc_loop.simps) (auto split: prod.split)
qed

lemma cmpxchg_same:
  "lock_cmpxchg prev v s = (prev, s') \<Longrightarrow> v = f prev \<Longrightarrow> atomic_rmw f s prev s'"
  using interfere_seen [of s]
  by (auto simp: lock_cmpxchg_def Let_def atomic_rmw_def seen_def stores_def emit_def pending_def
      simp del: last.simps)

lemma cmpxchg_other:
  "lock_cmpxchg old_value v s = (p, s') \<Longrightarrow> p \<noteq> old_value \<Longrightarrow>
    (\<exists>ws. seen s ws s') \<and> cell s' = p"
  using interfere_seen [of s]
  by (auto simp: lock_cmpxchg_def Let_def seen_def simp del: last.simps)

lemma x86_cas_loop_rmw: "x86_cas_loop f s = (r, s') \<Longrightarrow> atomic_rmw f s r s'"
proof (induction "length (sched s)" arbitrary: s rule: less_induct)
  case less
  obtain prev s1 where ld: "load_word s = (prev, s1)" by force
  obtain p s2 where cx: "lock_cmpxchg prev (f prev) s1 = (p, s2)" by force
  obtain ws where s1: "seen s ws s1"
    using load_word_seen [OF ld] by blast
  note eq = x86_cas_loop_unfold [where f = f, OF ld cx]
  show ?case
  proof (cases "p = prev")
    case True
    then have "atomic_rmw f s1 prev s2"
      using cmpxchg_same [of prev "f prev" s1 s2 f] cx by simp
    moreover have "r = prev" "s' = s2"
      using True eq less.prems by simp_all
    ultimately show ?thesis using atomic_rmw_seen s1 by blast
  next
    case False
    then have "atomic_rmw f s2 r s'"
      using less.hyps [of s2] cmpxchg_retry_decreases ld cx eq less.prems by simp
    moreover obtain vs where "seen s1 vs s2"
      using cmpxchg_other cx False by blast
    ultimately show ?thesis using atomic_rmw_seen s1 by blast
  qed
qed

lemma lock_xadd_rmw: "lock_xadd i s = (r, s') \<Longrightarrow> atomic_rmw (\<lambda>p. p + i) s r s'"
  using interfere_seen [of s]
  by (auto simp: lock_xadd_def Let_def atomic_rmw_def seen_def stores_def emit_def pending_def
      simp del: last.simps)

text \<open>
  A compare-and-swap returns 0 after an atomic store of the new value over the old one, and 1
  without a store when it found another value.
\<close>

definition atomic_cas :: "u32 \<Rightarrow> u32 \<Rightarrow> cpu \<Rightarrow> int \<Rightarrow> cpu \<Rightarrow> bool" where
  "atomic_cas old_value new_value s r s' \<longleftrightarrow>
     (r = 0 \<and> atomic_rmw (\<lambda>_. new_value) s old_value s' \<or>
      r = 1 \<and> (\<exists>ws. seen s ws s') \<and> cell s' \<noteq> old_value)"

lemma atomic_cas_seen: "seen s vs s1 \<Longrightarrow> atomic_cas a b s1 r s2 \<Longrightarrow> atomic_cas a b s r s2"
  unfolding atomic_cas_def using atomic_rmw_seen seen_trans by blast

lemma arm_cas_unfold:
  assumes "load_linked s = (prev, s1)" "store_cond b s1 = (ok, s2)"
  shows "arm_cas a b s = (if prev \<noteq> a then (1, s1) else if ok then (0, s2) else arm_cas a b s2)"
  using assms by (subst arm_cas.simps) simp

lemma arm_cas_atomic: "arm_cas a b s = (r, s') \<Longrightarrow> atomic_cas a b s r s'"
proof (induction "length (sched s)" arbitrary: s rule: less_induct)
  case less
  obtain prev s1 where ll: "load_linked s = (prev, s1)" by force
  obtain ok s2 where sc: "store_cond b s1 = (ok, s2)" by force
  obtain ws where s1: "seen s ws s1" "cell s1 = prev"
    using load_linked_seen [OF ll] by blast
  note eq = arm_cas_unfold [of s prev s1 b ok s2 a, OF ll sc]
  consider "prev \<noteq> a" | "prev = a" ok | "prev = a" "\<not> ok" by blast
  then show ?case
  proof cases
    case 1
    then show ?thesis using eq less.prems s1 by (auto simp: atomic_cas_def)
  next
    case 2
    then have "atomic_rmw (\<lambda>_. b) s1 a s'" "r = 0"
      using store_cond_rmw [of b s1 s2 "\<lambda>_. b"] sc s1(2) eq less.prems by simp_all
    then show ?thesis using atomic_rmw_seen s1(1) by (auto simp: atomic_cas_def)
  next
    case 3
    then have "atomic_cas a b s2 r s'"
      using less.hyps [OF llsc_retry_decreases [OF ll]] sc eq less.prems by auto
    moreover obtain vs where "seen s1 vs s2"
      using store_cond_fail [of b s1 s2] sc 3 by auto
    ultimately show ?thesis using atomic_cas_seen s1(1) by blast
  qed
qed

lemma mips_cas_eq: "mips_cas a b s = arm_cas a b s"
proof (induction "length (sched s)" arbitrary: s rule: less_induct)
  case less
  obtain prev s1 where ll: "load_linked s = (prev, s1)" by force
  obtain ok s2 where sc: "store_cond b s1 = (ok, s2)" by force
  have "mips_cas a b s =
      (if prev \<noteq> a then (1, s1) else if ok then (0, s2) else mips_cas a b s2)"
    using ll sc by (subst mips_cas.simps) simp
  moreover have "\<not> ok \<Longrightarrow> mips_cas a b s2 = arm_cas a b s2"
    using less [of s2] llsc_retry_decreases ll sc by simp
  ultimately show ?case using arm_cas_unfold ll sc by simp
qed

lemma x86_cas_atomic: "x86_cas a b s = (r, s') \<Longrightarrow> atomic_cas a b s r s'"
  using cmpxchg_same [of a b s s' "\<lambda>_. b"] cmpxchg_other [of a b s _ s']
  by (auto simp: x86_cas_def atomic_cas_def split: prod.splits if_splits)

section \<open>The choice of the architecture\<close>

datatype arch = ARM | X86 | MIPS

definition ANDROID_MEMBAR_FULL :: "arch \<Rightarrow> bool \<Rightarrow> cpu \<Rightarrow> cpu" where
  "ANDROID_MEMBAR_FULL a smp = (case a of
     ARM \<Rightarrow> if \<not> smp then android_compiler_barrier else arm_memory_barrier smp
   | X86 \<Rightarrow> if \<not> smp then x86_compiler_barrier else x86_memory_barrier smp
   | MIPS \<Rightarrow> if \<not> smp then mips_compiler_barrier else mips_memory_barrier smp)"

definition ANDROID_MEMBAR_STORE :: "arch \<Rightarrow> bool \<Rightarrow> cpu \<Rightarrow> cpu" where
  "ANDROID_MEMBAR_STORE a smp = (case a of
     ARM \<Rightarrow> if \<not> smp then android_compiler_barrier else arm_memory_store_barrier smp
   | X86 \<Rightarrow> if \<not> smp then x86_compiler_barrier else x86_memory_store_barrier smp
   | MIPS \<Rightarrow> if \<not> smp then mips_compiler_barrier else mips_memory_store_barrier smp)"

definition android_atomic_add :: "arch \<Rightarrow> bool \<Rightarrow> u32 \<Rightarrow> cpu \<Rightarrow> u32 \<times> cpu" where
  "android_atomic_add a = (case a of ARM \<Rightarrow> arm_add | X86 \<Rightarrow> x86_add | MIPS \<Rightarrow> mips_add)"

definition android_atomic_inc :: "arch \<Rightarrow> bool \<Rightarrow> cpu \<Rightarrow> u32 \<times> cpu" where
  "android_atomic_inc a = (case a of ARM \<Rightarrow> arm_inc | X86 \<Rightarrow> x86_inc | MIPS \<Rightarrow> mips_inc)"

definition android_atomic_dec :: "arch \<Rightarrow> bool \<Rightarrow> cpu \<Rightarrow> u32 \<times> cpu" where
  "android_atomic_dec a = (case a of ARM \<Rightarrow> arm_dec | X86 \<Rightarrow> x86_dec | MIPS \<Rightarrow> mips_dec)"

definition android_atomic_and :: "arch \<Rightarrow> bool \<Rightarrow> u32 \<Rightarrow> cpu \<Rightarrow> u32 \<times> cpu" where
  "android_atomic_and a = (case a of ARM \<Rightarrow> arm_and | X86 \<Rightarrow> x86_and | MIPS \<Rightarrow> mips_and)"

definition android_atomic_or :: "arch \<Rightarrow> bool \<Rightarrow> u32 \<Rightarrow> cpu \<Rightarrow> u32 \<times> cpu" where
  "android_atomic_or a = (case a of ARM \<Rightarrow> arm_or | X86 \<Rightarrow> x86_or | MIPS \<Rightarrow> mips_or)"

definition android_atomic_cas :: "arch \<Rightarrow> u32 \<Rightarrow> u32 \<Rightarrow> cpu \<Rightarrow> int \<times> cpu" where
  "android_atomic_cas a = (case a of ARM \<Rightarrow> arm_cas | X86 \<Rightarrow> x86_cas | MIPS \<Rightarrow> mips_cas)"

definition android_atomic_acquire_cas :: "arch \<Rightarrow> bool \<Rightarrow> u32 \<Rightarrow> u32 \<Rightarrow> cpu \<Rightarrow> int \<times> cpu" where
  "android_atomic_acquire_cas a =
     (case a of ARM \<Rightarrow> arm_acquire_cas | X86 \<Rightarrow> x86_acquire_cas | MIPS \<Rightarrow> mips_acquire_cas)"

definition android_atomic_release_cas :: "arch \<Rightarrow> bool \<Rightarrow> u32 \<Rightarrow> u32 \<Rightarrow> cpu \<Rightarrow> int \<times> cpu" where
  "android_atomic_release_cas a =
     (case a of ARM \<Rightarrow> arm_release_cas | X86 \<Rightarrow> x86_release_cas | MIPS \<Rightarrow> mips_release_cas)"

definition android_atomic_acquire_load :: "arch \<Rightarrow> bool \<Rightarrow> cpu \<Rightarrow> u32 \<times> cpu" where
  "android_atomic_acquire_load a =
     (case a of ARM \<Rightarrow> arm_acquire_load | X86 \<Rightarrow> x86_acquire_load | MIPS \<Rightarrow> mips_acquire_load)"

definition android_atomic_release_load :: "arch \<Rightarrow> bool \<Rightarrow> cpu \<Rightarrow> u32 \<times> cpu" where
  "android_atomic_release_load a =
     (case a of ARM \<Rightarrow> arm_release_load | X86 \<Rightarrow> x86_release_load | MIPS \<Rightarrow> mips_release_load)"

definition android_atomic_acquire_store :: "arch \<Rightarrow> bool \<Rightarrow> u32 \<Rightarrow> cpu \<Rightarrow> cpu" where
  "android_atomic_acquire_store a = (case a of ARM \<Rightarrow> arm_acquire_store
     | X86 \<Rightarrow> x86_acquire_store | MIPS \<Rightarrow> mips_acquire_store)"

definition android_atomic_release_store :: "arch \<Rightarrow> bool \<Rightarrow> u32 \<Rightarrow> cpu \<Rightarrow> cpu" where
  "android_atomic_release_store a = (case a of ARM \<Rightarrow> arm_release_store
     | X86 \<Rightarrow> x86_release_store | MIPS \<Rightarrow> mips_release_store)"

text \<open>Fences only add to the log.\<close>

lemma fence_seen:
  "seen s [] (arm_memory_barrier smp s)" "seen s [] (mips_memory_barrier smp s)"
  "seen s [] (x86_memory_barrier smp s)"
  by (simp_all add: barrier_defs seen_def)

lemma fence_after:
  "stores (arm_memory_barrier smp s) = stores s" "cell (arm_memory_barrier smp s) = cell s"
  "pending (arm_memory_barrier smp s) = pending s"
  "stores (mips_memory_barrier smp s) = stores s" "cell (mips_memory_barrier smp s) = cell s"
  "pending (mips_memory_barrier smp s) = pending s"
  by (simp_all add: barrier_defs)

section \<open>Clients of a fetch-and-modify\<close>

text \<open>
  \<open>own_by f c es\<close>: in the history \<open>es\<close> of stores to a cell that held \<open>c\<close>, each own store is
  \<open>f\<close> of the value before it. \<open>all_by f c es\<close>: so is each store, the foreign ones included.
\<close>

fun own_by :: "(u32 \<Rightarrow> u32) \<Rightarrow> u32 \<Rightarrow> event list \<Rightarrow> bool" where
  "own_by f c [] = True"
| "own_by f c (Own w # es) = (w = f c \<and> own_by f w es)"
| "own_by f c (Foreign w # es) = own_by f w es"
| "own_by f c (_ # es) = own_by f c es"

fun foreign_by :: "(u32 \<Rightarrow> u32) \<Rightarrow> u32 \<Rightarrow> event list \<Rightarrow> bool" where
  "foreign_by f c [] = True"
| "foreign_by f c (Foreign w # es) = (w = f c \<and> foreign_by f w es)"
| "foreign_by f c (Own w # es) = foreign_by f w es"
| "foreign_by f c (_ # es) = foreign_by f c es"

fun final :: "u32 \<Rightarrow> event list \<Rightarrow> u32" where
  "final c [] = c"
| "final c (Own w # es) = final w es"
| "final c (Foreign w # es) = final w es"
| "final c (_ # es) = final c es"

lemma final_foreign: "final c (map Foreign ws @ es) = final (last (c # ws)) es"
  by (induction ws arbitrary: c) auto

lemma own_by_foreign: "own_by f c (map Foreign ws @ es) = own_by f (last (c # ws)) es"
  by (induction ws arbitrary: c) auto

lemma own_by_append: "own_by f c (es @ fs) \<longleftrightarrow> own_by f c es \<and> own_by f (final c es) fs"
  by (induction f c es rule: own_by.induct) auto

lemma final_append: "final c (es @ fs) = final (final c es) fs"
  by (induction c es rule: final.induct) auto

lemma both_by_funpow:
  "own_by f c es \<Longrightarrow> foreign_by f c es \<Longrightarrow> \<forall>e \<in> set es. is_store e \<Longrightarrow>
    final c es = (f ^^ length es) c"
  by (induction f c es rule: own_by.induct) (auto simp: funpow_swap1)

locale fetch_modify =
  fixes run :: "cpu \<Rightarrow> u32 \<times> cpu" and f :: "u32 \<Rightarrow> u32"
  assumes run_atomic: "atomic_rmw f s (fst (run s)) (snd (run s))"
begin

definition run_n :: "nat \<Rightarrow> cpu \<Rightarrow> cpu" where
  "run_n n = (snd \<circ> run) ^^ n"

lemma quiet:
  assumes "pending s = []"
  shows "fst (run s) = cell s \<and> cell (snd (run s)) = f (cell s)"
  using run_atomic [of s] assms by (auto simp: atomic_rmw_def)

lemma run_history:
  "\<exists>es. stores (snd (run s)) = stores s @ es \<and> own_by f (cell s) es \<and>
     cell (snd (run s)) = final (cell s) es \<and> length (filter (\<lambda>e. \<exists>v. e = Own v) es) = 1"
proof -
  obtain ws where ws: "fst (run s) = last (cell s # ws)" "cell (snd (run s)) = f (fst (run s))"
    "stores (snd (run s)) = stores s @ map Foreign ws @ [Own (f (fst (run s)))]"
    using run_atomic [of s] unfolding atomic_rmw_def by blast
  define es where "es = map Foreign ws @ [Own (f (fst (run s)))]"
  have "own_by f (cell s) es" "cell (snd (run s)) = final (cell s) es"
    using ws(1,2) by (simp_all add: es_def own_by_foreign final_foreign del: last.simps)
  moreover have "filter (\<lambda>e. \<exists>v. e = Own v) es = [Own (f (fst (run s)))]"
    by (simp add: es_def filter_empty_conv)
  ultimately show ?thesis using ws(3) by (auto simp: es_def)
qed

lemma run_n_history:
  "\<exists>es. stores (run_n n s) = stores s @ es \<and> own_by f (cell s) es \<and>
     cell (run_n n s) = final (cell s) es \<and> length (filter (\<lambda>e. \<exists>v. e = Own v) es) = n"
proof (induction n)
  case 0
  then show ?case by (simp add: run_n_def)
next
  case (Suc n)
  then obtain es where es: "stores (run_n n s) = stores s @ es" "own_by f (cell s) es"
    "cell (run_n n s) = final (cell s) es" "length (filter (\<lambda>e. \<exists>v. e = Own v) es) = n"
    by blast
  obtain fs where fs: "stores (snd (run (run_n n s))) = stores (run_n n s) @ fs"
    "own_by f (cell (run_n n s)) fs" "cell (snd (run (run_n n s))) = final (cell (run_n n s)) fs"
    "length (filter (\<lambda>e. \<exists>v. e = Own v) fs) = 1"
    using run_history by blast
  have "run_n (Suc n) s = snd (run (run_n n s))"
    by (simp add: run_n_def)
  then show ?case
    using es fs by (intro exI [of _ "es @ fs"]) (simp add: own_by_append final_append)
qed

text \<open>
  When the other processors apply \<open>f\<close> too, the cell ends as \<open>f\<close> applied once for each store:
  no update of any processor is lost.
\<close>

lemma no_lost_update:
  assumes "stores (run_n n s) = stores s @ es" "foreign_by f (cell s) es"
  shows "cell (run_n n s) = (f ^^ length es) (cell s)"
    and "length (filter (\<lambda>e. \<exists>v. e = Own v) es) = n"
proof -
  have h: "own_by f (cell s) es" "cell (run_n n s) = final (cell s) es"
    "length (filter (\<lambda>e. \<exists>v. e = Own v) es) = n"
    using run_n_history [of n s] assms(1) by auto
  have "set es \<subseteq> set (stores (run_n n s))"
    using assms(1) by simp
  then have "\<forall>e \<in> set es. is_store e"
    by (auto simp: stores_def)
  then show "cell (run_n n s) = (f ^^ length es) (cell s)"
    using both_by_funpow [OF h(1) assms(2)] h(2) by simp
  show "length (filter (\<lambda>e. \<exists>v. e = Own v) es) = n"
    by (rule h(3))
qed

end

lemma arm_loop_law: "atomic_rmw f s (fst (arm_llsc_loop f s)) (snd (arm_llsc_loop f s))"
  by (rule arm_llsc_loop_rmw) simp

lemma x86_loop_law: "atomic_rmw f s (fst (x86_cas_loop f s)) (snd (x86_cas_loop f s))"
  by (rule x86_cas_loop_rmw) simp

lemmas rmw_after_fence =
  atomic_rmw_seen [OF fence_seen(1) arm_loop_law] atomic_rmw_seen [OF fence_seen(2) arm_loop_law]

lemma lock_xadd_law: "atomic_rmw (\<lambda>p. p + i) s (fst (lock_xadd i s)) (snd (lock_xadd i s))"
  by (rule lock_xadd_rmw) simp

lemma add_law:
  "atomic_rmw (\<lambda>p. p + i) s (fst (arm_add smp i s)) (snd (arm_add smp i s))"
  "atomic_rmw (\<lambda>p. p + i) s (fst (mips_add smp i s)) (snd (mips_add smp i s))"
  "atomic_rmw (\<lambda>p. p + i) s (fst (x86_add smp i s)) (snd (x86_add smp i s))"
  unfolding arm_add_def mips_add_def x86_add_def mips_llsc_loop_eq
  by (rule rmw_after_fence lock_xadd_law)+

interpretation fa: fetch_modify "android_atomic_add a smp increment" "\<lambda>p. p + increment"
  for a smp increment
  by unfold_locales (cases a; simp only: android_atomic_add_def arch.case add_law)

interpretation fand: fetch_modify "android_atomic_and a smp v" "\<lambda>p. p AND v" for a smp v
  by unfold_locales
    (cases a; simp only: android_atomic_and_def arch.case arm_and_def mips_and_def x86_and_def
      mips_llsc_loop_eq rmw_after_fence x86_loop_law)

interpretation for_or: fetch_modify "android_atomic_or a smp v" "\<lambda>p. p OR v" for a smp v
  by unfold_locales
    (cases a; simp only: android_atomic_or_def arch.case arm_or_def mips_or_def x86_or_def
      mips_llsc_loop_eq rmw_after_fence x86_loop_law)

interpretation finc: fetch_modify "android_atomic_inc a smp" "\<lambda>p. p + 1" for a smp
  by unfold_locales
    (cases a; simp only: android_atomic_inc_def arch.case arm_inc_def mips_inc_def x86_inc_def
      add_law)

interpretation fdec: fetch_modify "android_atomic_dec a smp" "\<lambda>p. p + (- 1)" for a smp
  by unfold_locales
    (cases a; simp only: android_atomic_dec_def arch.case arm_dec_def mips_dec_def x86_dec_def
      add_law)

lemma swap_fence: "atomic_rmw f s r s1 \<Longrightarrow> atomic_rmw f s r (mips_memory_barrier smp s1)"
  by (simp add: atomic_rmw_def fence_after)

lemma mips_swap_law: "atomic_rmw (\<lambda>p. v) s (fst (mips_swap smp v s)) (snd (mips_swap smp v s))"
  unfolding mips_swap_def mips_llsc_loop_eq
  using swap_fence [OF arm_loop_law [of "\<lambda>p. v" s], of smp] by (simp add: case_prod_unfold Let_def)

interpretation fswap: fetch_modify "mips_swap smp v" "\<lambda>p. v" for smp v
  by unfold_locales (rule mips_swap_law)

text \<open>The compare-and-swap with fences.\<close>

lemma cas_law: "atomic_cas x y s (fst (android_atomic_cas a x y s)) (snd (android_atomic_cas a x y s))"
  by (cases a) (auto simp: android_atomic_cas_def mips_cas_eq intro: arm_cas_atomic x86_cas_atomic)

lemma cas_fence:
  "atomic_cas x y s r s1 \<Longrightarrow> atomic_cas x y s r (arm_memory_barrier smp s1)"
  "atomic_cas x y s r s1 \<Longrightarrow> atomic_cas x y s r (mips_memory_barrier smp s1)"
  by (auto simp: atomic_cas_def atomic_rmw_def seen_def fence_after)

section \<open>Bounds and fences\<close>

definition loads :: "cpu \<Rightarrow> nat" where
  "loads s = length (filter (\<lambda>e. \<exists>v. e = Ld v) (trace s))"

lemma loads_emit [simp]:
  "loads (emit (Ld v) s) = Suc (loads s)" "loads (emit (Own v) s) = loads s"
  "loads (emit (Fence f) s) = loads s"
  by (simp_all add: loads_def emit_def)

lemma loads_interfere [simp]: "loads (interfere s) = loads s"
  by (simp add: interfere_def loads_def filter_empty_conv split: list.split prod.split)

lemma loads_upd [simp]: "loads (s\<lparr>cell := c\<rparr>) = loads s" "loads (s\<lparr>linked := l\<rparr>) = loads s"
  by (simp_all add: loads_def)

lemma loads_access:
  "load_linked s = (v, s1) \<Longrightarrow> loads s1 = Suc (loads s)"
  "load_word s = (v, s1) \<Longrightarrow> loads s1 = Suc (loads s)"
  "store_cond v s = (ok, s1) \<Longrightarrow> loads s1 = loads s"
  "lock_cmpxchg a b s = (v, s1) \<Longrightarrow> loads s1 = Suc (loads s)"
  "loads (snd (lock_xadd b s)) = Suc (loads s)"
  by (auto simp: instr_defs(2-) Let_def split: if_splits)

text \<open>
  What disturbs a loop: a foreign store or the loss of the monitor breaks a link, and only a
  foreign store can change the value that a \<open>cmpxchgl\<close> compares. \<open>breaks\<close> and \<open>writes\<close> count what
  is still to come of both, so that \<open>breaks s - breaks s'\<close> is what happened between \<open>s\<close> and \<open>s'\<close>.
\<close>

definition breaks :: "cpu \<Rightarrow> nat" where
  "breaks s = length (filter (\<lambda>(ws, lose). ws \<noteq> [] \<or> lose) (sched s))"

definition writes :: "cpu \<Rightarrow> nat" where
  "writes s = length (filter (\<lambda>(ws, lose). ws \<noteq> []) (sched s))"

lemma breaks_sched: "sched s1 = tl (sched s) \<Longrightarrow> breaks s1 \<le> breaks s \<and> writes s1 \<le> writes s"
  by (cases "sched s") (auto simp: breaks_def writes_def)

lemma store_cond_broken:
  assumes "store_cond v s = (ok, s')" "linked s"
  shows "breaks s' + (if ok then 0 else 1) \<le> breaks s"
proof (cases "sched s")
  case Nil
  then show ?thesis using assms store_cond_quiet [of s v] access_sched(3) [of v s] by (auto simp: breaks_def)
next
  case (Cons i rest)
  then show ?thesis using assms
    by (cases i) (auto simp: store_cond_def interfere_def breaks_def emit_def Let_def split: if_splits)
qed

lemma cmpxchg_changed:
  assumes "lock_cmpxchg (cell s) v s = (p, s')"
  shows "writes s' + (if p = cell s then 0 else 1) \<le> writes s"
proof (cases "sched s")
  case Nil
  then show ?thesis using assms by (auto simp: lock_cmpxchg_def interfere_def writes_def emit_def Let_def split: if_splits)
next
  case (Cons i rest)
  then show ?thesis using assms
    by (cases i) (auto simp: lock_cmpxchg_def interfere_def writes_def emit_def Let_def split: if_splits)
qed

text \<open>The reads of an operation: one for each round, and two in the loops of x86.\<close>

definition rounds_bounded :: "arch \<Rightarrow> cpu \<Rightarrow> cpu \<Rightarrow> bool" where
  "rounds_bounded a s s' \<longleftrightarrow>
     (if a = X86 then writes s' \<le> writes s \<and> loads s' - loads s \<le> 2 * (1 + (writes s - writes s'))
      else breaks s' \<le> breaks s \<and> loads s' - loads s \<le> 1 + (breaks s - breaks s'))"

lemma llsc_round:
  assumes "load_linked s = (prev, s1)" "store_cond v s1 = (ok, s2)"
  shows "breaks s1 \<le> breaks s" "breaks s2 + (if ok then 0 else 1) \<le> breaks s"
    "loads s1 = loads s + 1" "loads s2 = loads s + 1" "length (sched s2) < length (sched s) \<or> ok"
proof -
  show le: "breaks s1 \<le> breaks s" using breaks_sched [of s1 s] access_sched(2) [of s] assms(1) by simp
  have "linked s1" using load_linked_seen [OF assms(1)] by simp
  then show "breaks s2 + (if ok then 0 else 1) \<le> breaks s" using store_cond_broken [OF assms(2)] le by linarith
  show "loads s1 = loads s + 1" "loads s2 = loads s + 1"
    using loads_access(1) [OF assms(1)] loads_access(3) [OF assms(2)] by simp_all
  show "length (sched s2) < length (sched s) \<or> ok" using llsc_retry_decreases [OF assms(1)] assms(2) by auto
qed

lemma arm_llsc_loop_loads:
  "breaks (snd (arm_llsc_loop f s)) \<le> breaks s \<and>
   loads (snd (arm_llsc_loop f s)) + breaks (snd (arm_llsc_loop f s)) \<le> loads s + breaks s + 1"
proof (induction "length (sched s)" arbitrary: s rule: less_induct)
  case less
  obtain prev s1 where ll: "load_linked s = (prev, s1)" by force
  obtain ok s2 where sc: "store_cond (f prev) s1 = (ok, s2)" by force
  note eq = arm_llsc_loop_unfold [where f = f, OF ll sc]
  show ?case unfolding eq using llsc_round [OF ll sc] less [of s2] by (cases ok) auto
qed

lemma arm_cas_loads:
  "breaks (snd (arm_cas a b s)) \<le> breaks s \<and>
   loads (snd (arm_cas a b s)) + breaks (snd (arm_cas a b s)) \<le> loads s + breaks s + 1"
proof (induction "length (sched s)" arbitrary: s rule: less_induct)
  case less
  obtain prev s1 where ll: "load_linked s = (prev, s1)" by force
  obtain ok s2 where sc: "store_cond b s1 = (ok, s2)" by force
  note eq = arm_cas_unfold [of s prev s1 b ok s2 a, OF ll sc]
  show ?case unfolding eq using llsc_round [OF ll sc] less [of s2] by (cases ok) auto
qed

lemma x86_cas_loop_loads:
  "writes (snd (x86_cas_loop f s)) \<le> writes s \<and>
   loads (snd (x86_cas_loop f s)) + 2 * writes (snd (x86_cas_loop f s)) \<le> loads s + 2 * writes s + 2"
proof (induction "length (sched s)" arbitrary: s rule: less_induct)
  case less
  obtain prev s1 where ld: "load_word s = (prev, s1)" by force
  obtain p s2 where cx: "lock_cmpxchg prev (f prev) s1 = (p, s2)" by force
  note eq = x86_cas_loop_unfold [where f = f, OF ld cx]
  have c: "cell s1 = prev" using load_word_seen [OF ld] by simp
  have "writes s1 \<le> writes s" using breaks_sched [of s1 s] access_sched(1) [of s] ld by simp
  then have "writes s2 + (if p = prev then 0 else 1) \<le> writes s"
    using cmpxchg_changed [of s1 "f prev" p s2] cx unfolding c by linarith
  moreover have "loads s2 = loads s + 2"
    using loads_access(2) [OF ld] loads_access(4) [OF cx] by simp
  ultimately show ?case unfolding eq
    using less [of s2] cmpxchg_retry_decreases [of s prev s1 "f prev" p s2] ld cx by (cases "p = prev") auto
qed

lemma fence_loads [simp]:
  "loads (arm_memory_barrier smp s) = loads s" "loads (mips_memory_barrier smp s) = loads s"
  "sched (arm_memory_barrier smp s) = sched s" "sched (mips_memory_barrier smp s) = sched s"
  "breaks (arm_memory_barrier smp s) = breaks s" "breaks (mips_memory_barrier smp s) = breaks s"
  by (simp_all add: barrier_defs breaks_def)

lemma x86_once:
  "loads (snd (x86_cas a b s)) = Suc (loads s)" "writes (snd (x86_cas a b s)) \<le> writes s"
  "loads (snd (lock_xadd v s)) = Suc (loads s)" "writes (snd (lock_xadd v s)) \<le> writes s"
proof -
  show "loads (snd (x86_cas a b s)) = Suc (loads s)" "writes (snd (x86_cas a b s)) \<le> writes s"
    using loads_access(4) [of a b s] breaks_sched [OF access_sched(4) [of a b s]]
    by (cases "lock_cmpxchg a b s"; simp add: x86_cas_def)+
  show "loads (snd (lock_xadd v s)) = Suc (loads s)" "writes (snd (lock_xadd v s)) \<le> writes s"
    using breaks_sched [of "snd (lock_xadd v s)" s] by (simp_all add: lock_xadd_def Let_def interfere_sched)
qed

lemma mips_swap_loads:
  "breaks (snd (mips_swap smp v s)) \<le> breaks s \<and>
   loads (snd (mips_swap smp v s)) + breaks (snd (mips_swap smp v s)) \<le> loads s + breaks s + 1"
  using arm_llsc_loop_loads [of "\<lambda>_. v" s] by (cases "arm_llsc_loop (\<lambda>_. v) s") (simp add: mips_swap_def mips_llsc_loop_eq)

lemmas loads_dispatch = android_atomic_add_def android_atomic_and_def android_atomic_or_def
  android_atomic_cas_def arm_add_def arm_and_def arm_or_def mips_add_def mips_and_def mips_or_def
  x86_add_def x86_and_def x86_or_def mips_llsc_loop_eq mips_cas_eq rounds_bounded_def x86_once

text \<open>\<open>grows s s'\<close>: the log of \<open>s'\<close> extends the one of \<open>s\<close>.\<close>

definition grows :: "cpu \<Rightarrow> cpu \<Rightarrow> bool" where
  "grows s s' \<longleftrightarrow> (\<exists>es. trace s' = trace s @ es)"

lemma grows_trans: "grows s s1 \<Longrightarrow> grows s1 s2 \<Longrightarrow> grows s s2"
  by (auto simp: grows_def)

lemma grows_upd [simp]:
  "grows s (emit e s1) \<longleftrightarrow> grows s s1 \<or> (\<exists>es. trace s1 @ [e] = trace s @ es)"
  "grows s (s1\<lparr>cell := c\<rparr>) = grows s s1" "grows s (s1\<lparr>linked := l\<rparr>) = grows s s1"
  by (auto simp: grows_def)

lemma grows_interfere [simp]: "grows s (interfere s)"
  by (auto simp: interfere_def grows_def split: list.split prod.split)

lemma grows_access:
  "load_linked s = (v, s1) \<Longrightarrow> grows s s1" "load_word s = (v, s1) \<Longrightarrow> grows s s1"
  "store_cond w s = (ok, s1) \<Longrightarrow> grows s s1" "grows s (store_word w s)"
  by (auto simp: instr_defs(2-) Let_def split: if_splits)

lemma arm_llsc_loop_grows: "grows s (snd (arm_llsc_loop f s))"
proof (induction "length (sched s)" arbitrary: s rule: less_induct)
  case less
  obtain prev s1 where ll: "load_linked s = (prev, s1)" by force
  obtain ok s2 where sc: "store_cond (f prev) s1 = (ok, s2)" by force
  note eq = arm_llsc_loop_unfold [where f = f, OF ll sc]
  have "grows s s2"
    using grows_access(1) [OF ll] grows_access(3) [OF sc] grows_trans by blast
  moreover have "\<not> ok \<Longrightarrow> grows s2 (snd (arm_llsc_loop f s2))"
    using less [of s2] llsc_retry_decreases [of s prev s1 "f prev" s2] ll sc by simp
  ultimately show ?case unfolding eq using grows_trans by (cases ok) auto
qed

lemma arm_cas_grows: "grows s (snd (arm_cas a b s))"
proof (induction "length (sched s)" arbitrary: s rule: less_induct)
  case less
  obtain prev s1 where ll: "load_linked s = (prev, s1)" by force
  obtain ok s2 where sc: "store_cond b s1 = (ok, s2)" by force
  note eq = arm_cas_unfold [of s prev s1 b ok s2 a, OF ll sc]
  have "grows s s1" "grows s s2"
    using grows_access(1) [OF ll] grows_access(3) [OF sc] grows_trans by blast+
  moreover have "\<not> ok \<Longrightarrow> grows s2 (snd (arm_cas a b s2))"
    using less [of s2] llsc_retry_decreases [of s prev s1 b s2] ll sc by simp
  ultimately show ?case unfolding eq using grows_trans by (cases ok) auto
qed

definition fenced_first :: "cpu \<Rightarrow> cpu \<Rightarrow> bool" where
  "fenced_first s s' \<longleftrightarrow> (\<exists>es. trace s' = trace s @ Fence Full_fence # es)"

definition fenced_last :: "cpu \<Rightarrow> cpu \<Rightarrow> bool" where
  "fenced_last s s' \<longleftrightarrow> (\<exists>es. trace s' = trace s @ es @ [Fence Full_fence])"

lemma fenced_first_intro:
  "grows (arm_memory_barrier True s) s' \<Longrightarrow> fenced_first s s'"
  "grows (mips_memory_barrier True s) s' \<Longrightarrow> fenced_first s s'"
  by (auto simp: fenced_first_def grows_def barrier_defs)

lemma fenced_last_intro:
  "grows s s' \<Longrightarrow> fenced_last s (arm_memory_barrier True s')"
  "grows s s' \<Longrightarrow> fenced_last s (mips_memory_barrier True s')"
  by (auto simp: fenced_last_def grows_def barrier_defs)

lemma load_grows: "grows s (snd (load_word s))"
  by (cases "load_word s") (simp add: grows_access)

lemmas fence_intros = fenced_first_intro fenced_last_intro arm_llsc_loop_grows arm_cas_grows
  load_grows grows_access(4)

lemma fences_arm:
  "fenced_last s (snd (arm_acquire_load True s))" "fenced_first s (snd (arm_release_load True s))"
  "fenced_last s (arm_acquire_store True v s)" "fenced_first s (arm_release_store True v s)"
  "fenced_last s (snd (arm_acquire_cas True x y s))"
  "fenced_first s (snd (arm_release_cas True x y s))"
  "fenced_first s (snd (arm_add True v s))" "fenced_first s (snd (arm_and True v s))"
  "fenced_first s (snd (arm_or True v s))"
  by (simp_all add: arm_acquire_load_def arm_release_load_def arm_acquire_store_def
      arm_release_store_def arm_acquire_cas_def arm_release_cas_def arm_add_def arm_and_def
      arm_or_def case_prod_unfold Let_def fence_intros)

lemma fences_mips:
  "fenced_last s (snd (mips_acquire_load True s))" "fenced_first s (snd (mips_release_load True s))"
  "fenced_last s (mips_acquire_store True v s)" "fenced_first s (mips_release_store True v s)"
  "fenced_last s (snd (mips_acquire_cas True x y s))"
  "fenced_first s (snd (mips_release_cas True x y s))"
  "fenced_first s (snd (mips_add True v s))" "fenced_first s (snd (mips_and True v s))"
  "fenced_first s (snd (mips_or True v s))"
  by (simp_all add: mips_acquire_load_def mips_release_load_def mips_acquire_store_def
      mips_release_store_def mips_acquire_cas_def mips_release_cas_def mips_add_def mips_and_def
      mips_or_def case_prod_unfold Let_def mips_llsc_loop_eq mips_cas_eq fence_intros)

section \<open>Properties\<close>

text \<open>C9. Every read-modify-write of the three architectures is atomic whatever the other
  processors store meanwhile: it returns the value the cell holds after some foreign stores, and
  its own store of the sum, conjunction, disjunction or new value of that value comes directly
  after them, none in between.\<close>

theorem atomic_operations_atomic:
  "atomic_rmw (\<lambda>p. p + v) s (fst (android_atomic_add a smp v s)) (snd (android_atomic_add a smp v s)) \<and>
   atomic_rmw (\<lambda>p. p AND v) s (fst (android_atomic_and a smp v s)) (snd (android_atomic_and a smp v s)) \<and>
   atomic_rmw (\<lambda>p. p OR v) s (fst (android_atomic_or a smp v s)) (snd (android_atomic_or a smp v s)) \<and>
   atomic_rmw (\<lambda>p. p + 1) s (fst (android_atomic_inc a smp s)) (snd (android_atomic_inc a smp s)) \<and>
   atomic_rmw (\<lambda>p. p - 1) s (fst (android_atomic_dec a smp s)) (snd (android_atomic_dec a smp s)) \<and>
   atomic_rmw (\<lambda>p. v) s (fst (mips_swap smp v s)) (snd (mips_swap smp v s))"
  using fa.run_atomic fand.run_atomic for_or.run_atomic finc.run_atomic fdec.run_atomic
    fswap.run_atomic by simp

lemma cas_variants_arm:
  "atomic_cas x y s (fst (arm_acquire_cas smp x y s)) (snd (arm_acquire_cas smp x y s))"
  "atomic_cas x y s (fst (arm_release_cas smp x y s)) (snd (arm_release_cas smp x y s))"
  using cas_fence(1) [OF cas_law [of x y s ARM], of smp]
    atomic_cas_seen [OF fence_seen(1) cas_law [of x y _ ARM], of s smp]
  by (simp_all add: android_atomic_cas_def arm_acquire_cas_def arm_release_cas_def
      case_prod_unfold Let_def)

lemma cas_variants_mips:
  "atomic_cas x y s (fst (mips_acquire_cas smp x y s)) (snd (mips_acquire_cas smp x y s))"
  "atomic_cas x y s (fst (mips_release_cas smp x y s)) (snd (mips_release_cas smp x y s))"
  using cas_fence(2) [OF cas_law [of x y s MIPS], of smp]
    atomic_cas_seen [OF fence_seen(2) cas_law [of x y _ MIPS], of s smp]
  by (simp_all add: android_atomic_cas_def mips_acquire_cas_def mips_release_cas_def
      case_prod_unfold Let_def)

lemma cas_variants:
  "atomic_cas x y s (fst (android_atomic_acquire_cas a smp x y s))
     (snd (android_atomic_acquire_cas a smp x y s))"
  "atomic_cas x y s (fst (android_atomic_release_cas a smp x y s))
     (snd (android_atomic_release_cas a smp x y s))"
  using cas_variants_arm cas_variants_mips cas_law [of x y s X86]
  by (cases a; simp add: android_atomic_acquire_cas_def android_atomic_release_cas_def
      android_atomic_cas_def x86_acquire_cas_def x86_release_cas_def)+

text \<open>The compare-and-swap in its plain, acquire and release form returns 0 exactly when it
  stored the new value, in one step over the old value, and otherwise 1 without a store, having
  seen a different value in the cell.\<close>

theorem atomic_cas_correct:
  "atomic_cas x y s (fst (android_atomic_cas a x y s)) (snd (android_atomic_cas a x y s)) \<and>
   atomic_cas x y s (fst (android_atomic_acquire_cas a smp x y s))
     (snd (android_atomic_acquire_cas a smp x y s)) \<and>
   atomic_cas x y s (fst (android_atomic_release_cas a smp x y s))
     (snd (android_atomic_release_cas a smp x y s))"
  using cas_law cas_variants by blast

lemma plus1_funpow: "((\<lambda>p :: u32. p + 1) ^^ n) c = c + of_nat n"
  by (induction n) simp_all

text \<open>C25. Counting is exact: when this processor increments the cell \<open>n\<close> times and every store
  of the other processors is an increment as well, the cell ends at its start value plus the
  number of all stores modulo two to the 32, and \<open>n\<close> of them are its own: no increment is lost.\<close>

theorem atomic_inc_no_lost_update:
  assumes "stores (((\<lambda>s. snd (android_atomic_inc a smp s)) ^^ n) s) = stores s @ es"
    and "foreign_by (\<lambda>p. p + 1) (cell s) es"
  shows "cell (((\<lambda>s. snd (android_atomic_inc a smp s)) ^^ n) s) = cell s + of_nat (length es) \<and>
    length (filter (\<lambda>e. \<exists>v. e = Own v) es) = n"
proof -
  have eq: "((\<lambda>s. snd (android_atomic_inc a smp s)) ^^ n) s = finc.run_n a smp n s"
    by (simp add: finc.run_n_def comp_def)
  show ?thesis
    using finc.no_lost_update [of a smp n s es] assms unfolding eq plus1_funpow by blast
qed

lemma atomic_inc_no_lost_update_witness:
  "cell (((\<lambda>s. snd (android_atomic_inc ARM True s)) ^^ 2)
     \<lparr>cell = 0, linked = False, sched = [([], False), ([1], False)], trace = []\<rparr>) = 3"
  using atomic_inc_no_lost_update [where a = ARM and smp = True and n = 2 and
      s = "\<lparr>cell = 0, linked = False, sched = [([], False), ([1], False)], trace = []\<rparr>" and
      es = "[Foreign 1, Own 2, Own 3]"]
  by (simp add: numeral_2_eq_2 android_atomic_inc_def arm_inc_def arm_add_def barrier_defs
      arm_llsc_loop.simps instr_defs emit_def stores_def)

text \<open>C40. No operation retries more often than it is disturbed. On ARM and MIPS a loop reads the
  cell at most once more than the other processors disturb it while it runs, with stores to the
  cell or by the loss of the monitor; on x86 the rounds of and, or are at most one more than the
  foreign stores that come while they run, with two reads each. Undisturbed it is a single round.\<close>

theorem atomic_loops_bounded:
  "rounds_bounded a s (snd (android_atomic_add a smp v s)) \<and>
   rounds_bounded a s (snd (android_atomic_and a smp v s)) \<and>
   rounds_bounded a s (snd (android_atomic_or a smp v s)) \<and>
   rounds_bounded a s (snd (android_atomic_cas a x y s)) \<and>
   rounds_bounded MIPS s (snd (mips_swap smp v s))"
proof -
  have "rounds_bounded a s (snd (android_atomic_add a smp v s))"
    using arm_llsc_loop_loads [of "\<lambda>p. p + v" "arm_memory_barrier smp s"]
      arm_llsc_loop_loads [of "\<lambda>p. p + v" "mips_memory_barrier smp s"]
    by (cases a) (auto simp: loads_dispatch)
  moreover have "rounds_bounded a s (snd (android_atomic_and a smp v s))"
    using arm_llsc_loop_loads [of "\<lambda>p. p AND v" "arm_memory_barrier smp s"]
      arm_llsc_loop_loads [of "\<lambda>p. p AND v" "mips_memory_barrier smp s"] x86_cas_loop_loads [of "\<lambda>p. p AND v" s]
    by (cases a) (auto simp: loads_dispatch)
  moreover have "rounds_bounded a s (snd (android_atomic_or a smp v s))"
    using arm_llsc_loop_loads [of "\<lambda>p. p OR v" "arm_memory_barrier smp s"]
      arm_llsc_loop_loads [of "\<lambda>p. p OR v" "mips_memory_barrier smp s"] x86_cas_loop_loads [of "\<lambda>p. p OR v" s]
    by (cases a) (auto simp: loads_dispatch)
  moreover have "rounds_bounded a s (snd (android_atomic_cas a x y s))"
    using arm_cas_loads [of x y s] by (cases a) (auto simp: loads_dispatch)
  moreover have "rounds_bounded MIPS s (snd (mips_swap smp v s))"
    using mips_swap_loads [of smp v s] by (auto simp: rounds_bounded_def)
  ultimately show ?thesis by blast
qed

text \<open>Items of the schedule in which nothing happens cost no round; each broken link costs one.\<close>

lemma atomic_loops_bounded_example:
  "loads (snd (android_atomic_add ARM False 1 \<lparr>cell = 5, linked = False, sched = replicate 6 ([], False), trace = []\<rparr>)) = 1 \<and>
   loads (snd (android_atomic_add ARM False 1 \<lparr>cell = 5, linked = False, sched = [([], False), ([7], False)], trace = []\<rparr>)) = 2"
  by (simp add: android_atomic_add_def arm_add_def barrier_defs arm_llsc_loop.simps instr_defs emit_def loads_def numeral_eq_Suc)

text \<open>On multiprocessor builds for ARM and MIPS every release operation, and every add, and, or,
  begins with a full memory fence before its first access, and every acquire operation ends
  with one after its last.\<close>

theorem atomic_fence_placement:
  assumes "a \<noteq> X86"
  shows "fenced_last s (snd (android_atomic_acquire_load a True s)) \<and>
    fenced_first s (snd (android_atomic_release_load a True s)) \<and>
    fenced_last s (android_atomic_acquire_store a True v s) \<and>
    fenced_first s (android_atomic_release_store a True v s) \<and>
    fenced_last s (snd (android_atomic_acquire_cas a True x y s)) \<and>
    fenced_first s (snd (android_atomic_release_cas a True x y s)) \<and>
    fenced_first s (snd (android_atomic_add a True v s)) \<and>
    fenced_first s (snd (android_atomic_and a True v s)) \<and>
    fenced_first s (snd (android_atomic_or a True v s))"
  using assms fences_arm fences_mips
  by (cases a) (simp_all add: android_atomic_acquire_load_def android_atomic_release_load_def
      android_atomic_acquire_store_def android_atomic_release_store_def
      android_atomic_acquire_cas_def android_atomic_release_cas_def android_atomic_add_def
      android_atomic_and_def android_atomic_or_def)

lemma atomic_fence_placement_witness:
  "fenced_first \<lparr>cell = 5, linked = False, sched = [], trace = []\<rparr>
     (snd (android_atomic_add MIPS True 2 \<lparr>cell = 5, linked = False, sched = [], trace = []\<rparr>))"
  using atomic_fence_placement [of MIPS "\<lparr>cell = 5, linked = False, sched = [], trace = []\<rparr>" 2 0 0]
  by simp

end
