(* ===== verification/Iostat.thy ===== *)
theory Iostat
  imports Complex_Main Interfaces Stdio
begin

text \<open>
  The program iostat.c: choosing the devices, reading the kernel's counters, the deltas and
  rates of a report, the report lines and the main loop. The contents of /proc/cpuinfo,
  /proc/diskstats or /proc/partitions and /proc/stat are arguments, one pair of texts for each
  report. Counters are words of the width the code declares; a \<open>double\<close> is an exact rational
  number, positive infinity or not-a-number, so rounding is not modelled, division by zero is.
\<close>

section \<open>Data\<close>

type_synonym u64 = "64 word"

record part_info =
  pt_major :: u32
  pt_minor :: u32
  pt_name :: string

record blkio_info =
  rd_ios :: u32
  rd_merges :: u32
  rd_sectors :: u64
  rd_ticks :: u32
  wr_ios :: u32
  wr_merges :: u32
  wr_sectors :: u64
  wr_ticks :: u32
  io_ticks :: u32
  io_aveq :: u32

record cpu_info =
  cpu_user :: u64
  cpu_system :: u64
  cpu_idle :: u64
  cpu_iowait :: u64

definition MAX_PARTITIONS :: nat where
  "MAX_PARTITIONS = 64"

definition blkio_zero :: blkio_info where
  "blkio_zero = \<lparr>rd_ios = 0, rd_merges = 0, rd_sectors = 0, rd_ticks = 0, wr_ios = 0,
     wr_merges = 0, wr_sectors = 0, wr_ticks = 0, io_ticks = 0, io_aveq = 0\<rparr>"

definition cpu_zero :: cpu_info where
  "cpu_zero = \<lparr>cpu_user = 0, cpu_system = 0, cpu_idle = 0, cpu_iowait = 0\<rparr>"

record io_options =
  print_cpu :: bool
  print_disk_extended :: bool
  print_disk_util :: bool
  print_partition :: bool
  print_device :: bool

definition io_default_options :: io_options where
  "io_default_options = \<lparr>print_cpu = False, print_disk_extended = False,
     print_disk_util = False, print_partition = False, print_device = True\<rparr>"

record iostat =
  io_kernel :: nat
  io_ncpu :: u32
  io_opts :: io_options
  io_partition :: "part_info list"
  io_new :: "blkio_info list"
  io_old :: "blkio_info list"
  io_new_cpu :: cpu_info
  io_old_cpu :: cpu_info

text \<open>\<open>EXIT_SUCCESS\<close> and \<open>EXIT_FAILURE\<close> before the main loop; \<open>fgets\<close> buffers of 256.\<close>

datatype io_exit = Usage | Failure

definition io_lines :: "string \<Rightarrow> string list" where
  "io_lines = fgets_all 254"

section \<open>Processors and devices\<close>

definition get_number_of_cpus :: "string option \<Rightarrow> io_exit + u32" where
  "get_number_of_cpus cpuinfo = (case cpuinfo of None \<Rightarrow> Inl Failure
     | Some text \<Rightarrow>
        (let ncpu = fold (\<lambda>l n. if has_prefix (''processor'' @ [CHR 9, CHR '':'']) l then n + 1 else n)
             (io_lines text) (0 :: u32)
         in if ncpu = 0 then Inl Failure else Inr ncpu))"

text \<open>The major numbers of \<^verbatim>\<open>linux/major.h\<close>.\<close>

definition IDE_DISK_MAJOR :: "u32 \<Rightarrow> bool" where
  "IDE_DISK_MAJOR m \<longleftrightarrow> m \<in> {3, 22, 33, 34, 56, 57, 88, 89, 90, 91}"

definition SCSI_DISK_MAJOR :: "u32 \<Rightarrow> bool" where
  "SCSI_DISK_MAJOR m \<longleftrightarrow> m = 8 \<or> 65 \<le> m \<and> m \<le> 71 \<or> 128 \<le> m \<and> m \<le> 135"

definition printable :: "io_options \<Rightarrow> u32 \<Rightarrow> u32 \<Rightarrow> bool" where
  "printable opts major minor =
     (if IDE_DISK_MAJOR major then
        minor AND 63 = 0 \<and> print_device opts \<or> minor AND 63 \<noteq> 0 \<and> print_partition opts
      else if SCSI_DISK_MAJOR major then
        minor AND 15 = 0 \<and> print_device opts \<or> minor AND 15 \<noteq> 0 \<and> print_partition opts
      else True)"

text \<open>The two formats of \<^verbatim>\<open>initialize\<close>; any other kernel number is a logic error.\<close>

definition init_fmt :: "nat \<Rightarrow> directive list option" where
  "init_fmt kern =
     (if kern = 4 then Some [Conv (Dec (Some 4)), Ws, Conv (Dec (Some 4)), Ws, Skip (Dec None), Ws,
        Conv (Word (Some 31)), Ws, Conv Unsigned]
      else if kern = 6 then Some [Conv (Dec (Some 4)), Ws, Conv (Dec (Some 4)), Ws,
        Conv (Word (Some 31)), Ws, Conv Unsigned]
      else None)"

definition init_line :: "directive list \<Rightarrow> string \<Rightarrow> (part_info \<times> u32) option" where
  "init_line fmt l = (case sscanf fmt (c_str l) of
     [SInt ma, SInt mi, SStr n, SInt r] \<Rightarrow>
       Some (\<lparr>pt_major = word_of_int ma, pt_minor = word_of_int mi, pt_name = n\<rparr>, word_of_int r)
   | _ \<Rightarrow> None)"

definition same_device :: "part_info \<Rightarrow> part_info \<Rightarrow> bool" where
  "same_device a b \<longleftrightarrow> pt_major a = pt_major b \<and> pt_minor a = pt_minor b"

text \<open>
  One parsed line: the search for the device in the table, then the selection by name when
  devices were named, otherwise by \<open>reads\<close> and \<open>printable\<close>.
\<close>

definition init_add ::
  "io_options \<Rightarrow> string list \<Rightarrow> part_info \<times> u32 \<Rightarrow> part_info list \<Rightarrow> part_info list" where
  "init_add opts match_list cr table = (case cr of (cur, reads) \<Rightarrow>
     if (\<forall>q \<in> set table. \<not> same_device q cur) \<and> length table < MAX_PARTITIONS then
       (if match_list \<noteq> [] then
          (if \<exists>m \<in> set match_list. pt_name cur = m then table @ [cur] else table)
        else if reads \<noteq> 0 \<and> printable opts (pt_major cur) (pt_minor cur) then table @ [cur]
        else table)
     else table)"

definition initialize ::
  "nat \<Rightarrow> io_options \<Rightarrow> string list \<Rightarrow> string \<Rightarrow> io_exit + part_info list" where
  "initialize kern opts match_list diskstats = (case init_fmt kern of None \<Rightarrow> Inl Failure
     | Some fmt \<Rightarrow> Inr (fold (\<lambda>l table. case init_line fmt l of None \<Rightarrow> table
          | Some cr \<Rightarrow> init_add opts match_list cr table) (io_lines diskstats) []))"

section \<open>Reading the counters\<close>

definition stats_fmt :: "nat \<Rightarrow> directive list option" where
  "stats_fmt kern = (let common = [Conv Unsigned, Ws, Conv Unsigned, Ws, Conv Unsigned, Ws,
        Conv Unsigned, Ws, Conv Unsigned, Ws, Conv Unsigned, Ws, Conv Unsigned, Ws, Conv Unsigned, Ws,
        Skip Unsigned, Ws, Conv Unsigned, Ws, Conv Unsigned] in
     if kern = 4 then Some ([Conv (Dec (Some 4)), Ws, Conv (Dec (Some 4)), Ws, Skip (Dec None), Ws,
        Skip (Word None), Ws] @ common)
     else if kern = 6 then Some ([Conv (Dec (Some 4)), Ws, Conv (Dec (Some 4)), Ws,
        Skip (Word None), Ws] @ common)
     else None)"

text \<open>
  The items of a line: twelve fill the record, six are the four transfer counters of a
  partition of a 2.6 kernel, any other number is ignored.
\<close>

definition blkio_line :: "int list \<Rightarrow> (u32 \<times> u32 \<times> blkio_info) option" where
  "blkio_line vs =
     (if length vs = 6 then
        Some (word_of_int (vs ! 0), word_of_int (vs ! 1),
          blkio_zero\<lparr>rd_sectors := ucast (word_of_int (vs ! 3) :: u32),
            wr_sectors := ucast (word_of_int (vs ! 5) :: u32)\<rparr>)
      else if length vs = 12 then
        Some (word_of_int (vs ! 0), word_of_int (vs ! 1),
          \<lparr>rd_ios = word_of_int (vs ! 2), rd_merges = word_of_int (vs ! 3),
           rd_sectors = word_of_int (vs ! 4), rd_ticks = word_of_int (vs ! 5),
           wr_ios = word_of_int (vs ! 6), wr_merges = word_of_int (vs ! 7),
           wr_sectors = word_of_int (vs ! 8), wr_ticks = word_of_int (vs ! 9),
           io_ticks = word_of_int (vs ! 10), io_aveq = word_of_int (vs ! 11)\<rparr>)
      else None)"

text \<open>The loop that stores a record at the first entry of the table with its numbers.\<close>

fun blkio_store ::
  "part_info list \<Rightarrow> u32 \<Rightarrow> u32 \<Rightarrow> blkio_info \<Rightarrow> blkio_info list \<Rightarrow> blkio_info list" where
  "blkio_store (q # qs) ma mi b (n # ns) =
     (if pt_major q = ma \<and> pt_minor q = mi then b # ns else n # blkio_store qs ma mi b ns)"
| "blkio_store _ ma mi b ns = ns"

definition blkio_step ::
  "directive list \<Rightarrow> part_info list \<Rightarrow> string \<Rightarrow> blkio_info list \<Rightarrow> blkio_info list" where
  "blkio_step fmt table l ns = (case blkio_line (map sval_int (sscanf fmt (c_str l))) of None \<Rightarrow> ns
     | Some (ma, mi, b) \<Rightarrow> blkio_store table ma mi b ns)"

definition cpu_fmt :: "directive list" where
  "cpu_fmt = map Lit ''cpu'' @ [Ws, Conv Unsigned, Ws, Conv Unsigned, Ws, Conv Unsigned, Ws,
     Conv Unsigned, Ws, Conv Unsigned, Ws, Conv Unsigned, Ws, Conv Unsigned]"

text \<open>
  A line \<open>cpu ...\<close>: the variables the scan did not reach keep their values; \<open>nice0\<close> is what the
  uninitialised \<open>nice\<close> holds, added when the line has fewer than two numbers.
\<close>

definition cpu_line :: "u64 \<Rightarrow> int list \<Rightarrow> cpu_info \<Rightarrow> cpu_info" where
  "cpu_line nice0 vs c =
     (let n = length vs;
          item = (\<lambda>i old. if i < n then word_of_int (vs ! i) else old);
          user = item 0 (cpu_user c); nice = item 1 nice0;
          system = item 2 (cpu_system c); idle = item 3 (cpu_idle c);
          iowait = item 4 (cpu_iowait c); irq = item 5 0; softirq = item 6 0
      in \<lparr>cpu_user = user + nice,
          cpu_system = (if n = 7 then system + (irq + softirq) else system),
          cpu_idle = idle,
          cpu_iowait = (if n = 4 then 0 else iowait)\<rparr>)"

definition cpu_step :: "u64 \<Rightarrow> string \<Rightarrow> cpu_info \<Rightarrow> cpu_info" where
  "cpu_step nice0 l c =
     (if has_prefix ''cpu '' l then cpu_line nice0 (map sval_int (sscanf cpu_fmt (c_str l))) c else c)"

definition get_kernel_stats :: "u64 \<Rightarrow> string \<Rightarrow> string \<Rightarrow> iostat \<Rightarrow> io_exit + iostat" where
  "get_kernel_stats nice0 diskstats stat s = (case stats_fmt (io_kernel s) of None \<Rightarrow> Inl Failure
     | Some fmt \<Rightarrow> Inr (s\<lparr>io_new := fold (blkio_step fmt (io_partition s)) (io_lines diskstats) (io_new s),
         io_new_cpu := fold (cpu_step nice0) (io_lines stat) (io_new_cpu s)\<rparr>))"

section \<open>Rates\<close>

text \<open>The values of \<open>double\<close> expressions over counters: none of them is negative.\<close>

datatype fl = Fin rat | Inf | NaN

fun fl_div :: "fl \<Rightarrow> fl \<Rightarrow> fl" where
  "fl_div (Fin x) (Fin y) = (if y \<noteq> 0 then Fin (x / y) else if x = 0 then NaN else Inf)"
| "fl_div Inf (Fin y) = Inf"
| "fl_div (Fin x) Inf = Fin 0"
| "fl_div _ _ = NaN"

definition fl_gt :: "fl \<Rightarrow> rat \<Rightarrow> bool" where
  "fl_gt x y = (case x of Fin r \<Rightarrow> y < r | Inf \<Rightarrow> True | NaN \<Rightarrow> False)"

definition of_w :: "'a::len word \<Rightarrow> rat" where
  "of_w w = of_nat (unat w)"

definition blkio_delta :: "blkio_info \<Rightarrow> blkio_info \<Rightarrow> blkio_info" where
  "blkio_delta n ol = \<lparr>rd_ios = rd_ios n - rd_ios ol, rd_merges = rd_merges n - rd_merges ol,
     rd_sectors = rd_sectors n - rd_sectors ol, rd_ticks = rd_ticks n - rd_ticks ol,
     wr_ios = wr_ios n - wr_ios ol, wr_merges = wr_merges n - wr_merges ol,
     wr_sectors = wr_sectors n - wr_sectors ol, wr_ticks = wr_ticks n - wr_ticks ol,
     io_ticks = io_ticks n - io_ticks ol, io_aveq = io_aveq n - io_aveq ol\<rparr>"

definition cpu_delta :: "cpu_info \<Rightarrow> cpu_info \<Rightarrow> cpu_info" where
  "cpu_delta n ol = \<lparr>cpu_user = cpu_user n - cpu_user ol, cpu_system = cpu_system n - cpu_system ol,
     cpu_idle = cpu_idle n - cpu_idle ol, cpu_iowait = cpu_iowait n - cpu_iowait ol\<rparr>"

definition cpu_sum :: "cpu_info \<Rightarrow> u64" where
  "cpu_sum c = cpu_user c + cpu_system c + cpu_idle c + cpu_iowait c"

text \<open>The milliseconds between two samples; \<open>hz\<close> is the \<open>HZ\<close> of the system headers.\<close>

definition io_deltams :: "nat \<Rightarrow> iostat \<Rightarrow> fl" where
  "io_deltams hz s = fl_div (fl_div
     (Fin (1000 * of_w (cpu_sum (io_new_cpu s) - cpu_sum (io_old_cpu s))))
     (Fin (of_w (io_ncpu s)))) (Fin (of_nat hz))"

definition per_sec :: "fl \<Rightarrow> rat \<Rightarrow> fl" where
  "per_sec deltams x = fl_div (Fin (1000 * x)) deltams"

record io_rates =
  n_ios :: rat
  n_ticks :: rat
  n_kbytes :: rat
  busy :: fl
  svc_t :: fl
  wait_t :: fl
  req_size :: fl
  queue_len :: fl

text \<open>The sums in the counters' own types come first, so they wrap before the conversion.\<close>

definition partition_rates :: "fl \<Rightarrow> blkio_info \<Rightarrow> io_rates" where
  "partition_rates deltams b =
     (let ios = of_w (rd_ios b + wr_ios b);
          ticks = of_w (rd_ticks b + wr_ticks b);
          kbytes = of_w (rd_sectors b + wr_sectors b) / 2;
          per_io = (\<lambda>x. if ios \<noteq> 0 then Fin (x / ios) else Fin 0);
          util = fl_div (Fin (100 * of_w (io_ticks b))) deltams
      in \<lparr>n_ios = ios, n_ticks = ticks, n_kbytes = kbytes,
          busy = (if fl_gt util 100 then Fin 100 else util),
          svc_t = per_io (of_w (io_ticks b)), wait_t = per_io ticks, req_size = per_io kbytes,
          queue_len = fl_div (Fin (of_w (io_aveq b))) deltams\<rparr>)"

section \<open>The report\<close>

text \<open>
  Printed text, and printed numbers with the width and precision of their format; rounding to
  the printed digits is left to \<open>printf\<close>.
\<close>

datatype io_out = Txt string | Num nat nat fl

definition newline :: io_out where
  "newline = Txt [CHR 10]"

definition space_txt :: io_out where
  "space_txt = Txt '' ''"

definition print_cpu_stats :: "iostat \<Rightarrow> io_out list" where
  "print_cpu_stats s =
     (let cpu = cpu_delta (io_new_cpu s) (io_old_cpu s);
          total = Fin (of_w (cpu_sum cpu) / 100);
          pct = (\<lambda>x. Num 3 0 (fl_div (Fin (of_w x)) total))
      in [pct (cpu_user cpu), space_txt, pct (cpu_system cpu), space_txt] @
         (if io_kernel s = 6 then [pct (cpu_iowait cpu), space_txt] else []) @
         [pct (cpu_idle cpu)])"

definition half :: "fl \<Rightarrow> fl" where
  "half x = fl_div x (Fin 2)"

definition partition_out :: "fl \<Rightarrow> iostat \<Rightarrow> nat \<Rightarrow> io_out list" where
  "partition_out deltams s p =
     (let b = blkio_delta (io_new s ! p) (io_old s ! p); r = partition_rates deltams b in
      if print_disk_extended (io_opts s) then
        [Txt (pad_right 6 (pt_name (io_partition s ! p))), space_txt,
         Num 5 0 (per_sec deltams (of_w (rd_merges b))), space_txt,
         Num 5 0 (per_sec deltams (of_w (wr_merges b))), space_txt,
         Num 6 1 (per_sec deltams (of_w (rd_ios b))), space_txt,
         Num 6 1 (per_sec deltams (of_w (wr_ios b))), space_txt,
         Num 7 1 (half (per_sec deltams (of_w (rd_sectors b)))), space_txt,
         Num 7 1 (half (per_sec deltams (of_w (wr_sectors b)))), space_txt,
         Num 6 1 (req_size r), space_txt, Num 5 1 (queue_len r), space_txt,
         Num 6 1 (wait_t r), space_txt, Num 5 1 (svc_t r), space_txt, Num 3 0 (busy r), space_txt] @
        (if p = 0 \<and> print_cpu (io_opts s) then print_cpu_stats s else []) @ [newline]
      else if print_disk_util (io_opts s) then
        [Num 4 0 (per_sec deltams (of_w (rd_ios b))), space_txt,
         Num 4 0 (per_sec deltams (of_w (wr_ios b))), space_txt, Num 4 0 (busy r), Txt ''  '']
      else
        [Num 5 0 (per_sec deltams (n_kbytes r)), space_txt,
         Num 3 0 (per_sec deltams (n_ios r)), space_txt, Num 5 1 (svc_t r), space_txt])"

definition print_partition_stats :: "nat \<Rightarrow> iostat \<Rightarrow> io_out list" where
  "print_partition_stats hz s =
     concat (map (partition_out (io_deltams hz s) s) [0..<length (io_partition s)])"

definition print_header_lines :: "iostat \<Rightarrow> io_out list" where
  "print_header_lines s =
     (if print_disk_extended (io_opts s)
      then [Txt (pad_left 78 ''extended device statistics                       '')]
      else map (\<lambda>q. Txt (pad_left 9 (pt_name q) @ ''       '')) (io_partition s)) @
     (if print_cpu (io_opts s) then [Txt ''      cpu''] else []) @ [newline] @
     (if print_disk_extended (io_opts s)
      then [Txt ''device mgr/s mgw/s    r/s    w/s    kr/s    kw/s   size queue   wait svc_t  %b '']
      else map (\<lambda>q. if print_disk_util (io_opts s) then Txt '' r/s  w/s   %b  ''
                    else Txt ''  kps tps svc_t '') (io_partition s)) @
     (if print_cpu (io_opts s) then
        (if io_kernel s = 4 then [Txt '' us  sy  id'']
         else if io_kernel s = 6 then [Txt '' us  sy  wt  id''] else [])
      else []) @ [newline]"

text \<open>\<open>process\<close>: read, print, and keep the sample for the next report.\<close>

definition save_old :: "nat \<Rightarrow> blkio_info list \<Rightarrow> blkio_info list \<Rightarrow> blkio_info list" where
  "save_old n new old = take n new @ drop n old"

definition process ::
  "nat \<Rightarrow> u64 \<Rightarrow> nat \<Rightarrow> string \<times> string \<Rightarrow> iostat \<Rightarrow> io_exit + (io_out list \<times> iostat)" where
  "process hz nice0 lineno sample s = (case get_kernel_stats nice0 (fst sample) (snd sample) s of
       Inl e \<Rightarrow> Inl e
     | Inr s1 \<Rightarrow> Inr
         ((if lineno = 0 \<or> print_disk_extended (io_opts s1) then print_header_lines s1 else []) @
          print_partition_stats hz s1 @
          (if print_disk_extended (io_opts s1) then []
           else (if print_cpu (io_opts s1) then print_cpu_stats s1 else []) @ [newline]),
          s1\<lparr>io_old := save_old (length (io_partition s1)) (io_new s1) (io_old s1),
             io_old_cpu := io_new_cpu s1\<rparr>))"

section \<open>Main\<close>

fun main_option :: "char \<Rightarrow> io_options \<Rightarrow> io_options option" where
  "main_option c opts =
     (if c = CHR ''c'' then Some (opts\<lparr>print_cpu := True\<rparr>)
      else if c = CHR ''d'' then Some (opts\<lparr>print_disk_util := False\<rparr>)
      else if c = CHR ''D'' then Some (opts\<lparr>print_disk_util := True\<rparr>)
      else if c = CHR ''P'' then Some (opts\<lparr>print_device := False, print_partition := True\<rparr>)
      else if c = CHR ''p'' then Some (opts\<lparr>print_partition := True\<rparr>)
      else if c = CHR ''x'' then Some (opts\<lparr>print_disk_extended := True\<rparr>)
      else None)"

fun main_options :: "string \<Rightarrow> io_options \<Rightarrow> io_options option" where
  "main_options [] opts = Some opts"
| "main_options (c # cs) opts =
     (case main_option c opts of None \<Rightarrow> None | Some o1 \<Rightarrow> main_options cs o1)"

text \<open>The interval and the count after the device names; more operands are an error.\<close>

definition interval_count :: "string list \<Rightarrow> (int \<times> int) option" where
  "interval_count as = (case as of
       [] \<Rightarrow> Some (1, 0)
     | [i] \<Rightarrow> Some (atoi i, -1)
     | [i, c] \<Rightarrow> Some (atoi i, atoi c)
     | _ \<Rightarrow> None)"

definition is_device_arg :: "string \<Rightarrow> bool" where
  "is_device_arg a \<longleftrightarrow> \<not> (a \<noteq> [] \<and> is_digit (hd a))"

text \<open>
  The main loop on a stream of samples. The first argument bounds the number of rounds;
  \<open>None\<close> means that the loop is still running after them.
\<close>

fun main_loop :: "nat \<Rightarrow> nat \<Rightarrow> u64 \<Rightarrow> (nat \<Rightarrow> string \<times> string) \<Rightarrow> nat \<Rightarrow> nat \<Rightarrow> int \<Rightarrow> iostat \<Rightarrow>
    (io_exit + io_out list list) option" where
  "main_loop 0 hz nice0 samples k lineno cnt s = None"
| "main_loop (Suc fuel) hz nice0 samples k lineno cnt s =
     (case process hz nice0 lineno (samples k) s of
        Inl e \<Rightarrow> Some (Inl e)
      | Inr (out, s1) \<Rightarrow>
          (let cnt1 = (if cnt > 0 then cnt - 1 else cnt) in
           if cnt1 = 0 then Some (Inr [out])
           else (case main_loop fuel hz nice0 samples (Suc k) ((lineno + 1) mod 21) cnt1 s1 of
               Some (Inr outs) \<Rightarrow> Some (Inr (out # outs))
             | r \<Rightarrow> r)))"

text \<open>
  \<open>argv\<close> without the program name. \<open>diskstats\<close> and \<open>partitions\<close> tell what \<open>initialize\<close>
  finds, \<open>None\<close> for a file that cannot be opened; the reports read the same file again.
\<close>

definition iostat_main ::
  "nat \<Rightarrow> nat \<Rightarrow> u64 \<Rightarrow> string option \<Rightarrow> string option \<Rightarrow> string option \<Rightarrow> bool \<Rightarrow>
   (nat \<Rightarrow> string \<times> string) \<Rightarrow> string list \<Rightarrow> (io_exit + io_out list list) option" where
  "iostat_main fuel hz nice0 cpuinfo diskstats partitions stat_ok samples argv =
     (case get_number_of_cpus cpuinfo of Inl e \<Rightarrow> Some (Inl e)
      | Inr ncpu \<Rightarrow>
     (case (case diskstats of Some t \<Rightarrow> Some (6, t)
            | None \<Rightarrow> map_option (\<lambda>t. (4, t)) partitions) of None \<Rightarrow> Some (Inl Failure)
      | Some (kern, text) \<Rightarrow>
     if \<not> stat_ok then Some (Inl Failure)
     else (case getopt_scan argv of (opts, operands, used) \<Rightarrow>
     (case main_options opts io_default_options of None \<Rightarrow> Some (Inl Usage)
      | Some o1 \<Rightarrow>
     (let o2 = (if \<not> used then o1\<lparr>print_cpu := True\<rparr> else o1);
          devs = takeWhile is_device_arg operands in
      case initialize kern o2 devs text of Inl e \<Rightarrow> Some (Inl e)
      | Inr table \<Rightarrow>
     (case interval_count (dropWhile is_device_arg operands) of None \<Rightarrow> Some (Inl Usage)
      | Some (interval, cnt) \<Rightarrow>
        main_loop fuel hz nice0 samples 0 0 cnt
          \<lparr>io_kernel = kern, io_ncpu = ncpu, io_opts = o2, io_partition = table,
           io_new = replicate MAX_PARTITIONS blkio_zero, io_old = replicate MAX_PARTITIONS blkio_zero,
           io_new_cpu = cpu_zero, io_old_cpu = cpu_zero\<rparr>))))))"

section \<open>The table of devices\<close>

definition selected :: "io_options \<Rightarrow> string list \<Rightarrow> part_info \<times> u32 \<Rightarrow> bool" where
  "selected opts match_list cr =
     (if match_list \<noteq> [] then pt_name (fst cr) \<in> set match_list
      else snd cr \<noteq> 0 \<and> printable opts (pt_major (fst cr)) (pt_minor (fst cr)))"

fun keep_first :: "part_info list \<Rightarrow> part_info list" where
  "keep_first [] = []"
| "keep_first (x # xs) = x # filter (\<lambda>y. \<not> same_device x y) (keep_first xs)"

definition fresh_for :: "part_info list \<Rightarrow> part_info \<Rightarrow> bool" where
  "fresh_for table y \<longleftrightarrow> (\<forall>q \<in> set table. \<not> same_device q y)"

lemma init_add_eq:
  "init_add opts ml cr table =
     (if fresh_for table (fst cr) \<and> length table < 64 \<and> selected opts ml cr
      then table @ [fst cr] else table)"
  by (cases cr) (auto simp: init_add_def fresh_for_def selected_def MAX_PARTITIONS_def)

lemma fresh_for_snoc: "fresh_for (table @ [x]) y \<longleftrightarrow> fresh_for table y \<and> \<not> same_device x y"
  by (auto simp: fresh_for_def)

lemma same_device_trans: "same_device x y \<Longrightarrow> same_device q x = same_device q y"
  by (auto simp: same_device_def)

lemma filter_keep_first_old:
  assumes "\<not> fresh_for table x"
  shows "filter (\<lambda>y. \<not> same_device x y \<and> fresh_for table y) ys = filter (fresh_for table) ys"
proof -
  have "fresh_for table y \<Longrightarrow> \<not> same_device x y" for y
    using assms same_device_trans by (auto simp: fresh_for_def)
  then show ?thesis by (auto intro: filter_cong)
qed

lemma fold_init_add:
  "length table \<le> 64 \<Longrightarrow>
    fold (init_add opts ml) crs table =
      take 64 (table @ filter (fresh_for table) (keep_first (map fst (filter (selected opts ml) crs))))"
proof (induction crs arbitrary: table)
  case Nil
  then show ?case by simp
next
  case (Cons cr crs)
  define more where "more = keep_first (map fst (filter (selected opts ml) crs))"
  have IH: "length t \<le> 64 \<Longrightarrow> fold (init_add opts ml) crs t = take 64 (t @ filter (fresh_for t) more)" for t
    using Cons.IH [of t] by (simp add: more_def)
  consider "\<not> selected opts ml cr" | "selected opts ml cr" "\<not> fresh_for table (fst cr)"
    | "selected opts ml cr" "length table = 64"
    | "selected opts ml cr" "fresh_for table (fst cr)" "length table < 64"
    using Cons.prems by fastforce
  then show ?case
  proof cases
    case 1
    then show ?thesis using IH [of table] Cons.prems by (simp add: init_add_eq [of opts ml cr table] more_def)
  next
    case 2
    then show ?thesis
      using IH [of table] Cons.prems by (simp add: init_add_eq [of opts ml cr table] filter_keep_first_old flip: more_def)
  next
    case 3
    then show ?thesis using IH [of table] Cons.prems by (simp add: init_add_eq [of opts ml cr table])
  next
    case 4
    then have "fresh_for (table @ [fst cr]) = (\<lambda>y. \<not> same_device (fst cr) y \<and> fresh_for table y)"
      by (auto simp: fresh_for_snoc)
    then show ?thesis
      using 4 IH [of "table @ [fst cr]"] by (simp add: init_add_eq [of opts ml cr table] filter_filter conj_commute flip: more_def)
  qed
qed

definition parsed_lines :: "directive list \<Rightarrow> string \<Rightarrow> (part_info \<times> u32) list" where
  "parsed_lines fmt text = List.map_filter (init_line fmt) (io_lines text)"

lemma fold_option:
  "fold (\<lambda>l t. case f l of None \<Rightarrow> t | Some c \<Rightarrow> g c t) ls t0 = fold g (List.map_filter f ls) t0"
  by (induction ls arbitrary: t0) (auto simp: List.map_filter_simps split: option.split)

lemma initialize_eq:
  assumes "init_fmt kern = Some fmt"
  shows "initialize kern opts ml text = Inr (take 64
     (keep_first (map fst (filter (selected opts ml) (parsed_lines fmt text)))))"
  using assms fold_init_add [of "[]" opts ml "parsed_lines fmt text"]
  by (simp add: initialize_def fold_option parsed_lines_def fresh_for_def)

lemma keep_first_distinct: "sorted_wrt (\<lambda>a b. \<not> same_device a b) (keep_first xs)"
  by (induction xs) (auto simp: sorted_wrt_filter)

section \<open>Samples and reports\<close>

lemma get_kernel_stats_frame:
  assumes "get_kernel_stats nice0 d st s = Inr s1"
  shows "io_old s1 = io_old s" "io_old_cpu s1 = io_old_cpu s" "io_partition s1 = io_partition s"
    "io_kernel s1 = io_kernel s" "io_opts s1 = io_opts s" "length (io_new s1) = length (io_new s)"
proof -
  have store: "length (blkio_store t ma mi b ns) = length ns" for t ma mi b ns
    by (induction t ma mi b ns rule: blkio_store.induct) auto
  have "length (fold (blkio_step fmt t) ls ns) = length ns" for fmt t ls ns
    by (induction ls arbitrary: ns) (auto simp: blkio_step_def store split: option.split prod.split)
  then show "io_old s1 = io_old s" "io_old_cpu s1 = io_old_cpu s" "io_partition s1 = io_partition s"
    "io_kernel s1 = io_kernel s" "io_opts s1 = io_opts s" "length (io_new s1) = length (io_new s)"
    using assms by (auto simp: get_kernel_stats_def split: option.splits)
qed

lemma get_kernel_stats_total:
  "io_kernel s = 4 \<or> io_kernel s = 6 \<Longrightarrow> \<exists>s1. get_kernel_stats nice0 d st s = Inr s1"
  by (auto simp: get_kernel_stats_def stats_fmt_def Let_def)

lemma process_eq:
  assumes "get_kernel_stats nice0 (fst smp) (snd smp) s = Inr s1"
  shows "\<exists>out. process hz nice0 lineno smp s = Inr (out,
    s1\<lparr>io_old := save_old (length (io_partition s1)) (io_new s1) (io_old s1), io_old_cpu := io_new_cpu s1\<rparr>)"
  using assms by (simp add: process_def)

text \<open>The successive reports: the state each is printed from, with the sample read, and what is printed.\<close>

fun reports :: "nat \<Rightarrow> u64 \<Rightarrow> nat \<Rightarrow> (string \<times> string) list \<Rightarrow> iostat \<Rightarrow> (iostat \<times> io_out list) list" where
  "reports hz nice0 lineno [] s = []"
| "reports hz nice0 lineno (smp # smps) s =
     (case (get_kernel_stats nice0 (fst smp) (snd smp) s, process hz nice0 lineno smp s) of
        (Inr s1, Inr (out, s2)) \<Rightarrow> (s1, out) # reports hz nice0 ((lineno + 1) mod 21) smps s2
      | _ \<Rightarrow> [])"

definition io_state_ok :: "iostat \<Rightarrow> bool" where
  "io_state_ok s \<longleftrightarrow> (io_kernel s = 4 \<or> io_kernel s = 6) \<and> length (io_partition s) \<le> MAX_PARTITIONS \<and>
     length (io_new s) = MAX_PARTITIONS \<and> length (io_old s) = MAX_PARTITIONS \<and>
     sorted_wrt (\<lambda>a b. \<not> same_device a b) (io_partition s)"

lemma process_ok:
  assumes "io_state_ok s"
  shows "\<exists>s1 out s2. get_kernel_stats nice0 (fst smp) (snd smp) s = Inr s1 \<and>
    process hz nice0 lineno smp s = Inr (out, s2) \<and> io_state_ok s2 \<and>
    io_new s2 = io_new s1 \<and> io_partition s2 = io_partition s \<and> io_old s1 = io_old s \<and>
    (\<forall>p < length (io_partition s). io_old s2 ! p = io_new s1 ! p)"
proof -
  obtain s1 where s1: "get_kernel_stats nice0 (fst smp) (snd smp) s = Inr s1"
    using get_kernel_stats_total assms unfolding io_state_ok_def by blast
  note fr = get_kernel_stats_frame [OF s1]
  obtain out where out: "process hz nice0 lineno smp s = Inr (out, s1\<lparr>io_old :=
      save_old (length (io_partition s1)) (io_new s1) (io_old s1), io_old_cpu := io_new_cpu s1\<rparr>)"
    using process_eq [OF s1] by blast
  have "\<forall>p < length (io_partition s).
      save_old (length (io_partition s)) (io_new s1) (io_old s) ! p = io_new s1 ! p"
    using assms fr by (auto simp: save_old_def io_state_ok_def nth_append)
  then show ?thesis
    using s1 out fr assms by (auto simp: io_state_ok_def save_old_def)
qed

lemma main_loop_unfold:
  assumes "io_state_ok s"
  shows "\<exists>out s2. io_state_ok s2 \<and> main_loop (Suc fuel) hz nice0 samples k lineno cnt s =
    (let cnt1 = (if cnt > 0 then cnt - 1 else cnt) in
     if cnt1 = 0 then Some (Inr [out])
     else (case main_loop fuel hz nice0 samples (Suc k) ((lineno + 1) mod 21) cnt1 s2 of
         Some (Inr outs) \<Rightarrow> Some (Inr (out # outs)) | r \<Rightarrow> r))"
proof -
  obtain out s2 where "process hz nice0 lineno (samples k) s = Inr (out, s2)" "io_state_ok s2"
    using process_ok [OF assms, of nice0 "samples k" hz lineno] by blast
  then show ?thesis by (intro exI [of _ out] exI [of _ s2]) simp
qed

lemma main_loop_counts:
  "io_state_ok s \<Longrightarrow> nat cnt \<le> fuel \<Longrightarrow> 0 < cnt \<Longrightarrow>
    \<exists>outs. main_loop fuel hz nice0 samples k lineno cnt s = Some (Inr outs) \<and> length outs = nat cnt"
proof (induction fuel arbitrary: k lineno cnt s)
  case (Suc fuel)
  obtain out s2 where eq: "io_state_ok s2" "main_loop (Suc fuel) hz nice0 samples k lineno cnt s =
    (if cnt = 1 then Some (Inr [out])
     else (case main_loop fuel hz nice0 samples (Suc k) ((lineno + 1) mod 21) (cnt - 1) s2 of
         Some (Inr outs) \<Rightarrow> Some (Inr (out # outs)) | r \<Rightarrow> r))"
    using main_loop_unfold [OF Suc.prems(1), of fuel hz nice0 samples k lineno cnt] Suc.prems(3)
    by (auto simp: Let_def)
  show ?case
  proof (cases "cnt = 1")
    case False
    then have "nat (cnt - 1) \<le> fuel" "0 < cnt - 1" using Suc.prems by auto
    then obtain outs where "main_loop fuel hz nice0 samples (Suc k) ((lineno + 1) mod 21) (cnt - 1) s2 =
        Some (Inr outs)" "length outs = nat (cnt - 1)"
      using Suc.IH [OF eq(1)] by blast
    then show ?thesis using False Suc.prems(3) unfolding eq(2) by simp
  next
    case True
    then show ?thesis unfolding eq(2) by simp
  qed
qed simp

lemma main_loop_forever:
  "io_state_ok s \<Longrightarrow> cnt < 0 \<Longrightarrow> main_loop fuel hz nice0 samples k lineno cnt s = None"
proof (induction fuel arbitrary: k lineno s)
  case (Suc fuel)
  obtain out s2 where eq: "io_state_ok s2" "main_loop (Suc fuel) hz nice0 samples k lineno cnt s =
    (case main_loop fuel hz nice0 samples (Suc k) ((lineno + 1) mod 21) cnt s2 of
         Some (Inr outs) \<Rightarrow> Some (Inr (out # outs)) | r \<Rightarrow> r)"
    using main_loop_unfold [OF Suc.prems(1), of fuel hz nice0 samples k lineno cnt] Suc.prems(2)
    by (auto simp: Let_def)
  then show ?case using Suc.IH [OF eq(1) Suc.prems(2)] by simp
qed simp

section \<open>The numbers printed\<close>

definition shown_nums :: "io_out list \<Rightarrow> fl list" where
  "shown_nums out = List.map_filter (\<lambda>x. case x of Num w d v \<Rightarrow> Some v | Txt t \<Rightarrow> None) out"

text \<open>
  The position of the first number of device \<open>p\<close> in a report: eleven numbers a device in the extended
  display, where those of the processors follow the first device, else three.
\<close>

definition row_start :: "iostat \<Rightarrow> nat \<Rightarrow> nat" where
  "row_start s p =
     (if print_disk_extended (io_opts s)
      then 11 * p + (if 0 < p \<and> print_cpu (io_opts s) then (if io_kernel s = 6 then 4 else 3) else 0)
      else 3 * p)"

definition shown :: "iostat \<Rightarrow> nat \<Rightarrow> nat \<Rightarrow> io_out list \<Rightarrow> fl" where
  "shown s p j out = shown_nums out ! (row_start s p + j)"

lemma shown_nums_simps [simp]:
  "shown_nums [] = []" "shown_nums (Txt t # out) = shown_nums out" "shown_nums (Num w d v # out) = v # shown_nums out"
  by (simp_all add: shown_nums_def List.map_filter_simps)

lemma shown_nums_append [simp]: "shown_nums (xs @ ys) = shown_nums xs @ shown_nums ys"
  by (simp add: shown_nums_def map_filter_def)

lemma shown_nums_header: "shown_nums (print_header_lines s) = []"
proof -
  have "shown_nums (map (\<lambda>q. Txt (g q)) qs) = []" for g :: "part_info \<Rightarrow> string" and qs
    by (induction qs) simp_all
  then show ?thesis by (auto simp: print_header_lines_def newline_def if_distrib [of Txt, symmetric] cong: if_cong)
qed

lemma shown_nums_cpu: "length (shown_nums (print_cpu_stats s)) = (if io_kernel s = 6 then 4 else 3)"
  by (simp add: print_cpu_stats_def Let_def space_txt_def)

lemma shown_nums_row_length:
  "length (shown_nums (partition_out ms s p)) =
     (if print_disk_extended (io_opts s)
      then 11 + (if p = 0 \<and> print_cpu (io_opts s) then (if io_kernel s = 6 then 4 else 3) else 0)
      else 3)"
  by (simp add: partition_out_def Let_def space_txt_def newline_def shown_nums_cpu)

lemma shown_nums_rows:
  "length (shown_nums (concat (map (partition_out ms s) [0 ..< p]))) = row_start s p"
  by (induction p) (auto simp: shown_nums_row_length row_start_def)

lemma shown_process:
  assumes "get_kernel_stats nice0 (fst smp) (snd smp) s = Inr s1" "process hz nice0 lineno smp s = Inr (out, s2)"
    "p < length (io_partition s1)" "j < (if print_disk_extended (io_opts s1) then 11 else 3)"
  shows "shown s1 p j out = shown_nums (partition_out (io_deltams hz s1) s1 p) ! j"
proof -
  let ?n = "length (io_partition s1)" and ?g = "partition_out (io_deltams hz s1) s1"
  have split: "[0 ..< ?n] = [0 ..< p] @ p # [Suc p ..< ?n]"
    using assms(3) upt_add_eq_append [of 0 p "?n - p"] by (simp add: upt_conv_Cons)
  let ?rest = "concat (map ?g [Suc p ..< ?n]) @ (if print_disk_extended (io_opts s1) then []
      else (if print_cpu (io_opts s1) then print_cpu_stats s1 else []) @ [newline])"
  have "out = (if lineno = 0 \<or> print_disk_extended (io_opts s1) then print_header_lines s1 else []) @
      concat (map ?g [0 ..< p]) @ ?g p @ ?rest"
    using assms(1,2) by (simp add: process_def print_partition_stats_def split)
  then have "shown_nums out = shown_nums (concat (map ?g [0 ..< p])) @ shown_nums (?g p) @ shown_nums ?rest"
    by (simp only: shown_nums_append) (simp add: shown_nums_header)
  then have "shown s1 p j out = (shown_nums (?g p) @ shown_nums ?rest) ! j"
    unfolding shown_def using nth_append_length_plus [of "shown_nums (concat (map ?g [0 ..< p]))"]
    by (simp only: shown_nums_rows)
  moreover have "j < length (shown_nums (?g p))" using assms(4) by (auto simp: shown_nums_row_length split: if_splits)
  ultimately show ?thesis by (simp only: nth_append if_True)
qed

text \<open>A rate printed is an amount per second: what it stands for over the time of its report.\<close>

definition amount :: "fl \<Rightarrow> fl \<Rightarrow> rat" where
  "amount ms x = (case ms of Fin m \<Rightarrow> (case x of Fin r \<Rightarrow> r * m / 1000 | _ \<Rightarrow> 0) | _ \<Rightarrow> 0)"

definition total :: "nat \<Rightarrow> nat \<Rightarrow> nat \<Rightarrow> (iostat \<times> io_out list) list \<Rightarrow> rat" where
  "total hz p j rs = sum_list (map (\<lambda>(s1, out). amount (io_deltams hz s1) (shown s1 p j out)) rs)"

text \<open>A number of events whose count in a counter's width is the given one.\<close>

definition adds_up :: "rat \<Rightarrow> 'a::len word \<Rightarrow> bool" where
  "adds_up r w \<longleftrightarrow> (\<exists>n :: nat. r = of_nat n \<and> w = of_nat n)"

lemma amount_per_sec: "0 < m \<Longrightarrow> amount (Fin m) (per_sec (Fin m) x) = x"
  by (simp add: amount_def per_sec_def)

lemma amount_half: "0 < m \<Longrightarrow> 2 * amount (Fin m) (half (per_sec (Fin m) x)) = x"
  by (simp add: amount_def per_sec_def half_def)

lemma amount_queue: "0 < m \<Longrightarrow> 1000 * amount (Fin m) (queue_len (partition_rates (Fin m) b)) = of_w (io_aveq b)"
  by (simp add: amount_def partition_rates_def Let_def)

lemma adds_up_0: "adds_up 0 0"
  by (auto simp: adds_up_def intro: exI [of _ 0])

lemma adds_up_add: "adds_up r w \<Longrightarrow> adds_up (of_w v + r) (v + w)"
proof -
  assume "adds_up r w"
  then obtain n :: nat where "r = of_nat n" "w = of_nat n" by (auto simp: adds_up_def)
  then show ?thesis unfolding adds_up_def of_w_def by (intro exI [of _ "unat v + n"]) simp
qed

text \<open>The differences of a device in successive reports, for any combination of its counters.\<close>

definition io_diff :: "nat \<Rightarrow> iostat \<Rightarrow> blkio_info" where
  "io_diff p s1 = blkio_delta (io_new s1 ! p) (io_old s1 ! p)"

lemma reports_step:
  assumes "io_state_ok s"
  shows "\<exists>s1 out s2. reports hz nice0 lineno (smp # smps) s = (s1, out) # reports hz nice0 ((lineno + 1) mod 21) smps s2 \<and>
    get_kernel_stats nice0 (fst smp) (snd smp) s = Inr s1 \<and> process hz nice0 lineno smp s = Inr (out, s2) \<and>
    io_state_ok s2 \<and> io_partition s2 = io_partition s \<and> io_partition s1 = io_partition s \<and> io_opts s1 = io_opts s \<and>
    io_opts s2 = io_opts s \<and> io_old s1 = io_old s \<and> (\<forall>p < length (io_partition s). io_old s2 ! p = io_new s1 ! p)"
proof -
  obtain s1 out s2 where st: "get_kernel_stats nice0 (fst smp) (snd smp) s = Inr s1"
    "process hz nice0 lineno smp s = Inr (out, s2)" "io_state_ok s2" "io_partition s2 = io_partition s"
    "io_old s1 = io_old s" "\<forall>p < length (io_partition s). io_old s2 ! p = io_new s1 ! p"
    using process_ok [OF assms, of nice0 smp hz lineno] by auto
  moreover have "io_opts s2 = io_opts s1" using st(1,2) by (auto simp: process_def)
  ultimately show ?thesis using get_kernel_stats_frame [OF st(1)]
    by (intro exI [of _ s1] exI [of _ out] exI [of _ s2]) simp
qed

lemma diff_telescopes:
  fixes f :: "blkio_info \<Rightarrow> 'a::len word"
  assumes delta: "\<And>a b. f (blkio_delta a b) = f a - f b"
  shows "io_state_ok s \<Longrightarrow> p < length (io_partition s) \<Longrightarrow> smps \<noteq> [] \<Longrightarrow>
    rs = reports hz nice0 lineno smps s \<Longrightarrow>
    adds_up (sum_list (map (\<lambda>(s1, out). of_w (f (io_diff p s1))) rs)) (f (io_new (fst (last rs)) ! p) - f (io_old s ! p))"
proof (induction smps arbitrary: s lineno rs)
  case (Cons smp smps)
  obtain s1 out s2 where st: "reports hz nice0 lineno (smp # smps) s = (s1, out) # reports hz nice0 ((lineno + 1) mod 21) smps s2"
    "io_state_ok s2" "io_partition s2 = io_partition s" "io_old s1 = io_old s" "io_old s2 ! p = io_new s1 ! p"
    using reports_step [OF Cons.prems(1), of hz nice0 lineno smp smps] Cons.prems(2) by blast
  have d: "f (io_diff p s1) = f (io_new s1 ! p) - f (io_old s ! p)" by (simp add: io_diff_def delta st(4))
  define rs2 where "rs2 = reports hz nice0 ((lineno + 1) mod 21) smps s2"
  have rs: "rs = (s1, out) # rs2" using Cons.prems(4) st(1) by (simp only: rs2_def)
  show ?case
  proof (cases "smps = []")
    case True
    then have "rs2 = []" by (simp add: rs2_def)
    then show ?thesis using rs d adds_up_add [OF adds_up_0, of "f (io_diff p s1)"] by simp
  next
    case False
    then obtain smp' smps' where "smps = smp' # smps'" by (cases smps) auto
    then have ne: "rs2 \<noteq> []" using reports_step [OF st(2), of hz nice0 "(lineno + 1) mod 21" smp' smps'] by (auto simp: rs2_def)
    have "adds_up (sum_list (map (\<lambda>(s1, out). of_w (f (io_diff p s1))) rs2)) (f (io_new (fst (last rs2)) ! p) - f (io_old s2 ! p))"
      using Cons.IH [OF st(2) _ False rs2_def] st(3) Cons.prems(2) by simp
    from adds_up_add [OF this, of "f (io_diff p s1)"] show ?thesis using ne by (simp add: rs d st(5))
  qed
qed simp

lemma reports_shown:
  "io_state_ok s \<Longrightarrow> p < length (io_partition s) \<Longrightarrow> (s1, out) \<in> set (reports hz nice0 lineno smps s) \<Longrightarrow>
     io_opts s1 = io_opts s \<and>
     (\<forall>j < (if print_disk_extended (io_opts s) then 11 else 3). shown s1 p j out = shown_nums (partition_out (io_deltams hz s1) s1 p) ! j)"
proof (induction smps arbitrary: s lineno)
  case (Cons smp smps)
  obtain u o1 s2 where st: "reports hz nice0 lineno (smp # smps) s = (u, o1) # reports hz nice0 ((lineno + 1) mod 21) smps s2"
    "get_kernel_stats nice0 (fst smp) (snd smp) s = Inr u" "process hz nice0 lineno smp s = Inr (o1, s2)"
    "io_state_ok s2" "io_partition s2 = io_partition s" "io_partition u = io_partition s" "io_opts u = io_opts s" "io_opts s2 = io_opts s"
    using reports_step [OF Cons.prems(1), of hz nice0 lineno smp smps] by blast
  show ?case
  proof (cases "(s1, out) = (u, o1)")
    case True
    then show ?thesis using shown_process [OF st(2,3)] st(6,7) Cons.prems(2) by simp
  next
    case False
    then have "(s1, out) \<in> set (reports hz nice0 ((lineno + 1) mod 21) smps s2)" using Cons.prems(3) unfolding st(1) by auto
    from Cons.IH [OF st(4) _ this] Cons.prems(2) show ?thesis by (simp add: st(5,8))
  qed
qed simp

text \<open>A column that shows a combination of counters adds up to the change of the combination.\<close>

lemma column_adds_up:
  fixes f :: "blkio_info \<Rightarrow> 'a::len word"
  assumes ok: "io_state_ok s" "p < length (io_partition s)" "smps \<noteq> []"
    and rs: "rs = reports hz nice0 lineno smps s" "\<forall>(s1, out) \<in> set rs. \<exists>m > 0. io_deltams hz s1 = Fin m"
    and j: "j < (if print_disk_extended (io_opts s) then 11 else 3)"
    and delta: "\<And>a b. f (blkio_delta a b) = f a - f b"
    and col: "\<And>s1 m. io_opts s1 = io_opts s \<Longrightarrow> 0 < m \<Longrightarrow>
      c * amount (Fin m) (shown_nums (partition_out (Fin m) s1 p) ! j) = of_w (f (io_diff p s1))"
  shows "adds_up (c * total hz p j rs) (f (io_new (fst (last rs)) ! p) - f (io_old s ! p))"
proof -
  have "c * amount (io_deltams hz s1) (shown s1 p j out) = of_w (f (io_diff p s1))" if mem: "(s1, out) \<in> set rs" for s1 out
  proof -
    obtain m where m: "0 < m" "io_deltams hz s1 = Fin m" using bspec [OF rs(2) mem] by auto
    have "io_opts s1 = io_opts s" "shown s1 p j out = shown_nums (partition_out (Fin m) s1 p) ! j"
      using reports_shown [OF ok(1,2), of s1 out] mem rs(1) j m(2) by auto
    then show ?thesis using col m by simp
  qed
  then have "c * total hz p j rs = sum_list (map (\<lambda>(s1, out). of_w (f (io_diff p s1))) rs)"
    unfolding total_def sum_list_const_mult [symmetric]
    by (intro arg_cong [where f = sum_list] map_cong) auto
  then show ?thesis using diff_telescopes [OF delta ok rs(1)] by simp
qed

section \<open>Properties\<close>

text \<open>The device table holds, in the order of the file, the first line of every device that
  was selected (by its name when devices are named, else by having reads and being printable),
  each device number once and at most 64 of them.\<close>

theorem iostat_device_table:
  assumes "init_fmt kern = Some fmt"
  shows "initialize kern opts ml text = Inr (take 64
     (keep_first (map fst (filter (selected opts ml) (parsed_lines fmt text))))) \<and>
   sorted_wrt (\<lambda>a b. \<not> same_device a b) (take 64
     (keep_first (map fst (filter (selected opts ml) (parsed_lines fmt text)))))"
  using initialize_eq [OF assms] keep_first_distinct by (simp add: sorted_wrt_take)

lemma iostat_device_table_witness:
  "initialize 6 io_default_options [] (''8 0 sda 5'' @ [CHR 10] @ ''8 1 sda1 7'' @ [CHR 10] @ ''8 0 sda 9'') =
     Inr [\<lparr>pt_major = 8, pt_minor = 0, pt_name = ''sda''\<rparr>]"
proof -
  have "init_fmt 6 = Some (the (init_fmt 6))" by (simp add: init_fmt_def)
  note * = iostat_device_table [OF this, of io_default_options "[]"
      "''8 0 sda 5'' @ [CHR 10] @ ''8 1 sda1 7'' @ [CHR 10] @ ''8 0 sda 9''"]
  have "take 64 (keep_first (map fst (filter (selected io_default_options [])
      (parsed_lines (the (init_fmt 6)) (''8 0 sda 5'' @ [CHR 10] @ ''8 1 sda1 7'' @ [CHR 10] @ ''8 0 sda 9''))))) =
    [\<lparr>pt_major = 8, pt_minor = 0, pt_name = ''sda''\<rparr>]"
    by code_simp
  then show ?thesis using * by simp
qed

lemma main_loop_reports:
  "io_state_ok s \<Longrightarrow> 0 < n \<Longrightarrow> main_loop n hz nice0 samples k lineno (int n) s =
     Some (Inr (map snd (reports hz nice0 lineno (map samples [k ..< k + n]) s)))"
proof (induction n arbitrary: k lineno s)
  case (Suc n)
  have u: "map samples [k ..< k + Suc n] = samples k # map samples [Suc k ..< Suc k + n]" by (simp add: upt_conv_Cons del: upt_Suc)
  obtain s1 out s2 where st: "reports hz nice0 lineno (samples k # map samples [Suc k ..< Suc k + n]) s =
      (s1, out) # reports hz nice0 ((lineno + 1) mod 21) (map samples [Suc k ..< Suc k + n]) s2"
    "process hz nice0 lineno (samples k) s = Inr (out, s2)" "io_state_ok s2"
    using reports_step [OF Suc.prems(1), of hz nice0 lineno "samples k"] by blast
  show ?case
  proof (cases "n = 0")
    case True
    then show ?thesis unfolding u st(1) using st(2) by simp
  next
    case False
    then show ?thesis unfolding u st(1) using st(2) Suc.IH [OF st(3), of "Suc k" "(lineno + 1) mod 21"] by (simp add: Let_def)
  qed
qed simp

lemmas column_simps = partition_out_def Let_def space_txt_def io_diff_def amount_per_sec amount_half amount_queue

text \<open>C10. What the main loop prints of a device accounts for its activity. When time passes between the
  samples, the rates printed in successive reports, multiplied with the time of their report, add up,
  modulo the width of each counter, to the counters of the last sample minus those before the first, in
  each of the three displays and whatever is printed of the processors: nothing is shown twice or lost.
  The averages of the extended display are, in each report, the time and size counters of the same
  differences divided by the number of requests.\<close>

theorem iostat_reports_telescope:
  assumes "io_state_ok s" "p < length (io_partition s)" "0 < n" "rs = reports hz nice0 0 (map samples [0 ..< n]) s"
    and "\<forall>(s1, out) \<in> set rs. \<exists>m > 0. io_deltams hz s1 = Fin m"
    and "a = io_old s ! p" "b = io_new (fst (last rs)) ! p"
  shows "main_loop n hz nice0 samples 0 0 (int n) s = Some (Inr (map snd rs)) \<and>
    (print_disk_extended (io_opts s) \<longrightarrow>
       adds_up (total hz p 0 rs) (rd_merges b - rd_merges a) \<and> adds_up (total hz p 1 rs) (wr_merges b - wr_merges a) \<and>
       adds_up (total hz p 2 rs) (rd_ios b - rd_ios a) \<and> adds_up (total hz p 3 rs) (wr_ios b - wr_ios a) \<and>
       adds_up (2 * total hz p 4 rs) (rd_sectors b - rd_sectors a) \<and> adds_up (2 * total hz p 5 rs) (wr_sectors b - wr_sectors a) \<and>
       adds_up (1000 * total hz p 7 rs) (io_aveq b - io_aveq a) \<and>
       (\<forall>(s1, out) \<in> set rs. let d = io_diff p s1; ios = of_w (rd_ios d + wr_ios d) in ios \<noteq> 0 \<longrightarrow>
          shown s1 p 6 out = Fin (of_w (rd_sectors d + wr_sectors d) / 2 / ios) \<and>
          shown s1 p 8 out = Fin (of_w (rd_ticks d + wr_ticks d) / ios) \<and> shown s1 p 9 out = Fin (of_w (io_ticks d) / ios))) \<and>
    (\<not> print_disk_extended (io_opts s) \<and> print_disk_util (io_opts s) \<longrightarrow>
       adds_up (total hz p 0 rs) (rd_ios b - rd_ios a) \<and> adds_up (total hz p 1 rs) (wr_ios b - wr_ios a)) \<and>
    (\<not> print_disk_extended (io_opts s) \<and> \<not> print_disk_util (io_opts s) \<longrightarrow>
       adds_up (2 * total hz p 0 rs) ((rd_sectors b + wr_sectors b) - (rd_sectors a + wr_sectors a)) \<and>
       adds_up (total hz p 1 rs) ((rd_ios b + wr_ios b) - (rd_ios a + wr_ios a)))"
proof (intro conjI impI)
  show "main_loop n hz nice0 samples 0 0 (int n) s = Some (Inr (map snd rs))"
    using main_loop_reports [OF assms(1,3), of hz nice0 samples 0 0] by (simp add: assms(4))
  have ne: "map samples [0 ..< n] \<noteq> []" using assms(3) by simp
  note column = column_adds_up [OF assms(1,2) ne assms(4,5), folded assms(6,7)]
  show "adds_up (total hz p 0 rs) (rd_merges b - rd_merges a)" if e: "print_disk_extended (io_opts s)"
    using column [where j = 0 and f = "rd_merges" and c = 1] e by (simp add: column_simps) (simp add: blkio_delta_def)
  show "adds_up (total hz p 1 rs) (wr_merges b - wr_merges a)" if e: "print_disk_extended (io_opts s)"
    using column [where j = 1 and f = "wr_merges" and c = 1] e by (simp add: column_simps) (simp add: blkio_delta_def)
  show "adds_up (total hz p 2 rs) (rd_ios b - rd_ios a)" if e: "print_disk_extended (io_opts s)"
    using column [where j = 2 and f = "rd_ios" and c = 1] e by (simp add: column_simps) (simp add: blkio_delta_def)
  show "adds_up (total hz p 3 rs) (wr_ios b - wr_ios a)" if e: "print_disk_extended (io_opts s)"
    using column [where j = 3 and f = "wr_ios" and c = 1] e by (simp add: column_simps) (simp add: blkio_delta_def)
  show "adds_up (2 * total hz p 4 rs) (rd_sectors b - rd_sectors a)" if e: "print_disk_extended (io_opts s)"
    using column [where j = 4 and f = "rd_sectors" and c = 2] e by (simp add: column_simps) (simp add: blkio_delta_def)
  show "adds_up (2 * total hz p 5 rs) (wr_sectors b - wr_sectors a)" if e: "print_disk_extended (io_opts s)"
    using column [where j = 5 and f = "wr_sectors" and c = 2] e by (simp add: column_simps) (simp add: blkio_delta_def)
  show "adds_up (1000 * total hz p 7 rs) (io_aveq b - io_aveq a)" if e: "print_disk_extended (io_opts s)"
    using column [where j = 7 and f = "io_aveq" and c = 1000] e by (simp add: column_simps) (simp add: blkio_delta_def)
  show "\<forall>(s1, out) \<in> set rs. let d = io_diff p s1; ios = of_w (rd_ios d + wr_ios d) in ios \<noteq> 0 \<longrightarrow>
      shown s1 p 6 out = Fin (of_w (rd_sectors d + wr_sectors d) / 2 / ios) \<and>
      shown s1 p 8 out = Fin (of_w (rd_ticks d + wr_ticks d) / ios) \<and> shown s1 p 9 out = Fin (of_w (io_ticks d) / ios)"
    if e: "print_disk_extended (io_opts s)"
  proof (clarify)
    fix s1 out
    assume "(s1, out) \<in> set rs"
    then have "io_opts s1 = io_opts s"
      "\<forall>j < 11. shown s1 p j out = shown_nums (partition_out (io_deltams hz s1) s1 p) ! j"
      using reports_shown [OF assms(1,2), of s1 out hz nice0 0] e unfolding assms(4) by auto
    then show "let d = io_diff p s1; ios = of_w (rd_ios d + wr_ios d) in ios \<noteq> 0 \<longrightarrow>
      shown s1 p 6 out = Fin (of_w (rd_sectors d + wr_sectors d) / 2 / ios) \<and>
      shown s1 p 8 out = Fin (of_w (rd_ticks d + wr_ticks d) / ios) \<and> shown s1 p 9 out = Fin (of_w (io_ticks d) / ios)"
      using e by (simp add: column_simps partition_rates_def)
  qed
  show "adds_up (total hz p 0 rs) (rd_ios b - rd_ios a)" if e: "\<not> print_disk_extended (io_opts s) \<and> print_disk_util (io_opts s)"
    using column [where j = 0 and f = "rd_ios" and c = 1] e by (simp add: column_simps) (simp add: blkio_delta_def)
  show "adds_up (total hz p 1 rs) (wr_ios b - wr_ios a)" if e: "\<not> print_disk_extended (io_opts s) \<and> print_disk_util (io_opts s)"
    using column [where j = 1 and f = "wr_ios" and c = 1] e by (simp add: column_simps) (simp add: blkio_delta_def)
  show "adds_up (2 * total hz p 0 rs) ((rd_sectors b + wr_sectors b) - (rd_sectors a + wr_sectors a))" if e: "\<not> print_disk_extended (io_opts s) \<and> \<not> print_disk_util (io_opts s)"
    using column [where j = 0 and f = "\<lambda>x. rd_sectors x + wr_sectors x" and c = 2] e
    by (simp add: column_simps partition_rates_def amount_per_sec) (simp add: blkio_delta_def)
  show "adds_up (total hz p 1 rs) ((rd_ios b + wr_ios b) - (rd_ios a + wr_ios a))" if e: "\<not> print_disk_extended (io_opts s) \<and> \<not> print_disk_util (io_opts s)"
    using column [where j = 1 and f = "\<lambda>x. rd_ios x + wr_ios x" and c = 1] e
    by (simp add: column_simps partition_rates_def amount_per_sec) (simp add: blkio_delta_def)
qed

definition io_sample_state :: iostat where
  "io_sample_state = \<lparr>io_kernel = 6, io_ncpu = 1, io_opts = io_default_options,
     io_partition = [\<lparr>pt_major = 8, pt_minor = 0, pt_name = ''sda''\<rparr>],
     io_new = replicate MAX_PARTITIONS blkio_zero, io_old = replicate MAX_PARTITIONS blkio_zero,
     io_new_cpu = cpu_zero, io_old_cpu = cpu_zero\<rparr>"

lemma io_sample_state_ok: "io_state_ok io_sample_state"
  by (simp add: io_state_ok_def io_sample_state_def MAX_PARTITIONS_def)

definition io_demo_samples :: "nat \<Rightarrow> string \<times> string" where
  "io_demo_samples k = (''8 0 sda 5 0 40 3 2 1 16 4 0 6 7'',
     if k = 0 then ''cpu 100 0 0 0'' else ''cpu 250 0 0 0'')"

lemma io_demo_times:
  "map (\<lambda>(s1, out). io_deltams 100 s1) (reports 100 0 0 (map io_demo_samples [0 ..< 2]) io_sample_state) = [Fin 1000, Fin 1500]"
  by code_simp

lemma iostat_reports_telescope_witness:
  "\<exists>rs. main_loop 2 100 0 io_demo_samples 0 0 2 io_sample_state = Some (Inr (map snd rs)) \<and> length rs = 2 \<and>
     adds_up (total 100 0 1 rs) (rd_ios (io_new (fst (last rs)) ! 0) + wr_ios (io_new (fst (last rs)) ! 0))"
proof -
  define rs where "rs = reports 100 0 0 (map io_demo_samples [0 ..< 2]) io_sample_state"
  have t: "map (\<lambda>(s1, out). io_deltams 100 s1) rs = [Fin 1000, Fin 1500]" unfolding rs_def by (rule io_demo_times)
  then have "\<forall>(s1, out) \<in> set rs. \<exists>m > 0. io_deltams 100 s1 = Fin m"
    by (auto simp: map_eq_Cons_conv)
  moreover have "length rs = 2" using arg_cong [OF t, of length] by simp
  moreover have "(0 :: nat) < length (io_partition io_sample_state)" by (simp add: io_sample_state_def)
  ultimately show ?thesis
    using iostat_reports_telescope [OF io_sample_state_ok _ _ rs_def _ refl refl, of 0]
    by (intro exI [of _ rs]) (simp add: io_sample_state_def io_default_options_def MAX_PARTITIONS_def blkio_zero_def)
qed

text \<open>The number of reports: with a positive count the main loop ends after exactly that many,
  with count 0 (no operand after the devices, or a count that is not a number) after one, and
  with a negative count (an interval alone) it never ends.\<close>

theorem iostat_number_of_reports:
  assumes "io_state_ok s"
  shows "(0 < cnt \<longrightarrow> nat cnt \<le> fuel \<longrightarrow>
      (\<exists>outs. main_loop fuel hz nice0 samples k lineno cnt s = Some (Inr outs) \<and> length outs = nat cnt)) \<and>
    (\<exists>out. main_loop (Suc fuel) hz nice0 samples k lineno 0 s = Some (Inr [out])) \<and>
    (cnt < 0 \<longrightarrow> main_loop fuel hz nice0 samples k lineno cnt s = None)"
  using main_loop_counts [OF assms] main_loop_forever [OF assms]
    main_loop_unfold [OF assms, of fuel hz nice0 samples k lineno 0] by (auto simp: Let_def)

lemma iostat_number_of_reports_witness:
  "\<exists>outs. main_loop 5 100 0 (\<lambda>_. ([], [])) 0 0 3 io_sample_state = Some (Inr outs) \<and> length outs = 3"
  using iostat_number_of_reports [OF io_sample_state_ok, of 3 5 100 0 "\<lambda>_. ([], [])" 0 0] by simp

text \<open>
  The line the 2.6 kernel writes for a disk: numbers in the widths of its format, the name, and
  eleven counters.
\<close>

definition diskstats_line :: "nat \<Rightarrow> nat \<Rightarrow> string \<Rightarrow> nat list \<Rightarrow> string" where
  "diskstats_line ma mi name fs = pad_left 4 (dec_digits ma) @ CHR '' '' # pad_left 7 (dec_digits mi) @
     CHR '' '' # name @ concat (map (\<lambda>f. CHR '' '' # dec_digits f) fs) @ [CHR 10]"

lemma convert_skips_space: "convert (Dec w) (pad_left k s @ r) = convert (Dec w) (s @ r)"
  by (simp add: pad_left_def dropWhile_append)

lemma scan_field:
  assumes "n < 2 ^ 64" "r \<noteq> []" "hd r = CHR '' '' \<or> hd r = CHR 10"
  shows "sscanf (Ws # Conv Unsigned # f) (CHR '' '' # dec_digits n @ r) = SInt (int n) # sscanf f r"
    and "sscanf (Ws # Skip Unsigned # f) (CHR '' '' # dec_digits n @ r) = sscanf f r"
  using scan_nat_field [of r n f] assms by (simp_all add: field_end_def del: sscanf.simps)

lemma dec_digits_no_null: "CHR 0x00 \<notin> set (dec_digits n)"
  using dec_digits_all_digits [of "CHR 0x00" n] by (auto simp: is_digit_def)

lemma diskstats_line_c_str:
  "CHR 0x00 \<notin> set name \<Longrightarrow> c_str (diskstats_line ma mi name fs) = diskstats_line ma mi name fs"
  by (rule c_str_no_null) (auto simp: diskstats_line_def pad_left_def dec_digits_no_null)

lemma scan_device_number:
  assumes "n < 10000" "r \<noteq> []" "hd r = CHR '' ''"
  shows "sscanf (Conv (Dec (Some 4)) # f) (pad_left k (dec_digits n) @ r) = SInt (int n) # sscanf f r"
proof -
  have "convert (Dec (Some 4)) (dec_digits n @ r) = Some (SInt (int n), r)"
    using assms dec_digits_length_4 [of n] by (intro convert_dec_width) auto
  then show ?thesis using convert_skips_space by (simp del: convert.simps)
qed

lemma scan_skip_name:
  assumes "x \<noteq> []" "\<forall>c \<in> set x. \<not> is_space c" "r \<noteq> []" "hd r = CHR '' ''"
  shows "sscanf (Ws # Skip (Word None) # f) (CHR '' '' # x @ r) = sscanf f r"
proof -
  have "dropWhile is_space (x @ r) = x @ r"
    using assms(1,2) by (simp add: dropWhile_eq_self_iff hd_append)
  moreover have "convert (Word None) (x @ r) = Some (SStr x, r)"
    using assms by (intro convert_word) auto
  ultimately show ?thesis by (simp del: convert.simps)
qed

lemma scan_skip_space: "sscanf (Ws # f) (CHR '' '' # r) = sscanf (Ws # f) r"
  by simp

lemma scan_second_number:
  assumes "n < 10000" "r \<noteq> []" "hd r = CHR '' ''"
  shows "sscanf (Ws # Conv (Dec (Some 4)) # f) (CHR '' '' # pad_left k (dec_digits n) @ r) =
    SInt (int n) # sscanf f r"
proof -
  have "dropWhile is_space (pad_left k (dec_digits n) @ r) = dec_digits n @ r"
    by (simp add: pad_left_def drop_spaces drop_space_digits)
  then show ?thesis
    using scan_device_number [OF assms, of f 0] by (simp add: pad_left_def del: convert.simps)
qed

lemmas kernel_line_scan = scan_device_number scan_second_number scan_skip_name scan_field

text \<open>A disk line of a 2.6 kernel is read back field by field: device numbers below 10000 and
  any counters give the record of the counters modulo the width of each variable, with the
  number of requests in flight skipped.\<close>

theorem iostat_reads_kernel_line:
  assumes "ma < 10000" "mi < 10000" "name \<noteq> []" "\<forall>c \<in> set name. \<not> is_space c \<and> c \<noteq> CHR 0x00"
    and "length fs = 11" "\<forall>f \<in> set fs. f < 2 ^ 64"
  shows "blkio_line (map sval_int (sscanf (the (stats_fmt 6)) (c_str (diskstats_line ma mi name fs)))) =
    Some (of_nat ma, of_nat mi,
      \<lparr>rd_ios = of_nat (fs ! 0), rd_merges = of_nat (fs ! 1), rd_sectors = of_nat (fs ! 2),
       rd_ticks = of_nat (fs ! 3), wr_ios = of_nat (fs ! 4), wr_merges = of_nat (fs ! 5),
       wr_sectors = of_nat (fs ! 6), wr_ticks = of_nat (fs ! 7), io_ticks = of_nat (fs ! 9),
       io_aveq = of_nat (fs ! 10)\<rparr>)"
proof -
  obtain f0 f1 f2 f3 f4 f5 f6 f7 f8 f9 f10 where fs: "fs = [f0, f1, f2, f3, f4, f5, f6, f7, f8, f9, f10]"
    using assms(5) by (auto simp: numeral_eq_Suc length_Suc_conv)
  have scan: "sscanf (the (stats_fmt 6)) (diskstats_line ma mi name fs) =
      map (SInt \<circ> int) [ma, mi, f0, f1, f2, f3, f4, f5, f6, f7, f9, f10]"
  proof -
    have b: "f0 < 2 ^ 64" "f1 < 2 ^ 64" "f2 < 2 ^ 64" "f3 < 2 ^ 64" "f4 < 2 ^ 64" "f5 < 2 ^ 64" "f6 < 2 ^ 64"
      "f7 < 2 ^ 64" "f8 < 2 ^ 64" "f9 < 2 ^ 64" "f10 < 2 ^ 64"
      using assms(6) unfolding fs by simp_all
    have n: "\<forall>c \<in> set name. \<not> is_space c" using assms(4) by blast
    show ?thesis
      unfolding fs stats_fmt_def diskstats_line_def
      by (simp add: scan_device_number [OF assms(1)] scan_second_number [OF assms(2)]
          scan_skip_name [OF assms(3) n] scan_field [OF b(1)] scan_field [OF b(2)] scan_field [OF b(3)]
          scan_field [OF b(4)] scan_field [OF b(5)] scan_field [OF b(6)] scan_field [OF b(7)]
          scan_field [OF b(8)] scan_field [OF b(9)] scan_field [OF b(10)] scan_field [OF b(11)]
          del: sscanf.simps(2-) convert.simps)
  qed
  have c: "c_str (diskstats_line ma mi name fs) = diskstats_line ma mi name fs"
    using assms(4) by (intro diskstats_line_c_str) auto
  show ?thesis
    unfolding c scan unfolding fs by (simp add: blkio_line_def)
qed

lemma iostat_reads_kernel_line_witness:
  "blkio_line (map sval_int (sscanf (the (stats_fmt 6))
     (c_str (diskstats_line 8 0 ''sda'' [5, 0, 40, 3, 2, 1, 16, 4, 0, 6, 7])))) =
   Some (8, 0, \<lparr>rd_ios = 5, rd_merges = 0, rd_sectors = 40, rd_ticks = 3, wr_ios = 2, wr_merges = 1,
     wr_sectors = 16, wr_ticks = 4, io_ticks = 6, io_aveq = 7\<rparr>)"
  using iostat_reads_kernel_line [of 8 0 "''sda''" "[5, 0, 40, 3, 2, 1, 16, 4, 0, 6, 7]"]
  by (simp add: is_space_def)

text \<open>A minor number of five digits is cut by the width of \<open>%4d\<close>, and the line is ignored.\<close>

lemma iostat_drops_large_minor:
  "blkio_line (map sval_int (sscanf (the (stats_fmt 6))
     ''259 10000 nvme 5 0 40 3 2 1 16 4 0 6 7'')) = None"
  by code_simp

lemma of_w_nonneg: "0 \<le> of_w w"
  unfolding of_w_def by (rule of_nat_0_le_iff)

lemma of_w_0: "of_w w = 0 \<longleftrightarrow> w = 0"
  unfolding of_w_def by (simp only: of_nat_eq_0_iff unat_eq_0)

text \<open>The utilisation of a device is a percentage: when time has passed between the samples
  it is the share of busy milliseconds, cut at 100; when none has, it is 100 for a device
  with busy time and not a number for an idle one.\<close>

theorem iostat_utilisation:
  assumes "io_ncpu s \<noteq> 0" "0 < hz"
    and "dt = of_w (cpu_sum (io_new_cpu s) - cpu_sum (io_old_cpu s))"
    and "ms = 1000 * dt / of_w (io_ncpu s) / of_nat hz"
  shows "io_deltams hz s = Fin ms \<and> 0 \<le> ms \<and>
    (0 < ms \<longrightarrow> busy (partition_rates (io_deltams hz s) b) =
       Fin (min 100 (100 * of_w (io_ticks b) / ms))) \<and>
    (ms = 0 \<longrightarrow> busy (partition_rates (io_deltams hz s) b) =
       (if io_ticks b = 0 then NaN else Fin 100))"
proof -
  have pos: "of_w (io_ncpu s) \<noteq> 0" "0 \<le> of_w (io_ncpu s)"
    by (simp_all add: of_w_0 of_w_nonneg assms(1))
  then have d: "io_deltams hz s = Fin ms"
    using assms(2) by (simp add: io_deltams_def assms(3,4))
  have "0 \<le> ms"
    unfolding assms(3,4)
    by (intro divide_nonneg_nonneg mult_nonneg_nonneg of_w_nonneg of_nat_0_le_iff) simp
  moreover have "of_w (io_ticks b) = 0 \<longleftrightarrow> io_ticks b = 0"
    by (rule of_w_0)
  ultimately show ?thesis
    unfolding d by (simp add: partition_rates_def Let_def fl_gt_def min_def)
qed

lemma iostat_utilisation_witness:
  "busy (partition_rates (io_deltams 100 (io_sample_state\<lparr>io_new_cpu := cpu_zero\<lparr>cpu_idle := 100\<rparr>\<rparr>))
     (blkio_zero\<lparr>io_ticks := 250\<rparr>)) = Fin 25"
proof -
  let ?s = "io_sample_state\<lparr>io_new_cpu := cpu_zero\<lparr>cpu_idle := 100\<rparr>\<rparr>"
  have "io_ncpu ?s \<noteq> 0" "(100 :: rat) = of_w (cpu_sum (io_new_cpu ?s) - cpu_sum (io_old_cpu ?s))"
    "(1000 :: rat) = 1000 * 100 / of_w (io_ncpu ?s) / of_nat 100"
    by (simp_all add: io_sample_state_def cpu_sum_def cpu_zero_def of_w_def)
  then have "busy (partition_rates (io_deltams 100 ?s) (blkio_zero\<lparr>io_ticks := 250\<rparr>)) =
      Fin (min 100 (100 * of_w (250 :: u32) / 1000))"
    using iostat_utilisation [of ?s 100 100 1000 "blkio_zero\<lparr>io_ticks := 250\<rparr>"] by auto
  then show ?thesis by (simp add: of_w_def)
qed

end
