(* ===== verification/TopExt.thy ===== *)
theory TopExt
  imports Stdio
begin

text \<open>
  The process viewer top_ext.c: the pool of process records, reading /proc into a growing
  array, the differences to the previous sample, sorting, the printed table, and the command
  line. What the system provides is an argument: the files and directories of a sample, the
  answers of \<open>malloc\<close>, \<open>realloc\<close>, \<open>sched_getscheduler\<close>, \<open>getpwuid\<close> and \<open>qsort\<close>, and the
  contents of memory the program never initialised.
\<close>

section \<open>Data\<close>

type_synonym ulong = "64 word"

record top_cpu_info =
  c_utime :: ulong
  c_ntime :: ulong
  c_stime :: ulong
  c_itime :: ulong
  c_iowtime :: ulong
  c_irqtime :: ulong
  c_sirqtime :: ulong

text \<open>Character arrays are the strings they hold; \<open>pid_t\<close>, \<open>uid_t\<close>, \<open>int\<close> and \<open>long\<close> are integers.\<close>

record proc_info =
  p_pid :: int
  p_tid :: int
  p_uid :: int
  p_gid :: int
  p_name :: string
  p_tname :: string
  p_state :: char
  p_utime :: ulong
  p_stime :: ulong
  p_delta_utime :: ulong
  p_delta_stime :: ulong
  p_delta_time :: ulong
  p_vss :: int
  p_rss :: int
  p_cpu :: int
  p_prs :: int
  p_num_threads :: int
  p_policy :: string

datatype sort_column = Cpu | Vss | Rss | Thr

record top_config =
  max_procs :: int
  delay :: int
  iterations :: int
  proc_cmp_col :: sort_column
  threads :: bool
  def_pids :: "int list"
  is_show_files :: bool
  is_show_stack :: bool

definition INIT_PROCS :: nat where
  "INIT_PROCS = 50"

definition THREAD_MULT :: nat where
  "THREAD_MULT = 8"

text \<open>
  A record is owned by one array entry or by the free list, so the arrays and the list hold the
  records themselves; \<open>None\<close> is a null entry.
\<close>

record top =
  old_procs :: "proc_info option list"
  new_procs :: "proc_info option list"
  free_procs :: "proc_info list"
  num_used_procs :: int
  num_free_procs :: int
  mallocs :: nat
  top_old_cpu :: top_cpu_info
  top_new_cpu :: top_cpu_info

text \<open>The system: a sample of /proc, and what stays the same over the run.\<close>

record proc_fs =
  fs_file :: "string \<Rightarrow> string option"
  fs_dir :: "string \<Rightarrow> string list option"
  fs_link :: "string \<Rightarrow> string option"
  fs_sched :: "int \<Rightarrow> int"

record top_env =
  e_malloc :: "nat \<Rightarrow> proc_info option"
  e_realloc :: "nat \<Rightarrow> bool"
  e_stack :: proc_info
  e_buf :: string
  e_uid :: int
  e_gid :: int
  e_pagesize :: int
  e_passwd :: "int \<Rightarrow> string option"
  e_qsort :: "(proc_info option \<Rightarrow> proc_info option \<Rightarrow> int) \<Rightarrow> proc_info option list \<Rightarrow> proc_info option list"

section \<open>The pool of records\<close>

text \<open>\<open>None\<close> is \<open>die\<close>, the end of the program with a failure status.\<close>

definition alloc_proc :: "top_env \<Rightarrow> top \<Rightarrow> (proc_info \<times> top) option" where
  "alloc_proc e s = (case free_procs s of
       p # ps \<Rightarrow> Some (p, s\<lparr>free_procs := ps, num_free_procs := num_free_procs s - 1,
         num_used_procs := num_used_procs s + 1\<rparr>)
     | [] \<Rightarrow> (case e_malloc e (mallocs s) of None \<Rightarrow> None
         | Some p \<Rightarrow> Some (p, s\<lparr>mallocs := mallocs s + 1, num_used_procs := num_used_procs s + 1\<rparr>)))"

definition free_proc :: "proc_info \<Rightarrow> top \<Rightarrow> top" where
  "free_proc p s = s\<lparr>free_procs := p # free_procs s, num_used_procs := num_used_procs s - 1,
     num_free_procs := num_free_procs s + 1\<rparr>"

definition free_old_procs :: "top \<Rightarrow> top" where
  "free_old_procs s = (fold (\<lambda>q t. case q of None \<Rightarrow> t | Some p \<Rightarrow> free_proc p t) (old_procs s) s)
     \<lparr>old_procs := []\<rparr>"

definition add_proc :: "top_env \<Rightarrow> nat \<Rightarrow> proc_info \<Rightarrow> top \<Rightarrow> top option" where
  "add_proc e proc_num p s =
     (if length (new_procs s) \<le> proc_num then
        (if e_realloc e (2 * length (new_procs s))
         then Some (s\<lparr>new_procs := (new_procs s @ replicate (length (new_procs s)) None)[proc_num := Some p]\<rparr>)
         else None)
      else Some (s\<lparr>new_procs := (new_procs s)[proc_num := Some p]\<rparr>))"

section \<open>Reading one process\<close>

text \<open>
  The line is split at the first opening and the last closing parenthesis, both overwritten by
  null characters.
\<close>

definition first_index :: "char \<Rightarrow> string \<Rightarrow> nat" where
  "first_index c s = length (takeWhile (\<lambda>x. x \<noteq> c) s)"

definition last_index :: "char \<Rightarrow> string \<Rightarrow> nat" where
  "last_index c s = length s - 1 - length (takeWhile (\<lambda>x. x \<noteq> c) (rev s))"

definition stat_fmt :: "directive list" where
  "stat_fmt = [Ws, Conv Chr] @ concat (replicate 10 [Ws, Skip (Dec None)]) @
     [Ws, Conv Unsigned, Ws, Conv Unsigned] @ concat (replicate 7 [Ws, Skip (Dec None)]) @
     [Ws, Conv Unsigned, Ws, Conv (Dec None)] @ concat (replicate 14 [Ws, Skip (Dec None)]) @
     [Ws, Conv (Dec None), Ws, Conv (Dec None)]"

definition stat_assign :: "sval list \<Rightarrow> proc_info \<Rightarrow> proc_info" where
  "stat_assign vs p = (let n = length vs in
     p\<lparr>p_state := (if 0 < n then hd (sval_str (vs ! 0)) else p_state p),
       p_utime := (if 1 < n then word_of_int (sval_int (vs ! 1)) else p_utime p),
       p_stime := (if 2 < n then word_of_int (sval_int (vs ! 2)) else p_stime p),
       p_vss := (if 3 < n then to_s64 (sval_int (vs ! 3)) else p_vss p),
       p_rss := (if 4 < n then to_s64 (sval_int (vs ! 4)) else p_rss p),
       p_cpu := (if 5 < n then to_s32 (sval_int (vs ! 5)) else p_cpu p),
       p_prs := (if 6 < n then to_s32 (sval_int (vs ! 6)) else p_prs p)\<rparr>)"

definition read_stat :: "top_env \<Rightarrow> proc_fs \<Rightarrow> string \<Rightarrow> proc_info \<Rightarrow> proc_info" where
  "read_stat e fs filename p = (case fs_file fs filename of None \<Rightarrow> p
     | Some text \<Rightarrow>
        (let buf = c_str (case fgets 256 text of None \<Rightarrow> e_buf e | Some (l, _) \<Rightarrow> l) in
         if CHR 0x28 \<notin> set buf \<or> CHR 0x29 \<notin> set buf then p
         else (let open_paren = first_index (CHR 0x28) buf; close_paren = last_index (CHR 0x29) buf;
                 z = buf[open_paren := CHR 0x00, close_paren := CHR 0x00] in
               stat_assign (sscanf stat_fmt (c_str (drop (close_paren + 1) z)))
                 (p\<lparr>p_tname := take 31 (c_str (drop (open_paren + 1) z))\<rparr>))))"

definition read_cmdline :: "proc_fs \<Rightarrow> string \<Rightarrow> proc_info \<Rightarrow> proc_info" where
  "read_cmdline fs filename p = (case fs_file fs filename of None \<Rightarrow> p
     | Some text \<Rightarrow>
        (let line = c_str (case fgets 256 text of None \<Rightarrow> [] | Some (l, _) \<Rightarrow> l) in
         p\<lparr>p_name := (if line \<noteq> [] then take 63 line else [])\<rparr>))"

datatype sched_policy = SP_DEFAULT | SP_BACKGROUND | SP_FOREGROUND | SP_SYSTEM | SP_AUDIO_APP
  | SP_AUDIO_SYS | SP_CNT

definition get_sched_policy :: "proc_fs \<Rightarrow> int \<Rightarrow> sched_policy option" where
  "get_sched_policy fs tid = (let rc = fs_sched fs tid in
     if rc < 0 then None else if rc = 0 then Some SP_FOREGROUND
     else if rc = 3 then Some SP_BACKGROUND else None)"

definition sched_default :: "sched_policy \<Rightarrow> sched_policy" where
  "sched_default p = (if p = SP_DEFAULT then SP_FOREGROUND else p)"

definition get_sched_policy_name :: "sched_policy \<Rightarrow> string" where
  "get_sched_policy_name policy = (case sched_default policy of
     SP_BACKGROUND \<Rightarrow> ''bg'' | SP_FOREGROUND \<Rightarrow> ''fg'' | SP_SYSTEM \<Rightarrow> ''  ''
   | SP_AUDIO_APP \<Rightarrow> ''aa'' | SP_AUDIO_SYS \<Rightarrow> ''as'' | _ \<Rightarrow> ''error'')"

definition read_policy :: "proc_fs \<Rightarrow> int \<Rightarrow> proc_info \<Rightarrow> proc_info" where
  "read_policy fs pid p = (case get_sched_policy fs pid of
       None \<Rightarrow> p\<lparr>p_policy := ''unk''\<rparr>
     | Some q \<Rightarrow> p\<lparr>p_policy := take 2 (get_sched_policy_name q)\<rparr>)"

text \<open>The loop over the lines of a status file; the two variables start uninitialised.\<close>

definition status_scan :: "string \<Rightarrow> string \<Rightarrow> int \<Rightarrow> int" where
  "status_scan key l v = (case sscanf (map Lit key @ [Ws, Conv Unsigned]) (c_str l) of
     [SInt i] \<Rightarrow> to_u32 i | _ \<Rightarrow> v)"

definition read_status :: "top_env \<Rightarrow> proc_fs \<Rightarrow> string \<Rightarrow> proc_info \<Rightarrow> proc_info" where
  "read_status e fs filename p = (case fs_file fs filename of None \<Rightarrow> p
     | Some text \<Rightarrow>
        (case fold (\<lambda>l (uid, gid). (status_scan ''Uid:'' l uid, status_scan ''Gid:'' l gid))
           (fgets_all 254 text) (e_uid e, e_gid e)
         of (uid, gid) \<Rightarrow> p\<lparr>p_uid := uid, p_gid := gid\<rparr>))"

section \<open>Reading all processes\<close>

definition proc_file :: "int \<Rightarrow> string \<Rightarrow> string" where
  "proc_file pid name = ''/proc/'' @ dec_int pid @ name"

definition task_file :: "int \<Rightarrow> int \<Rightarrow> string \<Rightarrow> string" where
  "task_file pid tid name = ''/proc/'' @ dec_int pid @ ''/task/'' @ dec_int tid @ name"

definition is_number_name :: "string \<Rightarrow> bool" where
  "is_number_name n \<longleftrightarrow> n \<noteq> [] \<and> is_digit (hd n)"

text \<open>One entry of a task directory in thread mode, after the values read for its process.\<close>

definition read_thread ::
  "top_env \<Rightarrow> proc_fs \<Rightarrow> int \<Rightarrow> proc_info \<Rightarrow> string \<Rightarrow> nat \<times> top \<Rightarrow> (nat \<times> top) option" where
  "read_thread e fs pid cur d ns = (case ns of (proc_num, s) \<Rightarrow>
     if \<not> is_number_name d then Some (proc_num, s)
     else (let tid = atoi d in case alloc_proc e s of None \<Rightarrow> None
       | Some (p0, s1) \<Rightarrow>
          (let p1 = read_policy fs tid (read_stat e fs (task_file pid tid ''/stat'')
                 (p0\<lparr>p_pid := pid, p_tid := tid\<rparr>));
               p2 = p1\<lparr>p_name := p_name cur, p_uid := p_uid cur, p_gid := p_gid cur\<rparr> in
           map_option (\<lambda>t. (proc_num + 1, t)) (add_proc e proc_num p2 s1))))"

definition read_process ::
  "top_env \<Rightarrow> proc_fs \<Rightarrow> int \<Rightarrow> nat \<times> top \<Rightarrow> (nat \<times> top) option" where
  "read_process e fs pid ns = (case ns of (proc_num, s) \<Rightarrow> case alloc_proc e s of None \<Rightarrow> None
     | Some (p0, s1) \<Rightarrow>
        (let p1 = read_stat e fs (proc_file pid ''/stat'') (p0\<lparr>p_pid := pid, p_tid := pid\<rparr>);
             p2 = read_status e fs (proc_file pid ''/status'')
               (read_cmdline fs (proc_file pid ''/cmdline'') p1);
             p3 = (read_policy fs pid p2)\<lparr>p_num_threads := 0\<rparr> in
         case fs_dir fs (proc_file pid ''/task'') of None \<Rightarrow> Some (proc_num, s1)
         | Some ts \<Rightarrow> map_option (\<lambda>t. (proc_num + 1, t)) (add_proc e proc_num
              (p3\<lparr>p_num_threads := to_s32 (int (length (filter is_number_name ts)))\<rparr>) s1)))"

definition read_entry ::
  "top_env \<Rightarrow> top_config \<Rightarrow> proc_fs \<Rightarrow> string \<Rightarrow> nat \<times> top \<Rightarrow> (nat \<times> top) option" where
  "read_entry e cfg fs d ns =
     (if \<not> is_number_name d then Some ns
      else (let pid = atoi d in
        if def_pids cfg \<noteq> [] \<and> pid \<notin> set (def_pids cfg) then Some ns
        else if \<not> threads cfg then read_process e fs pid ns
        else (let cur = read_status e fs (proc_file pid ''/status'')
                (read_cmdline fs (proc_file pid ''/cmdline'') (e_stack e)) in
              case fs_dir fs (proc_file pid ''/task'') of None \<Rightarrow> Some ns
              | Some ts \<Rightarrow> fold_opt (read_thread e fs pid cur) ts ns)))"

definition top_cpu_fmt :: "directive list" where
  "top_cpu_fmt = map Lit ''cpu'' @ concat (replicate 7 [Ws, Conv Unsigned])"

definition read_cpu :: "string \<Rightarrow> top_cpu_info \<Rightarrow> top_cpu_info" where
  "read_cpu text c =
     (let vs = sscanf top_cpu_fmt text;
          item = (\<lambda>i old. if i < length vs then word_of_int (sval_int (vs ! i)) else old)
      in \<lparr>c_utime = item 0 (c_utime c), c_ntime = item 1 (c_ntime c), c_stime = item 2 (c_stime c),
          c_itime = item 3 (c_itime c), c_iowtime = item 4 (c_iowtime c),
          c_irqtime = item 5 (c_irqtime c), c_sirqtime = item 6 (c_sirqtime c)\<rparr>)"

definition read_procs :: "top_env \<Rightarrow> top_config \<Rightarrow> proc_fs \<Rightarrow> top \<Rightarrow> top option" where
  "read_procs e cfg fs s = (case fs_dir fs ''/proc'' of None \<Rightarrow> None
     | Some ds \<Rightarrow> case fs_file fs ''/proc/stat'' of None \<Rightarrow> None
     | Some text \<Rightarrow>
        (let s1 = s\<lparr>new_procs := replicate (INIT_PROCS * (if threads cfg then THREAD_MULT else 1)) None,
               top_new_cpu := read_cpu text (top_new_cpu s)\<rparr> in
         case fold_opt (read_entry e cfg fs) ds (0, s1) of None \<Rightarrow> None
         | Some (proc_num, s2) \<Rightarrow> Some (s2\<lparr>new_procs := take proc_num (new_procs s2) @
              replicate (length (new_procs s2) - proc_num) None\<rparr>)))"

section \<open>The table\<close>

definition numcmp :: "int \<Rightarrow> int \<Rightarrow> int" where
  "numcmp a b = (if a < b then -1 else if b < a then 1 else 0)"

text \<open>The four comparison functions; a null entry comes after every record.\<close>

fun proc_cpu_cmp :: "proc_info option \<Rightarrow> proc_info option \<Rightarrow> int" where
  "proc_cpu_cmp None None = 0"
| "proc_cpu_cmp None (Some pb) = 1"
| "proc_cpu_cmp (Some pa) None = -1"
| "proc_cpu_cmp (Some pa) (Some pb) = - numcmp (sint (p_delta_time pa)) (sint (p_delta_time pb))"

fun proc_vss_cmp :: "proc_info option \<Rightarrow> proc_info option \<Rightarrow> int" where
  "proc_vss_cmp None None = 0"
| "proc_vss_cmp None (Some pb) = 1"
| "proc_vss_cmp (Some pa) None = -1"
| "proc_vss_cmp (Some pa) (Some pb) = - numcmp (p_vss pa) (p_vss pb)"

fun proc_rss_cmp :: "proc_info option \<Rightarrow> proc_info option \<Rightarrow> int" where
  "proc_rss_cmp None None = 0"
| "proc_rss_cmp None (Some pb) = 1"
| "proc_rss_cmp (Some pa) None = -1"
| "proc_rss_cmp (Some pa) (Some pb) = - numcmp (p_rss pa) (p_rss pb)"

fun proc_thr_cmp :: "proc_info option \<Rightarrow> proc_info option \<Rightarrow> int" where
  "proc_thr_cmp None None = 0"
| "proc_thr_cmp None (Some pb) = 1"
| "proc_thr_cmp (Some pa) None = -1"
| "proc_thr_cmp (Some pa) (Some pb) = - numcmp (p_num_threads pa) (p_num_threads pb)"

definition proc_cmp :: "sort_column \<Rightarrow> proc_info option \<Rightarrow> proc_info option \<Rightarrow> int" where
  "proc_cmp col = (case col of Cpu \<Rightarrow> proc_cpu_cmp | Vss \<Rightarrow> proc_vss_cmp | Rss \<Rightarrow> proc_rss_cmp
     | Thr \<Rightarrow> proc_thr_cmp)"

fun find_old_proc :: "proc_info option list \<Rightarrow> int \<Rightarrow> int \<Rightarrow> proc_info option" where
  "find_old_proc [] pid tid = None"
| "find_old_proc (None # ps) pid tid = find_old_proc ps pid tid"
| "find_old_proc (Some p # ps) pid tid =
     (if p_pid p = pid \<and> p_tid p = tid then Some p else find_old_proc ps pid tid)"

definition set_deltas :: "proc_info option list \<Rightarrow> proc_info \<Rightarrow> proc_info" where
  "set_deltas olds p =
     (let (du, ds) = (case find_old_proc olds (p_pid p) (p_tid p) of
            Some o1 \<Rightarrow> (p_utime p - p_utime o1, p_stime p - p_stime o1)
          | None \<Rightarrow> (0, 0))
      in p\<lparr>p_delta_utime := du, p_delta_stime := ds, p_delta_time := du + ds\<rparr>)"

definition cpu_total :: "top_cpu_info \<Rightarrow> ulong" where
  "cpu_total c = c_utime c + c_ntime c + c_stime c + c_itime c + c_iowtime c + c_irqtime c + c_sirqtime c"

text \<open>\<open>%ld\<close> of an unsigned long.\<close>

definition dec_ld :: "ulong \<Rightarrow> string" where
  "dec_ld w = dec_int (sint w)"

text \<open>A quotient by a positive number, truncated towards zero.\<close>

definition c_quot :: "int \<Rightarrow> int \<Rightarrow> int" where
  "c_quot a b = (if a < 0 then - (- a div b) else a div b)"

definition print_stack :: "proc_fs \<Rightarrow> int \<Rightarrow> int \<Rightarrow> string" where
  "print_stack fs pid tid = (case fs_file fs (task_file pid tid ''/stack'') of None \<Rightarrow> []
     | Some text \<Rightarrow> CHR 27 # ''[32;1m'' @
         concat (map (\<lambda>l. CHR 9 # CHR '' '' # c_str l) (fgets_all 254 text)) @
         CHR 27 # ''[0m'' @ [CHR 10])"

text \<open>
  The links are read into 128 zeroed bytes; a target that fills them all leaves no terminator,
  and \<open>after\<close> is what \<open>printf\<close> then reads from the memory behind.
\<close>

definition print_link :: "string \<Rightarrow> proc_fs \<Rightarrow> string \<Rightarrow> string \<Rightarrow> string" where
  "print_link after fs dirname d =
     (let target = (case fs_link fs (dirname @ CHR ''/'' # d) of None \<Rightarrow> [] | Some t \<Rightarrow> take 128 t)
      in CHR 9 # CHR '' '' # pad_left 4 d @ '' -> '' @
         (if length target = 128 then c_str (target @ after) else c_str target) @ [CHR 10])"

definition print_files :: "string \<Rightarrow> proc_fs \<Rightarrow> int \<Rightarrow> string" where
  "print_files after fs pid = (let dirname = proc_file pid ''/fd'' in
     case fs_dir fs dirname of None \<Rightarrow> []
     | Some ds \<Rightarrow> CHR 27 # ''[35;1m'' @
         concat (map (print_link after fs dirname) (filter is_number_name ds)) @
         CHR 27 # ''[0m'' @ [CHR 10])"

definition user_str :: "top_env \<Rightarrow> proc_info \<Rightarrow> string" where
  "user_str e p = (case e_passwd e (p_uid p) of Some n \<Rightarrow> n | None \<Rightarrow> dec_int (to_s32 (p_uid p)))"

definition proc_row :: "top_env \<Rightarrow> top_config \<Rightarrow> ulong \<Rightarrow> proc_info \<Rightarrow> string" where
  "proc_row e cfg tot p =
     (let sp = '' '';
          pct = pad_left 3 (dec_ld (p_delta_time p * 100 div tot)) @ ''% '';
          mem = pad_left 8 (dec_int (c_quot (p_vss p) 1024)) @ ''K '' @
            pad_left 8 (dec_int (c_quot (to_s64 (p_rss p * e_pagesize e)) 1024)) @ ''K '' @
            pad_left 3 (p_policy p) @ sp @ pad_right 8 (take 8 (user_str e p)) @ sp
      in if \<not> threads cfg then
           pad_left 5 (dec_int (p_pid p)) @ sp @ pad_left 2 (dec_int (p_prs p)) @ sp @ pct @
           pad_left 1 (dec_int (p_cpu p)) @ sp @ [p_state p] @ sp @
           pad_left 5 (dec_int (p_num_threads p)) @ sp @ mem @
           (if p_name p \<noteq> [] then p_name p else p_tname p) @ [CHR 10]
         else
           pad_left 5 (dec_int (p_pid p)) @ sp @ pad_left 5 (dec_int (p_tid p)) @ sp @
           pad_left 2 (dec_int (p_prs p)) @ sp @ pct @ pad_left 1 (dec_int (p_cpu p)) @ sp @
           [p_state p] @ sp @ mem @ pad_right 15 (p_tname p) @ sp @ p_name p @ [CHR 10])"

definition table_head :: "top_config \<Rightarrow> string" where
  "table_head cfg =
     (if \<not> threads cfg
      then ''  PID PR CPU% P S  #THR       VSS       RSS PCY UID      Name'' @ [CHR 10]
      else ''  PID   TID PR CPU% P S       VSS       RSS PCY UID      Thread          Proc'' @ [CHR 10])"

definition cpu_lines :: "top_cpu_info \<Rightarrow> top_cpu_info \<Rightarrow> ulong \<Rightarrow> string" where
  "cpu_lines n ol tot =
     ''User '' @ dec_ld (((c_utime n + c_ntime n) - (c_utime ol + c_ntime ol)) * 100 div tot) @
     ''%, System '' @ dec_ld ((c_stime n - c_stime ol) * 100 div tot) @
     ''%, IOW '' @ dec_ld ((c_iowtime n - c_iowtime ol) * 100 div tot) @
     ''%, IRQ '' @ dec_ld (((c_irqtime n + c_sirqtime n) - (c_irqtime ol + c_sirqtime ol)) * 100 div tot) @
     ''%'' @ [CHR 10] @
     ''User '' @ dec_ld (c_utime n - c_utime ol) @ '' + Nice '' @ dec_ld (c_ntime n - c_ntime ol) @
     '' + Sys '' @ dec_ld (c_stime n - c_stime ol) @ '' + Idle '' @ dec_ld (c_itime n - c_itime ol) @
     '' + IOW '' @ dec_ld (c_iowtime n - c_iowtime ol) @ '' + IRQ '' @ dec_ld (c_irqtime n - c_irqtime ol) @
     '' + SIRQ '' @ dec_ld (c_sirqtime n - c_sirqtime ol) @ '' = '' @ dec_ld tot @ [CHR 10]"

text \<open>The loop over the rows stops at the first null entry and at \<open>max_procs\<close>.\<close>

fun shown_rows :: "int \<Rightarrow> int \<Rightarrow> proc_info option list \<Rightarrow> proc_info list" where
  "shown_rows m i [] = []"
| "shown_rows m i (None # ps) = []"
| "shown_rows m i (Some p # ps) = (if m \<noteq> 0 \<and> m \<le> i then [] else p # shown_rows m (i + 1) ps)"

text \<open>How the program ends other than by returning: \<open>die\<close>, or a division by zero.\<close>

datatype top_stop = Died | Divide_error

definition sorted_procs :: "top_env \<Rightarrow> top_config \<Rightarrow> top \<Rightarrow> proc_info option list" where
  "sorted_procs e cfg s =
     e_qsort e (proc_cmp (proc_cmp_col cfg)) (map (map_option (set_deltas (old_procs s))) (new_procs s))"

definition print_procs ::
  "string \<Rightarrow> top_env \<Rightarrow> top_config \<Rightarrow> proc_fs \<Rightarrow> top \<Rightarrow> top_stop + (string \<times> top)" where
  "print_procs after e cfg fs s =
     (let tot = cpu_total (top_new_cpu s) - cpu_total (top_old_cpu s);
          sorted_new = sorted_procs e cfg s
      in if tot = 0 then Inl Divide_error
         else Inr ([CHR 10, CHR 10, CHR 10] @ cpu_lines (top_new_cpu s) (top_old_cpu s) tot @ [CHR 10] @
           table_head cfg @
           concat (map (\<lambda>p. proc_row e cfg tot p @
             (if \<not> threads cfg then (if is_show_files cfg then print_files after fs (p_pid p) else [])
              else if is_show_stack cfg then print_stack fs (p_pid p) (p_tid p) else []))
             (shown_rows (max_procs cfg) 0 sorted_new)),
           s\<lparr>new_procs := sorted_new\<rparr>))"

section \<open>The command line and the main loop\<close>

definition top_default_config :: top_config where
  "top_default_config = \<lparr>max_procs = 0, delay = 3, iterations = -1, proc_cmp_col = Cpu, threads = False,
     def_pids = [], is_show_files = False, is_show_stack = False\<rparr>"

datatype top_exit = Exit_failure | Exit_success

text \<open>The arguments of \<open>-p\<close> up to the next option; at most 50 are kept.\<close>

fun take_pids :: "string list \<Rightarrow> int list \<Rightarrow> int list \<times> string list" where
  "take_pids [] pids = (pids, [])"
| "take_pids (a # as) pids =
     (if a \<noteq> [] \<and> hd a = CHR ''-'' then (pids, a # as)
      else take_pids as (if length pids < INIT_PROCS then pids @ [atoi a] else pids))"

lemma take_pids_shorter: "(qs, rest) = take_pids as pids \<Longrightarrow> length rest < Suc (length as)"
  by (induction as pids rule: take_pids.induct) (auto split: if_splits)

definition sort_arg :: "string \<Rightarrow> sort_column option" where
  "sort_arg a = (if a = ''cpu'' then Some Cpu else if a = ''vss'' then Some Vss
     else if a = ''rss'' then Some Rss else if a = ''thr'' then Some Thr else None)"

function top_args :: "string list \<Rightarrow> top_config \<Rightarrow> top_exit + top_config" where
  "top_args [] c = Inr c"
| "top_args (a # as) c =
     (if a = ''-p'' then
        (if as = [] then Inl Exit_failure
         else (case take_pids as (def_pids c) of (pids, rest) \<Rightarrow> top_args rest (c\<lparr>def_pids := pids\<rparr>)))
      else if a = ''--file'' then top_args as (c\<lparr>is_show_files := True\<rparr>)
      else if a = ''--stack'' then top_args as (c\<lparr>is_show_stack := True\<rparr>)
      else if a = ''-m'' then (case as of [] \<Rightarrow> Inl Exit_failure
        | v # rest \<Rightarrow> top_args rest (c\<lparr>max_procs := atoi v\<rparr>))
      else if a = ''-n'' then (case as of [] \<Rightarrow> Inl Exit_failure
        | v # rest \<Rightarrow> top_args rest (c\<lparr>iterations := atoi v\<rparr>))
      else if a = ''-d'' then (case as of [] \<Rightarrow> Inl Exit_failure
        | v # rest \<Rightarrow> top_args rest (c\<lparr>delay := atoi v\<rparr>))
      else if a = ''-s'' then (case as of [] \<Rightarrow> Inl Exit_failure
        | v # rest \<Rightarrow> (case sort_arg v of None \<Rightarrow> Inl Exit_failure
            | Some col \<Rightarrow> top_args rest (c\<lparr>proc_cmp_col := col\<rparr>)))
      else if a = ''-t'' then top_args as (c\<lparr>threads := True\<rparr>)
      else if a = ''-h'' then Inl Exit_success
      else Inl Exit_failure)"
  by pat_completeness auto
termination
  by (relation "measure (length \<circ> fst)") (auto dest: take_pids_shorter)

definition top_initial :: top where
  "top_initial = \<lparr>old_procs = [], new_procs = [], free_procs = [], num_used_procs = 0, num_free_procs = 0,
     mallocs = 0,
     top_old_cpu = \<lparr>c_utime = 0, c_ntime = 0, c_stime = 0, c_itime = 0, c_iowtime = 0, c_irqtime = 0, c_sirqtime = 0\<rparr>,
     top_new_cpu = \<lparr>c_utime = 0, c_ntime = 0, c_stime = 0, c_itime = 0, c_iowtime = 0, c_irqtime = 0, c_sirqtime = 0\<rparr>\<rparr>"

text \<open>One update: keep the sample, read a new one, print, and give back the old records.\<close>

definition top_update ::
  "string \<Rightarrow> top_env \<Rightarrow> top_config \<Rightarrow> proc_fs \<Rightarrow> top \<Rightarrow> top_stop + (string \<times> top)" where
  "top_update after e cfg fs s =
     (case read_procs e cfg fs (s\<lparr>old_procs := new_procs s, top_old_cpu := top_new_cpu s\<rparr>) of
        None \<Rightarrow> Inl Died
      | Some s1 \<Rightarrow> (case print_procs after e cfg fs s1 of Inl x \<Rightarrow> Inl x
          | Inr (out, s2) \<Rightarrow> Inr (out, free_old_procs s2)))"

text \<open>
  The main loop on a stream of samples; \<open>it\<close> is \<open>iterations\<close>. The first argument bounds the
  number of rounds, \<open>None\<close> means that the loop is still running after them.
\<close>

fun top_loop :: "nat \<Rightarrow> string \<Rightarrow> top_env \<Rightarrow> top_config \<Rightarrow> (nat \<Rightarrow> proc_fs) \<Rightarrow> nat \<Rightarrow> int \<Rightarrow> top \<Rightarrow>
    (top_stop + (string list \<times> top)) option" where
  "top_loop 0 after e cfg samples k it s = None"
| "top_loop (Suc fuel) after e cfg samples k it s =
     (if it = -1 \<or> 0 < it then
        (case top_update after e cfg (samples k) s of Inl x \<Rightarrow> Some (Inl x)
         | Inr (out, s1) \<Rightarrow>
            (case top_loop fuel after e cfg samples (Suc k) (if it = -1 then it else it - 1) s1 of
               Some (Inr (outs, s2)) \<Rightarrow> Some (Inr (out # outs, s2))
             | r \<Rightarrow> r))
      else Some (Inr ([], s)))"

definition top_main :: "nat \<Rightarrow> string \<Rightarrow> top_env \<Rightarrow> (nat \<Rightarrow> proc_fs) \<Rightarrow> string list \<Rightarrow>
    (top_exit + (top_stop + (string list \<times> top))) option" where
  "top_main fuel after e samples argv = (case top_args argv top_default_config of
       Inl x \<Rightarrow> Some (Inl x)
     | Inr cfg \<Rightarrow>
        if threads cfg \<and> proc_cmp_col cfg = Thr then Some (Inl Exit_failure)
        else (case read_procs e cfg (samples 0) top_initial of None \<Rightarrow> Some (Inr (Inl Died))
          | Some s \<Rightarrow> map_option Inr (top_loop fuel after e cfg samples 1 (iterations cfg) s)))"

section \<open>Comparison functions\<close>

text \<open>
  What \<open>qsort\<close> needs of a comparison function, and insertion sort as an instance of \<open>qsort\<close>.
\<close>

fun insert_cmp :: "('a \<Rightarrow> 'a \<Rightarrow> int) \<Rightarrow> 'a \<Rightarrow> 'a list \<Rightarrow> 'a list" where
  "insert_cmp cmp x [] = [x]"
| "insert_cmp cmp x (y # ys) = (if cmp x y \<le> 0 then x # y # ys else y # insert_cmp cmp x ys)"

definition insertion_sort :: "('a \<Rightarrow> 'a \<Rightarrow> int) \<Rightarrow> 'a list \<Rightarrow> 'a list" where
  "insertion_sort cmp xs = foldr (insert_cmp cmp) xs []"

lemma insert_cmp_mset [simp]: "mset (insert_cmp cmp x ys) = add_mset x (mset ys)"
  by (induction ys) auto

lemma insertion_sort_mset: "mset (insertion_sort cmp xs) = mset xs"
  by (induction xs) (auto simp: insertion_sort_def)

locale comparison =
  fixes cmp :: "'a \<Rightarrow> 'a \<Rightarrow> int"
  assumes total: "cmp x y \<le> 0 \<or> cmp y x \<le> 0"
    and trans: "cmp x y \<le> 0 \<Longrightarrow> cmp y z \<le> 0 \<Longrightarrow> cmp x z \<le> 0"
begin

lemma insert_cmp_sorted:
  "sorted_wrt (\<lambda>x y. cmp x y \<le> 0) ys \<Longrightarrow> sorted_wrt (\<lambda>x y. cmp x y \<le> 0) (insert_cmp cmp x ys)"
proof (induction ys)
  case (Cons y ys)
  have set: "set (insert_cmp cmp x ys) = insert x (set ys)"
    using insert_cmp_mset by (metis set_mset_add_mset_insert set_mset_mset)
  show ?case
  proof (cases "cmp x y \<le> 0")
    case True
    then show ?thesis using Cons.prems trans [OF True] by simp
  next
    case False
    then have "cmp y x \<le> 0" using total by blast
    then show ?thesis using Cons False set by simp
  qed
qed simp

lemma insertion_sort_sorted: "sorted_wrt (\<lambda>x y. cmp x y \<le> 0) (insertion_sort cmp xs)"
  by (induction xs) (simp_all add: insertion_sort_def insert_cmp_sorted)

end

lemma numcmp_le: "0 \<le> numcmp a b \<longleftrightarrow> b \<le> a"
  by (simp add: numcmp_def)

text \<open>The value a column sorts by.\<close>

definition sort_key :: "sort_column \<Rightarrow> proc_info \<Rightarrow> int" where
  "sort_key col p = (case col of Cpu \<Rightarrow> sint (p_delta_time p) | Vss \<Rightarrow> p_vss p | Rss \<Rightarrow> p_rss p
     | Thr \<Rightarrow> p_num_threads p)"

lemma proc_cmp_le:
  "proc_cmp col None None \<le> 0" "\<not> proc_cmp col None (Some q) \<le> 0" "proc_cmp col (Some p) None \<le> 0"
  "proc_cmp col (Some p) (Some q) \<le> 0 \<longleftrightarrow> sort_key col q \<le> sort_key col p"
  by (simp_all add: proc_cmp_def sort_key_def numcmp_le split: sort_column.split)

interpretation pc: comparison "proc_cmp col" for col
proof unfold_locales
  show "proc_cmp col x y \<le> 0 \<or> proc_cmp col y x \<le> 0" for x y
    by (cases x; cases y) (auto simp: proc_cmp_le)
  show "proc_cmp col x y \<le> 0 \<Longrightarrow> proc_cmp col y z \<le> 0 \<Longrightarrow> proc_cmp col x z \<le> 0" for x y z
    by (cases x; cases y; cases z) (auto simp: proc_cmp_le)
qed

text \<open>
  What the C library promises of \<open>qsort\<close>: for a comparison function the result is a sorted
  permutation. Nothing is assumed about equal elements.
\<close>

definition qsort_ok ::
  "((proc_info option \<Rightarrow> proc_info option \<Rightarrow> int) \<Rightarrow> proc_info option list \<Rightarrow> proc_info option list) \<Rightarrow> bool" where
  "qsort_ok q \<longleftrightarrow> (\<forall>cmp xs. comparison cmp \<longrightarrow>
     mset (q cmp xs) = mset xs \<and> sorted_wrt (\<lambda>x y. cmp x y \<le> 0) (q cmp xs))"

lemma qsort_proc_cmp:
  assumes "qsort_ok q"
  shows "mset (q (proc_cmp col) xs) = mset xs"
    and "sorted_wrt (\<lambda>x y. proc_cmp col x y \<le> 0) (q (proc_cmp col) xs)"
  using assms pc.comparison_axioms unfolding qsort_ok_def by blast+

lemma insertion_sort_ok: "qsort_ok insertion_sort"
  by (simp add: qsort_ok_def insertion_sort_mset comparison.insertion_sort_sorted)

text \<open>The records of an array, its null entries skipped.\<close>

definition records :: "proc_info option list \<Rightarrow> proc_info list" where
  "records xs = List.map_filter id xs"

lemma records_simps [simp]:
  "records [] = []" "records (None # xs) = records xs" "records (Some p # xs) = p # records xs"
  "records (xs @ ys) = records xs @ records ys" "records (replicate n None) = []"
  "records (map Some ps) = ps"
  by (simp_all add: records_def map_filter_def comp_def)

lemma records_map: "records (map (map_option f) xs) = map f (records xs)"
  by (induction xs) (auto simp: records_def map_filter_def)

lemma mset_records: "mset xs = mset ys \<Longrightarrow> mset (records xs) = mset (records ys)"
  by (simp add: records_def map_filter_def flip: mset_filter mset_map) (metis mset_filter mset_map)

text \<open>In a sorted array the records come first, in descending order of the key.\<close>

lemma sorted_records:
  "sorted_wrt (\<lambda>x y. proc_cmp col x y \<le> 0) xs \<Longrightarrow>
    xs = map Some (records xs) @ replicate (length xs - length (records xs)) None \<and>
    sorted_wrt (\<lambda>p q. sort_key col q \<le> sort_key col p) (records xs)"
proof (induction xs)
  case (Cons x xs)
  show ?case
  proof (cases x)
    case None
    then have "\<forall>y \<in> set xs. y = None"
      using Cons.prems proc_cmp_le(2) by (metis not_Some_eq sorted_wrt.simps(2))
    then have "xs = replicate (length xs) None" by (simp add: replicate_length_same)
    moreover from this have "records xs = []" by (metis records_simps(5))
    ultimately show ?thesis using None by simp
  next
    case (Some p)
    have le: "length (records ys) \<le> length ys" for ys
      by (simp add: records_def map_filter_def)
    have "\<forall>q \<in> set (records xs). sort_key col q \<le> sort_key col p"
    proof
      fix q assume "q \<in> set (records xs)"
      then have "Some q \<in> set xs" by (auto simp: records_def map_filter_def)
      then show "sort_key col q \<le> sort_key col p" using Cons.prems Some proc_cmp_le(4) by auto
    qed
    then show ?thesis using Cons Some by (simp add: Suc_diff_le le)
  qed
qed simp

lemma shown_rows_eq:
  "0 \<le> i \<Longrightarrow> shown_rows m i (map Some ps @ replicate k None) =
    (if m = 0 then ps else take (nat (m - i)) ps)"
proof (induction ps arbitrary: i)
  case Nil
  then show ?case by (cases k) auto
next
  case (Cons p ps)
  have "\<not> m \<le> i \<Longrightarrow> nat (m - i) = Suc (nat (m - (i + 1)))" by simp
  then show ?case using Cons by auto
qed


section \<open>The pool and the array\<close>

definition pool_ok :: "top \<Rightarrow> bool" where
  "pool_ok s \<longleftrightarrow> num_free_procs s = int (length (free_procs s)) \<and>
     int (mallocs s) = num_used_procs s + num_free_procs s"

definition packed :: "nat \<Rightarrow> proc_info option list \<Rightarrow> bool" where
  "packed n xs \<longleftrightarrow> (\<exists>ps k. xs = map Some ps @ replicate k None \<and> length ps = n)"

lemma packed_records: "packed n xs \<Longrightarrow> length (records xs) = n \<and> n \<le> length xs"
  by (auto simp: packed_def)

lemma alloc_proc_frame:
  assumes "alloc_proc e s = Some (p, s1)"
  shows "new_procs s1 = new_procs s" "old_procs s1 = old_procs s"
    "num_used_procs s1 = num_used_procs s + 1" "pool_ok s \<Longrightarrow> pool_ok s1"
  using assms by (auto simp: alloc_proc_def pool_ok_def split: list.splits option.splits)

lemma packed_update:
  assumes "packed n xs" "n < length xs"
  shows "packed (n + 1) (xs[n := Some p])"
proof -
  obtain ps k where xs: "xs = map Some ps @ replicate k None" "length ps = n"
    using assms(1) by (auto simp: packed_def)
  then obtain j where "k = Suc j" using assms(2) by (cases k) auto
  then have "xs[n := Some p] = map Some (ps @ [p]) @ replicate j None"
    using xs by (simp add: list_update_append)
  then show ?thesis unfolding packed_def using xs(2) by (intro exI [of _ "ps @ [p]"] exI [of _ j]) simp
qed

lemma packedI: "packed (length ps) (map Some ps @ replicate k None)"
  unfolding packed_def by blast

lemma packed_grow: "packed n xs \<Longrightarrow> packed n (xs @ replicate k None)"
  using packedI by (auto simp: packed_def replicate_add [symmetric] simp del: replicate_add)

lemma add_proc_frame:
  assumes "add_proc e n p s = Some s1" "packed n (new_procs s)" "new_procs s \<noteq> []"
  shows "packed (n + 1) (new_procs s1)" "new_procs s1 \<noteq> []" "old_procs s1 = old_procs s"
    "num_used_procs s1 = num_used_procs s" "pool_ok s \<Longrightarrow> pool_ok s1"
proof -
  have le: "n \<le> length (new_procs s)" using packed_records assms(2) by blast
  show "packed (n + 1) (new_procs s1)"
  proof (cases "length (new_procs s) \<le> n")
    case True
    then have "new_procs s1 = (new_procs s @ replicate (length (new_procs s)) None)[n := Some p]"
      using assms(1) by (auto simp: add_proc_def split: if_splits)
    moreover have "n < length (new_procs s @ replicate (length (new_procs s)) None)"
      using le assms(3) by (cases "new_procs s") auto
    ultimately show ?thesis
      using packed_update [OF packed_grow [OF assms(2)]] by metis
  next
    case False
    then show ?thesis using packed_update [OF assms(2)] assms(1) by (auto simp: add_proc_def)
  qed
  show "new_procs s1 \<noteq> []" "old_procs s1 = old_procs s"
    "num_used_procs s1 = num_used_procs s" "pool_ok s \<Longrightarrow> pool_ok s1"
    using assms(1,3) by (auto simp: add_proc_def pool_ok_def split: if_splits)
qed

text \<open>
  While a sample is read: \<open>n\<close> records are in the array, and \<open>lost\<close> more are in use that are
  not there, beyond the \<open>base\<close> of those in use before.
\<close>

definition reading :: "nat \<Rightarrow> proc_info option list \<Rightarrow> int \<Rightarrow> nat \<times> top \<Rightarrow> bool" where
  "reading lost olds base ns \<longleftrightarrow> (case ns of (n, s) \<Rightarrow> packed n (new_procs s) \<and> new_procs s \<noteq> [] \<and>
     pool_ok s \<and> old_procs s = olds \<and> num_used_procs s = base + int n + int lost)"

text \<open>The entries of \<open>/proc\<close> for which \<open>read_procs\<close> allocates a record and cannot open the task directory.\<close>

definition drops_record :: "top_config \<Rightarrow> proc_fs \<Rightarrow> string \<Rightarrow> bool" where
  "drops_record cfg fs d \<longleftrightarrow> is_number_name d \<and> (def_pids cfg = [] \<or> atoi d \<in> set (def_pids cfg)) \<and> \<not> threads cfg \<and>
     fs_dir fs (proc_file (atoi d) ''/task'') = None"

definition dropped_records :: "top_config \<Rightarrow> proc_fs \<Rightarrow> nat" where
  "dropped_records cfg fs =
     (case fs_dir fs ''/proc'' of None \<Rightarrow> 0 | Some ds \<Rightarrow> length (filter (drops_record cfg fs) ds))"

lemma reading_add:
  assumes "reading lost olds base (n, s)" "alloc_proc e s = Some (p, s1)"
    "add_proc e n q s1 = Some s2"
  shows "reading lost olds base (n + 1, s2)"
proof -
  note al = alloc_proc_frame [OF assms(2)]
  have "packed n (new_procs s1)" "new_procs s1 \<noteq> []"
    using assms(1) al by (simp_all add: reading_def)
  note ad = add_proc_frame [OF assms(3) this]
  show ?thesis using assms(1) al ad by (auto simp: reading_def)
qed

lemma reading_thread:
  "read_thread e fs pid cur d ns = Some ns' \<Longrightarrow> reading lost olds base ns \<Longrightarrow>
    reading lost olds base ns'"
  using reading_add
  by (auto simp: read_thread_def Let_def split: prod.splits option.splits if_splits)

lemma reading_process:
  assumes "read_process e fs pid ns = Some ns'" "reading lost olds base ns"
  shows "reading (if fs_dir fs (proc_file pid ''/task'') = None then lost + 1 else lost) olds base ns'"
proof -
  obtain n s p0 s1 where ns: "ns = (n, s)" "alloc_proc e s = Some (p0, s1)"
    using assms(1) by (auto simp: read_process_def split: prod.splits option.splits)
  show ?thesis
  proof (cases "fs_dir fs (proc_file pid ''/task'')")
    case None
    then have "ns' = (n, s1)"
      using assms(1) ns by (auto simp: read_process_def Let_def)
    then show ?thesis
      using None alloc_proc_frame [OF ns(2)] assms(2) ns(1) by (auto simp: reading_def)
  next
    case (Some ts)
    then show ?thesis
      using assms(1,2) ns reading_add by (auto simp: read_process_def Let_def)
  qed
qed

lemma reading_entry:
  assumes "read_entry e cfg fs d ns = Some ns'" "reading lost olds base ns"
  shows "reading (if drops_record cfg fs d then lost + 1 else lost) olds base ns'"
proof -
  have "fold_opt (read_thread e fs pid cur) ts ns = Some ns' \<Longrightarrow> reading lost olds base ns'" for pid cur ts
    using fold_opt_invariant [of ts "reading lost olds base" "read_thread e fs pid cur"]
      reading_thread assms(2) by blast
  then show ?thesis
    using assms reading_process [of e fs "atoi d" ns ns' lost olds base]
    by (auto simp: read_entry_def drops_record_def Let_def split: if_splits option.splits)
qed

lemma reading_entries:
  "fold_opt (read_entry e cfg fs) ds ns = Some ns' \<Longrightarrow> reading lost olds base ns \<Longrightarrow>
    reading (lost + length (filter (drops_record cfg fs) ds)) olds base ns'"
proof (induction ds arbitrary: ns lost)
  case (Cons d ds)
  then obtain ns1 where "read_entry e cfg fs d ns = Some ns1" "fold_opt (read_entry e cfg fs) ds ns1 = Some ns'"
    by (auto split: option.splits)
  from Cons.IH [OF this(2) reading_entry [OF this(1) Cons.prems(2)]] show ?case by (simp split: if_splits)
qed simp

lemma packed_tail: "packed n xs \<Longrightarrow> packed n (take n xs @ replicate (length xs - n) None)"
  using packedI by (auto simp: packed_def)

lemma read_procs_reading:
  assumes "read_procs e cfg fs s = Some s'" "pool_ok s"
  shows "\<exists>n. reading (dropped_records cfg fs) (old_procs s) (num_used_procs s) (n, s')"
proof -
  obtain st ds n s2 where ds: "fs_dir fs ''/proc'' = Some ds" and rd: "fold_opt (read_entry e cfg fs) ds (0, s\<lparr>new_procs := replicate
        (INIT_PROCS * (if threads cfg then THREAD_MULT else 1)) None,
        top_new_cpu := read_cpu st (top_new_cpu s)\<rparr>) = Some (n, s2)"
    "s' = s2\<lparr>new_procs := take n (new_procs s2) @ replicate (length (new_procs s2) - n) None\<rparr>"
    using assms(1) by (auto simp: read_procs_def Let_def split: option.splits prod.splits)
  have "packed 0 (replicate k None)" for k by (simp add: packed_def)
  then have "reading 0 (old_procs s) (num_used_procs s) (0, s\<lparr>new_procs := replicate
        (INIT_PROCS * (if threads cfg then THREAD_MULT else 1)) None,
        top_new_cpu := read_cpu st (top_new_cpu s)\<rparr>)"
    using assms(2) by (simp add: reading_def pool_ok_def INIT_PROCS_def THREAD_MULT_def)
  from reading_entries [OF rd(1) this]
  have "reading (dropped_records cfg fs) (old_procs s) (num_used_procs s) (n, s2)"
    by (simp add: dropped_records_def ds)
  then have "reading (dropped_records cfg fs) (old_procs s) (num_used_procs s) (n, s')"
    using packed_tail packed_records unfolding rd(2) reading_def pool_ok_def by fastforce
  then show ?thesis ..
qed

lemma free_old_procs_frame:
  assumes "pool_ok s"
  shows "pool_ok (free_old_procs s)" "old_procs (free_old_procs s) = []"
    "new_procs (free_old_procs s) = new_procs s"
    "num_used_procs (free_old_procs s) = num_used_procs s - int (length (records (old_procs s)))"
proof -
  let ?f = "\<lambda>q t. case q of None \<Rightarrow> t | Some p \<Rightarrow> free_proc p t"
  have "pool_ok t \<Longrightarrow> pool_ok (fold ?f qs t) \<and> new_procs (fold ?f qs t) = new_procs t \<and>
      num_used_procs (fold ?f qs t) = num_used_procs t - int (length (records qs))" for qs t
  proof (induction qs arbitrary: t)
    case (Cons q qs)
    have "pool_ok (free_proc p t)" for p
      using Cons.prems by (simp add: pool_ok_def free_proc_def)
    then show ?case using Cons by (cases q) (auto simp: free_proc_def)
  qed simp
  from this [OF assms, of "old_procs s"] show
    "pool_ok (free_old_procs s)" "old_procs (free_old_procs s) = []"
    "new_procs (free_old_procs s) = new_procs s"
    "num_used_procs (free_old_procs s) = num_used_procs s - int (length (records (old_procs s)))"
    by (simp_all add: free_old_procs_def pool_ok_def)
qed

text \<open>Between two updates: the records in use are those of the array and \<open>lost\<close> ones, none is old.\<close>

definition top_inv :: "nat \<Rightarrow> top \<Rightarrow> bool" where
  "top_inv lost s \<longleftrightarrow> pool_ok s \<and> old_procs s = [] \<and>
     num_used_procs s = int (length (records (new_procs s))) + int lost"

lemma print_procs_frame:
  assumes "print_procs after e cfg fs s = Inr (out, s')" "qsort_ok (e_qsort e)"
  shows "pool_ok s \<Longrightarrow> pool_ok s'" "old_procs s' = old_procs s" "num_used_procs s' = num_used_procs s"
    "length (records (new_procs s')) = length (records (new_procs s))"
proof -
  have s': "s' = s\<lparr>new_procs := sorted_procs e cfg s\<rparr>"
    using assms(1) by (auto simp: print_procs_def Let_def split: if_splits)
  show "pool_ok s \<Longrightarrow> pool_ok s'" "old_procs s' = old_procs s" "num_used_procs s' = num_used_procs s"
    by (simp_all add: s' pool_ok_def)
  have "mset (records (sorted_procs e cfg s)) =
      mset (records (map (map_option (set_deltas (old_procs s))) (new_procs s)))"
    unfolding sorted_procs_def by (intro mset_records qsort_proc_cmp assms(2))
  then have "length (records (sorted_procs e cfg s)) = length (records (new_procs s))"
    by (metis length_map records_map size_mset)
  then show "length (records (new_procs s')) = length (records (new_procs s))"
    by (simp add: s')
qed

lemma top_update_inv:
  assumes "top_update after e cfg fs s = Inr (out, s')" "top_inv lost s" "qsort_ok (e_qsort e)"
  shows "top_inv (lost + dropped_records cfg fs) s'"
proof -
  define s0 where "s0 = s\<lparr>old_procs := new_procs s, top_old_cpu := top_new_cpu s\<rparr>"
  obtain s1 s2 where steps: "read_procs e cfg fs s0 = Some s1"
    "print_procs after e cfg fs s1 = Inr (out, s2)" "s' = free_old_procs s2"
    using assms(1) by (auto simp: top_update_def s0_def split: option.splits sum.splits prod.splits)
  have "pool_ok s0" using assms(2) by (simp add: s0_def top_inv_def pool_ok_def)
  from read_procs_reading [OF steps(1) this] obtain n where
    n: "reading (dropped_records cfg fs) (old_procs s0) (num_used_procs s0) (n, s1)" by blast
  then have r1: "length (records (new_procs s1)) = n" "pool_ok s1" "old_procs s1 = new_procs s"
    using packed_records by (auto simp: reading_def s0_def)
  note pr = print_procs_frame [OF steps(2) assms(3)]
  note fr = free_old_procs_frame [OF pr(1) [OF r1(2)]]
  show ?thesis
    using n assms(2) fr pr r1 unfolding steps(3) by (auto simp: top_inv_def reading_def s0_def)
qed

lemma top_loop_inv:
  "top_loop fuel after e cfg samples k it s = Some (Inr (outs, s')) \<Longrightarrow> top_inv lost s \<Longrightarrow> qsort_ok (e_qsort e) \<Longrightarrow>
    top_inv (lost + (\<Sum>j < length outs. dropped_records cfg (samples (k + j)))) s'"
proof (induction fuel arbitrary: k it s lost outs)
  case (Suc fuel)
  show ?case
  proof (cases "it = -1 \<or> 0 < it")
    case True
    obtain out s1 where up: "top_update after e cfg (samples k) s = Inr (out, s1)"
      using Suc.prems(1) True by (auto split: sum.splits prod.splits)
    then obtain outs' where "top_loop fuel after e cfg samples (Suc k) (if it = -1 then it else it - 1) s1 =
        Some (Inr (outs', s'))" and outs: "outs = out # outs'"
      using Suc.prems(1) True by (auto split: option.splits sum.splits prod.splits)
    from Suc.IH [OF this(1) top_update_inv [OF up Suc.prems(2,3)] Suc.prems(3)] show ?thesis
      by (simp add: outs sum.lessThan_Suc_shift add.assoc del: sum.lessThan_Suc)
  next
    case False
    then show ?thesis using Suc.prems by auto
  qed
qed simp

lemma top_loop_counts:
  "top_loop fuel after e cfg samples k it s = Some (Inr (outs, s')) \<Longrightarrow>
    it \<noteq> -1 \<and> length outs = nat it"
proof (induction fuel arbitrary: k it s outs)
  case (Suc fuel)
  show ?case
  proof (cases "it = -1 \<or> 0 < it")
    case True
    obtain out s1 where up: "top_update after e cfg (samples k) s = Inr (out, s1)"
      using Suc.prems(1) True by (auto split: sum.splits prod.splits)
    then obtain outs' where l: "top_loop fuel after e cfg samples (Suc k) (if it = -1 then it else it - 1) s1 =
        Some (Inr (outs', s'))" "outs = out # outs'"
      using Suc.prems(1) True by (auto split: option.splits sum.splits prod.splits)
    then show ?thesis using Suc.IH [OF l(1)] True by (auto split: if_splits)
  next
    case False
    then show ?thesis using Suc.prems by auto
  qed
qed simp

lemma top_loop_returns:
  "it \<noteq> -1 \<Longrightarrow> nat it < fuel \<Longrightarrow> top_loop fuel after e cfg samples k it s \<noteq> None"
proof (induction fuel arbitrary: k it s)
  case (Suc fuel)
  show ?case
  proof (cases "0 < it")
    case True
    then have "top_loop fuel after e cfg samples (Suc k) (it - 1) s1 \<noteq> None" for s1
      using Suc.prems by (intro Suc.IH) auto
    then show ?thesis
      using True Suc.prems(1) by (auto split: sum.splits option.splits prod.splits)
        (metis option.distinct(1))
  next
    case False
    then show ?thesis using Suc.prems by simp
  qed
qed simp

section \<open>The stat line\<close>

lemma split_at_parens:
  assumes "CHR 0x28 \<notin> set as" "CHR 0x29 \<notin> set bs" "CHR 0x00 \<notin> set (as @ comm @ bs)"
    and buf: "buf = as @ CHR 0x28 # comm @ CHR 0x29 # bs"
    and z: "z = buf[first_index (CHR 0x28) buf := CHR 0x00, last_index (CHR 0x29) buf := CHR 0x00]"
  shows "c_str (drop (first_index (CHR 0x28) buf + 1) z) = comm"
    and "c_str (drop (last_index (CHR 0x29) buf + 1) z) = bs"
proof -
  have tw: "takeWhile (\<lambda>x. x \<noteq> c) (xs @ c # ys) = xs" if "c \<notin> set xs" for c :: char and xs ys
    using that by (induction xs) auto
  have i: "first_index (CHR 0x28) buf = length as"
    using tw [OF assms(1)] by (simp add: first_index_def buf)
  have "takeWhile (\<lambda>x. x \<noteq> CHR 0x29) (rev bs @ CHR 0x29 # rev comm @ CHR 0x28 # rev as) = rev bs"
    using assms(2) by (intro tw) simp
  then have j: "last_index (CHR 0x29) buf = length as + 1 + length comm"
    by (simp add: last_index_def buf)
  have z1: "buf[length as := CHR 0x00] = (as @ CHR 0x00 # comm) @ CHR 0x29 # bs"
    by (simp add: buf)
  have z2: "z = (as @ CHR 0x00 # comm) @ CHR 0x00 # bs"
    unfolding z i j z1 using list_update_length [of "as @ CHR 0x00 # comm" "CHR 0x29" bs "CHR 0x00"] by simp
  show "c_str (drop (first_index (CHR 0x28) buf + 1) z) = comm"
    unfolding i z2 c_str_def using assms(3) tw [of "CHR 0x00" comm bs] by simp
  show "c_str (drop (last_index (CHR 0x29) buf + 1) z) = bs"
    unfolding j z2 c_str_def using assms(3) by (simp add: takeWhile_eq_all_conv) metis
qed

text \<open>
  The line the kernel writes: the number, the name in parentheses, the state, and the fields
  from the fourth on.
\<close>

definition stat_line :: "int \<Rightarrow> string \<Rightarrow> char \<Rightarrow> int list \<Rightarrow> string" where
  "stat_line pid comm st fls =
     dec_int pid @ '' ('' @ comm @ '') '' @ [st] @ int_fields fls @ [CHR 10]"

lemma scan_stat_fields:
  assumes "\<not> is_space st" "length as = 10" "length bs = 7" "length cs = 14" "ut < 2 ^ 64" "stm < 2 ^ 64" "vs < 2 ^ 64"
  shows "sscanf stat_fmt (CHR '' '' # st # int_fields (as @ int ut # int stm # bs @ int vs # rs # cs @ cp # pr # ds) @ [CHR 10]) =
    [SStr [st], SInt (int ut), SInt (int stm), SInt (int vs), SInt (strtol_val (rs < 0) (nat \<bar>rs\<bar>)),
     SInt (strtol_val (cp < 0) (nat \<bar>cp\<bar>)), SInt (strtol_val (pr < 0) (nat \<bar>pr\<bar>))]"
proof -
  have nat_field: "sscanf (Ws # Conv Unsigned # f) (CHR '' '' # dec_int (int n) @ r) = SInt (int n) # sscanf f r"
    if "field_end r" "n < 2 ^ 64" for f n r
    using scan_nat_field(1) [OF that] by (simp add: dec_int_def)
  have fe: "field_end (int_fields is @ [CHR 10])" "field_end (CHR '' '' # x)"
    "field_end (int_fields is @ CHR '' '' # x)" for "is" x
    by (cases "is"; simp add: field_end_def)+
  have chr: "sscanf (Ws # Conv Chr # f) (CHR '' '' # st # r) = SStr [st] # sscanf f r" for f r
    using assms(1) by simp
  show ?thesis
    unfolding stat_fmt_def int_fields_simps append_assoc append_Cons append_Nil chr
      scan_skip_fields [OF assms(2) fe(2)] nat_field [OF fe(2) assms(5)] nat_field [OF fe(3) assms(6)]
      scan_skip_fields [OF assms(3) fe(2)] nat_field [OF fe(2) assms(7)] scan_int_field(1) [OF fe(3)]
      scan_skip_fields [OF assms(4) fe(2)] scan_int_field(1) [OF fe(2)] scan_int_field(1) [OF fe(1)]
    by simp
qed

lemma dec_int_chars: "c \<in> set (dec_int i) \<Longrightarrow> is_digit c \<or> c = CHR ''-''"
  using dec_digits_all_digits by (auto simp: dec_int_def split: if_splits)

lemma int_fields_chars: "c \<in> set (int_fields is) \<Longrightarrow> is_digit c \<or> c = CHR ''-'' \<or> c = CHR '' ''"
  using dec_int_chars by (induction "is") auto

lemma not_in_fields:
  "\<not> is_digit c \<Longrightarrow> c \<noteq> CHR ''-'' \<Longrightarrow> c \<notin> set (dec_int i)"
  "\<not> is_digit c \<Longrightarrow> c \<noteq> CHR ''-'' \<Longrightarrow> c \<noteq> CHR '' '' \<Longrightarrow> c \<notin> set (int_fields is)"
  using dec_int_chars int_fields_chars by blast+

lemma parens_no_digit: "\<not> is_digit (CHR 0x28)" "\<not> is_digit (CHR 0x29)" "\<not> is_digit (CHR 0x00)"
  by (simp_all add: is_digit_def)

lemma read_stat_split:
  assumes "fs_file fs fn = Some (stat_line pid comm st fls)" "length (stat_line pid comm st fls) \<le> 255"
    and "CHR 0x00 \<notin> set comm" "CHR 10 \<notin> set comm" "st \<notin> {CHR 0x00, CHR 10, CHR 0x29}"
  shows "read_stat e fs fn p = stat_assign (sscanf stat_fmt (CHR '' '' # st # int_fields fls @ [CHR 10]))
    (p\<lparr>p_tname := take 31 comm\<rparr>)"
proof -
  define as where "as = dec_int pid @ '' ''"
  define bs where "bs = CHR '' '' # st # int_fields fls @ [CHR 10]"
  have line: "stat_line pid comm st fls = as @ CHR 0x28 # comm @ CHR 0x29 # bs"
    by (simp add: stat_line_def as_def bs_def)
  have as: "CHR 0x28 \<notin> set as" "CHR 0x00 \<notin> set as" "CHR 10 \<notin> set as"
    using not_in_fields(1) parens_no_digit by (auto simp: as_def)
  have bs: "CHR 0x29 \<notin> set bs" "CHR 0x00 \<notin> set bs" "CHR 10 \<notin> set (butlast bs)"
    using not_in_fields(2) [of _ fls] parens_no_digit assms(5) by (auto simp: bs_def butlast_append)
  have nl: "stat_line pid comm st fls = butlast (stat_line pid comm st fls) @ [CHR 10]"
    by (simp add: stat_line_def butlast_append)
  have "CHR 10 \<notin> set (butlast (stat_line pid comm st fls))"
    using as(3) bs(3) assms(4) by (auto simp: line butlast_append bs_def)
  then have "fgets 256 (stat_line pid comm st fls) = Some (stat_line pid comm st fls, [])"
    using assms(2) fgets_take_line [of "butlast (stat_line pid comm st fls)" 255 "[]"] nl
    by (simp add: fgets_def) (simp add: stat_line_def)
  moreover have "c_str (stat_line pid comm st fls) = stat_line pid comm st fls"
    using as(2) bs(2) assms(3) by (intro c_str_no_null) (auto simp: line)
  moreover note split_at_parens [OF as(1) bs(1) _ line refl, of]
  ultimately show ?thesis
    using assms(1,3) as(2) bs(2) unfolding read_stat_def
    by (simp add: Let_def flip: bs_def) (simp add: line)
qed

section \<open>Properties\<close>

text \<open>C11. The table shows the busiest first: with any sorting routine that keeps the promise of
  \<open>qsort\<close>, the printed rows are in descending order of the chosen column, as many as the limit
  allows (all for limit 0), and no record left out ranks above a printed one; each row carries
  its difference to the previous sample.\<close>

theorem top_rows_sorted:
  assumes "qsort_ok (e_qsort e)" "0 \<le> max_procs cfg"
  shows "\<exists>rows rest. rows = shown_rows (max_procs cfg) 0 (sorted_procs e cfg s) \<and>
    sorted_wrt (\<lambda>p q. sort_key (proc_cmp_col cfg) q \<le> sort_key (proc_cmp_col cfg) p) rows \<and>
    mset rows + mset rest = mset (map (set_deltas (old_procs s)) (records (new_procs s))) \<and>
    (\<forall>p \<in> set rows. \<forall>q \<in> set rest. sort_key (proc_cmp_col cfg) q \<le> sort_key (proc_cmp_col cfg) p) \<and>
    length rows = (if max_procs cfg = 0 then length (records (new_procs s))
      else min (nat (max_procs cfg)) (length (records (new_procs s))))"
proof -
  let ?le = "\<lambda>p q. sort_key (proc_cmp_col cfg) q \<le> sort_key (proc_cmp_col cfg) p"
  define ps where "ps = records (sorted_procs e cfg s)"
  define n where "n = (if max_procs cfg = 0 then length ps else nat (max_procs cfg))"
  note srt = sorted_records [OF qsort_proc_cmp(2) [OF assms(1)],
      of "proc_cmp_col cfg" "map (map_option (set_deltas (old_procs s))) (new_procs s)",
      folded sorted_procs_def, folded ps_def]
  have ms: "mset ps = mset (map (set_deltas (old_procs s)) (records (new_procs s)))"
    using mset_records [OF qsort_proc_cmp(1) [OF assms(1)]]
    by (simp add: ps_def sorted_procs_def records_map)
  then have len: "length ps = length (records (new_procs s))"
    by (metis length_map size_mset)
  have rows: "shown_rows (max_procs cfg) 0 (sorted_procs e cfg s) = take n ps"
    using srt shown_rows_eq [of 0 "max_procs cfg" ps] by (metis diff_zero n_def order_refl take_all)
  have sw: "sorted_wrt ?le (take n ps @ drop n ps)" using srt by simp
  show ?thesis
    using sw ms len assms(2) unfolding rows sorted_wrt_append
    by (intro exI [of _ "take n ps"] exI [of _ "drop n ps"])
      (auto simp: n_def simp flip: mset_append)
qed

definition top_sample_record :: "int \<Rightarrow> int \<Rightarrow> proc_info" where
  "top_sample_record pid vss = \<lparr>p_pid = pid, p_tid = pid, p_uid = 0, p_gid = 0, p_name = ''a'',
     p_tname = ''a'', p_state = CHR ''S'', p_utime = 0, p_stime = 0, p_delta_utime = 0, p_delta_stime = 0,
     p_delta_time = 0, p_vss = vss, p_rss = 0, p_cpu = 0, p_prs = 0, p_num_threads = 1, p_policy = ''fg''\<rparr>"

definition top_sample_env :: top_env where
  "top_sample_env = \<lparr>e_malloc = \<lambda>n. Some (top_sample_record 0 0), e_realloc = \<lambda>n. True,
     e_stack = top_sample_record 0 0, e_buf = [], e_uid = 0, e_gid = 0, e_pagesize = 4096,
     e_passwd = \<lambda>u. None, e_qsort = insertion_sort\<rparr>"

lemma top_rows_sorted_witness:
  "map p_pid (shown_rows 1 0 (sorted_procs top_sample_env (top_default_config\<lparr>max_procs := 1, proc_cmp_col := Vss\<rparr>)
     (top_initial\<lparr>new_procs := [Some (top_sample_record 1 10), Some (top_sample_record 2 20), None]\<rparr>))) = [2] \<and>
   length (shown_rows 1 0 (sorted_procs top_sample_env (top_default_config\<lparr>max_procs := 1, proc_cmp_col := Vss\<rparr>)
     (top_initial\<lparr>new_procs := [Some (top_sample_record 1 10), Some (top_sample_record 2 20), None]\<rparr>))) = 1"
proof -
  have "qsort_ok (e_qsort top_sample_env)" by (simp add: top_sample_env_def insertion_sort_ok)
  from top_rows_sorted [OF this, of "top_default_config\<lparr>max_procs := 1, proc_cmp_col := Vss\<rparr>"
      "top_initial\<lparr>new_procs := [Some (top_sample_record 1 10), Some (top_sample_record 2 20), None]\<rparr>"]
  have "length (shown_rows 1 0 (sorted_procs top_sample_env (top_default_config\<lparr>max_procs := 1, proc_cmp_col := Vss\<rparr>)
     (top_initial\<lparr>new_procs := [Some (top_sample_record 1 10), Some (top_sample_record 2 20), None]\<rparr>))) = 1"
    by auto
  moreover have "map p_pid (shown_rows 1 0 (sorted_procs top_sample_env (top_default_config\<lparr>max_procs := 1, proc_cmp_col := Vss\<rparr>)
     (top_initial\<lparr>new_procs := [Some (top_sample_record 1 10), Some (top_sample_record 2 20), None]\<rparr>))) = [2]"
    by (simp add: sorted_procs_def top_sample_env_def insertion_sort_def proc_cmp_def numcmp_def
        set_deltas_def top_sample_record_def top_initial_def)
  ultimately show ?thesis by simp
qed

text \<open>C24. The pool of a whole run of the program accounts for every record: when it ends, after
  \<open>iterations\<close> updates, each record allocated is in the array, on the free list or one of those
  that a sample lost, and the two counters say how many are in use, these included, and how many
  free. A sample loses a record exactly for each process of the listing that is selected, outside of
  thread mode, and whose task directory cannot be opened.\<close>

theorem top_pool_accounting:
  assumes "top_args argv top_default_config = Inr cfg" "qsort_ok (e_qsort e)"
    and "top_main fuel after e samples argv = Some (Inr (Inr (outs, s')))"
  shows "length outs = nat (iterations cfg) \<and> old_procs s' = [] \<and>
    num_used_procs s' = int (length (records (new_procs s')) + (\<Sum>j \<le> length outs. dropped_records cfg (samples j))) \<and>
    num_free_procs s' = int (length (free_procs s')) \<and>
    mallocs s' = length (records (new_procs s')) + length (free_procs s') + (\<Sum>j \<le> length outs. dropped_records cfg (samples j))"
proof -
  obtain s where s: "read_procs e cfg (samples 0) top_initial = Some s"
    and run: "top_loop fuel after e cfg samples 1 (iterations cfg) s = Some (Inr (outs, s'))"
    using assms(1,3) by (auto simp: top_main_def split: if_splits option.splits)
  have "pool_ok top_initial" by (simp add: pool_ok_def top_initial_def)
  from read_procs_reading [OF s this] obtain n where
    n: "reading (dropped_records cfg (samples 0)) (old_procs top_initial) (num_used_procs top_initial) (n, s)" ..
  then have "top_inv (dropped_records cfg (samples 0)) s"
    using packed_records by (auto simp: reading_def top_inv_def top_initial_def)
  from top_loop_inv [OF run this assms(2)]
  have "top_inv (\<Sum>j \<le> length outs. dropped_records cfg (samples j)) s'"
    by (simp add: lessThan_Suc_atMost [symmetric] sum.lessThan_Suc_shift del: sum.lessThan_Suc)
  moreover have "top_inv lost s' \<Longrightarrow> old_procs s' = [] \<and> num_used_procs s' = int (length (records (new_procs s')) + lost) \<and>
      num_free_procs s' = int (length (free_procs s')) \<and> mallocs s' = length (records (new_procs s')) + length (free_procs s') + lost" for lost
    by (auto simp: top_inv_def pool_ok_def)
  ultimately show ?thesis using top_loop_counts [OF run] by blast
qed

text \<open>Process 2 has no task directory.\<close>

definition top_sample_fs :: proc_fs where
  "top_sample_fs = \<lparr>fs_file = \<lambda>f. if f = ''/proc/stat'' then Some ''cpu  1 2 3 4 5 6 7'' else None,
     fs_dir = \<lambda>d. if d = ''/proc'' then Some [''1'', ''2''] else if d = ''/proc/1/task'' then Some [''1''] else None,
     fs_link = \<lambda>f. None, fs_sched = \<lambda>t. 0\<rparr>"

definition top_sample_samples :: "nat \<Rightarrow> proc_fs" where
  "top_sample_samples k = (if k = 0 then top_sample_fs\<lparr>fs_file := \<lambda>f. if f = ''/proc/stat'' then Some ''cpu  1 1 1 1 1 1 1'' else None\<rparr>
     else top_sample_fs)"

theorem top_pool_accounting_witness:
  "case top_main 2 [] top_sample_env top_sample_samples [''-n'', ''1''] of
     Some (Inr (Inr (outs, s'))) \<Rightarrow> length outs = 1 \<and> mallocs s' = 4 \<and> num_used_procs s' = 3 \<and> num_free_procs s' = 1
   | _ \<Rightarrow> False"
proof -
  have "case top_main 2 [] top_sample_env top_sample_samples [''-n'', ''1''] of
      Some (Inr (Inr (outs, s'))) \<Rightarrow> length (records (new_procs s')) = 1 \<and> length (free_procs s') = 1 | _ \<Rightarrow> False"
    by code_simp
  then obtain outs s' where run: "top_main 2 [] top_sample_env top_sample_samples [''-n'', ''1''] =
      Some (Inr (Inr (outs, s')))" and s': "length (records (new_procs s')) = 1" "length (free_procs s') = 1"
    by (auto split: option.splits sum.splits)
  have args: "top_args [''-n'', ''1''] top_default_config = Inr (top_default_config\<lparr>iterations := 1\<rparr>)"
    by code_simp
  have q: "qsort_ok (e_qsort top_sample_env)" by (simp add: top_sample_env_def insertion_sort_ok)
  have d: "dropped_records (top_default_config\<lparr>iterations := 1\<rparr>) (top_sample_samples 0) = 1"
    "dropped_records (top_default_config\<lparr>iterations := 1\<rparr>) (top_sample_samples 1) = 1" by code_simp+
  from top_pool_accounting [OF args q run] run s' d show ?thesis by simp
qed

text \<open>A process whose task directory cannot be opened keeps its record in use outside the array.\<close>

lemma top_drops_record:
  assumes "fs_dir fs (proc_file pid ''/task'') = None" "alloc_proc e s = Some (p, s1)"
  shows "read_process e fs pid (n, s) = Some (n, s1) \<and> num_used_procs s1 = num_used_procs s + 1 \<and>
    new_procs s1 = new_procs s"
  using assms alloc_proc_frame [OF assms(2)] by (simp add: read_process_def Let_def)

text \<open>When no clock tick lies between two samples the percentages divide by zero.\<close>

lemma top_divides_by_zero:
  "cpu_total (top_new_cpu s) = cpu_total (top_old_cpu s) \<Longrightarrow>
    print_procs after e cfg fs s = Inl Divide_error"
  by (simp add: print_procs_def)

text \<open>C29. The stat line of a process is read back: the name between the first opening and the last
  closing parenthesis, whatever parentheses it contains itself, cut at 31 characters, and the
  state, the times, the sizes, the processor and the priority, provided that the line fits in
  the buffer of 256.\<close>

theorem top_reads_stat_line:
  assumes "fs_file fs fn = Some (stat_line pid comm st fls)" "length (stat_line pid comm st fls) \<le> 255"
    and "CHR 0x00 \<notin> set comm" "CHR 10 \<notin> set comm" "\<not> is_space st" "st \<noteq> CHR 0x00" "st \<noteq> CHR 0x29"
    and fls: "fls = as @ int ut # int stm # bs @ int vs # rs # cs @ cp # pr # ds"
    and "length as = 10" "length bs = 7" "length cs = 14" "ut < 2 ^ 64" "stm < 2 ^ 64" "vs < 2 ^ 64"
    and "- (2 ^ 63) \<le> rs" "rs < 2 ^ 63" "- (2 ^ 31) \<le> cp" "cp < 2 ^ 31" "- (2 ^ 31) \<le> pr" "pr < 2 ^ 31"
  shows "read_stat e fs fn p = p\<lparr>p_tname := take 31 comm, p_state := st, p_utime := of_nat ut,
    p_stime := of_nat stm, p_vss := to_s64 (int vs), p_rss := rs, p_cpu := cp, p_prs := pr\<rparr>"
proof -
  have st: "st \<notin> {CHR 0x00, CHR 10, CHR 0x29}"
    using assms(5-7) by (auto simp: is_space_def)
  have vals: "strtol_val (rs < 0) (nat \<bar>rs\<bar>) = rs" "strtol_val (cp < 0) (nat \<bar>cp\<bar>) = cp"
    "strtol_val (pr < 0) (nat \<bar>pr\<bar>) = pr" "to_s64 rs = rs" "to_s32 cp = cp" "to_s32 pr = pr"
    using assms(15-20) by (simp_all add: strtol_val_id c_int)
  show ?thesis
    unfolding read_stat_split [OF assms(1-4) st] unfolding fls
      scan_stat_fields [OF assms(5) assms(9-14)]
    by (simp add: stat_assign_def vals)
qed

definition top_sample_line :: string where
  "top_sample_line = stat_line 7 ''a) (b'' (CHR ''S'')
     (replicate 10 1 @ int 5 # int 6 # replicate 7 0 @ int 4096 # 12 # replicate 14 0 @ 2 # 0 # [])"

lemma top_reads_stat_line_witness:
  "p_tname (read_stat top_sample_env (top_sample_fs\<lparr>fs_file := \<lambda>_. Some top_sample_line\<rparr>) ''f''
     (top_sample_record 7 0)) = ''a) (b''"
proof -
  have "length (int_fields (replicate 10 1 @ int 5 # int 6 # replicate 7 0 @ int 4096 # 12 # replicate 14 0 @ 2 # 0 # []))
      \<le> 185"
    by (rule order_trans [OF length_int_fields]) auto
  moreover have "length (dec_int 7) \<le> 4"
    using dec_digits_length_4 [of 7] by (simp add: dec_int_def)
  ultimately have "length top_sample_line \<le> 255"
    unfolding top_sample_line_def stat_line_def by simp
  then show ?thesis
    using top_reads_stat_line [of "top_sample_fs\<lparr>fs_file := \<lambda>_. Some top_sample_line\<rparr>" "''f''" 7 "''a) (b''"
        "CHR ''S''" _ "replicate 10 1" 5 6 "replicate 7 0" 4096 12 "replicate 14 0" 2 0 "[]" top_sample_env
        "top_sample_record 7 0", OF _ _ _ _ _ _ _ refl]
    by (simp add: is_space_def flip: top_sample_line_def del: replicate.simps of_nat_numeral)
qed

end
