(* ===== verification/V4l.thy ===== *)
theory V4l
  imports Interfaces
begin

text \<open>
  The video capture driver driver/myv4l/drv/drv_v4l.c: the open and streaming state, formats and
  inputs, the videobuf callbacks, and probe and remove. The videobuf library is not part of the
  source: each of its calls is a function on the device, since it calls back into the driver;
  what it keeps of the driver's own state is the hypothesis \<open>videobuf_ok\<close>. Any number of files make
  calls, one call after the other; which of them are open is kept beside the device.
\<close>

section \<open>Data\<close>

datatype myv4l_fmt_t = MYV4L_PL_YUV422 | MYV4L_PL_YUV420 | MYV4L_MB_YUV420

record fmt =
  f_name :: string
  f_fourcc :: u32
  f_output_fmt :: myv4l_fmt_t
  f_depth :: u32
  f_width :: u32
  f_height :: u32

definition NUM_INPUTS :: u32 where
  "NUM_INPUTS = 2"

definition MIN_WIDTH :: u32 where
  "MIN_WIDTH = 32"

definition MIN_HEIGHT :: u32 where
  "MIN_HEIGHT = 32"

definition MAX_WIDTH :: u32 where
  "MAX_WIDTH = 4096"

definition MAX_HEIGHT :: u32 where
  "MAX_HEIGHT = 4096"

definition MAX_BUFFER :: u32 where
  "MAX_BUFFER = 32 * 1024 * 1024"

text \<open>The four-character code \<open>NV12\<close>.\<close>

definition myv4l_fmt :: fmt where
  "myv4l_fmt = \<lparr>f_name = ''planar YUV420'', f_fourcc = 842094158, f_output_fmt = MYV4L_PL_YUV420,
     f_depth = 12, f_width = 720, f_height = 480\<rparr>"

datatype vb_state = NEEDS_INIT | PREPARED | QUEUED | VB_ACTIVE | VB_DONE | VB_ERROR | VB_IDLE

record vbuf =
  b_state :: vb_state
  b_size :: u32
  b_baddr :: nat
  b_bsize :: u32
  b_width :: u32
  b_height :: u32
  b_field :: nat
  b_boff :: nat
  b_fmt :: "fmt option"

text \<open>\<open>'q\<close> is the state of the videobuf queue; buffers on the active list are named by number.\<close>

record 'q myv4l_dev =
  v_input :: int
  v_fmt :: fmt
  v_width :: u32
  v_height :: u32
  v_frame_size :: u32
  v_queue :: 'q
  v_field :: nat
  v_active :: "nat list"
  v_frame :: int
  v_ini_jiffies :: int
  v_ms :: u32
  v_jiffies :: nat
  v_generating :: bool
  v_opened :: int
  v_fps :: "u32 \<times> u32"

text \<open>The calls into videobuf the driver makes; results are an error or a number.\<close>

type_synonym 'q vb_call = "'q myv4l_dev \<Rightarrow> 'q myv4l_dev \<times> int kresult"

record 'q videobuf =
  vb_read_stream :: "nat \<Rightarrow> bool \<Rightarrow> 'q vb_call"
  vb_poll_stream :: "'q vb_call"
  vb_stop :: "'q myv4l_dev \<Rightarrow> 'q myv4l_dev"
  vb_mmap_free :: "'q myv4l_dev \<Rightarrow> 'q myv4l_dev"
  vb_mmap_mapper :: "'q vb_call"
  vb_reqbufs :: "nat \<Rightarrow> 'q vb_call"
  vb_querybuf :: "nat \<Rightarrow> 'q vb_call"
  vb_qbuf :: "nat \<Rightarrow> 'q vb_call"
  vb_dqbuf :: "bool \<Rightarrow> 'q vb_call"
  vb_cgmbuf :: "'q vb_call"
  vb_streamon :: "'q vb_call"
  vb_streamoff :: "'q vb_call"

section \<open>The state of streaming and the file operations\<close>

text \<open>The variable \<open>first_flag\<close>, which stopping clears and nothing sets, stays 0 and is left out.\<close>

definition is_generating :: "'q myv4l_dev \<Rightarrow> bool" where
  "is_generating d = v_generating d"

definition start_generating :: "'q myv4l_dev \<Rightarrow> 'q myv4l_dev" where
  "start_generating d = d\<lparr>v_generating := True\<rparr>"

definition stop_generating :: "'q myv4l_dev \<Rightarrow> 'q myv4l_dev" where
  "stop_generating d = d\<lparr>v_generating := False\<rparr>"

definition myv4l_read :: "'q videobuf \<Rightarrow> nat \<Rightarrow> bool \<Rightarrow> 'q vb_call" where
  "myv4l_read vb n nonblock d = vb_read_stream vb n nonblock (start_generating d)"

definition myv4l_poll :: "'q videobuf \<Rightarrow> 'q vb_call" where
  "myv4l_poll vb d = vb_poll_stream vb (start_generating d)"

definition myv4l_open :: "'q vb_call" where
  "myv4l_open d = (if v_opened d = 1 then (d, Inl EBUSY)
     else (d\<lparr>v_input := 0, v_opened := 1\<rparr>, Inr 0))"

definition myv4l_close :: "'q videobuf \<Rightarrow> 'q vb_call" where
  "myv4l_close vb d = (stop_generating ((vb_mmap_free vb (vb_stop vb d))\<lparr>v_opened := 0\<rparr>), Inr 0)"

definition myv4l_mmap :: "'q videobuf \<Rightarrow> 'q vb_call" where
  "myv4l_mmap vb d = vb_mmap_mapper vb d"

section \<open>Capabilities, formats and buffers\<close>

definition VIDEO_CAPTURE :: nat where
  "VIDEO_CAPTURE = 1"

record v4l_capability =
  cap_driver :: string
  cap_card :: string
  cap_bus_info :: string
  cap_version :: nat
  cap_flags :: "string list"

definition vidioc_querycap :: "string \<Rightarrow> v4l_capability" where
  "vidioc_querycap dev_name = \<lparr>cap_driver = ''myv4l'', cap_card = ''myv4l'', cap_bus_info = take 31 dev_name,
     cap_version = 1 * 65536 + 0 * 256 + 0, cap_flags = [''VIDEO_CAPTURE'', ''STREAMING'', ''READWRITE'']\<rparr>"

definition vidioc_enum_fmt_vid_cap :: "'q myv4l_dev \<Rightarrow> string \<times> u32" where
  "vidioc_enum_fmt_vid_cap d = (take 31 (f_name (v_fmt d)), f_fourcc (v_fmt d))"

record pix_format =
  px_width :: u32
  px_height :: u32
  px_field :: nat
  px_pixelformat :: u32
  px_bytesperline :: u32
  px_sizeimage :: u32

definition vidioc_g_fmt_vid_cap :: "'q myv4l_dev \<Rightarrow> pix_format" where
  "vidioc_g_fmt_vid_cap d =
     (let bpl = drop_bit 3 (v_width d * f_depth (v_fmt d)) in
      \<lparr>px_width = v_width d, px_height = v_height d, px_field = v_field d,
       px_pixelformat = f_fourcc (v_fmt d), px_bytesperline = bpl, px_sizeimage = v_height d * bpl\<rparr>)"

text \<open>Setting and trying a format answer 0 and change nothing, and so do the controls.\<close>

definition vidioc_try_fmt_vid_cap :: "'q vb_call" where
  "vidioc_try_fmt_vid_cap d = (d, Inr 0)"

definition vidioc_s_fmt_vid_cap :: "'q vb_call" where
  "vidioc_s_fmt_vid_cap d = (d, Inr 0)"

definition vidioc_reqbufs :: "'q videobuf \<Rightarrow> nat \<Rightarrow> 'q vb_call" where
  "vidioc_reqbufs vb n d = vb_reqbufs vb n d"

definition vidioc_querybuf :: "'q videobuf \<Rightarrow> nat \<Rightarrow> 'q vb_call" where
  "vidioc_querybuf vb i d = vb_querybuf vb i d"

definition vidioc_qbuf :: "'q videobuf \<Rightarrow> nat \<Rightarrow> 'q vb_call" where
  "vidioc_qbuf vb i d = vb_qbuf vb i d"

definition vidioc_dqbuf :: "'q videobuf \<Rightarrow> bool \<Rightarrow> 'q vb_call" where
  "vidioc_dqbuf vb nonblock d = vb_dqbuf vb nonblock d"

definition vidiocgmbuf :: "'q videobuf \<Rightarrow> 'q vb_call" where
  "vidiocgmbuf vb d = vb_cgmbuf vb d"

section \<open>Streaming, inputs and parameters\<close>

definition reset_counters :: "nat \<Rightarrow> 'q myv4l_dev \<Rightarrow> 'q myv4l_dev" where
  "reset_counters now d = d\<lparr>v_ms := 0, v_jiffies := now, v_frame := 0, v_ini_jiffies := to_s32 (int now)\<rparr>"

definition vidioc_streamon :: "'q videobuf \<Rightarrow> nat \<Rightarrow> nat \<Rightarrow> 'q vb_call" where
  "vidioc_streamon vb now i d =
     (if i \<noteq> VIDEO_CAPTURE then (d, Inl EINVAL)
      else if is_generating d then (d, Inr 0)
      else (case vb_streamon vb (reset_counters now d) of (d1, ret) \<Rightarrow>
        if ret \<noteq> Inr 0 then (d1, ret) else (start_generating d1, Inr 0)))"

definition vidioc_streamoff :: "'q videobuf \<Rightarrow> nat \<Rightarrow> nat \<Rightarrow> 'q vb_call" where
  "vidioc_streamoff vb now i d =
     (if \<not> is_generating d then (d, Inr 0)
      else (let d1 = reset_counters now (stop_generating d) in
        if i \<noteq> VIDEO_CAPTURE then (d1, Inl EINVAL)
        else (case vb_streamoff vb d1 of (d2, ret) \<Rightarrow> if ret \<noteq> Inr 0 then (d2, ret) else (d2, Inr 0))))"

definition vidioc_enum_input :: "u32 \<Rightarrow> string kresult" where
  "vidioc_enum_input index = (if NUM_INPUTS - 1 < index then Inl EINVAL else Inr ''CAMERA'')"

definition vidioc_g_input :: "'q myv4l_dev \<Rightarrow> u32" where
  "vidioc_g_input d = word_of_int (v_input d)"

definition vidioc_s_input :: "u32 \<Rightarrow> 'q vb_call" where
  "vidioc_s_input i d = (if NUM_INPUTS - 1 < i then (d, Inl EINVAL)
     else (d\<lparr>v_input := to_s32 (uint i)\<rparr>, Inr 0))"

definition vidioc_queryctrl :: "'q vb_call" where
  "vidioc_queryctrl d = (d, Inr 0)"

definition vidioc_g_ctrl :: "'q vb_call" where
  "vidioc_g_ctrl d = (d, Inr 0)"

definition vidioc_s_ctrl :: "'q vb_call" where
  "vidioc_s_ctrl d = (d, Inr 0)"

text \<open>\<open>parms\<close> is the frame interval in the caller's structure, of which only a capture type is used.\<close>

definition vidioc_g_parm :: "nat \<Rightarrow> u32 \<times> u32 \<Rightarrow> 'q myv4l_dev \<Rightarrow> u32 \<times> u32" where
  "vidioc_g_parm t parms d = (if t = VIDEO_CAPTURE then v_fps d else parms)"

definition vidioc_s_parm :: "nat \<Rightarrow> u32 \<times> u32 \<Rightarrow> 'q vb_call" where
  "vidioc_s_parm t parms d = (if t = VIDEO_CAPTURE then d\<lparr>v_fps := parms\<rparr> else d, Inr 0)"

section \<open>The callbacks of videobuf\<close>

text \<open>\<open>while (*size * *count > MAX_BUFFER) (*count)--;\<close>\<close>

function buffer_count_loop :: "u32 \<Rightarrow> u32 \<Rightarrow> u32" where
  "buffer_count_loop sz cnt =
     (if MAX_BUFFER < sz * cnt then buffer_count_loop sz (cnt - 1) else cnt)"
  by pat_completeness auto
termination
proof (relation "measure (\<lambda>(_, c). unat c)", goal_cases)
  case (2 sz cnt)
  then have "cnt \<noteq> 0" by auto
  then have "unat (cnt - 1) < unat cnt"
    by (metis measure_unat)
  then show ?case by simp
qed simp

declare buffer_count_loop.simps [simp del]

definition buffer_size :: "'q myv4l_dev \<Rightarrow> u32" where
  "buffer_size d = (case f_output_fmt (v_fmt d) of
       MYV4L_MB_YUV420 \<Rightarrow> v_width d * v_height d * 2
     | MYV4L_PL_YUV420 \<Rightarrow> v_width d * v_height d * 2
     | MYV4L_PL_YUV422 \<Rightarrow> v_width d * v_height d * 2)"

definition buffer_setup :: "u32 \<Rightarrow> 'q myv4l_dev \<Rightarrow> u32 \<times> u32 \<times> 'q myv4l_dev" where
  "buffer_setup cnt d =
     (let sz = buffer_size d;
          c1 = (if cnt < 3 then 3 else if 5 < cnt then 5 else cnt)
      in (buffer_count_loop sz c1, sz, d\<lparr>v_frame_size := sz\<rparr>))"

definition free_buffer :: "vbuf \<Rightarrow> vbuf" where
  "free_buffer b = b\<lparr>b_state := NEEDS_INIT\<rparr>"

text \<open>\<open>iolock\<close> is the answer of \<open>videobuf_iolock\<close>, \<open>dma\<close> the bus address of the buffer.\<close>

definition buffer_prepare ::
  "int kresult \<Rightarrow> nat \<Rightarrow> nat \<Rightarrow> 'q myv4l_dev \<Rightarrow> vbuf \<Rightarrow> vbuf \<times> int kresult" where
  "buffer_prepare iolock dma fld d b =
     (if v_width d < MIN_WIDTH \<or> MAX_WIDTH < v_width d \<or> v_height d < MIN_HEIGHT \<or> MAX_HEIGHT < v_height d
      then (b, Inl EINVAL)
      else (let b1 = b\<lparr>b_size := v_frame_size d\<rparr> in
        if b_baddr b1 \<noteq> 0 \<and> b_bsize b1 < b_size b1 then (b1, Inl EINVAL)
        else (let b2 = b1\<lparr>b_fmt := Some (v_fmt d), b_width := v_width d, b_height := v_height d, b_field := fld\<rparr> in
          case (if b_state b2 = NEEDS_INIT then iolock else Inr 0) of
            Inl e \<Rightarrow> (free_buffer b2, Inl e)
          | Inr _ \<Rightarrow> (b2\<lparr>b_boff := dma, b_state := PREPARED\<rparr>, Inr 0))))"

definition buffer_queue :: "nat \<Rightarrow> 'q myv4l_dev \<Rightarrow> vbuf \<Rightarrow> 'q myv4l_dev \<times> vbuf" where
  "buffer_queue i d b = (d\<lparr>v_active := v_active d @ [i]\<rparr>, b\<lparr>b_state := QUEUED\<rparr>)"

definition buffer_release :: "vbuf \<Rightarrow> vbuf" where
  "buffer_release b = free_buffer b"

section \<open>Probe and remove\<close>

datatype v4l_res = Dev_mem | V4l2_dev | Video_dev | Video_registered

text \<open>
  What the system answers: whether \<open>kzalloc\<close> and \<open>video_device_alloc\<close> give memory, and the
  results of the two registrations. The last component of the result is the list of resources
  still held, \<open>video_nr\<close> the number of the next device node.
\<close>

record v4l_answers =
  ans_kzalloc :: bool
  ans_v4l2_register :: "errno option"
  ans_video_alloc :: bool
  ans_video_register :: "errno option"

definition myv4l_new_dev :: "'q \<Rightarrow> 'q myv4l_dev" where
  "myv4l_new_dev q = \<lparr>v_input = 0, v_fmt = myv4l_fmt, v_width = f_width myv4l_fmt,
     v_height = f_height myv4l_fmt, v_frame_size = 0, v_queue = q, v_field = 1, v_active = [], v_frame = 0,
     v_ini_jiffies = 0, v_ms = 0, v_jiffies = 0, v_generating = False, v_opened = 0, v_fps = (0, 0)\<rparr>"

definition myv4l_probe ::
  "v4l_answers \<Rightarrow> 'q \<Rightarrow> u32 \<Rightarrow> (errno + 'q myv4l_dev) \<times> v4l_res list \<times> u32" where
  "myv4l_probe ans q video_nr =
     (if \<not> ans_kzalloc ans then (Inl ENOMEM, [], video_nr)
      else (let held = [Dev_mem] in case ans_v4l2_register ans of
          Some e \<Rightarrow> (Inl e, remove1 Dev_mem held, video_nr)
        | None \<Rightarrow> (let held = V4l2_dev # held in
            if \<not> ans_video_alloc ans
            then (Inl ENOMEM, remove1 Dev_mem (remove1 V4l2_dev held), video_nr)
            else (let held = Video_dev # held in case ans_video_register ans of
                Some e \<Rightarrow> (Inl e, remove1 Dev_mem (remove1 V4l2_dev (remove1 Video_dev held)), video_nr)
              | None \<Rightarrow> (Inr (myv4l_new_dev q), Video_registered # held,
                  (if video_nr \<noteq> -1 then video_nr + 1 else video_nr))))))"

text \<open>Unregistering the video device also frees it, through its release function.\<close>

definition myv4l_remove :: "v4l_res list \<Rightarrow> v4l_res list" where
  "myv4l_remove held = remove1 Dev_mem (remove1 V4l2_dev (remove1 Video_dev (remove1 Video_registered held)))"

datatype v4l_module = Plat_device | Plat_driver

definition myv4l_init :: "bool \<Rightarrow> bool \<Rightarrow> int \<times> v4l_module list" where
  "myv4l_init device_ok driver_ok =
     (if \<not> device_ok then (-1, [])
      else if \<not> driver_ok then (-1, [Plat_device])
      else (0, [Plat_driver, Plat_device]))"

definition myv4l_exit :: "v4l_module list \<Rightarrow> v4l_module list" where
  "myv4l_exit held = remove1 Plat_device (remove1 Plat_driver held)"

section \<open>The life of the device\<close>

datatype v4l_call = C_open | C_close | C_read nat bool | C_poll | C_mmap | C_reqbufs nat | C_querybuf nat
  | C_qbuf nat | C_dqbuf bool | C_cgmbuf | C_streamon nat nat | C_streamoff nat nat | C_s_input u32
  | C_s_parm nat "u32 \<times> u32" | C_s_fmt | C_try_fmt | C_ctrl

fun v4l_do :: "'q videobuf \<Rightarrow> v4l_call \<Rightarrow> 'q vb_call" where
  "v4l_do vb C_open d = myv4l_open d"
| "v4l_do vb C_close d = myv4l_close vb d"
| "v4l_do vb (C_read n nb) d = myv4l_read vb n nb d"
| "v4l_do vb C_poll d = myv4l_poll vb d"
| "v4l_do vb C_mmap d = myv4l_mmap vb d"
| "v4l_do vb (C_reqbufs n) d = vidioc_reqbufs vb n d"
| "v4l_do vb (C_querybuf i) d = vidioc_querybuf vb i d"
| "v4l_do vb (C_qbuf i) d = vidioc_qbuf vb i d"
| "v4l_do vb (C_dqbuf nb) d = vidioc_dqbuf vb nb d"
| "v4l_do vb C_cgmbuf d = vidiocgmbuf vb d"
| "v4l_do vb (C_streamon now i) d = vidioc_streamon vb now i d"
| "v4l_do vb (C_streamoff now i) d = vidioc_streamoff vb now i d"
| "v4l_do vb (C_s_input i) d = vidioc_s_input i d"
| "v4l_do vb (C_s_parm t p) d = vidioc_s_parm t p d"
| "v4l_do vb C_s_fmt d = vidioc_s_fmt_vid_cap d"
| "v4l_do vb C_try_fmt d = vidioc_try_fmt_vid_cap d"
| "v4l_do vb C_ctrl d = vidioc_s_ctrl d"

text \<open>
  The device together with the files that are open on it, calls taking place one after the other. A
  file is open from an \<open>open\<close> that returned no error to its \<open>close\<close>; the other calls come from a file
  that is open. Nothing is assumed of the number of files.
\<close>

inductive v4l_reach :: "'q videobuf \<Rightarrow> 'q \<Rightarrow> nat set \<Rightarrow> 'q myv4l_dev \<Rightarrow> bool" for vb q where
  start: "v4l_reach vb q {} (myv4l_new_dev q)"
| open_ok: "v4l_reach vb q fs d \<Longrightarrow> f \<notin> fs \<Longrightarrow> v4l_do vb C_open d = (d', Inr r) \<Longrightarrow> v4l_reach vb q (insert f fs) d'"
| open_error: "v4l_reach vb q fs d \<Longrightarrow> f \<notin> fs \<Longrightarrow> v4l_do vb C_open d = (d', Inl e) \<Longrightarrow> v4l_reach vb q fs d'"
| close: "v4l_reach vb q fs d \<Longrightarrow> f \<in> fs \<Longrightarrow> v4l_reach vb q (fs - {f}) (fst (v4l_do vb C_close d))"
| call: "v4l_reach vb q fs d \<Longrightarrow> f \<in> fs \<Longrightarrow> c \<noteq> C_open \<Longrightarrow> c \<noteq> C_close \<Longrightarrow> v4l_reach vb q fs (fst (v4l_do vb c d))"

text \<open>
  What the library keeps: it changes the device through the driver's callbacks only, which set
  the frame size to the computed one and append to the active list.
\<close>

definition keeps :: "'q myv4l_dev \<Rightarrow> 'q myv4l_dev \<Rightarrow> bool" where
  "keeps d d' \<longleftrightarrow> v_input d' = v_input d \<and> v_fmt d' = v_fmt d \<and> v_width d' = v_width d \<and>
     v_height d' = v_height d \<and> v_generating d' = v_generating d \<and> v_opened d' = v_opened d \<and>
     v_fps d' = v_fps d \<and> (v_frame_size d' = v_frame_size d \<or> v_frame_size d' = buffer_size d)"

definition videobuf_ok :: "'q videobuf \<Rightarrow> bool" where
  "videobuf_ok vb \<longleftrightarrow> (\<forall>d. keeps d (vb_stop vb d) \<and> keeps d (vb_mmap_free vb d) \<and>
     keeps d (fst (vb_poll_stream vb d)) \<and> keeps d (fst (vb_mmap_mapper vb d)) \<and>
     keeps d (fst (vb_cgmbuf vb d)) \<and> keeps d (fst (vb_streamon vb d)) \<and>
     keeps d (fst (vb_streamoff vb d)) \<and>
     (\<forall>n b. keeps d (fst (vb_read_stream vb n b d)) \<and> keeps d (fst (vb_reqbufs vb n d)) \<and>
        keeps d (fst (vb_querybuf vb n d)) \<and> keeps d (fst (vb_qbuf vb n d)) \<and>
        keeps d (fst (vb_dqbuf vb b d))))"

definition v4l_wf :: "'q myv4l_dev \<Rightarrow> bool" where
  "v4l_wf d \<longleftrightarrow> v_fmt d = myv4l_fmt \<and> v_width d = 720 \<and> v_height d = 480 \<and>
     v_frame_size d \<in> {0, 691200} \<and> v_opened d \<in> {0, 1} \<and> v_input d \<in> {0, 1} \<and>
     (v_generating d \<longrightarrow> v_opened d = 1)"

lemma v4l_wf_keeps: "v4l_wf d \<Longrightarrow> keeps d d' \<Longrightarrow> v4l_wf d'"
  by (auto simp: v4l_wf_def keeps_def buffer_size_def myv4l_fmt_def)

lemma v4l_wf_start: "v4l_wf d \<Longrightarrow> v_opened d = 1 \<Longrightarrow> v4l_wf (start_generating d)"
  by (simp add: v4l_wf_def start_generating_def)

lemma v4l_wf_stop: "v4l_wf d \<Longrightarrow> v4l_wf (stop_generating d)"
  by (simp add: v4l_wf_def stop_generating_def)

lemma v4l_wf_reset: "v4l_wf (reset_counters now d) = v4l_wf d"
  by (simp add: v4l_wf_def reset_counters_def)

lemma s_input_wf: "v4l_wf d \<Longrightarrow> v4l_wf (fst (vidioc_s_input i d))"
proof -
  assume d: "v4l_wf d"
  have "i \<le> 1 \<Longrightarrow> i = 0 \<or> i = 1"
    by (auto simp: word_le_nat_alt word_unat_eq_iff le_Suc_eq)
  then show ?thesis
    using d by (auto simp: vidioc_s_input_def NUM_INPUTS_def v4l_wf_def to_s32_def linorder_not_less)
qed

lemma keeps_opened: "keeps d d' \<Longrightarrow> v_opened d' = v_opened d"
  by (simp add: keeps_def)

lemma v4l_do_wf:
  assumes "videobuf_ok vb" "v4l_wf d" "c = C_open \<or> v_opened d = 1"
  shows "v4l_wf (fst (v4l_do vb c d))"
proof -
  have ok: "keeps d' (vb_stop vb d')" "keeps d' (vb_mmap_free vb d')" "keeps d' (fst (vb_poll_stream vb d'))"
    "keeps d' (fst (vb_mmap_mapper vb d'))" "keeps d' (fst (vb_cgmbuf vb d'))"
    "keeps d' (fst (vb_streamon vb d'))" "keeps d' (fst (vb_streamoff vb d'))"
    "keeps d' (fst (vb_read_stream vb n b d'))" "keeps d' (fst (vb_reqbufs vb n d'))"
    "keeps d' (fst (vb_querybuf vb n d'))" "keeps d' (fst (vb_qbuf vb n d'))"
    "keeps d' (fst (vb_dqbuf vb b d'))" for d' n b
    using assms(1) unfolding videobuf_ok_def by blast+
  have op: "c \<noteq> C_open \<Longrightarrow> v_opened d = 1" using assms(3) by blast
  show ?thesis
  proof (cases c)
    case C_open
    then show ?thesis using assms(2) by (auto simp: myv4l_open_def v4l_wf_def)
  next
    case C_close
    have "v4l_wf (vb_mmap_free vb (vb_stop vb d))"
      by (rule v4l_wf_keeps [OF v4l_wf_keeps [OF assms(2) ok(1)] ok(2)])
    then show ?thesis using C_close by (auto simp: myv4l_close_def v4l_wf_def stop_generating_def)
  next
    case (C_streamon now i)
    define r where "r = vb_streamon vb (reset_counters now d)"
    have "v4l_wf (reset_counters now d)" "v_opened (reset_counters now d) = 1"
      using assms(2) op C_streamon by (simp_all add: v4l_wf_reset) (simp add: reset_counters_def)
    then have "v4l_wf (fst r)" "v_opened (fst r) = 1"
      using v4l_wf_keeps [OF _ ok(6)] keeps_opened [OF ok(6)] by (simp_all add: r_def)
    then show ?thesis
      using C_streamon assms(2) v4l_wf_start
      by (auto simp: vidioc_streamon_def case_prod_unfold simp flip: r_def)
  next
    case (C_streamoff now i)
    have d1: "v4l_wf (reset_counters now (stop_generating d))"
      using assms(2) v4l_wf_stop v4l_wf_reset by blast
    then have "v4l_wf (fst (vb_streamoff vb (reset_counters now (stop_generating d))))"
      by (rule v4l_wf_keeps [OF _ ok(7)])
    then show ?thesis
      using C_streamoff assms(2) d1 by (auto simp: vidioc_streamoff_def Let_def case_prod_unfold)
  next
    case (C_s_input i)
    then show ?thesis using s_input_wf assms(2) by simp
  next
    case (C_s_parm t p)
    then show ?thesis using assms(2) by (simp add: vidioc_s_parm_def v4l_wf_def)
  next
    case (C_read n nb)
    then have "v4l_wf (start_generating d)" using v4l_wf_start assms(2) op by blast
    then show ?thesis using C_read v4l_wf_keeps [OF _ ok(8)] by (simp add: myv4l_read_def)
  next
    case C_poll
    then have "v4l_wf (start_generating d)" using v4l_wf_start assms(2) op by blast
    then show ?thesis using C_poll v4l_wf_keeps [OF _ ok(3)] by (simp add: myv4l_poll_def)
  qed (simp_all add: myv4l_mmap_def vidioc_reqbufs_def vidioc_querybuf_def vidioc_qbuf_def
      vidioc_dqbuf_def vidiocgmbuf_def vidioc_s_fmt_vid_cap_def vidioc_try_fmt_vid_cap_def
      vidioc_s_ctrl_def assms(2) v4l_wf_keeps [OF assms(2) ok(4)] v4l_wf_keeps [OF assms(2) ok(5)]
      v4l_wf_keeps [OF assms(2) ok(9)] v4l_wf_keeps [OF assms(2) ok(10)]
      v4l_wf_keeps [OF assms(2) ok(11)] v4l_wf_keeps [OF assms(2) ok(12)])
qed

text \<open>Calls other than opening and closing leave the device open.\<close>

lemma v4l_do_opened:
  assumes "videobuf_ok vb" "c \<noteq> C_open" "c \<noteq> C_close"
  shows "v_opened (fst (v4l_do vb c d)) = v_opened d"
proof -
  have ok: "v_opened (fst (vb_poll_stream vb d')) = v_opened d'" "v_opened (fst (vb_mmap_mapper vb d')) = v_opened d'"
    "v_opened (fst (vb_cgmbuf vb d')) = v_opened d'" "v_opened (fst (vb_streamon vb d')) = v_opened d'"
    "v_opened (fst (vb_streamoff vb d')) = v_opened d'" "v_opened (fst (vb_read_stream vb n b d')) = v_opened d'"
    "v_opened (fst (vb_reqbufs vb n d')) = v_opened d'" "v_opened (fst (vb_querybuf vb n d')) = v_opened d'"
    "v_opened (fst (vb_qbuf vb n d')) = v_opened d'" "v_opened (fst (vb_dqbuf vb b d')) = v_opened d'" for d' n b
    using assms(1) unfolding videobuf_ok_def keeps_def by blast+
  show ?thesis
    using assms(2,3)
    by (cases c) (simp_all add: ok myv4l_read_def myv4l_poll_def myv4l_mmap_def vidioc_reqbufs_def vidioc_querybuf_def
      vidioc_qbuf_def vidioc_dqbuf_def vidiocgmbuf_def vidioc_streamon_def vidioc_streamoff_def vidioc_s_input_def
      vidioc_s_parm_def vidioc_s_fmt_vid_cap_def vidioc_try_fmt_vid_cap_def vidioc_s_ctrl_def start_generating_def
      stop_generating_def reset_counters_def Let_def case_prod_unfold)
qed

definition v4l_files_ok :: "nat set \<Rightarrow> 'q myv4l_dev \<Rightarrow> bool" where
  "v4l_files_ok fs d \<longleftrightarrow> (fs = {} \<and> v_opened d = 0) \<or> ((\<exists>f. fs = {f}) \<and> v_opened d = 1)"

lemma v4l_reach_files:
  assumes "videobuf_ok vb"
  shows "v4l_reach vb q fs d \<Longrightarrow> v4l_wf d \<and> v4l_files_ok fs d"
proof (induction rule: v4l_reach.induct)
  case start
  show ?case by (simp add: v4l_wf_def v4l_files_ok_def myv4l_new_dev_def myv4l_fmt_def)
next
  case (open_ok fs d f d' r)
  then have "v4l_wf d'" using v4l_do_wf [OF assms, of d C_open] by simp
  moreover have "v4l_files_ok (insert f fs) d'" using open_ok by (auto simp: myv4l_open_def v4l_files_ok_def split: if_splits)
  ultimately show ?case by simp
next
  case (open_error fs d f d' e)
  then show ?case by (auto simp: myv4l_open_def split: if_splits)
next
  case (close fs d f)
  then have "v_opened d = 1" "fs - {f} = {}" by (auto simp: v4l_files_ok_def)
  then show ?case using v4l_do_wf [OF assms, of d C_close] close.IH
    by (simp add: v4l_files_ok_def myv4l_close_def stop_generating_def)
next
  case (call fs d f c)
  then have "v_opened d = 1" by (auto simp: v4l_files_ok_def)
  then show ?case using v4l_do_wf [OF assms, of d c] v4l_do_opened [OF assms call.hyps(3,4)] call.IH
    by (simp add: v4l_files_ok_def)
qed

section \<open>The number of buffers\<close>

lemma buffer_count_loop_unat:
  "unat sz * unat cnt < 2 ^ 32 \<Longrightarrow>
    unat (buffer_count_loop sz cnt) =
      (if sz = 0 then unat cnt else min (unat cnt) (33554432 div unat sz))"
proof (induction sz cnt rule: buffer_count_loop.induct)
  case (1 sz cnt)
  have prod: "unat (sz * cnt) = unat sz * unat cnt"
    using 1(2) by (intro unat_mult_lem [THEN iffD1]) simp
  have test: "MAX_BUFFER < sz * cnt \<longleftrightarrow> 33554432 < unat sz * unat cnt"
    unfolding word_less_nat_alt prod by (simp add: MAX_BUFFER_def)
  show ?case
  proof (cases "MAX_BUFFER < sz * cnt")
    case True
    then have pos: "0 < unat cnt" "0 < unat sz" using test by (auto intro: Nat.gr0I)
    have dec: "unat (cnt - 1) = unat cnt - 1"
      using pos by (metis One_nat_def unat_minus_one unat_gt_0)
    then have "unat sz * unat (cnt - 1) < 2 ^ 32"
      using 1(2) by (simp add: diff_mult_distrib2)
    then have IH: "unat (buffer_count_loop sz (cnt - 1)) = min (unat cnt - 1) (33554432 div unat sz)"
      using 1(1) [OF True] pos dec by (auto simp: unat_gt_0)
    have "33554432 div unat sz < unat cnt"
      using True test pos(2) by (simp add: less_mult_imp_div_less mult.commute)
    then have "min (unat cnt - 1) (33554432 div unat sz) = min (unat cnt) (33554432 div unat sz)"
      by linarith
    then show ?thesis using IH True pos by (subst buffer_count_loop.simps) auto
  next
    case False
    then have "unat cnt \<le> 33554432 div unat sz" if "sz \<noteq> 0"
      using test that by (simp add: less_eq_div_iff_mult_less_eq unat_gt_0 mult.commute)
    then show ?thesis using False by (subst buffer_count_loop.simps) auto
  qed
qed

section \<open>Properties\<close>

text \<open>C13. Every state the device reaches by calls of any number of files, whatever the videobuf library
  does through the callbacks, is well formed: the format is the fixed one of 720 by 480, the
  frame size is unset or the size of two bytes for each pixel, the input is 0 or 1, and frames are
  generated only while a file is open. At most one file is open at a time, and the state tells whether one
  is; while one is, an attempt to open is refused as busy and leaves the device as it is.\<close>

theorem v4l_reachable_wf:
  assumes "videobuf_ok vb" "v4l_reach vb q fs d"
  shows "v4l_wf d \<and> (\<forall>f \<in> fs. \<forall>g \<in> fs. f = g) \<and> v_opened d = (if fs = {} then 0 else 1) \<and>
    (v_generating d \<longrightarrow> fs \<noteq> {}) \<and>
    (fs \<noteq> {} \<longrightarrow> v4l_do vb C_open d = (d, Inl EBUSY)) \<and> (fs = {} \<longrightarrow> snd (v4l_do vb C_open d) = Inr 0)"
proof -
  have "v4l_wf d" "v4l_files_ok fs d" using v4l_reach_files [OF assms] by simp_all
  then show ?thesis by (auto simp: v4l_files_ok_def v4l_wf_def myv4l_open_def)
qed

definition vb_idle :: "unit videobuf" where
  "vb_idle = \<lparr>vb_read_stream = \<lambda>n b d. (d, Inr 0), vb_poll_stream = \<lambda>d. (d, Inr 0), vb_stop = id,
     vb_mmap_free = id, vb_mmap_mapper = \<lambda>d. (d, Inr 0), vb_reqbufs = \<lambda>n d. (d\<lparr>v_frame_size := buffer_size d\<rparr>, Inr 3),
     vb_querybuf = \<lambda>n d. (d, Inr 0), vb_qbuf = \<lambda>n d. (d, Inr 0), vb_dqbuf = \<lambda>b d. (d, Inl EAGAIN),
     vb_cgmbuf = \<lambda>d. (d, Inr 0), vb_streamon = \<lambda>d. (d, Inr 0), vb_streamoff = \<lambda>d. (d, Inr 0)\<rparr>"

lemma vb_idle_ok: "videobuf_ok vb_idle"
  by (simp add: videobuf_ok_def vb_idle_def keeps_def)

lemma v4l_reachable_wf_witness:
  "\<exists>d. v4l_reach vb_idle () {7} d \<and> v4l_wf d \<and> v4l_do vb_idle C_open d = (d, Inl EBUSY)"
proof -
  obtain d1 where d1: "v4l_do vb_idle C_open (myv4l_new_dev ()) = (d1, Inr 0)"
    by (simp add: myv4l_open_def myv4l_new_dev_def)
  have "v4l_reach vb_idle () {7} d1" by (rule v4l_reach.open_ok [OF v4l_reach.start _ d1]) simp
  then have "v4l_reach vb_idle () {7} (fst (v4l_do vb_idle (C_reqbufs 4) d1))" by (rule v4l_reach.call) simp_all
  from v4l_reachable_wf [OF vb_idle_ok this] this show ?thesis by (intro exI conjI) auto
qed

text \<open>The loop that bounds the buffers ends, and for every size up to 4096 by 4096 it leaves the
  requested number, brought into the range from 3 to 5 and lowered to what fits into 32
  megabytes, at least one; the buffers never take more memory than that.\<close>

theorem v4l_buffer_setup_bounds:
  assumes "buffer_setup cnt d = (c, sz, d')" "0 < v_width d" "0 < v_height d"
    and "v_width d \<le> MAX_WIDTH" "v_height d \<le> MAX_HEIGHT"
  shows "unat sz = 2 * unat (v_width d) * unat (v_height d) \<and> v_frame_size d' = sz \<and>
    unat c = min (max 3 (min 5 (unat cnt))) (33554432 div unat sz) \<and> 1 \<le> unat c \<and>
    unat sz * unat c \<le> 33554432"
proof -
  define w h where "w = unat (v_width d)" and "h = unat (v_height d)"
  have wh: "0 < w" "0 < h" "w \<le> 4096" "h \<le> 4096"
    using assms(2-5) by (simp_all add: w_def h_def word_le_nat_alt word_less_nat_alt MAX_WIDTH_def MAX_HEIGHT_def)
  have "w * h \<le> 4096 * 4096" using wh by (intro mult_le_mono) auto
  then have le: "2 * w * h \<le> 33554432" by (simp add: mult.commute)
  have sz: "sz = v_width d * v_height d * 2" "v_frame_size d' = sz"
    and c: "c = buffer_count_loop sz (if cnt < 3 then 3 else if 5 < cnt then 5 else cnt)"
    using assms(1) by (auto simp: buffer_setup_def buffer_size_def Let_def split: myv4l_fmt_t.splits)
  have "sz = of_nat (2 * w * h)"
    unfolding sz(1) by (simp add: w_def h_def)
  moreover have "unat (of_nat (2 * w * h) :: u32) = 2 * w * h"
    using le by (intro of_nat_inverse [OF refl]) simp
  ultimately have usz: "unat sz = 2 * w * h" by simp
  define n where "n = max 3 (min 5 (unat cnt))"
  have n: "unat (if cnt < 3 then 3 else if 5 < cnt then 5 else cnt) = n"
    by (auto simp: n_def word_less_nat_alt)
  have "unat sz * n \<le> 33554432 * 5"
    using usz le by (intro mult_le_mono) (auto simp: n_def)
  then have uc: "unat c = min n (33554432 div unat sz)"
    using buffer_count_loop_unat [of sz "if cnt < 3 then 3 else if 5 < cnt then 5 else cnt"] wh usz
    unfolding c n by (auto simp: word_unat_eq_iff)
  have "1 \<le> 33554432 div unat sz"
    using le usz wh by (simp add: Suc_le_eq div_greater_zero_iff)
  moreover have "unat sz * unat c \<le> 33554432"
    unfolding uc by (rule order_trans [OF mult_le_mono2 [OF min.cobounded2]]) simp
  moreover have "1 \<le> n" by (simp add: n_def)
  ultimately show ?thesis
    using usz sz(2) uc by (simp add: n_def w_def h_def)
qed

lemma v4l_buffer_setup_bounds_witness:
  "\<exists>c sz d'. buffer_setup 9 (myv4l_new_dev ()) = (c, sz, d') \<and> unat c = 5"
proof -
  obtain c sz d' where eq: "buffer_setup 9 (myv4l_new_dev ()) = (c, sz, d')"
    by (cases "buffer_setup 9 (myv4l_new_dev ())") auto
  show ?thesis
    using v4l_buffer_setup_bounds [OF eq] eq
    by (simp add: myv4l_new_dev_def myv4l_fmt_def MAX_WIDTH_def MAX_HEIGHT_def)
qed

text \<open>Starting and stopping: a stream switched on for capture starts the videobuf queue unless
  frames are already generated. A poll or a read sets that state without the queue, so that
  switching on afterwards answers success and starts nothing; and switching off with a wrong
  type clears the state before the type is refused, so that the correct request afterwards
  answers success and leaves the queue running.\<close>

theorem v4l_stream_switching:
  assumes "videobuf_ok vb"
  shows "(\<not> is_generating d \<and> vb_streamon vb (reset_counters now d) = (d1, Inr 0) \<longrightarrow>
      vidioc_streamon vb now VIDEO_CAPTURE d = (start_generating d1, Inr 0)) \<and>
    vidioc_streamon vb now VIDEO_CAPTURE (fst (myv4l_poll vb d)) = (fst (myv4l_poll vb d), Inr 0) \<and>
    vidioc_streamon vb now VIDEO_CAPTURE (fst (myv4l_read vb n nb d)) = (fst (myv4l_read vb n nb d), Inr 0) \<and>
    (is_generating d \<and> i \<noteq> VIDEO_CAPTURE \<longrightarrow>
      snd (vidioc_streamoff vb now i d) = Inl EINVAL \<and>
      vidioc_streamoff vb now2 VIDEO_CAPTURE (fst (vidioc_streamoff vb now i d)) =
        (fst (vidioc_streamoff vb now i d), Inr 0))"
proof -
  have "keeps (start_generating d) (fst (vb_poll_stream vb (start_generating d)))"
    "keeps (start_generating d) (fst (vb_read_stream vb n nb (start_generating d)))"
    using assms unfolding videobuf_ok_def by blast+
  then have gen: "v_generating (fst (myv4l_poll vb d))" "v_generating (fst (myv4l_read vb n nb d))"
    by (simp_all add: keeps_def start_generating_def myv4l_poll_def myv4l_read_def)
  show ?thesis
    using gen by (auto simp: vidioc_streamon_def vidioc_streamoff_def is_generating_def
        reset_counters_def stop_generating_def Let_def)
qed

lemma v4l_stream_switching_witness:
  "vidioc_streamon vb_idle 7 VIDEO_CAPTURE (fst (myv4l_poll vb_idle (myv4l_new_dev ()))) =
     (fst (myv4l_poll vb_idle (myv4l_new_dev ())), Inr 0)"
  using v4l_stream_switching [OF vb_idle_ok] by blast

text \<open>A probe that fails holds nothing: each error, of memory or of a registration, is returned
  after everything acquired before it was released; a probe that succeeds gives a well-formed
  closed device, takes the next node number, and remove releases all it holds.\<close>

theorem v4l_probe_releases:
  "case myv4l_probe ans q nr of
     (Inl e, held, nr') \<Rightarrow> held = [] \<and> nr' = nr \<and>
       e \<in> (if ans_kzalloc ans \<and> ans_video_alloc ans then {} else {ENOMEM}) \<union>
         set_option (ans_v4l2_register ans) \<union> set_option (ans_video_register ans)
   | (Inr d, held, nr') \<Rightarrow> v4l_wf d \<and> v_opened d = 0 \<and> set held = {Dev_mem, V4l2_dev, Video_dev, Video_registered} \<and>
       myv4l_remove held = [] \<and> nr' = (if nr = -1 then -1 else nr + 1)"
  by (auto simp: myv4l_probe_def Let_def v4l_wf_def myv4l_new_dev_def myv4l_fmt_def myv4l_remove_def
      split: option.split)

text \<open>When the driver cannot be registered the platform device stays registered.\<close>

lemma v4l_init_leaks_device: "myv4l_init True False = (-1, [Plat_device])"
  by (simp add: myv4l_init_def)

lemma v4l_exit_releases: "myv4l_init dv dr = (0, held) \<Longrightarrow> myv4l_exit held = []"
  by (auto simp: myv4l_init_def myv4l_exit_def split: if_splits)

text \<open>
  The image size the driver reports (12 bits for each pixel) is smaller than the frame size it
  sets the buffers to (16 bits for each pixel).
\<close>

lemma v4l_reported_size:
  "v_width d = 720 \<Longrightarrow> v_height d = 480 \<Longrightarrow> v_fmt d = myv4l_fmt \<Longrightarrow>
    px_sizeimage (vidioc_g_fmt_vid_cap d) = 518400 \<and> buffer_size d = 691200"
  by (simp add: vidioc_g_fmt_vid_cap_def myv4l_fmt_def buffer_size_def Let_def)

end
