(* ===== verification/Procfs.thy ===== *)
theory Procfs
  imports Interfaces
begin

text \<open>
  The /proc examples driver/program-examples/procfs_exam.c: an integer, a string and a large
  buffer behind read and write functions. User memory is a list of bytes, in which a byte that
  cannot be read is \<open>None\<close>, or a copy routine as in the other drivers.
\<close>

section \<open>State\<close>

definition STR_MAX_SIZE :: nat where
  "STR_MAX_SIZE = 255"

definition PAGE_SIZE :: nat where
  "PAGE_SIZE = 4096"

record procfs_state =
  int_var :: int
  string_var :: "byte list"
  big_buffer :: "byte list"
  big_buffer_len :: nat
  first_write_flag :: bool

definition procfs_initial :: procfs_state where
  "procfs_initial = \<lparr>int_var = 0, string_var = replicate 256 0, big_buffer = replicate 65536 0,
     big_buffer_len = 0, first_write_flag = True\<rparr>"

section \<open>The integer\<close>

definition int_read_proc :: "procfs_state \<Rightarrow> string \<times> int" where
  "int_read_proc s = (let page = dec_int (int_var s) in (page, int (length page)))"

text \<open>
  The loop of the write: \<open>get_user\<close> of a signed character widened to \<open>unsigned int\<close>; the result
  is an error, or the characters consumed and the wrapping sum.
\<close>

fun int_write_loop :: "byte option list \<Rightarrow> u32 \<Rightarrow> u32 \<Rightarrow> errno + (u32 \<times> u32)" where
  "int_write_loop [] len acc = Inr (len, acc)"
| "int_write_loop (None # bs) len acc = Inl EFAULT"
| "int_write_loop (Some b # bs) len acc =
     (let c = (scast b :: u32); val = c - 48 in
      if c = 10 \<or> c = 0 then Inr (len + 1, acc)
      else if 9 < val then Inl EINVAL
      else int_write_loop bs (len + 1) (acc * 10 + val))"

definition int_write_proc :: "byte option list \<Rightarrow> procfs_state \<Rightarrow> procfs_state \<times> int kresult" where
  "int_write_proc buffer s = (case int_write_loop buffer 0 0 of
       Inl e \<Rightarrow> (s, Inl e)
     | Inr (len, acc) \<Rightarrow> (s\<lparr>int_var := sint acc\<rparr>, Inr (sint len)))"

section \<open>The string\<close>

definition string_read_proc :: "procfs_state \<Rightarrow> byte list" where
  "string_read_proc s = takeWhile (\<lambda>b. b \<noteq> 0) (string_var s)"

definition string_write_proc ::
  "user_copy \<Rightarrow> byte list \<Rightarrow> procfs_state \<Rightarrow> procfs_state \<times> int" where
  "string_write_proc cp buffer s =
     (let cnt = (if STR_MAX_SIZE < length buffer then 255 else length buffer) in
      (s\<lparr>string_var := mem_put (string_var s) 0 (fst (cp (take cnt buffer)))\<rparr>, int cnt))"

section \<open>The large buffer\<close>

text \<open>The offset and the count come from the /proc file system and are not negative.\<close>

definition bigfile_read_proc :: "nat \<Rightarrow> nat \<Rightarrow> procfs_state \<Rightarrow> byte list \<times> bool" where
  "bigfile_read_proc off cnt s =
     (if big_buffer_len s < off then ([], True)
      else (let c1 = (if PAGE_SIZE < cnt then PAGE_SIZE else cnt);
                c2 = (if big_buffer_len s - off < c1 then big_buffer_len s - off else c1)
            in (mem_get (big_buffer s) 0 c2, False)))"

definition bigfile_write_proc ::
  "user_copy \<Rightarrow> byte list \<Rightarrow> procfs_state \<Rightarrow> procfs_state \<times> nat" where
  "bigfile_write_proc cp buffer s =
     (let s1 = (if first_write_flag s then s\<lparr>big_buffer_len := 0, first_write_flag := False\<rparr> else s);
          room = 65536 - big_buffer_len s1;
          (cnt, flag) = (if room < length buffer then (room, True) else (length buffer, first_write_flag s1))
      in (s1\<lparr>big_buffer := mem_put (big_buffer s1) (big_buffer_len s1) (fst (cp (take cnt buffer))),
             big_buffer_len := big_buffer_len s1 + cnt, first_write_flag := flag\<rparr>, cnt))"

section \<open>Loading and unloading\<close>

datatype proc_entry = Proc_dir | Proc_aint | Proc_astring | Proc_bigfile

text \<open>\<open>made\<close> tells which entries \<open>create_proc_entry\<close> could make; a failed one is left out.\<close>

definition procfs_exam_init :: "(proc_entry \<Rightarrow> bool) \<Rightarrow> int \<times> proc_entry list" where
  "procfs_exam_init made = (0, filter made [Proc_dir, Proc_aint, Proc_astring, Proc_bigfile])"

definition procfs_exam_exit :: "proc_entry list \<Rightarrow> proc_entry list" where
  "procfs_exam_exit es =
     removeAll Proc_dir (removeAll Proc_bigfile (removeAll Proc_astring (removeAll Proc_aint es)))"

section \<open>Invariant\<close>

definition procfs_ok :: "procfs_state \<Rightarrow> bool" where
  "procfs_ok s \<longleftrightarrow> length (string_var s) = 256 \<and> string_var s ! 255 = 0 \<and>
     length (big_buffer s) = 65536 \<and> big_buffer_len s \<le> 65536"

lemma procfs_initial_ok: "procfs_ok procfs_initial"
  by (simp add: procfs_ok_def procfs_initial_def)

lemma user_copy_len: "user_copy_ok cp \<Longrightarrow> length (fst (cp src)) = length src"
  by (simp add: user_copy_ok_def)

lemma int_write_ok: "procfs_ok s \<Longrightarrow> procfs_ok (fst (int_write_proc b s))"
  by (auto simp: int_write_proc_def procfs_ok_def split: sum.split)

lemma string_write_ok:
  assumes "procfs_ok s" "user_copy_ok cp"
  shows "procfs_ok (fst (string_write_proc cp b s))"
proof -
  define n where "n = (if STR_MAX_SIZE < length b then 255 else length b)"
  have n: "n \<le> 255" "length (take n b) = n" by (auto simp: n_def STR_MAX_SIZE_def)
  then have "length (fst (cp (take n b))) = n" using user_copy_len [OF assms(2)] by simp
  then have "length (mem_put (string_var s) 0 (fst (cp (take n b)))) = 256"
    "mem_put (string_var s) 0 (fst (cp (take n b))) ! 255 = 0"
    using assms(1) n by (simp_all add: procfs_ok_def length_mem_put mem_put_nth)
  then show ?thesis
    using assms(1) by (simp add: string_write_proc_def Let_def procfs_ok_def flip: n_def)
qed

lemma bigfile_write_ok:
  assumes "procfs_ok s" "user_copy_ok cp"
  shows "procfs_ok (fst (bigfile_write_proc cp b s))"
proof -
  define p where "p = (if first_write_flag s then 0 else big_buffer_len s)"
  define n where "n = (if 65536 - p < length b then 65536 - p else length b)"
  have p: "p \<le> 65536" using assms(1) by (simp add: p_def procfs_ok_def)
  then have n: "p + n \<le> 65536" "length (take n b) = n" by (auto simp: n_def)
  then have "length (mem_put (big_buffer s) p (fst (cp (take n b)))) = 65536"
    using assms user_copy_len [OF assms(2)] by (simp add: procfs_ok_def length_mem_put)
  then show ?thesis
    using assms(1) n by (auto simp: bigfile_write_proc_def Let_def procfs_ok_def p_def n_def
        split: if_splits)
qed

text \<open>The string that is read always ends inside the array.\<close>

lemma string_read_bounded: "procfs_ok s \<Longrightarrow> length (string_read_proc s) \<le> 255"
proof -
  assume s: "procfs_ok s"
  have len: "length (string_var s) = 256" and zero: "string_var s ! 255 = 0"
    using s by (simp_all only: procfs_ok_def)
  have "0 \<in> set (string_var s)" using nth_mem [of 255 "string_var s"] len zero by simp
  then have "dropWhile (\<lambda>b. b \<noteq> 0) (string_var s) \<noteq> []"
    unfolding dropWhile_eq_Nil_conv by blast
  then have "length (string_read_proc s) < length (string_var s)"
    using arg_cong [OF takeWhile_dropWhile_id [of "\<lambda>b. b \<noteq> 0" "string_var s"], of length]
    by (cases "dropWhile (\<lambda>b. b \<noteq> 0) (string_var s)") (auto simp: string_read_proc_def)
  then show ?thesis using len by simp
qed

section \<open>Writing and reading the integer\<close>

text \<open>The bytes of a text in readable user memory.\<close>

definition user_text :: "string \<Rightarrow> byte option list" where
  "user_text t = map (\<lambda>c. Some (of_nat (of_char c))) t"

lemma user_text_simps [simp]:
  "user_text [] = []" "user_text (c # t) = Some (of_nat (of_char c)) # user_text t"
  "user_text (t @ u) = user_text t @ user_text u"
  by (simp_all add: user_text_def)

lemma digit_byte:
  assumes "is_digit c"
  shows "(scast (of_nat (of_char c) :: byte) :: u32) = of_nat (digit_val c) + 48" "digit_val c \<le> 9"
proof -
  define k :: nat where "k = of_char c"
  have "k \<in> {48, 49, 50, 51, 52, 53, 54, 55, 56, 57}"
    using assms by (simp add: is_digit_def k_def) presburger
  then show "(scast (of_nat (of_char c) :: byte) :: u32) = of_nat (digit_val c) + 48"
    "digit_val c \<le> 9"
    by (auto simp: digit_val_def simp flip: k_def)
qed

lemma int_write_loop_digit:
  assumes "is_digit c"
  shows "int_write_loop (Some (of_nat (of_char c)) # bs) len (of_nat a) =
     int_write_loop bs (len + 1) (of_nat (a * 10 + digit_val c))"
proof -
  define v where "v = digit_val c"
  have "v \<in> {0, 1, 2, 3, 4, 5, 6, 7, 8, 9}" using digit_byte(2) [OF assms] by (auto simp: v_def)
  then have "of_nat v + 48 \<noteq> (10 :: u32)" "of_nat v + 48 \<noteq> (0 :: u32)" "\<not> 9 < (of_nat v :: u32)"
    by auto
  then show ?thesis using digit_byte(1) [OF assms] by (simp add: Let_def flip: v_def)
qed

lemma int_write_loop_digits:
  "\<forall>c \<in> set t. is_digit c \<Longrightarrow> int_write_loop (user_text t @ bs) len (of_nat a) =
     int_write_loop bs (len + of_nat (length t)) (of_nat (fold (\<lambda>c x. x * 10 + digit_val c) t a))"
proof (induction t arbitrary: len a)
  case (Cons c t)
  then show ?case
    using Cons.IH [of "len + 1" "a * 10 + digit_val c"] int_write_loop_digit [of c _ len a]
    by (simp add: add.assoc)
qed simp

lemma int_write_loop_number:
  "int_write_loop (user_text (dec_digits n) @ bs) 0 0 =
     int_write_loop bs (of_nat (length (dec_digits n))) (of_nat n)"
  using int_write_loop_digits [of "dec_digits n" bs 0 0] dec_digits_all_digits [of _ n]
    dec_val_digits [of n] by (simp add: dec_val_def)

text \<open>Only the first line is used, whatever follows it.\<close>

lemma int_write_line:
  "int_write_proc (user_text (dec_digits n @ [CHR 10]) @ bs) s =
     (s\<lparr>int_var := sint (of_nat n :: u32)\<rparr>, Inr (sint (of_nat (length (dec_digits n)) + 1 :: u32)))"
  using int_write_loop_number [of n "user_text [CHR 10] @ bs"]
  by (simp add: int_write_proc_def)

lemma int_write_bad:
  assumes "int_write_loop b 0 0 = Inl e"
  shows "int_write_proc b s = (s, Inl e)"
  using assms by (simp add: int_write_proc_def)

lemma byte_of_scast: "(ucast (scast (b :: byte) :: u32) :: byte) = b"
  by (rule bit_word_eqI) (simp add: bit_simps)

lemma int_write_reject:
  assumes "\<forall>c \<in> set t. is_digit c"
    "9 < (scast b - 48 :: u32)" "b \<noteq> 10" "b \<noteq> 0"
  shows "int_write_proc (user_text t @ Some b # bs) s = (s, Inl EINVAL)"
    and "int_write_proc (user_text t @ None # bs) s = (s, Inl EFAULT)"
proof -
  have "(scast b :: u32) \<noteq> 10 \<and> (scast b :: u32) \<noteq> 0"
    using assms(3,4) byte_of_scast [of b] by auto
  then show "int_write_proc (user_text t @ Some b # bs) s = (s, Inl EINVAL)"
    "int_write_proc (user_text t @ None # bs) s = (s, Inl EFAULT)"
    using int_write_loop_digits [OF assms(1), of _ 0 0] assms(2)
    by (simp_all add: int_write_proc_def Let_def)
qed

text \<open>An integer written to /proc/myproctest/aint as decimal digits and a line feed is the one a
  read prints back, whatever follows the line in the same write: up to the largest int it is the
  number itself, from there on it wraps. A character that is no digit, or one that cannot be read
  from the user, before the end of the line makes the write fail and leaves the integer alone.\<close>

theorem procfs_int_roundtrip:
  assumes "t = dec_digits n @ [CHR 10]" "n < 2 ^ 31"
    "b \<noteq> 10" "b \<noteq> 0" "9 < (scast b - 48 :: u32)"
  shows "fst (int_write_proc (user_text t @ bs) s) = s\<lparr>int_var := int n\<rparr> \<and>
    int_read_proc (fst (int_write_proc (user_text t @ bs) s)) =
      (dec_digits n, int (length (dec_digits n))) \<and>
    int_write_proc (user_text (dec_digits n) @ Some b # bs) s = (s, Inl EINVAL) \<and>
    int_write_proc (user_text (dec_digits n) @ None # bs) s = (s, Inl EFAULT) \<and>
    int_var (fst (int_write_proc (user_text (dec_digits m @ [CHR 10]) @ bs) s)) =
      sint (of_nat m :: u32)"
proof -
  have "sint (of_nat n :: u32) = int n"
    using assms(2) by (simp add: signed_of_nat signed_take_bit_int_eq_self)
  then have "fst (int_write_proc (user_text t @ bs) s) = s\<lparr>int_var := int n\<rparr>"
    using int_write_line [of n bs s] by (simp add: assms(1))
  then show ?thesis
    using int_write_line [of m bs s] assms dec_digits_all_digits [of _ n]
      int_write_reject [of "dec_digits n" b bs s]
    by (simp add: int_read_proc_def dec_int_def Let_def)
qed

theorem procfs_int_roundtrip_witness:
  "int_read_proc (fst (int_write_proc (user_text (dec_digits 70 @ [CHR 10]) @ [None]) procfs_initial)) =
     (dec_digits 70, int (length (dec_digits 70)))"
  by (rule procfs_int_roundtrip [of _ 70 65, THEN conjunct2, THEN conjunct1]) simp_all

section \<open>The large buffer and the string\<close>

text \<open>Consecutive writes are one after the other in the buffer as long as they fit.\<close>

lemma bigfile_write_appends:
  assumes "procfs_ok s" "\<not> first_write_flag s" "big_buffer_len s + length bs \<le> 65536"
    "bigfile_write_proc (\<lambda>src. (src, 0)) bs s = (s', n)"
  shows "n = length bs" "\<not> first_write_flag s'"
    "mem_get (big_buffer s') 0 (big_buffer_len s') = mem_get (big_buffer s) 0 (big_buffer_len s) @ bs"
proof -
  define p where "p = big_buffer_len s"
  have p: "p + length bs \<le> length (big_buffer s)" using assms(1,3) by (simp add: procfs_ok_def p_def)
  have room: "\<not> 65536 - p < length bs" using assms(3) by (auto simp: p_def)
  have "bigfile_write_proc (\<lambda>src. (src, 0)) bs s =
      (s\<lparr>big_buffer := mem_put (big_buffer s) p bs, big_buffer_len := p + length bs,
         first_write_flag := False\<rparr>, length bs)"
    unfolding bigfile_write_proc_def using assms(2) room by (simp add: Let_def flip: p_def)
  then have s': "s' = s\<lparr>big_buffer := mem_put (big_buffer s) p bs, big_buffer_len := p + length bs,
      first_write_flag := False\<rparr>" and n: "n = length bs"
    using assms(4) by simp_all
  show "n = length bs" by (rule n)
  show "\<not> first_write_flag s'" by (simp add: s')
  have "mem_get (mem_put (big_buffer s) p bs) 0 p = mem_get (big_buffer s) 0 p"
    using p by (intro mem_get_put_disjoint) auto
  moreover have "mem_get (mem_put (big_buffer s) p bs) p (length bs) = bs"
    using p by (simp add: mem_simps)
  ultimately show "mem_get (big_buffer s') 0 (big_buffer_len s') =
      mem_get (big_buffer s) 0 (big_buffer_len s) @ bs"
    using mem_get_append [of "mem_put (big_buffer s) p bs" 0 p "length bs"] by (simp add: s' flip: p_def)
qed

text \<open>
  A read at a later offset starts at the beginning of the buffer again: a reader that goes on
  where it stopped sees the first bytes twice.
\<close>

lemma bigfile_read_ignores_offset:
  assumes "off \<le> big_buffer_len s" "off + n \<le> big_buffer_len s" "n \<le> PAGE_SIZE"
  shows "bigfile_read_proc off n s = bigfile_read_proc 0 n s"
  using assms by (auto simp: bigfile_read_proc_def Let_def)

text \<open>A shorter string leaves the rest of the longer one written before it.\<close>

lemma string_write_keeps_tail:
  "string_read_proc (fst (string_write_proc (\<lambda>src. (src, 0)) [66]
     (fst (string_write_proc (\<lambda>src. (src, 0)) [65, 65, 65] procfs_initial)))) = [66, 65, 65]"
  by (simp add: string_read_proc_def string_write_proc_def procfs_initial_def mem_put_def
      STR_MAX_SIZE_def)

text \<open>Unloading removes everything that loading could make.\<close>

lemma procfs_exit_removes: "procfs_exam_exit (snd (procfs_exam_init made)) = []"
  by (simp add: procfs_exam_exit_def procfs_exam_init_def)

end
