(* ===== verification/SockBr.thy ===== *)
theory SockBr
  imports Prelude
begin

text \<open>
  The broadcasting server sock_br_server.c: what comes in on the standard input is written to
  every connected client. The clients are a linked list on the heap; an access of a node that is
  not allocated, or a second \<open>free\<close>, is the value \<open>Inl\<close>. The answers of the system (select,
  accept, malloc, read, write) are arguments.
\<close>

section \<open>State\<close>

definition BUF_SIZE :: nat where
  "BUF_SIZE = 1024"

text \<open>Address 0 is the null pointer.\<close>

record sock_br_client =
  cl_next :: nat
  cl_fd :: int

text \<open>
  The globals of the program, the heap its list lives in, the rest of the standard input, what
  the system accepted for each descriptor so far, and the descriptors closed.
\<close>

record br_state =
  br_heap :: "nat \<Rightarrow> sock_br_client option"
  g_clients_head :: nat
  g_clients_cnt :: int
  br_stdin :: "byte list"
  br_sent :: "int \<Rightarrow> byte list"
  br_closed :: "int list"

datatype br_fault = Use_after_free | Double_free | Null_access

definition br_initial :: "byte list \<Rightarrow> br_state" where
  "br_initial inp = \<lparr>br_heap = (\<lambda>_. None), g_clients_head = 0, g_clients_cnt = 0, br_stdin = inp,
     br_sent = (\<lambda>_. []), br_closed = []\<rparr>"

section \<open>Startup\<close>

text \<open>
  The socket, or the exit code; \<open>closed\<close> are the descriptors closed on the way out.
\<close>

definition br_startup :: "int \<Rightarrow> int \<Rightarrow> int \<Rightarrow> (int \<times> int list) + int" where
  "br_startup sock bound listening =
     (if sock < 0 then Inl (-1, [])
      else if bound < 0 then Inl (-1, [sock])
      else if listening < 0 then Inl (-1, [sock])
      else Inr sock)"

section \<open>Adding a client\<close>

text \<open>The node is written without a test of what \<open>malloc\<close> returned.\<close>

definition add_client :: "nat \<Rightarrow> int \<Rightarrow> br_state \<Rightarrow> br_fault + br_state" where
  "add_client a c s =
     (if a = 0 then Inl Null_access
      else Inr (s\<lparr>br_heap := (br_heap s)(a \<mapsto> \<lparr>cl_next = g_clients_head s, cl_fd = c\<rparr>),
                 g_clients_cnt := g_clients_cnt s + 1, g_clients_head := a\<rparr>))"

section \<open>Writing to the clients\<close>

definition br_free :: "nat \<Rightarrow> br_state \<Rightarrow> br_fault + br_state" where
  "br_free a s =
     (if a = 0 then Inr s
      else if br_heap s a = None then Inl Double_free
      else Inr (s\<lparr>br_heap := (br_heap s)(a := None)\<rparr>))"

text \<open>\<open>prev->next = next\<close>, or the head of the list when there is no \<open>prev\<close>.\<close>

definition br_unlink :: "nat \<Rightarrow> nat \<Rightarrow> br_state \<Rightarrow> br_fault + br_state" where
  "br_unlink prev next s =
     (if prev = 0 then Inr (s\<lparr>g_clients_head := next\<rparr>)
      else (case br_heap s prev of
          None \<Rightarrow> Inl Use_after_free
        | Some nd \<Rightarrow> Inr (s\<lparr>br_heap := (br_heap s)(prev \<mapsto> nd\<lparr>cl_next := next\<rparr>)\<rparr>)))"

text \<open>
  The loop over the clients; \<open>wr f\<close> is what \<open>write\<close> answers for descriptor \<open>f\<close>. The code moves
  on to the next client and then frees what it moved to. \<open>None\<close> is a loop that never ends.
\<close>

partial_function (option) br_write_loop ::
  "(int \<Rightarrow> int) \<Rightarrow> byte list \<Rightarrow> nat \<Rightarrow> nat \<Rightarrow> br_state \<Rightarrow> (br_fault + br_state) option" where
  "br_write_loop wr buf prev pclient s =
     (if pclient = 0 then Some (Inr s)
      else (case br_heap s pclient of
          None \<Rightarrow> Some (Inl Use_after_free)
        | Some nd \<Rightarrow>
            if wr (cl_fd nd) < 0 then
              (case br_unlink prev (cl_next nd) s of
                 Inl e \<Rightarrow> Some (Inl e)
               | Inr s1 \<Rightarrow>
                   (case br_free (cl_next nd) (s1\<lparr>br_closed := cl_fd nd # br_closed s1\<rparr>) of
                      Inl e \<Rightarrow> Some (Inl e)
                    | Inr s2 \<Rightarrow> br_write_loop wr buf prev (cl_next nd)
                        (s2\<lparr>g_clients_cnt := g_clients_cnt s2 - 1\<rparr>)))
            else br_write_loop wr buf pclient (cl_next nd)
              (s\<lparr>br_sent := (br_sent s)(cl_fd nd := br_sent s (cl_fd nd) @ take (nat (wr (cl_fd nd))) buf)\<rparr>)))"

declare br_write_loop.simps [code]

section \<open>One round of the main loop\<close>

text \<open>
  The descriptors that select reports: for the listening socket the first answer of \<open>accept\<close>
  that is not an interruption and the answer of \<open>malloc\<close>, for the standard input the number of
  bytes that \<open>read\<close> delivers at most (0 at the end of the input, negative for an error).
\<close>

datatype br_select = Sel_failed | Sel_nothing
  | Sel_ready (sel_listen: "(int \<times> nat) option") (sel_stdin: "int option")

text \<open>\<open>wr n f\<close> is the answer of a write of \<open>n\<close> bytes to descriptor \<open>f\<close>.\<close>

definition br_stdin_ready ::
  "(nat \<Rightarrow> int \<Rightarrow> int) \<Rightarrow> int \<Rightarrow> br_state \<Rightarrow> (br_fault + br_state) option" where
  "br_stdin_ready wr n s =
     (let buf = take (nat (min n (int BUF_SIZE))) (br_stdin s);
          s1 = s\<lparr>br_stdin := drop (length buf) (br_stdin s)\<rparr> in
      if 0 < length buf then br_write_loop (wr (length buf)) buf 0 (g_clients_head s1) s1
      else Some (Inr s1))"

definition br_round ::
  "(nat \<Rightarrow> int \<Rightarrow> int) \<Rightarrow> br_select \<Rightarrow> br_state \<Rightarrow> (br_fault + br_state) option" where
  "br_round wr ev s = (case ev of
       Sel_failed \<Rightarrow> Some (Inr s)
     | Sel_nothing \<Rightarrow> Some (Inr s)
     | Sel_ready l i \<Rightarrow>
         (let stdin = (\<lambda>s1. case i of None \<Rightarrow> Some (Inr s1) | Some n \<Rightarrow> br_stdin_ready wr n s1) in
          case l of
            None \<Rightarrow> stdin s
          | Some (c, a) \<Rightarrow>
              if c < 0 then Some (Inr s)
              else (case add_client a c s of Inl e \<Rightarrow> Some (Inl e) | Inr s1 \<Rightarrow> stdin s1)))"

section \<open>The list of clients\<close>

fun br_chain :: "(nat \<Rightarrow> sock_br_client option) \<Rightarrow> nat \<Rightarrow> (nat \<times> int) list \<Rightarrow> bool" where
  "br_chain h p [] \<longleftrightarrow> p = 0"
| "br_chain h p ((a, f) # xs) \<longleftrightarrow> p = a \<and> a \<noteq> 0 \<and>
     (case h a of None \<Rightarrow> False | Some nd \<Rightarrow> cl_fd nd = f \<and> br_chain h (cl_next nd) xs)"

lemma br_chain_cong:
  "\<forall>x \<in> set xs. h' (fst x) = h (fst x) \<Longrightarrow> br_chain h' p xs = br_chain h p xs"
  by (induction h p xs rule: br_chain.induct) (auto split: option.split)

text \<open>The clients are a list of distinct nodes with distinct descriptors, and counted.\<close>

definition br_ok :: "br_state \<Rightarrow> (nat \<times> int) list \<Rightarrow> bool" where
  "br_ok s xs \<longleftrightarrow> br_chain (br_heap s) (g_clients_head s) xs \<and> distinct (map fst xs) \<and>
     distinct (map snd xs) \<and> g_clients_cnt s = int (length xs)"

section \<open>The loop over the clients\<close>

text \<open>What the descriptors \<open>fs\<close> have been sent after one delivery of \<open>buf\<close>.\<close>

definition br_deliver :: "(int \<Rightarrow> int) \<Rightarrow> byte list \<Rightarrow> int list \<Rightarrow> br_state \<Rightarrow> br_state" where
  "br_deliver wr buf fs s = s\<lparr>br_sent := (\<lambda>f. br_sent s f @
     (if f \<in> set fs then take (nat (wr f)) buf else []))\<rparr>"

lemma br_deliver_simps [simp]:
  "br_heap (br_deliver wr buf fs s) = br_heap s"
  "g_clients_head (br_deliver wr buf fs s) = g_clients_head s"
  "g_clients_cnt (br_deliver wr buf fs s) = g_clients_cnt s"
  "br_stdin (br_deliver wr buf fs s) = br_stdin s"
  "br_closed (br_deliver wr buf fs s) = br_closed s"
  by (simp_all add: br_deliver_def)

lemma br_deliver_Nil: "br_deliver wr buf [] s = s"
  by (simp add: br_deliver_def)

lemma br_deliver_Cons:
  "f \<notin> set fs \<Longrightarrow> br_deliver wr buf fs
     (s\<lparr>br_sent := (br_sent s)(f := br_sent s f @ take (nat (wr f)) buf)\<rparr>) = br_deliver wr buf (f # fs) s"
  by (auto simp: br_deliver_def fun_eq_iff)

text \<open>The loop passes the clients that take the data; it is then at the rest of the list.\<close>

lemma br_write_loop_prefix:
  assumes "br_chain (br_heap s) p (xs @ ys)" "distinct (map snd xs)" "\<forall>x \<in> set xs. 0 \<le> wr (snd x)"
  shows "\<exists>q. br_chain (br_heap s) q ys \<and> br_write_loop wr buf prev p s =
    br_write_loop wr buf (if xs = [] then prev else fst (last xs)) q (br_deliver wr buf (map snd xs) s)"
  using assms
proof (induction xs arbitrary: prev p s)
  case (Cons x xs)
  obtain a f where x: "x = (a, f)" by (cases x)
  obtain nd where nd: "p = a" "a \<noteq> 0" "br_heap s a = Some nd" "cl_fd nd = f"
    "br_chain (br_heap s) (cl_next nd) (xs @ ys)"
    using Cons.prems(1) by (auto simp: x split: option.splits)
  let ?s = "s\<lparr>br_sent := (br_sent s)(f := br_sent s f @ take (nat (wr f)) buf)\<rparr>"
  have "br_write_loop wr buf prev p s = br_write_loop wr buf a (cl_next nd) ?s"
    using nd Cons.prems(3) by (subst br_write_loop.simps) (simp add: x)
  moreover obtain q where "br_chain (br_heap s) q ys" "br_write_loop wr buf a (cl_next nd) ?s =
      br_write_loop wr buf (if xs = [] then a else fst (last xs)) q (br_deliver wr buf (map snd xs) ?s)"
    using Cons.IH [of ?s "cl_next nd" a] nd(5) Cons.prems(2,3) by auto
  ultimately show ?case
    using br_deliver_Cons [of f "map snd xs" wr buf s] Cons.prems(2)
    by (intro exI [of _ q]) (auto simp: x)
qed (auto simp: br_deliver_Nil)

lemma br_write_all:
  assumes "br_chain (br_heap s) p xs" "distinct (map snd xs)" "\<forall>x \<in> set xs. 0 \<le> wr (snd x)"
  shows "br_write_loop wr buf prev p s = Some (Inr (br_deliver wr buf (map snd xs) s))"
  using br_write_loop_prefix [of s p xs "[]" wr buf prev] assms
  by (auto simp: br_write_loop.simps [of wr buf _ 0])

text \<open>A client that is gone and is not the last one: the next node is freed and then read.\<close>

lemma br_write_gone_middle:
  assumes "br_chain (br_heap s) p (x # y # ys)" "wr (snd x) < 0" "prev = 0 \<or> br_heap s prev \<noteq> None"
  shows "br_write_loop wr buf prev p s = Some (Inl Use_after_free)"
proof -
  obtain a f b g where xy: "x = (a, f)" "y = (b, g)" by (cases x; cases y)
  obtain nd nd2 where nd: "p = a" "a \<noteq> 0" "br_heap s a = Some nd" "cl_fd nd = f" "cl_next nd = b"
    "b \<noteq> 0" "br_heap s b = Some nd2"
    using assms(1) by (auto simp: xy split: option.splits)
  have "\<exists>s1. br_unlink prev b s = Inr s1 \<and> br_heap s1 b \<noteq> None"
    using assms(3) nd(7) by (cases "prev = 0") (auto simp: br_unlink_def)
  then obtain s1 where s1: "br_unlink prev b s = Inr s1" "br_heap s1 b \<noteq> None" by blast
  then show ?thesis
    using nd assms(2) by (subst br_write_loop.simps)
      (auto simp: xy br_free_def br_write_loop.simps [of wr buf prev b])
qed

text \<open>A client that is gone and is the last one: it leaves the list, and its node stays allocated.\<close>

lemma br_write_gone_last:
  assumes "br_chain (br_heap s) p [x]" "wr (snd x) < 0" "br_unlink prev 0 s = Inr s1"
  shows "br_write_loop wr buf prev p s =
    Some (Inr (s1\<lparr>br_closed := snd x # br_closed s1, g_clients_cnt := g_clients_cnt s1 - 1\<rparr>))"
proof -
  obtain a f where x: "x = (a, f)" by (cases x)
  obtain nd where nd: "p = a" "a \<noteq> 0" "br_heap s a = Some nd" "cl_fd nd = f" "cl_next nd = 0"
    using assms(1) by (auto simp: x split: option.splits)
  then show ?thesis
    using assms(2,3) by (subst br_write_loop.simps)
      (simp add: x br_free_def br_write_loop.simps [of wr buf prev 0])
qed

section \<open>Unlinking the last client\<close>

lemma br_chain_nodes: "br_chain h p xs \<Longrightarrow> x \<in> set xs \<Longrightarrow> fst x \<noteq> 0 \<and> h (fst x) \<noteq> None"
  by (induction h p xs rule: br_chain.induct) (auto split: option.splits)

lemma br_chain_cut:
  assumes "br_chain h p (xs @ [x, y])" "distinct (map fst (xs @ [x, y]))"
  shows "\<exists>nd. h (fst x) = Some nd \<and> br_chain (h(fst x \<mapsto> nd\<lparr>cl_next := 0\<rparr>)) p (xs @ [x])"
  using assms
proof (induction xs arbitrary: p)
  case Nil
  then show ?case by (cases x) (auto split: option.splits)
next
  case (Cons z zs)
  obtain a f where z: "z = (a, f)" by (cases z)
  obtain nd where nd: "p = a" "a \<noteq> 0" "h a = Some nd" "cl_fd nd = f"
    "br_chain h (cl_next nd) (zs @ [x, y])"
    using Cons.prems(1) by (auto simp: z split: option.splits)
  then show ?case using Cons.IH [of "cl_next nd"] Cons.prems(2) by (auto simp: z)
qed

lemma br_unlink_last:
  assumes "br_ok s (xs @ [z])" "prev = (if xs = [] then 0 else fst (last xs))"
  shows "\<exists>s1. br_unlink prev 0 s = Inr s1 \<and> br_chain (br_heap s1) (g_clients_head s1) xs \<and>
    br_heap s1 (fst z) = br_heap s (fst z) \<and> br_sent s1 = br_sent s \<and> br_stdin s1 = br_stdin s \<and>
    br_closed s1 = br_closed s \<and> g_clients_cnt s1 = g_clients_cnt s"
proof (cases xs rule: rev_cases)
  case Nil
  then show ?thesis using assms by (auto simp: br_unlink_def)
next
  case (snoc ws w)
  have c: "br_chain (br_heap s) (g_clients_head s) (ws @ [w, z])" "distinct (map fst (ws @ [w, z]))"
    using assms(1) by (auto simp: br_ok_def snoc)
  have prev: "prev = fst w" "fst w \<noteq> 0" "fst w \<noteq> fst z"
    using assms(2) snoc br_chain_nodes [OF c(1), of w] c(2) by auto
  show ?thesis
    using br_chain_cut [OF c] prev snoc by (auto simp: br_unlink_def)
qed

section \<open>One delivery\<close>

text \<open>
  A delivery in which some clients are gone: when it is only the last of the list, that is the
  one connected first, the server goes on with the others, and the node of that client is never
  freed. When it is any other, the server frees the node after it and reads it.
\<close>

lemma br_delivery_middle:
  assumes "br_ok s (ys @ x # y # zs)" "wr (snd x) < 0" "\<forall>u \<in> set ys. 0 \<le> wr (snd u)"
  shows "br_write_loop wr buf 0 (g_clients_head s) s = Some (Inl Use_after_free)"
proof -
  have ch: "br_chain (br_heap s) (g_clients_head s) (ys @ x # y # zs)" "distinct (map snd ys)"
    using assms(1) by (simp_all add: br_ok_def)
  let ?s = "br_deliver wr buf (map snd ys) s" and ?prev = "if ys = [] then 0 else fst (last ys)"
  obtain q where q: "br_chain (br_heap s) q (x # y # zs)"
    "br_write_loop wr buf 0 (g_clients_head s) s = br_write_loop wr buf ?prev q ?s"
    using br_write_loop_prefix [OF ch assms(3), of buf 0] by blast
  have "br_heap s (fst (last ys)) \<noteq> None" if "ys \<noteq> []"
    using br_chain_nodes [OF ch(1), of "last ys"] that by simp
  then have prev: "?prev = 0 \<or> br_heap ?s ?prev \<noteq> None" by simp
  have "br_write_loop wr buf ?prev q ?s = Some (Inl Use_after_free)"
    by (rule br_write_gone_middle [of ?s q x y zs wr ?prev, OF _ assms(2) prev]) (simp add: q(1))
  then show ?thesis by (simp only: q(2))
qed

lemma br_delivery_last:
  assumes "br_ok s (ys @ [x])" "wr (snd x) < 0" "\<forall>u \<in> set ys. 0 \<le> wr (snd u)"
  shows "\<exists>s'. br_write_loop wr buf 0 (g_clients_head s) s = Some (Inr s') \<and> br_ok s' ys \<and>
    br_closed s' = snd x # br_closed s \<and> br_heap s' (fst x) \<noteq> None \<and>
    br_sent s' = br_sent (br_deliver wr buf (map snd ys) s)"
proof -
  let ?s = "br_deliver wr buf (map snd ys) s"
  have ch: "br_chain (br_heap s) (g_clients_head s) (ys @ [x])" "distinct (map snd ys)"
    using assms(1) by (simp_all add: br_ok_def)
  have "br_ok ?s (ys @ [x])" using assms(1) by (simp add: br_ok_def)
  then obtain s1 where s1: "br_unlink (if ys = [] then 0 else fst (last ys)) 0 ?s = Inr s1"
    "br_chain (br_heap s1) (g_clients_head s1) ys" "br_heap s1 (fst x) = br_heap s (fst x)"
    "br_sent s1 = br_sent ?s" "br_closed s1 = br_closed s" "g_clients_cnt s1 = g_clients_cnt s"
    using br_unlink_last [of ?s ys x] by auto
  obtain q where "br_chain (br_heap s) q [x]" "br_write_loop wr buf 0 (g_clients_head s) s =
      br_write_loop wr buf (if ys = [] then 0 else fst (last ys)) q ?s"
    using br_write_loop_prefix [OF ch assms(3), of buf 0] by blast
  then have "br_write_loop wr buf 0 (g_clients_head s) s =
      Some (Inr (s1\<lparr>br_closed := snd x # br_closed s1, g_clients_cnt := g_clients_cnt s1 - 1\<rparr>))"
    using br_write_gone_last [where wr = wr and buf = buf, OF _ assms(2) s1(1)] by simp
  moreover have "br_heap s (fst x) \<noteq> None" using br_chain_nodes [OF ch(1), of x] by simp
  ultimately show ?thesis using s1 assms(1) by (auto simp: br_ok_def)
qed

section \<open>Rounds in which every client takes the data\<close>

text \<open>\<open>malloc\<close> gives null or a new node, and \<open>accept\<close> a descriptor that no client has.\<close>

definition br_fresh :: "br_select \<Rightarrow> br_state \<Rightarrow> bool" where
  "br_fresh ev s = (case ev of
       Sel_ready (Some (c, a)) i \<Rightarrow> 0 \<le> c \<longrightarrow>
         (a \<noteq> 0 \<longrightarrow> br_heap s a = None) \<and> (\<forall>nd \<in> ran (br_heap s). cl_fd nd \<noteq> c)
     | _ \<Rightarrow> True)"

text \<open>The client that connects in a round, with the address \<open>malloc\<close> returned for it.\<close>

fun sel_new :: "br_select \<Rightarrow> (nat \<times> int) list" where
  "sel_new (Sel_ready (Some (c, a)) i) = (if c < 0 then [] else [(a, c)])"
| "sel_new ev = []"

definition write_all :: "nat \<Rightarrow> int \<Rightarrow> int" where
  "write_all n f = int n"

lemma br_chain_fds: "br_chain h p xs \<Longrightarrow> x \<in> set xs \<Longrightarrow> \<exists>nd \<in> ran h. cl_fd nd = snd x"
  by (induction h p xs rule: br_chain.induct) (auto simp: ran_def split: option.splits)

lemma add_client_ok:
  assumes "br_ok s xs" "a \<noteq> 0" "br_heap s a = None" "\<forall>nd \<in> ran (br_heap s). cl_fd nd \<noteq> c"
  shows "\<exists>s'. add_client a c s = Inr s' \<and> br_ok s' ((a, c) # xs) \<and> br_stdin s' = br_stdin s \<and>
    br_sent s' = br_sent s"
proof -
  have ch: "br_chain (br_heap s) (g_clients_head s) xs" using assms(1) by (simp add: br_ok_def)
  have new: "a \<notin> fst ` set xs" "c \<notin> snd ` set xs"
    using br_chain_nodes [OF ch] br_chain_fds [OF ch] assms(3,4) by force+
  then have "br_chain ((br_heap s)(a \<mapsto> nd)) (g_clients_head s) xs" for nd
    using ch by (subst br_chain_cong [of xs _ "br_heap s"]) auto
  then show ?thesis using assms(1,2) new by (auto simp: add_client_def br_ok_def)
qed

lemma br_stdin_ready_all:
  assumes "br_ok s xs"
  shows "\<exists>s' bs. br_stdin_ready write_all n s = Some (Inr s') \<and> br_ok s' xs \<and>
    br_stdin s = bs @ br_stdin s' \<and> (\<forall>x \<in> set xs. br_sent s' (snd x) = br_sent s (snd x) @ bs)"
proof -
  define buf where "buf = take (nat (min n (int BUF_SIZE))) (br_stdin s)"
  define s1 where "s1 = s\<lparr>br_stdin := drop (length buf) (br_stdin s)\<rparr>"
  have s1: "br_ok s1 xs" "br_stdin s = buf @ br_stdin s1" "br_sent s1 = br_sent s"
    using assms append_take_drop_id [of "nat (min n (int BUF_SIZE))" "br_stdin s"]
    by (simp_all add: s1_def br_ok_def buf_def min_def)
  have ready: "br_stdin_ready write_all n s = (if 0 < length buf
      then br_write_loop (write_all (length buf)) buf 0 (g_clients_head s1) s1 else Some (Inr s1))"
    by (simp only: br_stdin_ready_def Let_def buf_def s1_def)
  show ?thesis
  proof (cases "buf = []")
    case True
    then show ?thesis
      using s1 by (intro exI [of _ s1] exI [of _ "[]"]) (simp add: ready)
  next
    case False
    let ?s = "br_deliver (write_all (length buf)) buf (map snd xs) s1"
    have "br_stdin_ready write_all n s = Some (Inr ?s)"
      using False br_write_all [of s1 "g_clients_head s1" xs "write_all (length buf)" buf 0] s1(1)
      by (simp add: ready br_ok_def write_all_def)
    then show ?thesis
      using s1 by (intro exI [of _ ?s] exI [of _ buf]) (auto simp: br_ok_def br_deliver_def write_all_def)
  qed
qed

lemma br_round_null: "0 \<in> fst ` set (sel_new ev) \<Longrightarrow> br_round wr ev s = Some (Inl Null_access)"
  by (cases ev rule: sel_new.cases) (auto simp: br_round_def add_client_def)

lemma br_round_all:
  assumes "br_ok s xs" "br_fresh ev s" "0 \<notin> fst ` set (sel_new ev)"
  shows "\<exists>s' bs. br_round write_all ev s = Some (Inr s') \<and> br_ok s' (sel_new ev @ xs) \<and>
    br_stdin s = bs @ br_stdin s' \<and> (\<forall>x \<in> set (sel_new ev @ xs). br_sent s' (snd x) = br_sent s (snd x) @ bs)"
proof (cases ev)
  case ev: (Sel_ready l i)
  have step: "\<exists>s' bs. (case i of None \<Rightarrow> Some (Inr s1) | Some n \<Rightarrow> br_stdin_ready write_all n s1) = Some (Inr s') \<and>
      br_ok s' zs \<and> br_stdin s1 = bs @ br_stdin s' \<and>
      (\<forall>x \<in> set zs. br_sent s' (snd x) = br_sent s1 (snd x) @ bs)" if "br_ok s1 zs" for s1 zs
    using that br_stdin_ready_all [OF that] by (cases i) auto
  consider "l = None" | c a where "l = Some (c, a)" "c < 0" | c a where "l = Some (c, a)" "\<not> c < 0"
    by (cases l) auto
  then show ?thesis
  proof cases
    case 1
    then show ?thesis using step [OF assms(1)] by (simp add: ev br_round_def)
  next
    case 2
    then show ?thesis using assms(1) by (simp add: ev br_round_def)
  next
    case (3 c a)
    then have "a \<noteq> 0" "br_heap s a = None" "\<forall>nd \<in> ran (br_heap s). cl_fd nd \<noteq> c"
      using assms(2,3) by (auto simp: br_fresh_def ev)
    from add_client_ok [OF assms(1) this] obtain s1 where s1: "add_client a c s = Inr s1"
      "br_ok s1 ((a, c) # xs)" "br_stdin s1 = br_stdin s" "br_sent s1 = br_sent s"
      by blast
    then show ?thesis using step [OF s1(2)] 3 by (simp add: ev br_round_def)
  qed
qed (use assms(1) in \<open>auto simp: br_round_def\<close>)

inductive br_step :: "br_state \<Rightarrow> br_state \<Rightarrow> bool" where
  br_step: "br_fresh ev s \<Longrightarrow> br_round write_all ev s = Some (Inr s') \<Longrightarrow> br_step s s'"

inductive_cases br_stepE: "br_step s s'"

section \<open>Properties\<close>

text \<open>C20. As long as every client takes all the data, each client gets the standard input without a
  gap from the round in which it connects: over any number of rounds what it has been sent grows by
  exactly what the server has read, clients that come later are put in front of the list and
  nobody leaves it. The next round sends what it reads to the client that connects in it, too. It
  uses no memory that is not allocated, except when a client connects and \<open>malloc\<close> has no memory
  for it: then the null pointer is written to.\<close>

theorem br_clients_get_stream:
  assumes "br_step\<^sup>*\<^sup>* s s'" "br_ok s xs"
  shows "\<exists>ys bs. br_ok s' (ys @ xs) \<and> br_stdin s = bs @ br_stdin s' \<and>
    (\<forall>x \<in> set xs. br_sent s' (snd x) = br_sent s (snd x) @ bs) \<and>
    (\<forall>ev. br_fresh ev s' \<longrightarrow>
      (if 0 \<in> fst ` set (sel_new ev) then br_round write_all ev s' = Some (Inl Null_access)
       else \<exists>t cs. br_round write_all ev s' = Some (Inr t) \<and> br_ok t (sel_new ev @ ys @ xs) \<and> br_stdin s' = cs @ br_stdin t \<and>
         (\<forall>x \<in> set (sel_new ev @ ys @ xs). br_sent t (snd x) = br_sent s' (snd x) @ cs)))"
proof -
  have "\<exists>ys bs. br_ok s' (ys @ xs) \<and> br_stdin s = bs @ br_stdin s' \<and>
    (\<forall>x \<in> set xs. br_sent s' (snd x) = br_sent s (snd x) @ bs)"
    using assms(1)
  proof (induction rule: rtranclp_induct)
    case base
    then show ?case using assms(2) by (intro exI [of _ "[]"]) simp
  next
    case (step t u)
    then obtain ys bs where IH: "br_ok t (ys @ xs)" "br_stdin s = bs @ br_stdin t"
      "\<forall>x \<in> set xs. br_sent t (snd x) = br_sent s (snd x) @ bs" by blast
    obtain ev where ev: "br_fresh ev t" "br_round write_all ev t = Some (Inr u)"
      using step.hyps(2) by (rule br_stepE)
    then have "0 \<notin> fst ` set (sel_new ev)"
      using br_round_null [of ev write_all t] by (metis option.inject sum.distinct(1))
    with br_round_all [OF IH(1) ev(1)] ev(2) obtain cs where "br_ok u (sel_new ev @ ys @ xs)"
      "br_stdin t = cs @ br_stdin u" "\<forall>x \<in> set (ys @ xs). br_sent u (snd x) = br_sent t (snd x) @ cs"
      by auto
    then show ?case using IH by (intro exI [of _ "sel_new ev @ ys"] exI [of _ "bs @ cs"]) simp
  qed
  then obtain ys bs where *: "br_ok s' (ys @ xs)" "br_stdin s = bs @ br_stdin s'"
    "\<forall>x \<in> set xs. br_sent s' (snd x) = br_sent s (snd x) @ bs" by blast
  show ?thesis
    by (intro exI [of _ ys] exI [of _ bs] conjI allI impI *) (use br_round_all [OF *(1)] br_round_null in \<open>simp split: if_split\<close>)
qed

definition br_example :: br_state where
  "br_example = (br_initial [1, 2, 3])\<lparr>br_heap := [8 \<mapsto> \<lparr>cl_next = 0, cl_fd = 5\<rparr>],
     g_clients_head := 8, g_clients_cnt := 1\<rparr>"

lemma br_example_ok: "br_ok br_example [(8, 5)]"
  by (simp add: br_example_def br_initial_def br_ok_def)

text \<open>A client that connects and, in the next round, a second one: both get the two bytes of that round.\<close>

theorem br_clients_get_stream_witness:
  "\<exists>s' t. br_round write_all (Sel_ready (Some (5, 8)) None) (br_initial [1, 2, 3]) = Some (Inr s') \<and>
     br_round write_all (Sel_ready (Some (6, 9)) (Some 2)) s' = Some (Inr t) \<and>
     [1, 2, 3] = br_sent t 5 @ br_stdin t \<and> br_sent t 6 = br_sent t 5 \<and> br_ok t [(9, 6), (8, 5)] \<and>
     br_round write_all (Sel_ready (Some (6, 0)) None) s' = Some (Inl Null_access)"
proof -
  let ?ev = "Sel_ready (Some (5, 8)) None"
  have ok: "br_ok (br_initial [1, 2, 3]) []" and fresh: "br_fresh ?ev (br_initial [1, 2, 3])"
    by (simp_all add: br_initial_def br_ok_def br_fresh_def)
  define s' where "s' = (br_initial [1, 2, 3])\<lparr>br_heap := [8 \<mapsto> \<lparr>cl_next = 0, cl_fd = 5\<rparr>], g_clients_cnt := 1, g_clients_head := 8\<rparr>"
  have s': "br_round write_all ?ev (br_initial [1, 2, 3]) = Some (Inr s')"
    by (simp add: br_round_def add_client_def br_initial_def s'_def)
  have new: "br_fresh (Sel_ready (Some (6, a)) i) s'" if "a \<noteq> 8" for a i
    using that by (simp add: br_fresh_def s'_def br_initial_def)
  have s'_ok: "br_ok s' [(8, 5)]" by (simp add: s'_def br_initial_def br_ok_def)
  obtain ys where ys: "br_ok s' (ys @ [(8, 5)])" and all: "\<forall>ev. br_fresh ev s' \<longrightarrow>
     (if 0 \<in> fst ` set (sel_new ev) then br_round write_all ev s' = Some (Inl Null_access)
      else \<exists>t cs. br_round write_all ev s' = Some (Inr t) \<and> br_ok t (sel_new ev @ ys @ [(8, 5)]) \<and> br_stdin s' = cs @ br_stdin t \<and>
         (\<forall>x \<in> set (sel_new ev @ ys @ [(8, 5)]). br_sent t (snd x) = br_sent s' (snd x) @ cs))"
    using br_clients_get_stream [OF rtranclp.rtrancl_refl s'_ok] by blast
  have "ys = []" using ys by (simp add: br_ok_def s'_def)
  note main = all [unfolded this, rule_format]
  show ?thesis
    using s' main [OF new, of 9 "Some 2"] main [OF new, of 0 None]
    by (simp, elim exE conjE) (intro exI conjI, assumption+, simp_all add: s'_def br_initial_def)
qed

text \<open>C34. A client that is gone: the first one in the list whose write fails decides. When it is the
  last of the list, the one connected first, it is closed and leaves the list, the others have
  been served, but its node is never freed. When another client follows it in the list, the
  server frees the node of that other client and goes on to read it.\<close>

theorem br_gone_client:
  assumes "br_ok s (ys @ x # zs)" "wr (snd x) < 0" "\<forall>u \<in> set ys. 0 \<le> wr (snd u)"
  shows "(if zs = []
    then \<exists>s'. br_write_loop wr buf 0 (g_clients_head s) s = Some (Inr s') \<and> br_ok s' ys \<and>
      br_closed s' = snd x # br_closed s \<and> br_heap s' (fst x) \<noteq> None \<and>
      (\<forall>f. br_sent s' f = br_sent s f @ (if f \<in> snd ` set ys then take (nat (wr f)) buf else []))
    else br_write_loop wr buf 0 (g_clients_head s) s = Some (Inl Use_after_free))"
proof (cases zs)
  case Nil
  then show ?thesis
    using br_delivery_last [of s ys x wr buf] assms by (auto simp: br_deliver_def)
next
  case (Cons z zs')
  then show ?thesis using br_delivery_middle [of s ys x z zs' wr buf] assms by simp
qed

theorem br_gone_client_witness:
  "\<exists>s'. br_write_loop (\<lambda>f. -1) [7] 0 (g_clients_head br_example) br_example = Some (Inr s') \<and>
     br_heap s' 8 \<noteq> None \<and> br_closed s' = [5]"
  using br_gone_client [of br_example "[]" "(8, 5)" "[]" "\<lambda>f. -1" "[7]"] br_example_ok
  by (auto simp: br_example_def br_initial_def)

text \<open>At the end of the standard input a round changes nothing: the server spins.\<close>

lemma br_end_of_input: "br_stdin s = [] \<Longrightarrow> br_round wr (Sel_ready None (Some n)) s = Some (Inr s)"
  by (simp add: br_round_def br_stdin_ready_def)

text \<open>A write that takes only a part loses the rest for that client.\<close>

lemma br_short_write:
  "br_ok s [(a, f)] \<Longrightarrow> \<exists>s'. br_write_loop (\<lambda>g. 1) [1, 2] 0 (g_clients_head s) s = Some (Inr s') \<and>
     br_sent s' f = br_sent s f @ [1]"
  using br_write_all [of s "g_clients_head s" "[(a, f)]" "\<lambda>g. 1" "[1, 2]" 0]
  by (auto simp: br_ok_def br_deliver_def)

end
