(* ===== verification/Netlink.thy ===== *)
theory Netlink
  imports Prelude
begin

text \<open>
  The netlink example driver/program-examples/netlink-exam-kern.c: a kernel thread collects the
  payloads of messages in a buffer and broadcasts the messages, /proc shows the buffer, and
  unloading stops the thread. The thread is a step relation together with the two events from
  outside, a message and the request to exit. Copying is checked against the size of the buffer and
  of the message, independently of the test the code makes.
\<close>

section \<open>State\<close>

definition NL_BUF_SIZE :: u32 where
  "NL_BUF_SIZE = 16384"

text \<open>\<open>sizeof(struct nlmsghdr)\<close>, which is also \<open>NLMSG_LENGTH(0)\<close>.\<close>

definition NLMSG_HDRLEN :: u32 where
  "NLMSG_HDRLEN = 16"

text \<open>The header's length field, and the bytes that really follow the header.\<close>

record nl_msg =
  nlmsg_len :: u32
  nlmsg_pid :: u32
  nlmsg_flags :: "16 word"
  nl_payload :: "byte list"

text \<open>Where the thread is; \<open>nl_sleepy\<close> is the state \<open>TASK_INTERRUPTIBLE\<close>.\<close>

datatype nl_pc = At_test | At_prepare | At_schedule | At_dequeue | At_done

record nl_state =
  nl_buffer :: "byte list"
  buffer_tail :: u32
  nl_queue :: "nl_msg list"
  nl_broadcast :: "nl_msg list"
  nl_leaked :: "nl_msg list"
  exit_flag :: bool
  nl_sleepy :: bool
  nl_pc :: nl_pc

definition nl_initial :: nl_state where
  "nl_initial = \<lparr>nl_buffer = replicate 16384 0, buffer_tail = 0, nl_queue = [], nl_broadcast = [],
     nl_leaked = [], exit_flag = False, nl_sleepy = False, nl_pc = At_test\<rparr>"

section \<open>One message\<close>

text \<open>\<open>Wild_copy\<close> is a copy outside the buffer, \<open>Over_read\<close> one from beyond the message.\<close>

datatype nl_fault = Wild_copy | Over_read

text \<open>\<open>memcpy\<close> to an offset of an array: a negative length is a huge one.\<close>

definition nl_memcpy :: "byte list \<Rightarrow> u32 \<Rightarrow> byte list \<Rightarrow> u32 \<Rightarrow> nl_fault + byte list" where
  "nl_memcpy buf at src len =
     (if sint len < 0 \<or> length buf < unat at + unat len then Inl Wild_copy
      else if length src < unat len then Inl Over_read
      else Inr (mem_put buf (unat at) (take (unat len) src)))"

definition nl_store :: "nl_msg \<Rightarrow> nl_state \<Rightarrow> nl_fault + nl_state" where
  "nl_store m s =
     (let len = nlmsg_len m - NLMSG_HDRLEN in
      if NL_BUF_SIZE < len + buffer_tail s then Inr s
      else (case nl_memcpy (nl_buffer s) (buffer_tail s) (nl_payload m) len of
          Inl e \<Rightarrow> Inl e
        | Inr b \<Rightarrow> Inr (s\<lparr>nl_buffer := b, buffer_tail := buffer_tail s + len\<rparr>)))"

text \<open>A message with a short header is dropped and not freed.\<close>

definition nl_message :: "nl_msg \<Rightarrow> nl_state \<Rightarrow> nl_fault + nl_state" where
  "nl_message m s =
     (if nlmsg_len m < NLMSG_HDRLEN then Inr (s\<lparr>nl_leaked := m # nl_leaked s\<rparr>)
      else (case nl_store m s of
          Inl e \<Rightarrow> Inl e
        | Inr s1 \<Rightarrow> Inr (s1\<lparr>nl_broadcast := nl_broadcast s1 @ [m\<lparr>nlmsg_pid := 0, nlmsg_flags := 0\<rparr>]\<rparr>)))"

text \<open>The inner loop, when no message comes in while it runs.\<close>

primrec nl_drain :: "nl_msg list \<Rightarrow> nl_state \<Rightarrow> nl_fault + nl_state" where
  "nl_drain [] s = Inr s"
| "nl_drain (m # ms) s = (case nl_message m s of Inl e \<Rightarrow> Inl e | Inr s1 \<Rightarrow> nl_drain ms s1)"

section \<open>The thread and its environment\<close>

text \<open>\<open>wake_up\<close> reaches the thread only when it is on the wait queue.\<close>

definition nl_wake_up :: "nl_state \<Rightarrow> nl_state" where
  "nl_wake_up s = s\<lparr>nl_sleepy := False\<rparr>"

definition recv_handler :: "nl_msg \<Rightarrow> nl_state \<Rightarrow> nl_state" where
  "recv_handler m s = nl_wake_up (s\<lparr>nl_queue := nl_queue s @ [m]\<rparr>)"

text \<open>Unloading up to the wait for the completion.\<close>

definition nl_request_exit :: "nl_state \<Rightarrow> nl_state" where
  "nl_request_exit s = nl_wake_up (s\<lparr>exit_flag := True\<rparr>)"

inductive nl_thread :: "nl_state \<Rightarrow> nl_fault + nl_state \<Rightarrow> bool" where
  test_run: "nl_pc s = At_test \<Longrightarrow> \<not> exit_flag s \<Longrightarrow> nl_thread s (Inr (s\<lparr>nl_pc := At_prepare\<rparr>))"
| test_exit: "nl_pc s = At_test \<Longrightarrow> exit_flag s \<Longrightarrow> nl_thread s (Inr (s\<lparr>nl_pc := At_done\<rparr>))"
| prepare: "nl_pc s = At_prepare \<Longrightarrow> nl_thread s (Inr (s\<lparr>nl_pc := At_schedule, nl_sleepy := True\<rparr>))"
| woken: "nl_pc s = At_schedule \<Longrightarrow> \<not> nl_sleepy s \<Longrightarrow> nl_thread s (Inr (s\<lparr>nl_pc := At_dequeue\<rparr>))"
| empty: "nl_pc s = At_dequeue \<Longrightarrow> nl_queue s = [] \<Longrightarrow> nl_thread s (Inr (s\<lparr>nl_pc := At_test\<rparr>))"
| dequeue: "nl_pc s = At_dequeue \<Longrightarrow> nl_queue s = m # ms \<Longrightarrow>
    nl_thread s (nl_message m (s\<lparr>nl_queue := ms\<rparr>))"

text \<open>A step of the thread or an event from outside, with the messages that come in.\<close>

inductive nl_step :: "nl_state \<Rightarrow> nl_msg list \<Rightarrow> nl_fault + nl_state \<Rightarrow> bool" where
  thread: "nl_thread s r \<Longrightarrow> nl_step s [] r"
| message: "nl_step s [m] (Inr (recv_handler m s))"
| exit: "nl_step s [] (Inr (nl_request_exit s))"

text \<open>The states after the messages that have come in so far.\<close>

inductive nl_reach :: "nl_msg list \<Rightarrow> nl_state \<Rightarrow> bool" where
  start: "nl_reach [] nl_initial"
| step: "nl_reach ms s \<Longrightarrow> nl_step s new (Inr s') \<Longrightarrow> nl_reach (ms @ new) s'"

text \<open>The thread on its own.\<close>

definition nl_goes :: "nl_state \<Rightarrow> nl_state \<Rightarrow> bool" where
  "nl_goes s t \<longleftrightarrow> nl_thread s (Inr t)"

inductive_cases nl_threadE: "nl_thread s r"
inductive_cases nl_stepE: "nl_step s new r"

section \<open>Reading /proc\<close>

definition netlink_exam_readproc :: "nat \<Rightarrow> nat \<Rightarrow> nl_state \<Rightarrow> byte list \<times> bool" where
  "netlink_exam_readproc off cnt s =
     (let tail = unat (buffer_tail s) in
      if tail \<le> off then ([], True)
      else (let l1 = (if 4096 < cnt then 4096 else cnt);
                l2 = (if tail - off < l1 then tail - off else l1)
            in (mem_get (nl_buffer s) off l2, False)))"

section \<open>Loading and unloading\<close>

datatype nl_res = Nl_sock | Nl_thread | Nl_proc

text \<open>The answers for the thread and the /proc entry are not looked at.\<close>

definition netlink_exam_init :: "bool \<Rightarrow> bool \<Rightarrow> bool \<Rightarrow> int \<times> nl_res list" where
  "netlink_exam_init sock_ok thread_ok proc_ok =
     (if \<not> sock_ok then (1, [])
      else (0, (if proc_ok then [Nl_proc] else []) @ (if thread_ok then [Nl_thread] else []) @ [Nl_sock]))"

text \<open>After the completion; without a thread it never comes (\<open>None\<close>).\<close>

definition netlink_exam_exit :: "nl_res list \<Rightarrow> nl_res list option" where
  "netlink_exam_exit held =
     (if Nl_thread \<in> set held then Some (remove1 Nl_sock (remove1 Nl_thread held)) else None)"

section \<open>Invariant\<close>

definition nl_ok :: "nl_state \<Rightarrow> bool" where
  "nl_ok s \<longleftrightarrow> length (nl_buffer s) = 16384 \<and> unat (buffer_tail s) \<le> 16384"

definition nl_content :: "nl_state \<Rightarrow> byte list" where
  "nl_content s = mem_get (nl_buffer s) 0 (unat (buffer_tail s))"

lemma nl_content_length: "nl_ok s \<Longrightarrow> length (nl_content s) = unat (buffer_tail s)"
  by (simp add: nl_ok_def nl_content_def mem_simps)

lemma nl_store_ok:
  assumes "nl_ok s" "nl_store m s = Inr s'"
  shows "nl_ok s'"
proof (cases "NL_BUF_SIZE < nlmsg_len m - NLMSG_HDRLEN + buffer_tail s")
  case False
  define len where "len = nlmsg_len m - NLMSG_HDRLEN"
  have fits: "\<not> (sint len < 0 \<or> length (nl_buffer s) < unat (buffer_tail s) + unat len)" "\<not> length (nl_payload m) < unat len"
    and s': "s' = s\<lparr>nl_buffer := mem_put (nl_buffer s) (unat (buffer_tail s)) (take (unat len) (nl_payload m)),
      buffer_tail := buffer_tail s + len\<rparr>"
    using assms(2) False by (auto simp: nl_store_def nl_memcpy_def Let_def simp flip: len_def split: if_splits)
  have l: "length (nl_buffer s) = 16384" using assms(1) by (simp add: nl_ok_def)
  then have "unat (buffer_tail s + len) = unat (buffer_tail s) + unat len"
    using fits(1) by (simp add: unat_word_ariths)
  then show ?thesis using assms(1) fits l by (simp add: s' nl_ok_def length_mem_put)
qed (use assms in \<open>simp add: nl_store_def Let_def\<close>)

lemma nl_message_ok: "nl_ok s \<Longrightarrow> nl_message m s = Inr s' \<Longrightarrow> nl_ok s'"
  using nl_store_ok [of s m]
  by (auto simp: nl_message_def nl_ok_def split: if_splits sum.splits)

lemma nl_ok_other [simp]:
  "nl_ok (s\<lparr>nl_queue := q\<rparr>) = nl_ok s" "nl_ok (s\<lparr>nl_pc := p\<rparr>) = nl_ok s"
  "nl_ok (s\<lparr>nl_sleepy := b\<rparr>) = nl_ok s" "nl_ok (s\<lparr>exit_flag := e\<rparr>) = nl_ok s"
  by (simp_all add: nl_ok_def)

lemma nl_thread_ok: "nl_thread s r \<Longrightarrow> nl_ok s \<Longrightarrow> r = Inr s' \<Longrightarrow> nl_ok s'"
  by (cases rule: nl_thread.cases) (auto, metis nl_message_ok nl_ok_other(1))

lemma nl_ok_initial: "nl_ok nl_initial"
  by (simp add: nl_initial_def nl_ok_def)

lemma nl_reach_ok: "nl_reach ms s \<Longrightarrow> nl_ok s"
proof (induction rule: nl_reach.induct)
  case (step ms s new s')
  from step.hyps(2) show ?case
    using nl_thread_ok [OF _ step.IH]
    by (cases rule: nl_step.cases)
      (use step.IH in \<open>auto simp: recv_handler_def nl_request_exit_def nl_wake_up_def\<close>)
qed (rule nl_ok_initial)

section \<open>Messages that are what their header says\<close>

definition nl_wf :: "nl_msg \<Rightarrow> bool" where
  "nl_wf m \<longleftrightarrow> unat (nlmsg_len m) = 16 + length (nl_payload m) \<and> unat (nlmsg_len m) < 2 ^ 31"

text \<open>The payloads that fit, one after the other, when \<open>n\<close> bytes are used already.\<close>

fun nl_accepted :: "nat \<Rightarrow> nl_msg list \<Rightarrow> byte list" where
  "nl_accepted n [] = []"
| "nl_accepted n (m # ms) =
     (if 16384 < n + length (nl_payload m) then nl_accepted n ms
      else nl_payload m @ nl_accepted (n + length (nl_payload m)) ms)"

lemma unat_NL_BUF_SIZE: "unat NL_BUF_SIZE = 16384"
  by (simp add: NL_BUF_SIZE_def)

lemma nl_store_wf:
  assumes "nl_ok s" "nl_wf m"
  shows "\<exists>s'. nl_store m s = Inr s' \<and> nl_broadcast s' = nl_broadcast s \<and>
    nl_content s' = nl_content s @ (if 16384 < unat (buffer_tail s) + length (nl_payload m) then [] else nl_payload m)"
proof -
  define len where "len = nlmsg_len m - NLMSG_HDRLEN"
  define n where "n = length (nl_payload m)"
  have m: "unat (nlmsg_len m) = 16 + n" "n < 2 ^ 31 - 16"
    using assms(2) by (auto simp: nl_wf_def n_def)
  then have "(16 :: u32) \<le> nlmsg_len m" by (simp add: word_le_nat_alt)
  then have len: "unat len = n" using m(1) by (simp add: len_def NLMSG_HDRLEN_def unat_sub)
  then have "len = of_nat n" by auto
  then have pos: "\<not> sint len < 0"
    using m(2) by (simp add: signed_of_nat signed_take_bit_int_eq_self)
  have tail: "unat (buffer_tail s) \<le> 16384" "length (nl_buffer s) = 16384"
    using assms(1) by (simp_all add: nl_ok_def)
  then have sum: "unat (len + buffer_tail s) = n + unat (buffer_tail s)"
    using len m(2) by (simp add: unat_word_ariths)
  then have cmp: "NL_BUF_SIZE < len + buffer_tail s \<longleftrightarrow> 16384 < unat (buffer_tail s) + n"
    unfolding word_less_nat_alt by (simp add: unat_NL_BUF_SIZE add.commute)
  show ?thesis
  proof (cases "16384 < unat (buffer_tail s) + n")
    case True
    then show ?thesis using cmp by (simp add: nl_store_def Let_def flip: len_def n_def)
  next
    case False
    let ?b = "mem_put (nl_buffer s) (unat (buffer_tail s)) (nl_payload m)"
    let ?s = "s\<lparr>nl_buffer := ?b, buffer_tail := buffer_tail s + len\<rparr>"
    have "nl_store m s = Inr ?s"
      using False cmp pos len tail(2) by (simp add: nl_store_def nl_memcpy_def Let_def n_def flip: len_def)
    moreover have "nl_content ?s = nl_content s @ nl_payload m"
      using False tail sum mem_get_append [of ?b 0 "unat (buffer_tail s)" n]
        mem_get_put_disjoint [of "unat (buffer_tail s)" "nl_payload m" "nl_buffer s" 0 "unat (buffer_tail s)"]
      by (simp add: nl_content_def n_def mem_simps add.commute)
    ultimately show ?thesis using False by (simp add: n_def)
  qed
qed

lemma nl_message_wf:
  assumes "nl_ok s" "nl_wf m"
  shows "\<exists>s'. nl_message m s = Inr s' \<and> nl_ok s' \<and>
    nl_broadcast s' = nl_broadcast s @ [m\<lparr>nlmsg_pid := 0, nlmsg_flags := 0\<rparr>] \<and>
    nl_content s' = nl_content s @ (if 16384 < unat (buffer_tail s) + length (nl_payload m) then [] else nl_payload m)"
proof -
  obtain s1 where s1: "nl_store m s = Inr s1" "nl_broadcast s1 = nl_broadcast s"
    "nl_content s1 = nl_content s @ (if 16384 < unat (buffer_tail s) + length (nl_payload m) then [] else nl_payload m)"
    using nl_store_wf [OF assms] by blast
  have "\<not> nlmsg_len m < NLMSG_HDRLEN"
    using assms(2) by (simp add: nl_wf_def NLMSG_HDRLEN_def word_less_nat_alt)
  then show ?thesis
    using s1 nl_store_ok [OF assms(1) s1(1)]
    by (simp add: nl_message_def nl_ok_def nl_content_def)
qed

lemma nl_drain_wf:
  assumes "nl_ok s" "\<forall>m \<in> set ms. nl_wf m"
  shows "\<exists>s'. nl_drain ms s = Inr s' \<and> nl_ok s' \<and>
    nl_broadcast s' = nl_broadcast s @ map (\<lambda>m. m\<lparr>nlmsg_pid := 0, nlmsg_flags := 0\<rparr>) ms \<and>
    nl_content s' = nl_content s @ nl_accepted (length (nl_content s)) ms"
  using assms
proof (induction ms arbitrary: s)
  case (Cons m ms)
  obtain s1 where s1: "nl_message m s = Inr s1" "nl_ok s1"
    "nl_broadcast s1 = nl_broadcast s @ [m\<lparr>nlmsg_pid := 0, nlmsg_flags := 0\<rparr>]"
    "nl_content s1 = nl_content s @ (if 16384 < unat (buffer_tail s) + length (nl_payload m) then [] else nl_payload m)"
    using nl_message_wf [of s m] Cons.prems by auto
  then show ?case
    using Cons.IH [OF s1(2)] Cons.prems nl_content_length [of s] by auto
qed simp

section \<open>A reader of /proc\<close>

text \<open>A program that reads \<open>k\<close> bytes at a time up to the end.\<close>

lemma readproc_bytes:
  "nl_ok s \<Longrightarrow> fst (netlink_exam_readproc off k s) =
     (if unat (buffer_tail s) \<le> off then [] else mem_get (nl_buffer s) off (min (min 4096 k) (unat (buffer_tail s) - off)))"
  by (auto simp: netlink_exam_readproc_def Let_def min_def)

lemma readproc_length:
  "nl_ok s \<Longrightarrow> off < unat (buffer_tail s) \<Longrightarrow>
     length (fst (netlink_exam_readproc off k s)) = min (min 4096 k) (unat (buffer_tail s) - off)"
  by (auto simp: readproc_bytes nl_ok_def intro!: length_mem_get)

function nl_cat :: "nat \<Rightarrow> nat \<Rightarrow> nl_state \<Rightarrow> byte list" where
  "nl_cat k off s =
     (let bs = fst (netlink_exam_readproc off k s) in
      if bs = [] \<or> unat (buffer_tail s) \<le> off then [] else bs @ nl_cat k (off + length bs) s)"
  by auto
termination by (relation "measure (\<lambda>(k, off, s). unat (buffer_tail s) - off)")
    (auto simp: diff_less_mono2 simp flip: length_greater_0_conv)

declare nl_cat.simps [simp del]

lemma nl_cat_rest:
  assumes "nl_ok s" "0 < k" "off \<le> unat (buffer_tail s)"
  shows "nl_cat k off s = mem_get (nl_buffer s) off (unat (buffer_tail s) - off)"
  using assms
proof (induction k off s rule: nl_cat.induct)
  case (1 k off s)
  show ?case
  proof (cases "off = unat (buffer_tail s)")
    case True
    then show ?thesis by (subst nl_cat.simps) (simp add: Let_def)
  next
    case False
    define n where "n = min (min 4096 k) (unat (buffer_tail s) - off)"
    have n: "0 < n" "off + n \<le> unat (buffer_tail s)"
      using False "1.prems" by (auto simp: n_def)
    have bs: "fst (netlink_exam_readproc off k s) = mem_get (nl_buffer s) off n"
      "length (mem_get (nl_buffer s) off n) = n"
      using readproc_bytes [of s off k] readproc_length [of s off k] False "1.prems" by (auto simp: n_def)
    then have ne: "mem_get (nl_buffer s) off n \<noteq> []" using n(1) by auto
    have "nl_cat k (off + n) s = mem_get (nl_buffer s) (off + n) (unat (buffer_tail s) - (off + n))"
      using "1.IH" [OF refl] bs ne n "1.prems" by simp
    then show ?thesis
      using bs ne n mem_get_append [of "nl_buffer s" off n "unat (buffer_tail s) - (off + n)"]
      by (subst nl_cat.simps) (simp add: Let_def)
  qed
qed

lemma nl_cat_content: "nl_ok s \<Longrightarrow> 0 < k \<Longrightarrow> nl_cat k 0 s = nl_content s"
  using nl_cat_rest [of s k 0] by (simp add: nl_content_def)

section \<open>Properties\<close>

text \<open>C31. The payloads of messages whose header tells their true length are what a reader of
  /proc/netlink_exam_buffer sees, one after the other in the order of arrival, whatever the size
  of its reads; a payload that does not fit into the 16384 bytes is left out and later smaller
  ones may still go in; every message is broadcast, without sender and flags.\<close>

theorem netlink_proc_shows_messages:
  assumes "\<forall>m \<in> set ms. nl_wf m" "0 < k"
  shows "\<exists>s'. nl_drain ms nl_initial = Inr s' \<and> nl_cat k 0 s' = nl_accepted 0 ms \<and>
    nl_broadcast s' = map (\<lambda>m. m\<lparr>nlmsg_pid := 0, nlmsg_flags := 0\<rparr>) ms"
proof -
  have "nl_ok nl_initial" "nl_content nl_initial = []" "nl_broadcast nl_initial = []"
    by (simp_all add: nl_ok_initial) (simp_all add: nl_content_def nl_initial_def)
  then show ?thesis
    using nl_drain_wf [of nl_initial ms] nl_cat_content [OF _ assms(2)] assms(1) by fastforce
qed

theorem netlink_proc_shows_messages_witness:
  "\<exists>s'. nl_drain [\<lparr>nlmsg_len = 18, nlmsg_pid = 3, nlmsg_flags = 1, nl_payload = [65, 66]\<rparr>,
      \<lparr>nlmsg_len = 17, nlmsg_pid = 3, nlmsg_flags = 1, nl_payload = [67]\<rparr>] nl_initial = Inr s' \<and>
    nl_cat 1 0 s' = [65, 66, 67]"
  using netlink_proc_shows_messages [of "[\<lparr>nlmsg_len = 18, nlmsg_pid = 3, nlmsg_flags = 1, nl_payload = [65, 66]\<rparr>,
      \<lparr>nlmsg_len = 17, nlmsg_pid = 3, nlmsg_flags = 1, nl_payload = [67]\<rparr>]" 1]
  by (simp add: nl_wf_def) blast

lemma nl_thread_blocked:
  "(\<nexists>r. nl_thread s r) \<longleftrightarrow> nl_pc s = At_done \<or> nl_pc s = At_schedule \<and> nl_sleepy s"
proof
  assume none: "\<nexists>r. nl_thread s r"
  show "nl_pc s = At_done \<or> nl_pc s = At_schedule \<and> nl_sleepy s"
  proof (cases "nl_pc s")
    case At_test
    then show ?thesis using none test_run test_exit by blast
  next
    case At_prepare
    then show ?thesis using none prepare by blast
  next
    case At_schedule
    then show ?thesis using none woken by blast
  next
    case At_dequeue
    then show ?thesis using none empty dequeue by (cases "nl_queue s") blast+
  qed simp
qed (auto elim: nl_threadE)

section \<open>The thread among its events\<close>

lemma nl_accepted_snoc:
  "nl_accepted n (ms @ [m]) = nl_accepted n ms @
     (if 16384 < n + length (nl_accepted n ms) + length (nl_payload m) then [] else nl_payload m)"
  by (induction ms arbitrary: n) (auto simp: add.assoc)

definition nl_sent :: "nl_msg \<Rightarrow> nl_msg" where
  "nl_sent m = m\<lparr>nlmsg_pid := 0, nlmsg_flags := 0\<rparr>"

text \<open>The messages that have come in are the handled ones and then the queue.\<close>

definition nl_inv :: "nl_msg list \<Rightarrow> nl_state \<Rightarrow> bool" where
  "nl_inv ms s \<longleftrightarrow> (\<exists>hs. ms = hs @ nl_queue s \<and> nl_content s = nl_accepted 0 hs \<and> nl_broadcast s = map nl_sent hs)"

lemma nl_inv_other [simp]:
  "nl_inv ms (s\<lparr>nl_pc := p\<rparr>) = nl_inv ms s" "nl_inv ms (s\<lparr>nl_sleepy := b\<rparr>) = nl_inv ms s"
  "nl_inv ms (s\<lparr>exit_flag := e\<rparr>) = nl_inv ms s"
  by (simp_all add: nl_inv_def nl_content_def)

lemma nl_inv_receive: "nl_inv ms s \<Longrightarrow> nl_inv (ms @ [m]) (recv_handler m s)"
  by (auto simp: nl_inv_def nl_content_def recv_handler_def nl_wake_up_def)

text \<open>Handling one message of the queue.\<close>

lemma nl_message_unqueue:
  assumes "nl_message m (s\<lparr>nl_queue := q\<rparr>) = Inr t" "nl_wf m" "nl_ok s"
  shows "nl_queue t = q \<and> nl_pc t = nl_pc s \<and> exit_flag t = exit_flag s"
  using assms
  by (auto simp: nl_message_def nl_wf_def NLMSG_HDRLEN_def word_less_nat_alt nl_store_def Let_def split: if_splits sum.splits)

lemma nl_inv_message:
  assumes "nl_inv ms s" "nl_ok s" "nl_queue s = m # q" "nl_wf m"
  shows "\<exists>t. nl_message m (s\<lparr>nl_queue := q\<rparr>) = Inr t \<and> nl_ok t \<and> nl_inv ms t \<and>
    nl_queue t = q \<and> nl_pc t = nl_pc s \<and> exit_flag t = exit_flag s"
proof -
  let ?s = "s\<lparr>nl_queue := q\<rparr>"
  obtain hs where hs: "ms = hs @ m # q" "nl_content s = nl_accepted 0 hs" "nl_broadcast s = map nl_sent hs"
    using assms(1,3) by (auto simp: nl_inv_def)
  have "nl_ok ?s" using assms(2) by simp
  from nl_message_wf [OF this assms(4)] obtain t where t: "nl_message m ?s = Inr t" "nl_ok t"
    "nl_broadcast t = nl_broadcast s @ [nl_sent m]"
    "nl_content t = nl_content s @ (if 16384 < unat (buffer_tail s) + length (nl_payload m) then [] else nl_payload m)"
    by (auto simp: nl_sent_def nl_content_def)
  have q: "nl_queue t = q \<and> nl_pc t = nl_pc s \<and> exit_flag t = exit_flag s"
    by (rule nl_message_unqueue [OF t(1) assms(4,2)])
  have "unat (buffer_tail s) = length (nl_accepted 0 hs)" using nl_content_length [OF assms(2)] hs(2) by simp
  then have "nl_content t = nl_accepted 0 (hs @ [m])" using t(4) hs(2) by (simp add: nl_accepted_snoc)
  moreover have "ms = (hs @ [m]) @ nl_queue t" "nl_broadcast t = map nl_sent (hs @ [m])" using hs(1,3) t(3) q by simp_all
  ultimately have "nl_inv ms t" unfolding nl_inv_def by blast
  then show ?thesis using t(1,2) q by blast
qed

lemma nl_inv_thread:
  assumes "nl_thread s r" "nl_inv ms s" "nl_ok s" "\<forall>m \<in> set ms. nl_wf m"
  shows "\<exists>t. r = Inr t \<and> nl_inv ms t"
  using assms(1)
proof (cases rule: nl_thread.cases)
  case (dequeue m q)
  then have "nl_wf m" using assms(2,4) by (auto simp: nl_inv_def)
  from nl_inv_message [OF assms(2,3) dequeue(3) this] dequeue(1) show ?thesis by blast
qed (use assms(2) in auto)

lemma nl_reach_inv: "nl_reach ms s \<Longrightarrow> \<forall>m \<in> set ms. nl_wf m \<Longrightarrow> nl_inv ms s"
proof (induction rule: nl_reach.induct)
  case start
  then show ?case by (simp add: nl_inv_def nl_initial_def nl_content_def)
next
  case (step ms s new s')
  then have inv: "nl_inv ms s" by simp
  from step.hyps(2) show ?case
  proof (cases rule: nl_step.cases)
    case thread
    then show ?thesis using nl_inv_thread [OF thread(2) inv nl_reach_ok [OF step.hyps(1)]] step.prems by auto
  next
    case (message m)
    then show ?thesis using nl_inv_receive [OF inv] by simp
  next
    case exit
    then show ?thesis using inv by (simp add: nl_request_exit_def nl_wake_up_def)
  qed
qed

text \<open>With the flag set the thread handles what is queued and ends.\<close>

lemma nl_goes_to_end:
  assumes "nl_pc s = At_dequeue" "exit_flag s" "nl_inv ms s" "nl_ok s" "\<forall>m \<in> set ms. nl_wf m"
  shows "\<exists>t. nl_goes\<^sup>*\<^sup>* s t \<and> nl_pc t = At_done \<and> nl_queue t = [] \<and> nl_inv ms t"
  using assms(1-4)
proof (induction "nl_queue s" arbitrary: s)
  case Nil
  have "nl_goes s (s\<lparr>nl_pc := At_test\<rparr>)" unfolding nl_goes_def by (rule nl_thread.empty) (use Nil in simp_all)
  moreover have "nl_goes (s\<lparr>nl_pc := At_test\<rparr>) (s\<lparr>nl_pc := At_done\<rparr>)"
    using nl_thread.test_exit [of "s\<lparr>nl_pc := At_test\<rparr>"] Nil.prems by (simp add: nl_goes_def)
  ultimately have "nl_goes\<^sup>*\<^sup>* s (s\<lparr>nl_pc := At_done\<rparr>)" by (meson r_into_rtranclp rtranclp.rtrancl_into_rtrancl)
  then show ?case using Nil by (intro exI [of _ "s\<lparr>nl_pc := At_done\<rparr>"]) simp
next
  case (Cons m q)
  have q: "nl_queue s = m # q" using Cons.hyps(2) by simp
  then have "nl_wf m" using Cons.prems(3) assms(5) by (auto simp: nl_inv_def)
  from nl_inv_message [OF Cons.prems(3,4) q this] obtain u where u: "nl_message m (s\<lparr>nl_queue := q\<rparr>) = Inr u"
    "nl_ok u" "nl_inv ms u" "nl_queue u = q" "nl_pc u = nl_pc s" "exit_flag u = exit_flag s" by blast
  have "nl_goes s u" using nl_thread.dequeue [OF Cons.prems(1) q] u(1) by (simp add: nl_goes_def)
  moreover obtain t where "nl_goes\<^sup>*\<^sup>* u t" "nl_pc t = At_done" "nl_queue t = []" "nl_inv ms t"
    using Cons.hyps(1) [of u] u Cons.prems(1,2) by auto
  ultimately show ?case by (meson converse_rtranclp_into_rtranclp)
qed

text \<open>C35. In every interleaving of the thread with messages whose headers tell their length and with
  requests to exit: no step of the thread makes a wild copy or reads beyond a message; the messages are
  handled in the order they came in, the buffer holding the payloads that fit and each message
  broadcast; a request to exit that finds the thread asleep makes it handle all that is queued and end,
  and one that comes between the thread's test of the flag and its going to sleep is lost.\<close>

theorem netlink_thread_safety:
  assumes "nl_reach ms s" "\<forall>m \<in> set ms. nl_wf m"
  shows "(\<exists>hs. ms = hs @ nl_queue s \<and> nl_content s = nl_accepted 0 hs \<and> nl_broadcast s = map nl_sent hs) \<and>
    (\<nexists>e. nl_thread s (Inl e)) \<and>
    (nl_pc s = At_schedule \<longrightarrow> (\<exists>t. nl_goes\<^sup>*\<^sup>* (nl_request_exit s) t \<and> nl_pc t = At_done \<and>
       nl_content t = nl_accepted 0 ms \<and> nl_broadcast t = map nl_sent ms)) \<and>
    (nl_pc s = At_prepare \<longrightarrow> (\<exists>t. nl_goes (nl_request_exit s) t \<and> exit_flag t \<and> (\<nexists>r. nl_thread t r)))"
proof (intro conjI impI)
  have inv: "nl_inv ms s" and ok: "nl_ok s" using nl_reach_inv [OF assms] nl_reach_ok [OF assms(1)] by simp_all
  then show "\<exists>hs. ms = hs @ nl_queue s \<and> nl_content s = nl_accepted 0 hs \<and> nl_broadcast s = map nl_sent hs"
    by (simp add: nl_inv_def)
  show "\<nexists>e. nl_thread s (Inl e)" using nl_inv_thread [OF _ inv ok assms(2)] by blast
  let ?e = "nl_request_exit s"
  have e: "nl_inv ms ?e" "nl_ok ?e" "exit_flag ?e" "\<not> nl_sleepy ?e" "nl_pc ?e = nl_pc s"
    using inv ok by (simp_all add: nl_request_exit_def nl_wake_up_def)
  show "\<exists>t. nl_goes\<^sup>*\<^sup>* ?e t \<and> nl_pc t = At_done \<and> nl_content t = nl_accepted 0 ms \<and> nl_broadcast t = map nl_sent ms"
    if "nl_pc s = At_schedule"
  proof -
    have g: "nl_goes ?e (?e\<lparr>nl_pc := At_dequeue\<rparr>)" unfolding nl_goes_def by (rule nl_thread.woken) (use e that in simp_all)
    obtain t where t: "nl_goes\<^sup>*\<^sup>* (?e\<lparr>nl_pc := At_dequeue\<rparr>) t" "nl_pc t = At_done" "nl_queue t = []" "nl_inv ms t"
      using nl_goes_to_end [of "?e\<lparr>nl_pc := At_dequeue\<rparr>" ms] e assms(2) by auto
    from t(3,4) have "nl_content t = nl_accepted 0 ms \<and> nl_broadcast t = map nl_sent ms" by (auto simp: nl_inv_def)
    then show ?thesis using converse_rtranclp_into_rtranclp [of nl_goes, OF g t(1)] t(2) by blast
  qed
  show "\<exists>t. nl_goes ?e t \<and> exit_flag t \<and> (\<nexists>r. nl_thread t r)" if "nl_pc s = At_prepare"
  proof (intro exI conjI)
    show "nl_goes ?e (?e\<lparr>nl_pc := At_schedule, nl_sleepy := True\<rparr>)"
      unfolding nl_goes_def by (rule nl_thread.prepare) (use e that in simp)
    show "\<nexists>r. nl_thread (?e\<lparr>nl_pc := At_schedule, nl_sleepy := True\<rparr>) r" by (simp only: nl_thread_blocked) simp
  qed (use e in simp)
qed

definition nl_demo_msg :: nl_msg where
  "nl_demo_msg = \<lparr>nlmsg_len = 18, nlmsg_pid = 3, nlmsg_flags = 1, nl_payload = [65, 66]\<rparr>"

text \<open>The thread has gone to sleep and a message has come in.\<close>

theorem netlink_thread_safety_witness:
  "\<exists>s t. nl_reach [nl_demo_msg] s \<and> nl_queue s = [nl_demo_msg] \<and> nl_goes\<^sup>*\<^sup>* (nl_request_exit s) t \<and>
     nl_pc t = At_done \<and> nl_content t = [65, 66]"
proof -
  let ?p = "nl_initial\<lparr>nl_pc := At_prepare\<rparr>"
  let ?s = "?p\<lparr>nl_pc := At_schedule, nl_sleepy := True\<rparr>"
  have "nl_reach [] ?p"
    using nl_reach.step [OF start nl_step.thread [OF test_run]] by (simp add: nl_initial_def)
  then have "nl_reach [] ?s"
    using nl_reach.step [of "[]" ?p "[]" ?s] nl_step.thread [OF nl_thread.prepare [of ?p]] by simp
  then have r: "nl_reach [nl_demo_msg] (recv_handler nl_demo_msg ?s)"
    using nl_reach.step [OF _ nl_step.message] by fastforce
  have w: "\<forall>m \<in> set [nl_demo_msg]. nl_wf m" by (simp add: nl_wf_def nl_demo_msg_def)
  have "nl_pc (recv_handler nl_demo_msg ?s) = At_schedule" by (simp add: recv_handler_def nl_wake_up_def)
  then obtain t where "nl_goes\<^sup>*\<^sup>* (nl_request_exit (recv_handler nl_demo_msg ?s)) t" "nl_pc t = At_done"
    "nl_content t = nl_accepted 0 [nl_demo_msg]"
    using netlink_thread_safety [OF r w] by blast
  moreover have "nl_queue (recv_handler nl_demo_msg ?s) = [nl_demo_msg]"
    by (simp add: recv_handler_def nl_wake_up_def nl_initial_def)
  ultimately show ?thesis using r by (intro exI [of _ "recv_handler nl_demo_msg ?s"] exI [of _ t]) (simp add: nl_demo_msg_def)
qed

text \<open>
  The length in the header is believed: one that exceeds the message is read beyond its end, and
  one close to 2^32 passes the test of the size, by wrapping, once the buffer holds something.
\<close>

lemma netlink_over_read:
  "nl_store \<lparr>nlmsg_len = 20, nlmsg_pid = 0, nlmsg_flags = 0, nl_payload = []\<rparr> nl_initial = Inl Over_read"
  by (simp add: nl_store_def nl_memcpy_def nl_initial_def NLMSG_HDRLEN_def NL_BUF_SIZE_def Let_def)

lemma netlink_wild_copy:
  "nl_store \<lparr>nlmsg_len = - 84, nlmsg_pid = 0, nlmsg_flags = 0, nl_payload = p\<rparr>
     (nl_initial\<lparr>buffer_tail := 100\<rparr>) = Inl Wild_copy"
  by (simp add: nl_store_def nl_memcpy_def nl_initial_def NLMSG_HDRLEN_def NL_BUF_SIZE_def Let_def)

text \<open>A message with a short header is never given back.\<close>

lemma netlink_short_header_leaks:
  "nlmsg_len m < 16 \<Longrightarrow> nl_message m s = Inr (s\<lparr>nl_leaked := m # nl_leaked s\<rparr>)"
  by (simp add: nl_message_def NLMSG_HDRLEN_def)

text \<open>Unloading leaves the /proc entry, whose read function is then gone.\<close>

lemma netlink_exit_leaves_proc:
  "netlink_exam_init True True True = (0, held) \<Longrightarrow> netlink_exam_exit held = Some [Nl_proc]"
  by (auto simp: netlink_exam_init_def netlink_exam_exit_def)

end
