(* ===== verification/Seqfile.thy ===== *)
theory Seqfile
  imports Stdio
begin

text \<open>
  The iterator of driver/program-examples/seqfile_exam.c over the circular list of tasks, shown
  through the seq_file interface. The tasks are a list that begins with \<open>init_task\<close>, a task is
  its index, and the position is the count that the interface passes along.
\<close>

record task =
  comm :: string
  task_pid :: int

definition next_task :: "task list \<Rightarrow> nat \<Rightarrow> nat" where
  "next_task ts p = (p + 1) mod length ts"

definition l_header :: string where
  "l_header = ''Current all the processes in system:'' @ [CHR 10] @ pad_right 24 ''name'' @
     pad_right 5 ''pid'' @ [CHR 10]"

definition l_start :: "int \<Rightarrow> string \<times> nat option" where
  "l_start index = (if index = 0 then (l_header, Some 0) else ([], None))"

definition l_next :: "task list \<Rightarrow> nat \<Rightarrow> int \<Rightarrow> nat option \<times> int" where
  "l_next ts p pos =
     (let task = next_task ts p in
      if pos \<noteq> 0 \<and> task = 0 then (None, pos) else (Some task, pos + 1))"

definition l_show :: "task list \<Rightarrow> nat \<Rightarrow> string" where
  "l_show ts p = pad_right 24 (comm (ts ! p)) @ pad_right 5 (dec_int (task_pid (ts ! p))) @ [CHR 10]"

text \<open>The module keeps loading when the entry cannot be made.\<close>

definition exam_seq_init :: "bool \<Rightarrow> int \<times> bool" where
  "exam_seq_init entry_ok = (0, entry_ok)"

definition exam_seq_exit :: "bool \<Rightarrow> bool" where
  "exam_seq_exit present = False"

section \<open>One traversal\<close>

text \<open>
  What \<open>seq_read\<close> documents for a file that fits its buffer: start, then show and next until next
  has nothing more. Past the first step the index goes up until it is back at 0.
\<close>

function seq_traverse :: "task list \<Rightarrow> nat \<Rightarrow> int \<Rightarrow> string list" where
  "seq_traverse ts p pos =
     (if p < length ts \<and> 0 \<le> pos then l_show ts p # (case l_next ts p pos of
          (None, pos') \<Rightarrow> []
        | (Some q, pos') \<Rightarrow> seq_traverse ts q pos')
      else [])"
  by auto
termination
  by (relation "measure (\<lambda>(ts, p, pos). length ts - p + (if pos = 0 then length ts else 0))")
    (auto simp: l_next_def next_task_def Let_def mod_Suc split: if_splits)

declare seq_traverse.simps [simp del]

lemma seq_traverse_rest:
  "0 < pos \<Longrightarrow> p < length ts \<Longrightarrow> seq_traverse ts p pos = map (l_show ts) [p ..< length ts]"
proof (induction ts p pos rule: seq_traverse.induct)
  case (1 ts p pos)
  show ?case
  proof (cases "Suc p < length ts")
    case True
    then have "l_next ts p pos = (Some (Suc p), pos + 1)"
      using "1.prems" by (simp add: l_next_def next_task_def)
    then show ?thesis
      using "1.IH" [of "Some (Suc p)" "pos + 1" "Suc p"] True "1.prems"
      by (subst seq_traverse.simps) (simp add: upt_conv_Cons)
  next
    case False
    then have "Suc p = length ts" using "1.prems" by simp
    then show ?thesis
      using "1.prems" by (subst seq_traverse.simps) (simp add: l_next_def next_task_def upt_conv_Cons)
  qed
qed

text \<open>Every task is shown once, in order, when there are at least two.\<close>

lemma seq_traverse_all:
  assumes "2 \<le> length ts"
  shows "seq_traverse ts 0 0 = map (l_show ts) [0 ..< length ts]"
proof -
  have "l_next ts 0 0 = (Some 1, 1)" using assms by (simp add: l_next_def next_task_def)
  then have "seq_traverse ts 0 0 = l_show ts 0 # seq_traverse ts 1 1"
    using assms by (subst seq_traverse.simps) (cases ts; simp)
  moreover have "[0 ..< length ts] = 0 # [1 ..< length ts]"
    using assms upt_conv_Cons [of 0 "length ts"] by (cases ts) auto
  ultimately show ?thesis using assms seq_traverse_rest [of 1 1 ts] by simp
qed

text \<open>A single task is shown twice: the first step is taken even when it leads back to the start.\<close>

lemma seq_traverse_single: "seq_traverse [t] 0 0 = [l_show [t] 0, l_show [t] 0]"
  by (simp add: seq_traverse.simps l_next_def next_task_def)

text \<open>
  When the output does not fit, the interface starts again at the position it has reached, and
  gets nothing: the tasks that are left are not shown.
\<close>

lemma l_start_again: "pos \<noteq> 0 \<Longrightarrow> l_start pos = ([], None)"
  by (simp add: l_start_def)

end
