(* ===== verification/LddBus.thy ===== *)
theory LddBus
  imports Stdio
begin

text \<open>
  The virtual bus driver/lddbus/drv/lddbus.c: matching of devices to drivers, registration of
  drivers and devices on the bus, and loading and unloading. What the driver core answers to a
  registration is an argument; what stays registered is the result.
\<close>

section \<open>Matching\<close>

text \<open>\<open>strncmp\<close> over the length of the driver's name.\<close>

definition ldd_match :: "string \<Rightarrow> string \<Rightarrow> bool" where
  "ldd_match init_name driver_name = has_prefix driver_name init_name"

lemma ldd_match_prefix: "ldd_match dev drv \<longleftrightarrow> (\<exists>rest. dev = drv @ rest)"
  by (auto simp: ldd_match_def has_prefix_def) (metis append_take_drop_id)

text \<open>A device matches every driver whose name is a beginning of its own name.\<close>

lemma ldd_match_two_drivers:
  "ldd_match (d @ e @ f) d \<and> ldd_match (d @ e @ f) (d @ e)"
  by (simp add: ldd_match_prefix)

section \<open>Callbacks that only report\<close>

definition ldd_uevent :: "string \<Rightarrow> int" where
  "ldd_uevent init_name = 0"

definition ldd_probe :: "string \<Rightarrow> int" where
  "ldd_probe init_name = 0"

definition ldd_remove :: "string \<Rightarrow> int" where
  "ldd_remove init_name = 0"

section \<open>Attributes\<close>

text \<open>\<open>snprintf\<close> into a page, and \<open>sprintf\<close> without a bound (\<open>None\<close> when it leaves the page).\<close>

definition show_bus_version :: "string \<Rightarrow> string \<times> int" where
  "show_bus_version version = (take 4095 (version @ [CHR 10]), int (length version) + 1)"

definition show_version :: "string \<Rightarrow> (string \<times> int) option" where
  "show_version version =
     (if length version + 1 < 4096 then Some (version @ [CHR 10], int (length version) + 1) else None)"

lemma show_versions_agree: "show_version v = Some r \<Longrightarrow> show_bus_version v = r"
  by (auto simp: show_version_def show_bus_version_def split: if_splits)

section \<open>Registration\<close>

datatype ldd_res = Bus | Bus_file | Bus_device | Device string | Driver string | Driver_file string

text \<open>Answers are 0 or a negative error.\<close>

definition register_ldd_device :: "int \<Rightarrow> string \<Rightarrow> ldd_res list \<Rightarrow> ldd_res list \<times> int" where
  "register_ldd_device ans name held = (if ans = 0 then Device name # held else held, ans)"

definition unregister_ldd_device :: "string \<Rightarrow> ldd_res list \<Rightarrow> ldd_res list" where
  "unregister_ldd_device name held = remove1 (Device name) held"

definition register_ldd_driver :: "int \<Rightarrow> int \<Rightarrow> string \<Rightarrow> ldd_res list \<Rightarrow> ldd_res list \<times> int" where
  "register_ldd_driver ans file_ans name held =
     (if ans \<noteq> 0 then (held, ans)
      else (let held = Driver name # held in
        (if file_ans = 0 then Driver_file name # held else held, file_ans)))"

text \<open>The driver core removes the files of a driver with it.\<close>

definition unregister_ldd_driver :: "string \<Rightarrow> ldd_res list \<Rightarrow> ldd_res list" where
  "unregister_ldd_driver name held = remove1 (Driver name) (remove1 (Driver_file name) held)"

definition ldd_bus_init :: "int \<Rightarrow> int \<Rightarrow> int \<Rightarrow> int \<times> ldd_res list" where
  "ldd_bus_init bus_ans file_ans dev_ans =
     (if bus_ans \<noteq> 0 then (bus_ans, [])
      else (let held = (if file_ans \<noteq> 0 then [Bus] else [Bus_file, Bus])
            in (dev_ans, if dev_ans \<noteq> 0 then held else Bus_device # held)))"

definition ldd_bus_exit :: "ldd_res list \<Rightarrow> ldd_res list" where
  "ldd_bus_exit held = remove1 Bus (remove1 Bus_file (remove1 Bus_device held))"

lemma ldd_device_roundtrip:
  "register_ldd_device 0 name held = (held', r) \<Longrightarrow> unregister_ldd_device name held' = held"
  by (auto simp: register_ldd_device_def unregister_ldd_device_def)

lemma ldd_driver_roundtrip:
  "Driver_file name \<notin> set held \<Longrightarrow> register_ldd_driver 0 f name held = (held', r) \<Longrightarrow>
     unregister_ldd_driver name held' = held"
  by (auto simp: register_ldd_driver_def unregister_ldd_driver_def remove1_idem Let_def split: if_splits)

lemma ldd_bus_roundtrip: "ldd_bus_init b f 0 = (0, held) \<Longrightarrow> ldd_bus_exit held = []"
  by (auto simp: ldd_bus_init_def ldd_bus_exit_def split: if_splits)

text \<open>An error of the last registration is returned with the bus still registered.\<close>

lemma ldd_bus_init_leaks: "d \<noteq> 0 \<Longrightarrow> ldd_bus_init 0 0 d = (d, [Bus_file, Bus])"
  by (simp add: ldd_bus_init_def)

lemma ldd_driver_file_leaks:
  "f \<noteq> 0 \<Longrightarrow> register_ldd_driver 0 f name held = (Driver name # held, f)"
  by (simp add: register_ldd_driver_def)

end
