(* ===== verification/Huffman.thy ===== *)
theory Huffman
  imports Prelude "HOL-Library.Sublist"
begin

text \<open>
  The Huffman coder math/test_huffman.c: counting the characters, building the tree in an array
  whose nodes refer to each other by index, reading the codes off the parent indices, coding and
  decoding. Arrays are used from index 1, as in the code; entry 0 is never meaningful. A write
  before the beginning of the code buffer is \<open>None\<close>.
\<close>

section \<open>Data\<close>

definition HUFF_N :: nat where
  "HUFF_N = 100"

record ht_node =
  weight :: int
  parent :: nat
  LChild :: nat
  RChild :: nat

record w_node =
  w_weight :: int
  w_char :: char
  w_num :: nat

section \<open>Counting\<close>

text \<open>
  A character that has not occurred before gets the next entry, with the number of times it
  occurs; \<open>ch\<close> is the string without its terminator.
\<close>

function create_weight_loop :: "string \<Rightarrow> nat \<Rightarrow> nat \<Rightarrow> w_node list \<Rightarrow> nat \<times> w_node list" where
  "create_weight_loop ch i p CW =
     (if i < length ch then
        (if ch ! i \<in> set (take i ch) then create_weight_loop ch (i + 1) p CW
         else create_weight_loop ch (i + 1) (p + 1)
           (CW[p + 1 := (CW ! (p + 1))\<lparr>w_char := ch ! i,
              w_weight := 1 + int (length (filter (\<lambda>c. c = ch ! i) (drop (i + 1) ch)))\<rparr>]))
      else (p, CW))"
  by auto
termination by (relation "measure (\<lambda>(ch, i, p, CW). length ch - i)") auto

declare create_weight_loop.simps [simp del]

definition CreateWeight :: "string \<Rightarrow> w_node list \<Rightarrow> nat \<times> nat \<times> w_node list" where
  "CreateWeight ch CW = (let (p, CW') = create_weight_loop ch 0 0 CW in (length ch, p, CW'))"

section \<open>The tree\<close>

text \<open>The first node below \<open>i\<close> without a parent, and the lightest one from there on.\<close>

function first_free :: "ht_node list \<Rightarrow> nat \<Rightarrow> nat \<Rightarrow> nat" where
  "first_free ht j i = (if j < i \<and> parent (ht ! j) \<noteq> 0 then first_free ht (j + 1) i else j)"
  by auto
termination by (relation "measure (\<lambda>(ht, j, i). i - j)") auto

declare first_free.simps [simp del]

definition lighter :: "ht_node list \<Rightarrow> nat \<Rightarrow> nat \<Rightarrow> nat" where
  "lighter ht j s = (if parent (ht ! j) = 0 then (if weight (ht ! s) > weight (ht ! j) then j else s) else s)"

definition ht_select :: "ht_node list \<Rightarrow> nat \<Rightarrow> nat" where
  "ht_select ht i = (let j = first_free ht 1 i in fold (lighter ht) [j ..< i] j)"

definition ht_join :: "nat \<Rightarrow> ht_node list \<Rightarrow> ht_node list" where
  "ht_join i ht =
     (let s1 = ht_select ht i;
          ht = ht[s1 := (ht ! s1)\<lparr>parent := i\<rparr>];
          ht = ht[i := (ht ! i)\<lparr>LChild := s1\<rparr>];
          s2 = ht_select ht i;
          ht = ht[s2 := (ht ! s2)\<lparr>parent := i\<rparr>];
          ht = ht[i := (ht ! i)\<lparr>RChild := s2\<rparr>]
      in ht[i := (ht ! i)\<lparr>weight := weight (ht ! s1) + weight (ht ! s2)\<rparr>])"

definition ht_init :: "w_node list \<Rightarrow> nat \<Rightarrow> ht_node list \<Rightarrow> ht_node list" where
  "ht_init w n ht =
     fold (\<lambda>i ht. ht[i := \<lparr>weight = 0, parent = 0, LChild = 0, RChild = 0\<rparr>]) [n + 1 ..< 2 * n]
       (fold (\<lambda>i ht. ht[i := \<lparr>weight = w_weight (w ! i), parent = 0, LChild = 0, RChild = 0\<rparr>])
         [1 ..< n + 1] ht)"

definition CreateHuffmanTree :: "w_node list \<Rightarrow> nat \<Rightarrow> ht_node list \<Rightarrow> ht_node list" where
  "CreateHuffmanTree w n ht = fold ht_join [n + 1 ..< 2 * n] (ht_init w n ht)"

section \<open>Codes\<close>

text \<open>The walk to the root; \<open>acc\<close> is what is in the buffer from \<open>start\<close> on.\<close>

fun node_code_loop :: "ht_node list \<Rightarrow> nat \<Rightarrow> nat \<Rightarrow> nat \<Rightarrow> string \<Rightarrow> (nat \<times> string) option" where
  "node_code_loop ht c p start acc =
     (if p = 0 then Some (start, acc)
      else (case start of
          0 \<Rightarrow> None
        | Suc start' \<Rightarrow> node_code_loop ht p (parent (ht ! p)) start'
            ((if LChild (ht ! p) = c then CHR ''0'' else CHR ''1'') # acc)))"

declare node_code_loop.simps [simp del]

fun node_codes :: "ht_node list \<Rightarrow> nat \<Rightarrow> nat list \<Rightarrow> w_node list \<Rightarrow> string list \<Rightarrow>
    (w_node list \<times> string list) option" where
  "node_codes ht n [] w h = Some (w, h)"
| "node_codes ht n (i # is) w h =
     (case node_code_loop ht i (parent (ht ! i)) (n - 1) [] of
        None \<Rightarrow> None
      | Some (start, code) \<Rightarrow> node_codes ht n is (w[i := (w ! i)\<lparr>w_num := n - start\<rparr>]) (h[i := code]))"

text \<open>The terminator goes to the last place of the buffer: with no leaf, before its beginning.\<close>

definition CrtHuffmanNodeCode ::
  "ht_node list \<Rightarrow> w_node list \<Rightarrow> nat \<Rightarrow> string list \<Rightarrow> (w_node list \<times> string list) option" where
  "CrtHuffmanNodeCode ht w n h = (if n = 0 then None else node_codes ht n [1 ..< n + 1] w h)"

text \<open>The index of a character, past the last entry when there is none.\<close>

function find_char :: "w_node list \<Rightarrow> char \<Rightarrow> nat \<Rightarrow> nat \<Rightarrow> nat" where
  "find_char w c k n = (if k \<le> n \<and> w_char (w ! k) \<noteq> c then find_char w c (k + 1) n else k)"
  by auto
termination by (relation "measure (\<lambda>(w, c, k, n). n + 1 - k)") auto

declare find_char.simps [simp del]

definition CrtHuffmanCode :: "string \<Rightarrow> string list \<Rightarrow> w_node list \<Rightarrow> nat \<Rightarrow> string list" where
  "CrtHuffmanCode ch h w n = map (\<lambda>c. h ! find_char w c 1 n) ch"

definition ht_child :: "ht_node list \<Rightarrow> nat \<Rightarrow> char \<Rightarrow> nat" where
  "ht_child ht p b = (if b = CHR ''0'' then LChild (ht ! p) else RChild (ht ! p))"

definition TrsHuffmanTree :: "ht_node list \<Rightarrow> w_node list \<Rightarrow> string list \<Rightarrow> nat \<Rightarrow> string" where
  "TrsHuffmanTree ht w hc n = map (\<lambda>code. w_char (w ! foldl (ht_child ht) (2 * n - 1) code)) hc"

text \<open>
  The program without its printing: the codes of the text and the text decoded from them.
  \<open>w0\<close>, \<open>ht0\<close> and \<open>h0\<close> are what is in the arrays of main before they are written.
\<close>

definition huffman_main ::
  "w_node list \<Rightarrow> ht_node list \<Rightarrow> string list \<Rightarrow> string \<Rightarrow> (string list \<times> string) option" where
  "huffman_main w0 ht0 h0 ch =
     (let (m, n, w) = CreateWeight ch w0;
          ht = CreateHuffmanTree w n ht0
      in case CrtHuffmanNodeCode ht w n h0 of
           None \<Rightarrow> None
         | Some (w, h) \<Rightarrow> (let hc = CrtHuffmanCode ch h w n in Some (hc, TrsHuffmanTree ht w hc n)))"

section \<open>The lightest free node\<close>

lemma first_free_props:
  "j \<le> i \<Longrightarrow> j \<le> first_free ht j i \<and> first_free ht j i \<le> i \<and>
     (\<forall>k. j \<le> k \<and> k < first_free ht j i \<longrightarrow> parent (ht ! k) \<noteq> 0) \<and>
     (first_free ht j i < i \<longrightarrow> parent (ht ! first_free ht j i) = 0)"
proof (induction ht j i rule: first_free.induct)
  case (1 ht j i)
  show ?case
  proof (cases "j < i \<and> parent (ht ! j) \<noteq> 0")
    case True
    have eq: "first_free ht j i = first_free ht (j + 1) i"
      using True by (subst first_free.simps) simp
    have IH: "j + 1 \<le> first_free ht (j + 1) i" "first_free ht (j + 1) i \<le> i"
      "\<forall>k. j + 1 \<le> k \<and> k < first_free ht (j + 1) i \<longrightarrow> parent (ht ! k) \<noteq> 0"
      "first_free ht (j + 1) i < i \<longrightarrow> parent (ht ! first_free ht (j + 1) i) = 0"
      using "1.IH" True by simp_all
    have "parent (ht ! k) \<noteq> 0" if "j \<le> k" "k < first_free ht (j + 1) i" for k
      using that IH(3) True by (cases "k = j") auto
    then show ?thesis using IH by (simp add: eq)
  next
    case False
    moreover have "first_free ht j i = j" using False by (subst first_free.simps) auto
    ultimately show ?thesis using 1 by auto
  qed
qed

lemma fold_lighter:
  "parent (ht ! s) = 0 \<Longrightarrow> (let r = fold (lighter ht) js s in
     (r = s \<or> r \<in> set js) \<and> parent (ht ! r) = 0 \<and> weight (ht ! r) \<le> weight (ht ! s) \<and>
     (\<forall>k \<in> set js. parent (ht ! k) = 0 \<longrightarrow> weight (ht ! r) \<le> weight (ht ! k)))"
proof (induction js arbitrary: s)
  case (Cons j js)
  have "parent (ht ! lighter ht j s) = 0" "lighter ht j s = s \<or> lighter ht j s = j"
    "weight (ht ! lighter ht j s) \<le> weight (ht ! s)"
    "parent (ht ! j) = 0 \<Longrightarrow> weight (ht ! lighter ht j s) \<le> weight (ht ! j)"
    using Cons.prems by (auto simp: lighter_def)
  then show ?case using Cons.IH [of "lighter ht j s"] by (auto simp: Let_def)
qed simp

text \<open>The free nodes below \<open>i\<close>.\<close>

definition ht_free :: "ht_node list \<Rightarrow> nat \<Rightarrow> nat set" where
  "ht_free ht i = {j. 1 \<le> j \<and> j < i \<and> parent (ht ! j) = 0}"

lemma finite_ht_free [simp]: "finite (ht_free ht i)"
  by (rule finite_subset [of _ "{..<i}"]) (auto simp: ht_free_def)

lemma ht_select_lightest:
  assumes "ht_free ht i \<noteq> {}"
  shows "ht_select ht i \<in> ht_free ht i"
    and "k \<in> ht_free ht i \<Longrightarrow> weight (ht ! ht_select ht i) \<le> weight (ht ! k)"
proof -
  define f where "f = first_free ht 1 i"
  obtain j where j: "1 \<le> j" "j < i" "parent (ht ! j) = 0" using assms by (auto simp: ht_free_def)
  have f: "1 \<le> f" "f \<le> i" "\<forall>k. 1 \<le> k \<and> k < f \<longrightarrow> parent (ht ! k) \<noteq> 0"
    "f < i \<Longrightarrow> parent (ht ! f) = 0"
    using first_free_props [of 1 i ht] j by (auto simp: f_def)
  then have "f < i" using j by (metis le_neq_implies_less leD)
  then have r: "let r = fold (lighter ht) [f ..< i] f in
     (r = f \<or> r \<in> set [f ..< i]) \<and> parent (ht ! r) = 0 \<and> weight (ht ! r) \<le> weight (ht ! f) \<and>
     (\<forall>k \<in> set [f ..< i]. parent (ht ! k) = 0 \<longrightarrow> weight (ht ! r) \<le> weight (ht ! k))"
    using fold_lighter f(4) by blast
  have sel: "ht_select ht i = fold (lighter ht) [f ..< i] f"
    by (simp add: ht_select_def Let_def f_def)
  show "ht_select ht i \<in> ht_free ht i"
    using r f(1) \<open>f < i\<close> by (auto simp: Let_def ht_free_def simp flip: sel)
  show "weight (ht ! ht_select ht i) \<le> weight (ht ! k)" if "k \<in> ht_free ht i"
  proof -
    have "k \<in> set [f ..< i]" using that f(3) by (auto simp: ht_free_def not_less [symmetric])
    then show ?thesis using r that by (auto simp: Let_def ht_free_def simp flip: sel)
  qed
qed

section \<open>Joining two nodes\<close>

text \<open>A join gives node \<open>i\<close> the two lightest free nodes as its children.\<close>

lemma ht_join_effect:
  assumes "2 \<le> card (ht_free ht i)" "i < length ht"
  obtains s1 s2 where "s1 \<in> ht_free ht i" "s2 \<in> ht_free ht i" "s1 \<noteq> s2"
    "length (ht_join i ht) = length ht"
    "\<And>j. j < length ht \<Longrightarrow> parent (ht_join i ht ! j) = (if j = s1 \<or> j = s2 then i else parent (ht ! j))"
    "\<And>j. j < length ht \<Longrightarrow> LChild (ht_join i ht ! j) = (if j = i then s1 else LChild (ht ! j))"
    "\<And>j. j < length ht \<Longrightarrow> RChild (ht_join i ht ! j) = (if j = i then s2 else RChild (ht ! j))"
    "\<And>j. j < length ht \<Longrightarrow> weight (ht_join i ht ! j) =
       (if j = i then weight (ht ! s1) + weight (ht ! s2) else weight (ht ! j))"
    "\<And>k. k \<in> ht_free ht i \<Longrightarrow> weight (ht ! s1) \<le> weight (ht ! k)"
    "\<And>k. k \<in> ht_free ht i \<Longrightarrow> k \<noteq> s1 \<Longrightarrow> weight (ht ! s2) \<le> weight (ht ! k)"
proof -
  define s1 where "s1 = ht_select ht i"
  define h1 where "h1 = ht[s1 := (ht ! s1)\<lparr>parent := i\<rparr>]"
  define h2 where "h2 = h1[i := (h1 ! i)\<lparr>LChild := s1\<rparr>]"
  define s2 where "s2 = ht_select h2 i"
  have ne: "ht_free ht i \<noteq> {}" using assms(1) by auto
  have s1: "s1 \<in> ht_free ht i" "\<And>k. k \<in> ht_free ht i \<Longrightarrow> weight (ht ! s1) \<le> weight (ht ! k)"
    using ht_select_lightest [OF ne] by (auto simp: s1_def)
  then have lt: "s1 < i" "1 \<le> s1" "s1 < length ht" "0 < i" using assms(2) by (auto simp: ht_free_def)
  have h2: "length h2 = length ht"
    "\<And>j. j < length ht \<Longrightarrow> parent (h2 ! j) = (if j = s1 then i else parent (ht ! j))"
    "\<And>j. j < length ht \<Longrightarrow> LChild (h2 ! j) = (if j = i then s1 else LChild (ht ! j))"
    "\<And>j. j < length ht \<Longrightarrow> RChild (h2 ! j) = RChild (ht ! j)"
    "\<And>j. j < length ht \<Longrightarrow> weight (h2 ! j) = weight (ht ! j)"
    using lt assms(2) by (auto simp: h2_def h1_def nth_list_update)
  have free2: "ht_free h2 i = ht_free ht i - {s1}"
    using h2(2) lt assms(2) by (auto simp: ht_free_def split: if_splits)
  have "card (ht_free h2 i) = card (ht_free ht i) - 1"
    using card_Diff_singleton [OF s1(1)] by (simp add: free2)
  then have "ht_free h2 i \<noteq> {}" using assms(1) by auto
  then have s2: "s2 \<in> ht_free ht i - {s1}"
    "\<And>k. k \<in> ht_free ht i - {s1} \<Longrightarrow> weight (ht ! s2) \<le> weight (ht ! k)"
    using ht_select_lightest [of h2 i] h2(5) assms(2) unfolding free2
    by (auto simp: s2_def ht_free_def)
  then have lt2: "s2 < i" "s2 < length ht" "s2 \<noteq> s1" using assms(2) by (auto simp: ht_free_def)
  define h3 where "h3 = h2[s2 := (h2 ! s2)\<lparr>parent := i\<rparr>]"
  define h4 where "h4 = h3[i := (h3 ! i)\<lparr>RChild := s2\<rparr>]"
  have join: "ht_join i ht = h4[i := (h4 ! i)\<lparr>weight := weight (h4 ! s1) + weight (h4 ! s2)\<rparr>]"
    by (simp only: ht_join_def Let_def s1_def s2_def h1_def h2_def h3_def h4_def)
  have h4: "length h4 = length ht"
    "\<And>j. j < length ht \<Longrightarrow> parent (h4 ! j) = (if j = s1 \<or> j = s2 then i else parent (ht ! j))"
    "\<And>j. j < length ht \<Longrightarrow> LChild (h4 ! j) = (if j = i then s1 else LChild (ht ! j))"
    "\<And>j. j < length ht \<Longrightarrow> RChild (h4 ! j) = (if j = i then s2 else RChild (ht ! j))"
    "\<And>j. j < length ht \<Longrightarrow> weight (h4 ! j) = weight (ht ! j)"
    using h2 lt lt2 assms(2) by (auto simp: h4_def h3_def nth_list_update)
  show ?thesis
    using s1 s2 lt lt2 h4 assms(2) by (intro that [of s1 s2]) (auto simp: join nth_list_update)
qed

section \<open>The finished tree\<close>

text \<open>
  Nodes below \<open>i\<close> are built: each is free or a child of a later inner node; there are
  \<open>2 n + 1 - i\<close> free ones, and the nodes from \<open>i\<close> on are untouched.
\<close>

definition ht_inv :: "ht_node list \<Rightarrow> nat \<Rightarrow> nat \<Rightarrow> bool" where
  "ht_inv ht n i \<longleftrightarrow> 2 * n \<le> length ht \<and> card (ht_free ht i) + i = 2 * n + 1 \<and>
     (\<forall>j. 1 \<le> j \<and> j < i \<longrightarrow> (let p = parent (ht ! j) in
        p = 0 \<or> n < p \<and> j < p \<and> p < i \<and> (LChild (ht ! p) = j \<or> RChild (ht ! p) = j))) \<and>
     (\<forall>j. i \<le> j \<and> j < 2 * n \<longrightarrow> parent (ht ! j) = 0)"

lemma ht_inv_join:
  assumes "ht_inv ht n i" "n < i" "i < 2 * n"
  shows "ht_inv (ht_join i ht) n (i + 1)"
proof -
  have inv: "2 * n \<le> length ht" "card (ht_free ht i) + i = 2 * n + 1"
    "\<And>j. 1 \<le> j \<Longrightarrow> j < i \<Longrightarrow> parent (ht ! j) \<noteq> 0 \<Longrightarrow> n < parent (ht ! j) \<and> j < parent (ht ! j) \<and>
      parent (ht ! j) < i \<and> (LChild (ht ! parent (ht ! j)) = j \<or> RChild (ht ! parent (ht ! j)) = j)"
    "\<And>j. i \<le> j \<Longrightarrow> j < 2 * n \<Longrightarrow> parent (ht ! j) = 0"
    using assms(1) by (auto simp: ht_inv_def Let_def)
  then have "2 \<le> card (ht_free ht i)" "i < length ht" using assms by auto
  then obtain s1 s2 where s: "s1 \<in> ht_free ht i" "s2 \<in> ht_free ht i" "s1 \<noteq> s2"
    and len: "length (ht_join i ht) = length ht"
    and par: "\<And>j. j < length ht \<Longrightarrow> parent (ht_join i ht ! j) = (if j = s1 \<or> j = s2 then i else parent (ht ! j))"
    and lc: "\<And>j. j < length ht \<Longrightarrow> LChild (ht_join i ht ! j) = (if j = i then s1 else LChild (ht ! j))"
    and rc: "\<And>j. j < length ht \<Longrightarrow> RChild (ht_join i ht ! j) = (if j = i then s2 else RChild (ht ! j))"
    by (rule ht_join_effect) (rule that, assumption+)
  have sb: "1 \<le> s1" "s1 < i" "1 \<le> s2" "s2 < i" using s by (auto simp: ht_free_def)
  have "ht_free (ht_join i ht) (i + 1) = insert i (ht_free ht i - {s1} - {s2})"
    using par inv(1,4) assms(2,3) sb by (auto simp: ht_free_def less_Suc_eq split: if_splits)
  moreover have "i \<notin> ht_free ht i" by (simp add: ht_free_def)
  ultimately have "card (ht_free (ht_join i ht) (i + 1)) = Suc (card (ht_free ht i) - 1 - 1)"
    using s by simp
  then have "card (ht_free (ht_join i ht) (i + 1)) + (i + 1) = 2 * n + 1"
    using inv(2) \<open>2 \<le> card (ht_free ht i)\<close> by linarith
  moreover have "let p = parent (ht_join i ht ! j) in p = 0 \<or> n < p \<and> j < p \<and> p < i + 1 \<and>
      (LChild (ht_join i ht ! p) = j \<or> RChild (ht_join i ht ! p) = j)" if "1 \<le> j" "j < i + 1" for j
  proof (cases "j = s1 \<or> j = s2")
    case True
    then show ?thesis
      using par [of j] lc [of i] rc [of i] sb inv(1) assms(2,3) by (auto simp: Let_def)
  next
    case False
    then have p: "parent (ht_join i ht ! j) = parent (ht ! j)" using par that assms inv(1) by simp
    show ?thesis
    proof (cases "parent (ht ! j) = 0")
      case nonfree: False
      then have "j < i" using that inv(4) [of i] assms(3) by (cases "j = i") auto
      then have "n < parent (ht ! j) \<and> j < parent (ht ! j) \<and> parent (ht ! j) < i \<and>
        (LChild (ht ! parent (ht ! j)) = j \<or> RChild (ht ! parent (ht ! j)) = j)"
        using inv(3) that nonfree by blast
      then show ?thesis
        using lc [of "parent (ht ! j)"] rc [of "parent (ht ! j)"] inv(1) assms(3) by (auto simp: Let_def p)
    qed (simp add: p)
  qed
  moreover have "parent (ht_join i ht ! j) = 0" if "i + 1 \<le> j" "j < 2 * n" for j
    using par [of j] inv(1,4) that sb by auto
  ultimately show ?thesis using inv(1) len by (simp add: ht_inv_def)
qed

lemma ht_inv_joins:
  "n < i \<Longrightarrow> i \<le> 2 * n \<Longrightarrow> ht_inv ht n i \<Longrightarrow> ht_inv (fold ht_join [i ..< 2 * n] ht) n (2 * n)"
proof (induction "2 * n - i" arbitrary: i ht)
  case (Suc k)
  then have "i < 2 * n" by simp
  then show ?case
    using Suc.hyps(1) [of "i + 1" "ht_join i ht"] ht_inv_join [OF Suc.prems(3) Suc.prems(1)] Suc.hyps(2) Suc.prems
    by (simp add: upt_conv_Cons)
qed auto

lemma fold_set_nth:
  "length (fold (\<lambda>i ht. ht[i := f i]) is ht) = length ht \<and>
   (\<forall>j < length ht. fold (\<lambda>i ht. ht[i := f i]) is ht ! j = (if j \<in> set is then f j else ht ! j))"
  by (induction "is" arbitrary: ht) (auto simp: nth_list_update)

lemma ht_init_effect:
  assumes "2 * n \<le> length ht" "1 \<le> j" "j < 2 * n"
  shows "length (ht_init w n ht) = length ht" "parent (ht_init w n ht ! j) = 0"
    "j \<le> n \<Longrightarrow> weight (ht_init w n ht ! j) = w_weight (w ! j)"
  using fold_set_nth [of "\<lambda>i. \<lparr>weight = 0, parent = 0, LChild = 0, RChild = 0\<rparr>" "[n + 1 ..< 2 * n]"
      "fold (\<lambda>i ht. ht[i := \<lparr>weight = w_weight (w ! i), parent = 0, LChild = 0, RChild = 0\<rparr>]) [1 ..< n + 1] ht"]
    fold_set_nth [of "\<lambda>i. \<lparr>weight = w_weight (w ! i), parent = 0, LChild = 0, RChild = 0\<rparr>" "[1 ..< n + 1]" ht] assms
  by (auto simp: ht_init_def)

text \<open>In the finished tree every node but the last has a parent.\<close>

definition ht_tree :: "ht_node list \<Rightarrow> nat \<Rightarrow> bool" where
  "ht_tree ht n \<longleftrightarrow> parent (ht ! (2 * n - 1)) = 0 \<and>
     (\<forall>j. 1 \<le> j \<and> j < 2 * n - 1 \<longrightarrow> (let p = parent (ht ! j) in
        n < p \<and> j < p \<and> p < 2 * n \<and> (LChild (ht ! p) = j \<or> RChild (ht ! p) = j)))"

lemma CreateHuffmanTree_tree:
  assumes "1 \<le> n" "2 * n \<le> length ht"
  shows "ht_tree (CreateHuffmanTree w n ht) n"
proof -
  let ?h = "CreateHuffmanTree w n ht" and ?i = "ht_init w n ht"
  have "parent (?i ! j) = 0" if "1 \<le> j" "j < 2 * n" for j
    using ht_init_effect(2) [OF assms(2) that] .
  moreover then have "ht_free ?i (n + 1) = {1 ..< n + 1}"
    using assms(1) by (auto simp: ht_free_def)
  ultimately have "ht_inv ?i n (n + 1)"
    using assms ht_init_effect(1) [OF assms(2), of 1] by (auto simp: ht_inv_def Let_def)
  then have inv: "ht_inv ?h n (2 * n)"
    using ht_inv_joins [of n "n + 1" ?i] assms(1) by (simp add: CreateHuffmanTree_def)
  have par: "parent (?h ! j) = 0 \<or> n < parent (?h ! j) \<and> j < parent (?h ! j) \<and> parent (?h ! j) < 2 * n \<and>
      (LChild (?h ! parent (?h ! j)) = j \<or> RChild (?h ! parent (?h ! j)) = j)"
    if "1 \<le> j" "j < 2 * n" for j
    using inv that unfolding ht_inv_def Let_def by blast
  have root: "parent (?h ! (2 * n - 1)) = 0"
    using par [of "2 * n - 1"] assms(1) by linarith
  have "card (ht_free ?h (2 * n)) = 1" using inv by (simp add: ht_inv_def)
  moreover have "2 * n - 1 \<in> ht_free ?h (2 * n)" using root assms(1) by (auto simp: ht_free_def)
  ultimately have only: "ht_free ?h (2 * n) = {2 * n - 1}"
    by (metis card_1_singletonE singletonD)
  have "parent (?h ! j) \<noteq> 0" if "1 \<le> j" "j < 2 * n - 1" for j
  proof
    assume "parent (?h ! j) = 0"
    then have "j \<in> ht_free ?h (2 * n)" using that by (auto simp: ht_free_def)
    then show False using only that by simp
  qed
  then have "let p = parent (?h ! j) in n < p \<and> j < p \<and> p < 2 * n \<and>
      (LChild (?h ! p) = j \<or> RChild (?h ! p) = j)" if "1 \<le> j" "j < 2 * n - 1" for j
    using par [of j] that unfolding Let_def by fastforce
  then show ?thesis using root by (simp add: ht_tree_def)
qed

section \<open>Reading codes off the tree\<close>

text \<open>
  The walk from a node to the root yields the bits that lead from the root back to the node; on
  the way only inner nodes are passed, so there are at most as many bits as inner nodes above.
\<close>

lemma node_code_path:
  assumes "ht_tree ht n" "1 \<le> c" "c < 2 * n"
  shows "\<exists>bits. (\<forall>start acc. 2 * n - 1 - max c n \<le> start \<longrightarrow>
      node_code_loop ht c (parent (ht ! c)) start acc = Some (start - length bits, bits @ acc)) \<and>
    length bits \<le> 2 * n - 1 - max c n \<and> foldl (ht_child ht) (2 * n - 1) bits = c \<and>
    (\<forall>k < length bits. n < foldl (ht_child ht) (2 * n - 1) (take k bits))"
  using assms(2,3)
proof (induction "2 * n - c" arbitrary: c rule: less_induct)
  case less
  show ?case
  proof (cases "c = 2 * n - 1")
    case True
    then have "node_code_loop ht c (parent (ht ! c)) start acc = Some (start, acc)" for start acc
      using assms(1) by (subst node_code_loop.simps) (simp add: ht_tree_def)
    then show ?thesis using True by (intro exI [of _ "[]"]) simp
  next
    case False
    define p where "p = parent (ht ! c)"
    define b where "b = (if LChild (ht ! p) = c then CHR ''0'' else CHR ''1'')"
    have p: "n < p" "c < p" "p < 2 * n" "LChild (ht ! p) = c \<or> RChild (ht ! p) = c"
      using assms(1) less.prems False by (auto simp: ht_tree_def Let_def p_def)
    have child: "ht_child ht p b = c" using p(4) by (auto simp: ht_child_def b_def)
    obtain bits where bits: "\<And>start acc. 2 * n - 1 - max p n \<le> start \<Longrightarrow>
        node_code_loop ht p (parent (ht ! p)) start acc = Some (start - length bits, bits @ acc)"
      "length bits \<le> 2 * n - 1 - max p n" "foldl (ht_child ht) (2 * n - 1) bits = p"
      "\<forall>k < length bits. n < foldl (ht_child ht) (2 * n - 1) (take k bits)"
    proof -
      have "2 * n - p < 2 * n - c" "1 \<le> p" using p less.prems by auto
      from less.hyps [OF this p(3)] show ?thesis using that by blast
    qed
    have "node_code_loop ht c p start acc = Some (start - length (bits @ [b]), (bits @ [b]) @ acc)"
      if "2 * n - 1 - max c n \<le> start" for start acc
    proof -
      have "2 * n - 1 - max p n < 2 * n - 1 - max c n" using p by auto
      moreover from this have "0 < start" using that by linarith
      then obtain start' where start: "start = Suc start'" using gr0_implies_Suc by blast
      ultimately have le: "2 * n - 1 - max p n \<le> start'" using that by linarith
      show ?thesis
        using bits(1) [OF le] p unfolding start by (subst node_code_loop.simps) (simp add: b_def)
    qed
    moreover have "length (bits @ [b]) \<le> 2 * n - 1 - max c n" using bits(2) p by auto
    moreover have "n < foldl (ht_child ht) (2 * n - 1) (take k (bits @ [b]))" if "k < length (bits @ [b])" for k
      using that bits(3,4) p(1) by (cases "k = length bits") auto
    ultimately show ?thesis
      using bits(3) child by (intro exI [of _ "bits @ [b]"]) (simp flip: p_def)
  qed
qed

definition ht_code :: "ht_node list \<Rightarrow> nat \<Rightarrow> nat \<Rightarrow> string" where
  "ht_code ht n c = snd (the (node_code_loop ht c (parent (ht ! c)) (n - 1) []))"

lemma ht_code_leaf:
  assumes "ht_tree ht n" "1 \<le> c" "c \<le> n"
  shows "node_code_loop ht c (parent (ht ! c)) (n - 1) [] =
      Some (n - 1 - length (ht_code ht n c), ht_code ht n c)"
    and "length (ht_code ht n c) < n"
    and "foldl (ht_child ht) (2 * n - 1) (ht_code ht n c) = c"
    and "k < length (ht_code ht n c) \<Longrightarrow> n < foldl (ht_child ht) (2 * n - 1) (take k (ht_code ht n c))"
proof -
  obtain bits where bits: "node_code_loop ht c (parent (ht ! c)) (n - 1) [] = Some (n - 1 - length bits, bits)"
    "length bits \<le> n - 1" "foldl (ht_child ht) (2 * n - 1) bits = c"
    "\<forall>k < length bits. n < foldl (ht_child ht) (2 * n - 1) (take k bits)"
    using node_code_path [OF assms(1,2)] assms(2,3) by (fastforce simp: max_def)
  then have "ht_code ht n c = bits" by (simp add: ht_code_def)
  then show "node_code_loop ht c (parent (ht ! c)) (n - 1) [] =
      Some (n - 1 - length (ht_code ht n c), ht_code ht n c)"
    "length (ht_code ht n c) < n" "foldl (ht_child ht) (2 * n - 1) (ht_code ht n c) = c"
    "k < length (ht_code ht n c) \<Longrightarrow> n < foldl (ht_child ht) (2 * n - 1) (take k (ht_code ht n c))"
    using bits assms(2,3) by auto
qed

text \<open>No code begins another: along the second one the leaf of the first would be an inner node.\<close>

lemma ht_code_prefix_free:
  assumes "ht_tree ht n" "1 \<le> c" "c \<le> n" "1 \<le> d" "d \<le> n" "prefix (ht_code ht n c) (ht_code ht n d)"
  shows "c = d"
proof (rule ccontr)
  assume "c \<noteq> d"
  obtain r where r: "ht_code ht n d = ht_code ht n c @ r" using assms(6) by (auto simp: prefix_def)
  have leaf: "foldl (ht_child ht) (2 * n - 1) (ht_code ht n c) = c"
    using ht_code_leaf(3) [OF assms(1-3)] .
  have "r \<noteq> []" using \<open>c \<noteq> d\<close> leaf ht_code_leaf(3) [OF assms(1,4,5)] by (auto simp: r)
  then have "n < foldl (ht_child ht) (2 * n - 1) (take (length (ht_code ht n c)) (ht_code ht n d))"
    by (intro ht_code_leaf(4) [OF assms(1,4,5)]) (simp add: r)
  then show False using leaf assms(3) by (simp add: r)
qed

lemma node_codes_effect:
  assumes "\<forall>i \<in> set is. node_code_loop ht i (parent (ht ! i)) (n - 1) [] = Some (n - 1 - length (code i), code i)"
    "distinct is"
  shows "\<exists>w' h'. node_codes ht n is w h = Some (w', h') \<and> length h' = length h \<and>
    (\<forall>j < length h. h' ! j = (if j \<in> set is then code j else h ! j)) \<and> length w' = length w \<and>
    (\<forall>j < length w. w_char (w' ! j) = w_char (w ! j) \<and>
       w_num (w' ! j) = (if j \<in> set is then n - (n - 1 - length (code j)) else w_num (w ! j)))"
  using assms
proof (induction "is" arbitrary: w h)
  case (Cons i "is")
  let ?w = "w[i := (w ! i)\<lparr>w_num := n - (n - 1 - length (code i))\<rparr>]"
  obtain w' h' where "node_codes ht n is ?w (h[i := code i]) = Some (w', h')" "length h' = length h"
    "\<forall>j < length h. h' ! j = (if j \<in> set is then code j else h[i := code i] ! j)" "length w' = length w"
    "\<forall>j < length w. w_char (w' ! j) = w_char (?w ! j) \<and>
       w_num (w' ! j) = (if j \<in> set is then n - (n - 1 - length (code j)) else w_num (?w ! j))"
    using Cons.IH [of ?w "h[i := code i]"] Cons.prems by auto
  moreover have "w_char (?w ! j) = w_char (w ! j) \<and>
      w_num (?w ! j) = (if j = i then n - (n - 1 - length (code i)) else w_num (w ! j))"
    if "j < length w" for j
    using that by (simp add: nth_list_update)
  ultimately show ?case using Cons.prems by (auto simp: nth_list_update)
qed simp

section \<open>Counting the characters\<close>

lemma find_char_finds:
  "k \<le> k0 \<Longrightarrow> k0 \<le> n \<Longrightarrow> w_char (w ! k0) = c \<Longrightarrow>
     k \<le> find_char w c k n \<and> find_char w c k n \<le> n \<and> w_char (w ! find_char w c k n) = c"
proof (induction w c k n rule: find_char.induct)
  case (1 w c k n)
  show ?case
  proof (cases "w_char (w ! k) = c")
    case True
    then show ?thesis using 1 by (subst (1 2 3) find_char.simps) auto
  next
    case False
    then have "k + 1 \<le> k0" using 1 by (cases "k = k0") auto
    moreover have "find_char w c k n = find_char w c (k + 1) n"
      using False 1 by (subst find_char.simps) auto
    ultimately show ?thesis using 1 False by auto
  qed
qed

text \<open>The first \<open>p\<close> entries are the characters of \<open>seen\<close>, each once, with their counts in \<open>ch\<close>.\<close>

definition w_inv :: "string \<Rightarrow> char set \<Rightarrow> nat \<Rightarrow> w_node list \<Rightarrow> bool" where
  "w_inv ch seen p CW \<longleftrightarrow> p = card seen \<and> (\<lambda>k. w_char (CW ! k)) ` {1..p} = seen \<and>
     (\<forall>k \<in> {1..p}. w_weight (CW ! k) = int (count_list ch (w_char (CW ! k))))"

lemma count_first:
  assumes "i < length ch" "ch ! i \<notin> set (take i ch)"
  shows "1 + length (filter (\<lambda>c. c = ch ! i) (drop (i + 1) ch)) = count_list ch (ch ! i)"
proof -
  have "count_list ch (ch ! i) = count_list (take i ch @ ch ! i # drop (i + 1) ch) (ch ! i)"
    using id_take_nth_drop [OF assms(1)] by simp
  also have "\<dots> = 1 + count_list (drop (i + 1) ch) (ch ! i)"
    using assms(2) by (simp add: count_list_0_iff)
  also have "count_list (drop (i + 1) ch) (ch ! i) = length (filter (\<lambda>c. c = ch ! i) (drop (i + 1) ch))"
    unfolding count_list_eq_length_filter by (intro arg_cong [where f = length] filter_cong) auto
  finally show ?thesis by simp
qed

lemma create_weight_loop_inv:
  assumes "w_inv ch (set (take i ch)) p CW" "i \<le> length ch" "length ch < length CW"
  shows "\<exists>q CW'. create_weight_loop ch i p CW = (q, CW') \<and> w_inv ch (set ch) q CW' \<and> length CW' = length CW"
  using assms
proof (induction ch i p CW rule: create_weight_loop.induct)
  case (1 ch i p CW)
  show ?case
  proof (cases "i < length ch")
    case more: True
    have step: "set (take (i + 1) ch) = insert (ch ! i) (set (take i ch))"
      using more by (simp add: take_Suc_conv_app_nth)
    show ?thesis
    proof (cases "ch ! i \<in> set (take i ch)")
      case True
      moreover have "create_weight_loop ch i p CW = create_weight_loop ch (i + 1) p CW"
        using True more by (subst create_weight_loop.simps) simp
      ultimately show ?thesis using "1.IH"(1) more "1.prems" step by (simp add: insert_absorb)
    next
      case False
      let ?CW = "CW[p + 1 := (CW ! (p + 1))\<lparr>w_char := ch ! i,
        w_weight := 1 + int (length (filter (\<lambda>c. c = ch ! i) (drop (i + 1) ch)))\<rparr>]"
      have "p \<le> i" using "1.prems"(1) card_length [of "take i ch"] by (simp add: w_inv_def)
      then have lt: "p + 1 < length CW" using more "1.prems" by simp
      have old: "?CW ! k = CW ! k" if "k \<in> {1..p}" for k using that by simp
      have new: "w_char (?CW ! (p + 1)) = ch ! i"
        "w_weight (?CW ! (p + 1)) = int (count_list ch (ch ! i))"
        using lt count_first [OF more False] by (simp_all flip: of_nat_Suc)
      have ran: "{1..p + 1} = insert (p + 1) {1..p}" by auto
      have "w_inv ch (set (take (i + 1) ch)) (p + 1) ?CW"
        using "1.prems"(1) old new False unfolding w_inv_def ran step
        by (auto simp: image_iff) 
      moreover have "create_weight_loop ch i p CW = create_weight_loop ch (i + 1) (p + 1) ?CW"
        using False more by (subst create_weight_loop.simps) simp
      ultimately show ?thesis using "1.IH"(2) [OF more False] more "1.prems" by simp
    qed
  next
    case False
    then show ?thesis using "1.prems" by (subst create_weight_loop.simps) simp
  qed
qed

section \<open>Properties\<close>

text \<open>The node \<open>k c\<close> of each character of the text, and the run in these terms.\<close>

lemma huffman_main_codes:
  assumes "length ch < HUFF_N" "length w0 = HUFF_N" "length ht0 = 2 * HUFF_N" "length h0 = 4 * HUFF_N - 1" "ch \<noteq> []"
  obtains ht k where "ht_tree ht (card (set ch))" "\<And>c. c \<in> set ch \<Longrightarrow> 1 \<le> k c \<and> k c \<le> card (set ch)"
    "inj_on k (set ch)" "huffman_main w0 ht0 h0 ch = Some (map (\<lambda>c. ht_code ht (card (set ch)) (k c)) ch, ch)"
proof -
  have "w_inv ch (set (take 0 ch)) 0 w0" by (simp add: w_inv_def)
  then obtain n w where cw: "create_weight_loop ch 0 0 w0 = (n, w)" "w_inv ch (set ch) n w" "length w = HUFF_N"
    using create_weight_loop_inv [of ch 0 0 w0] assms(1,2) by auto
  have n: "n = card (set ch)" "n \<le> length ch" "1 \<le> n"
    using cw(2) card_length [of ch] assms(5) by (auto simp: w_inv_def Suc_le_eq card_gt_0_iff)
  define ht where "ht = CreateHuffmanTree w n ht0"
  have tree: "ht_tree ht n"
    using CreateHuffmanTree_tree [OF n(3), of ht0 w] n(2) assms by (simp add: ht_def HUFF_N_def)
  have "\<forall>i \<in> set [1 ..< n + 1]. node_code_loop ht i (parent (ht ! i)) (n - 1) [] =
      Some (n - 1 - length (ht_code ht n i), ht_code ht n i)"
    using ht_code_leaf(1) [OF tree] by auto
  from node_codes_effect [OF this distinct_upt, of w h0] obtain w' h where
    nc: "node_codes ht n [1 ..< n + 1] w h0 = Some (w', h)"
    "\<forall>j < length h0. h ! j = (if j \<in> set [1 ..< n + 1] then ht_code ht n j else h0 ! j)"
    "\<forall>j < length w. w_char (w' ! j) = w_char (w ! j)" by blast
  define k where "k c = find_char w' c 1 n" for c
  have k: "1 \<le> k c \<and> k c \<le> n \<and> w_char (w' ! k c) = c" if "c \<in> set ch" for c
  proof -
    have "(\<lambda>k. w_char (w ! k)) ` {1..n} = set ch" using cw(2) unfolding w_inv_def by blast
    then have "c \<in> (\<lambda>k. w_char (w ! k)) ` {1..n}" using that by (simp only:)
    then obtain k0 where "1 \<le> k0" "k0 \<le> n" "w_char (w ! k0) = c" by auto
    moreover then have "w_char (w' ! k0) = c" using nc(3) cw(3) n(2) assms(1) by simp
    ultimately show ?thesis unfolding k_def by (intro find_char_finds)
  qed
  have code: "h ! k c = ht_code ht n (k c)" if "c \<in> set ch" for c
  proof -
    have "k c < length h0" "k c \<in> set [1 ..< n + 1]"
      using k [OF that] n(2) assms(1,4) by (auto simp: HUFF_N_def)
    then show ?thesis using nc(2) by simp
  qed
  let ?hc = "map (\<lambda>c. ht_code ht n (k c)) ch"
  have "map (\<lambda>code. w_char (w' ! foldl (ht_child ht) (2 * n - 1) code)) ?hc = map (\<lambda>c. c) ch"
    unfolding map_map comp_def using k ht_code_leaf(3) [OF tree] by (intro map_cong) auto
  then have "TrsHuffmanTree ht w' ?hc n = ch" by (simp only: TrsHuffmanTree_def list.map_ident)
  moreover have "CrtHuffmanCode ch h w' n = ?hc"
    unfolding CrtHuffmanCode_def k_def [symmetric] using code by (intro map_cong) auto
  moreover have "CrtHuffmanNodeCode ht w n h0 = Some (w', h)"
    using n(3) by (simp only: CrtHuffmanNodeCode_def nc(1)) simp
  moreover have "CreateWeight ch w0 = (length ch, n, w)" by (simp only: CreateWeight_def cw(1)) simp
  ultimately have "huffman_main w0 ht0 h0 ch = Some (?hc, ch)"
    by (simp only: huffman_main_def Let_def prod.case option.case ht_def)
  moreover have "inj_on k (set ch)" by (rule inj_onI) (metis k)
  ultimately show thesis using that [of ht k] tree k n(1) by blast
qed

text \<open>C5. Coding and decoding give the text back: for every text that fits the buffer and is not
  empty the program computes one code for each character, no code is a beginning of the code of
  another character, each has fewer bits than there are different characters, so that it fits the
  buffer it is built in, and walking the tree by the codes prints the text. An empty text makes the
  program write before the beginning of that buffer.\<close>

theorem huffman_roundtrip:
  assumes "length ch < HUFF_N" "length w0 = HUFF_N" "length ht0 = 2 * HUFF_N" "length h0 = 4 * HUFF_N - 1"
  shows "if ch = [] then huffman_main w0 ht0 h0 ch = None
    else \<exists>hc. huffman_main w0 ht0 h0 ch = Some (hc, ch) \<and> length hc = length ch \<and>
      (\<forall>i < length ch. length (hc ! i) < card (set ch)) \<and>
      (\<forall>i < length ch. \<forall>j < length ch. prefix (hc ! i) (hc ! j) \<longrightarrow> ch ! i = ch ! j)"
proof (cases "ch = []")
  case True
  then show ?thesis
    by (simp add: huffman_main_def CreateWeight_def create_weight_loop.simps CrtHuffmanNodeCode_def)
next
  case False
  then obtain ht k where run: "ht_tree ht (card (set ch))" "\<And>c. c \<in> set ch \<Longrightarrow> 1 \<le> k c \<and> k c \<le> card (set ch)"
    "inj_on k (set ch)" "huffman_main w0 ht0 h0 ch = Some (map (\<lambda>c. ht_code ht (card (set ch)) (k c)) ch, ch)"
    using huffman_main_codes [OF assms] by metis
  let ?hc = "map (\<lambda>c. ht_code ht (card (set ch)) (k c)) ch"
  have "length (?hc ! i) < card (set ch)" if "i < length ch" for i
    using ht_code_leaf(2) [OF run(1)] run(2) [OF nth_mem [OF that]] that by simp
  moreover have "ch ! i = ch ! j" if h: "i < length ch" "j < length ch" "prefix (?hc ! i) (?hc ! j)" for i j
  proof -
    have "k (ch ! i) = k (ch ! j)"
      using h run(2) [OF nth_mem [OF h(1)]] run(2) [OF nth_mem [OF h(2)]]
      by (intro ht_code_prefix_free [OF run(1)]) simp_all
    then show ?thesis using run(3) nth_mem [OF h(1)] nth_mem [OF h(2)] by (auto dest: inj_onD)
  qed
  ultimately show ?thesis unfolding if_not_P [OF False] using run(4)
    by (intro exI [of _ ?hc] conjI) (assumption | rule length_map | blast)+
qed

theorem huffman_roundtrip_witness:
  "\<exists>hc. huffman_main (replicate 100 \<lparr>w_weight = 0, w_char = CHR ''x'', w_num = 0\<rparr>)
      (replicate 200 \<lparr>weight = 0, parent = 7, LChild = 7, RChild = 7\<rparr>) (replicate 399 []) ''abacus'' =
    Some (hc, ''abacus'')"
  using huffman_roundtrip [of "''abacus''" "replicate 100 \<lparr>w_weight = 0, w_char = CHR ''x'', w_num = 0\<rparr>"
      "replicate 200 \<lparr>weight = 0, parent = 7, LChild = 7, RChild = 7\<rparr>" "replicate 399 []"]
  by (auto simp: HUFF_N_def)

end
