(* ===== verification/ThreadPool.thy ===== *)
theory ThreadPool
  imports Prelude "HOL-Library.Multiset"
begin

text \<open>
  The thread pool test_threads_pool.c: a list of waiting tasks under a lock and a condition
  variable, the routine of the worker threads, adding a task and destroying the pool. One step
  is what one thread does between two points at which another may interfere: the lock is taken
  or given back, or the flag is written without it. The main thread adds tasks and destroys the
  pool in any order; what a task does is its number.
\<close>

section \<open>State\<close>

text \<open>
  Where a worker is: before the lock, at the loop test, about to wait (both with the lock), in
  \<open>pthread_cond_wait\<close>, woken and before the lock again, past the loop (with the lock), running a
  task, gone.
\<close>

datatype tp_pc = At_lock | At_test | To_wait | Waiting | Woken | At_work | Running nat | Gone

text \<open>
  Where the main thread is: free to call, in \<open>pool_destroy\<close> before the broadcast, joining the
  worker with the given number, past the destruction.
\<close>

datatype tp_main = Idle | Flagged | Joining nat | Destroyed

record tp_state =
  tp_locked :: "nat option"
  queue :: "nat list"
  cur_queue_size :: int
  shutdown :: bool
  max_thread_num :: nat
  tp_pc :: "nat \<Rightarrow> tp_pc"
  tp_main :: tp_main
  tp_added :: "nat list"
  tp_taken :: "nat list"
  tp_done :: "nat list"

section \<open>Operations\<close>

definition pool_init :: "nat \<Rightarrow> tp_state" where
  "pool_init n = \<lparr>tp_locked = None, queue = [], cur_queue_size = 0, shutdown = False,
     max_thread_num = n, tp_pc = (\<lambda>i. if i < n then At_lock else Gone), tp_main = Idle,
     tp_added = [], tp_taken = [], tp_done = []\<rparr>"

text \<open>The condition variable: a signal wakes one waiting thread if there is any.\<close>

definition tp_wake :: "nat \<Rightarrow> tp_state \<Rightarrow> tp_state" where
  "tp_wake i s = s\<lparr>tp_pc := (tp_pc s)(i := Woken)\<rparr>"

definition tp_broadcast :: "tp_state \<Rightarrow> tp_state" where
  "tp_broadcast s = s\<lparr>tp_pc := (\<lambda>i. if tp_pc s i = Waiting then Woken else tp_pc s i)\<rparr>"

inductive tp_signal :: "tp_state \<Rightarrow> tp_state \<Rightarrow> bool" where
  one: "tp_pc s i = Waiting \<Longrightarrow> tp_signal s (tp_wake i s)"
| none: "\<forall>i. tp_pc s i \<noteq> Waiting \<Longrightarrow> tp_signal s s"

text \<open>\<open>pool_add_worker\<close> inside the lock, before the signal: the task goes to the end of the list.\<close>

definition pool_enqueue :: "nat \<Rightarrow> tp_state \<Rightarrow> tp_state" where
  "pool_enqueue t s = s\<lparr>queue := queue s @ [t], cur_queue_size := cur_queue_size s + 1,
     tp_added := tp_added s @ [t]\<rparr>"

text \<open>What a worker takes; \<open>None\<close> is a failed assertion.\<close>

definition pool_take :: "tp_state \<Rightarrow> (nat \<times> tp_state) option" where
  "pool_take s = (if cur_queue_size s = 0 then None else case queue s of
       [] \<Rightarrow> None
     | t # ts \<Rightarrow> Some (t, s\<lparr>queue := ts, cur_queue_size := cur_queue_size s - 1, tp_taken := tp_taken s @ [t]\<rparr>))"

text \<open>The routine of the workers.\<close>

inductive thread_routine :: "nat \<Rightarrow> tp_state \<Rightarrow> tp_state \<Rightarrow> bool" for i where
  lock: "tp_pc s i = At_lock \<or> tp_pc s i = Woken \<Longrightarrow> tp_locked s = None \<Longrightarrow>
    thread_routine i s (s\<lparr>tp_locked := Some i, tp_pc := (tp_pc s)(i := At_test)\<rparr>)"
| to_wait: "tp_pc s i = At_test \<Longrightarrow> cur_queue_size s = 0 \<and> \<not> shutdown s \<Longrightarrow>
    thread_routine i s (s\<lparr>tp_pc := (tp_pc s)(i := To_wait)\<rparr>)"
| wait: "tp_pc s i = To_wait \<Longrightarrow>
    thread_routine i s (s\<lparr>tp_locked := None, tp_pc := (tp_pc s)(i := Waiting)\<rparr>)"
| leave: "tp_pc s i = At_test \<Longrightarrow> \<not> (cur_queue_size s = 0 \<and> \<not> shutdown s) \<Longrightarrow>
    thread_routine i s (s\<lparr>tp_pc := (tp_pc s)(i := At_work)\<rparr>)"
| exit: "tp_pc s i = At_work \<Longrightarrow> shutdown s \<Longrightarrow>
    thread_routine i s (s\<lparr>tp_locked := None, tp_pc := (tp_pc s)(i := Gone)\<rparr>)"
| work: "tp_pc s i = At_work \<Longrightarrow> \<not> shutdown s \<Longrightarrow> pool_take s = Some (t, s') \<Longrightarrow>
    thread_routine i s (s'\<lparr>tp_locked := None, tp_pc := (tp_pc s')(i := Running t)\<rparr>)"
| finish: "tp_pc s i = Running t \<Longrightarrow>
    thread_routine i s (s\<lparr>tp_pc := (tp_pc s)(i := At_lock), tp_done := tp_done s @ [t]\<rparr>)"

text \<open>The calls of the main thread. The flag is set, and the broadcast made, without the lock.\<close>

inductive main_thread :: "tp_state \<Rightarrow> tp_state \<Rightarrow> bool" where
  add: "tp_main s = Idle \<Longrightarrow> tp_locked s = None \<Longrightarrow> tp_signal (pool_enqueue t s) s' \<Longrightarrow> main_thread s s'"
| flag: "tp_main s = Idle \<Longrightarrow> \<not> shutdown s \<Longrightarrow> main_thread s (s\<lparr>shutdown := True, tp_main := Flagged\<rparr>)"
| broadcast: "tp_main s = Flagged \<Longrightarrow> main_thread s ((tp_broadcast s)\<lparr>tp_main := Joining 0\<rparr>)"
| join: "tp_main s = Joining i \<Longrightarrow> i < max_thread_num s \<Longrightarrow> tp_pc s i = Gone \<Longrightarrow>
    main_thread s (s\<lparr>tp_main := Joining (i + 1)\<rparr>)"
| destroy: "tp_main s = Joining i \<Longrightarrow> i = max_thread_num s \<Longrightarrow>
    main_thread s (s\<lparr>queue := [], tp_main := Destroyed\<rparr>)"

inductive tp_proper :: "tp_state \<Rightarrow> tp_state \<Rightarrow> bool" where
  worker: "i < max_thread_num s \<Longrightarrow> thread_routine i s s' \<Longrightarrow> tp_proper s s'"
| main: "main_thread s s' \<Longrightarrow> tp_proper s s'"

text \<open>A waiting thread may also wake up for no reason, though none ever has to.\<close>

inductive tp_step :: "tp_state \<Rightarrow> tp_state \<Rightarrow> bool" where
  proper: "tp_proper s s' \<Longrightarrow> tp_step s s'"
| spurious: "tp_pc s i = Waiting \<Longrightarrow> tp_step s (tp_wake i s)"

inductive tp_reach :: "nat \<Rightarrow> tp_state \<Rightarrow> bool" for n where
  start: "tp_reach n (pool_init n)"
| step: "tp_reach n s \<Longrightarrow> tp_step s s' \<Longrightarrow> tp_reach n s'"

inductive_cases thread_routineE: "thread_routine i s s'"
inductive_cases main_threadE: "main_thread s s'"
inductive_cases tp_properE: "tp_proper s s'"
inductive_cases tp_stepE: "tp_step s s'"

text \<open>
  The guard at the entry of \<open>pool_destroy\<close>: the result when the pool is being destroyed already, or
  \<open>None\<close> when the pointer is null, which it is after the destruction.
\<close>

definition pool_destroy_guard :: "tp_state \<Rightarrow> int option" where
  "pool_destroy_guard s =
     (if tp_main s = Destroyed then None else Some (if shutdown s then -1 else 0))"

section \<open>Invariants\<close>

definition has_lock :: "tp_pc \<Rightarrow> bool" where
  "has_lock pc \<longleftrightarrow> pc = At_test \<or> pc = To_wait \<or> pc = At_work"

text \<open>The lock is held by exactly the thread that is inside.\<close>

definition holders :: "nat option \<Rightarrow> (nat \<Rightarrow> tp_pc) \<Rightarrow> bool" where
  "holders owner pcs \<longleftrightarrow> (\<forall>i. has_lock (pcs i) \<longleftrightarrow> owner = Some i)"

definition lock_ok :: "tp_state \<Rightarrow> bool" where
  "lock_ok s \<longleftrightarrow> holders (tp_locked s) (tp_pc s)"

text \<open>
  The counter is the length of the list; what was taken and what waits is what was added, in that
  order; a thread that left the loop has the flag or a task.
\<close>

definition queue_ok :: "tp_state \<Rightarrow> bool" where
  "queue_ok s \<longleftrightarrow> (tp_main s \<noteq> Destroyed \<longrightarrow> cur_queue_size s = int (length (queue s)) \<and>
     tp_added s = tp_taken s @ queue s \<and>
     (\<forall>i. tp_pc s i = At_work \<longrightarrow> shutdown s \<or> queue s \<noteq> []))"

text \<open>What the workers are working on, and that all that was taken is worked on or done.\<close>

definition running :: "tp_pc \<Rightarrow> nat multiset" where
  "running pc = (case pc of Running t \<Rightarrow> {#t#} | _ \<Rightarrow> {#})"

definition tasks_ok :: "tp_state \<Rightarrow> bool" where
  "tasks_ok s \<longleftrightarrow> mset (tp_taken s) = mset (tp_done s) + (\<Sum>i < max_thread_num s. running (tp_pc s i))"

definition main_ok :: "nat \<Rightarrow> tp_state \<Rightarrow> bool" where
  "main_ok n s \<longleftrightarrow> max_thread_num s = n \<and> (shutdown s \<longleftrightarrow> tp_main s \<noteq> Idle) \<and>
     (\<forall>i. n \<le> i \<longrightarrow> tp_pc s i = Gone) \<and>
     (\<forall>k. tp_main s = Joining k \<longrightarrow> (\<forall>i < k. tp_pc s i = Gone) \<and> k \<le> n) \<and>
     (tp_main s = Destroyed \<longrightarrow> (\<forall>i. tp_pc s i = Gone))"

lemmas tp_op_defs = tp_wake_def tp_broadcast_def pool_enqueue_def pool_take_def

lemma has_lock_simps [simp]:
  "has_lock At_test" "has_lock To_wait" "has_lock At_work" "\<not> has_lock At_lock" "\<not> has_lock Waiting"
  "\<not> has_lock Woken" "\<not> has_lock (Running t)" "\<not> has_lock Gone"
  by (simp_all add: has_lock_def)

lemma running_simps [simp]:
  "running (Running t) = {#t#}" "running At_lock = {#}" "running At_test = {#}" "running To_wait = {#}"
  "running Waiting = {#}" "running Woken = {#}" "running At_work = {#}" "running Gone = {#}"
  by (simp_all add: running_def)

lemma holders_keep: "holders l pcs \<Longrightarrow> has_lock p = has_lock (pcs i) \<Longrightarrow> holders l (pcs(i := p))"
  by (auto simp: holders_def)

lemma holders_lock: "holders None pcs \<Longrightarrow> has_lock p \<Longrightarrow> holders (Some i) (pcs(i := p))"
  by (auto simp: holders_def)

lemma holders_unlock:
  "holders l pcs \<Longrightarrow> has_lock (pcs i) \<Longrightarrow> \<not> has_lock p \<Longrightarrow> holders None (pcs(i := p))"
  by (auto simp: holders_def)

lemma lock_ok_routine: "thread_routine i s s' \<Longrightarrow> lock_ok s \<Longrightarrow> lock_ok s'"
  by (cases rule: thread_routine.cases)
    (auto simp: lock_ok_def pool_take_def holders_keep holders_lock holders_unlock
      split: if_splits list.splits)

lemma lock_ok_signal: "tp_signal s s' \<Longrightarrow> lock_ok s \<Longrightarrow> lock_ok s'"
  by (cases rule: tp_signal.cases) (auto simp: lock_ok_def tp_wake_def holders_keep)

lemma lock_ok_broadcast: "lock_ok s \<Longrightarrow> lock_ok (tp_broadcast s)"
  by (simp add: lock_ok_def tp_broadcast_def holders_def)
    (metis has_lock_simps(5) has_lock_simps(6))

lemma lock_ok_main:
  assumes "main_thread s s'" "lock_ok s"
  shows "lock_ok s'"
  using assms(1)
proof (cases rule: main_thread.cases)
  case (add t)
  have "lock_ok (pool_enqueue t s)" using assms(2) by (simp add: lock_ok_def pool_enqueue_def)
  then show ?thesis using add lock_ok_signal by blast
next
  case broadcast
  then show ?thesis using lock_ok_broadcast [OF assms(2)] by (simp add: lock_ok_def)
qed (use assms(2) in \<open>auto simp: lock_ok_def\<close>)

lemma lock_ok_wake: "tp_pc s i = Waiting \<Longrightarrow> lock_ok s \<Longrightarrow> lock_ok (tp_wake i s)"
  by (rule lock_ok_signal [OF tp_signal.one])

lemma lock_ok_step: "tp_step s s' \<Longrightarrow> lock_ok s \<Longrightarrow> lock_ok s'"
  by (cases rule: tp_step.cases) (auto intro: lock_ok_routine lock_ok_main lock_ok_wake elim!: tp_properE)

section \<open>The queue\<close>

lemma queue_ok_other:
  "queue_ok s \<Longrightarrow> p \<noteq> At_work \<Longrightarrow> queue_ok (s\<lparr>tp_pc := (tp_pc s)(i := p)\<rparr>)"
  by (auto simp: queue_ok_def)

lemma queue_ok_routine:
  assumes "thread_routine i s s'" "queue_ok s" "lock_ok s"
  shows "queue_ok s'"
  using assms(1)
proof (cases rule: thread_routine.cases)
  case (leave)
  then show ?thesis using assms(2) by (auto simp: queue_ok_def)
next
  case (work t s1)
  have alone: "tp_pc s j \<noteq> At_work" if "j \<noteq> i" for j
    using work(2) assms(3) that unfolding lock_ok_def holders_def
    by (metis has_lock_simps(3) option.inject)
  show ?thesis
    using work assms(2) alone by (auto simp: queue_ok_def pool_take_def split: if_splits list.splits)
qed (use assms(2) in \<open>auto simp: queue_ok_def\<close>)

lemma queue_ok_signal: "tp_signal s s' \<Longrightarrow> queue_ok s \<Longrightarrow> queue_ok s'"
  by (cases rule: tp_signal.cases) (auto simp: tp_wake_def intro: queue_ok_other)

lemma queue_ok_main:
  assumes "main_thread s s'" "queue_ok s"
  shows "queue_ok s'"
  using assms(1)
proof (cases rule: main_thread.cases)
  case (add t)
  have "queue_ok (pool_enqueue t s)" using assms(2) by (auto simp: queue_ok_def pool_enqueue_def)
  then show ?thesis using add queue_ok_signal by blast
qed (use assms(2) in \<open>auto simp: queue_ok_def tp_broadcast_def\<close>)

lemma queue_ok_step: "tp_step s s' \<Longrightarrow> queue_ok s \<Longrightarrow> lock_ok s \<Longrightarrow> queue_ok s'"
  by (cases rule: tp_step.cases)
    (auto intro: queue_ok_routine queue_ok_main queue_ok_signal tp_signal.one elim!: tp_properE)

text \<open>The assertions of a worker never fail.\<close>

lemma pool_take_defined:
  "queue_ok s \<Longrightarrow> tp_main s \<noteq> Destroyed \<Longrightarrow> tp_pc s i = At_work \<Longrightarrow> \<not> shutdown s \<Longrightarrow> pool_take s \<noteq> None"
  by (auto simp: queue_ok_def pool_take_def split: list.splits)

section \<open>The tasks\<close>

lemma sum_running_update:
  fixes i n :: nat
  assumes "i < n"
  shows "(\<Sum>j < n. running ((pcs(i := p)) j)) + running (pcs i) = (\<Sum>j < n. running (pcs j)) + running p"
proof -
  have "(\<Sum>j \<in> {..<n} - {i}. running ((pcs(i := p)) j)) = (\<Sum>j \<in> {..<n} - {i}. running (pcs j))"
    by (rule sum.cong) auto
  then show ?thesis
    using assms sum.remove [of "{..<n}" i "\<lambda>j. running ((pcs(i := p)) j)"]
      sum.remove [of "{..<n}" i "\<lambda>j. running (pcs j)"] by (simp add: ac_simps)
qed

lemma tasks_ok_keep:
  assumes "tasks_ok s" "i < max_thread_num s" "tp_pc s' = (tp_pc s)(i := p)"
    "running p = running (tp_pc s i)" "tp_taken s' = tp_taken s" "tp_done s' = tp_done s"
    "max_thread_num s' = max_thread_num s"
  shows "tasks_ok s'"
  using assms(1,4-) sum_running_update [OF assms(2), of "tp_pc s" p]
  unfolding tasks_ok_def assms(3) by simp

lemma tasks_ok_routine:
  assumes "thread_routine i s s'" "tasks_ok s" "i < max_thread_num s"
  shows "tasks_ok s'"
  using assms(1)
proof (cases rule: thread_routine.cases)
  case (work t s1)
  have s1: "mset (tp_taken s1) = mset (tp_taken s) + {#t#}" "tp_done s1 = tp_done s"
    "max_thread_num s1 = max_thread_num s" "tp_pc s1 = tp_pc s"
    using work(4) by (auto simp: pool_take_def split: if_splits list.splits)
  show ?thesis
    using work(1,2) s1 assms(2) sum_running_update [OF assms(3), of "tp_pc s" "Running t"]
    by (simp add: tasks_ok_def)
next
  case (finish t)
  show ?thesis
    using finish assms(2) sum_running_update [OF assms(3), of "tp_pc s" At_lock]
    by (simp add: tasks_ok_def)
next
  case lock
  show ?thesis
    by (rule tasks_ok_keep [OF assms(2,3), where p = At_test]) (use lock in auto)
next
  case to_wait
  show ?thesis
    by (rule tasks_ok_keep [OF assms(2,3), where p = To_wait]) (use to_wait in auto)
next
  case wait
  show ?thesis
    by (rule tasks_ok_keep [OF assms(2,3), where p = Waiting]) (use wait in auto)
next
  case leave
  show ?thesis
    by (rule tasks_ok_keep [OF assms(2,3), where p = At_work]) (use leave in auto)
next
  case exit
  show ?thesis
    by (rule tasks_ok_keep [OF assms(2,3), where p = Gone]) (use exit in auto)
qed

lemma running_woken: "running (if pc = Waiting then Woken else pc) = running pc"
  by simp

lemma tasks_ok_signal:
  assumes "tp_signal s s'" "tasks_ok s"
  shows "tasks_ok s'"
  using assms(1)
proof (cases rule: tp_signal.cases)
  case (one i)
  then have "running ((tp_pc s')j) = running (tp_pc s j)" for j by (simp add: tp_wake_def)
  then show ?thesis using one assms(2) by (simp add: tasks_ok_def tp_wake_def cong: sum.cong)
qed (use assms(2) in simp)

lemma tasks_ok_main:
  assumes "main_thread s s'" "tasks_ok s"
  shows "tasks_ok s'"
  using assms(1)
proof (cases rule: main_thread.cases)
  case (add t)
  have "tasks_ok (pool_enqueue t s)" using assms(2) by (simp add: tasks_ok_def pool_enqueue_def)
  then show ?thesis using add tasks_ok_signal by blast
next
  case broadcast
  then show ?thesis
    using assms(2) by (simp add: tasks_ok_def tp_broadcast_def running_woken)
qed (use assms(2) in \<open>auto simp: tasks_ok_def\<close>)

lemma tasks_ok_step: "tp_step s s' \<Longrightarrow> tasks_ok s \<Longrightarrow> tasks_ok s'"
  by (cases rule: tp_step.cases)
    (auto intro: tasks_ok_routine tasks_ok_main tasks_ok_signal tp_signal.one elim!: tp_properE)

section \<open>The main thread\<close>

lemma thread_routine_frame:
  "thread_routine i s s' \<Longrightarrow> max_thread_num s' = max_thread_num s \<and> shutdown s' = shutdown s \<and>
     tp_main s' = tp_main s \<and> tp_pc s i \<noteq> Gone \<and> (\<forall>j. j \<noteq> i \<longrightarrow> tp_pc s' j = tp_pc s j)"
  by (cases rule: thread_routine.cases) (auto simp: pool_take_def split: if_splits list.splits)

lemma main_ok_routine:
  assumes "thread_routine i s s'" "main_ok n s"
  shows "main_ok n s'"
proof -
  note f = thread_routine_frame [OF assms(1)]
  have "tp_pc s' j = Gone" if "tp_pc s j = Gone" for j using f that by (cases "j = i") auto
  then show ?thesis using assms(2) f unfolding main_ok_def by metis
qed

lemma main_ok_signal: "tp_signal s s' \<Longrightarrow> main_ok n s \<Longrightarrow> main_ok n s'"
  by (cases rule: tp_signal.cases) (auto simp: main_ok_def tp_wake_def)

lemma main_ok_main:
  assumes "main_thread s s'" "main_ok n s"
  shows "main_ok n s'"
  using assms(1)
proof (cases rule: main_thread.cases)
  case (add t)
  have "main_ok n (pool_enqueue t s)" using assms(2) by (simp add: main_ok_def pool_enqueue_def)
  then show ?thesis using add main_ok_signal by blast
next
  case (join i)
  then show ?thesis using assms(2) by (auto simp: main_ok_def less_Suc_eq)
next
  case (destroy i)
  then show ?thesis using assms(2) by (auto simp: main_ok_def) (metis not_le)
qed (use assms(2) in \<open>auto simp: main_ok_def tp_broadcast_def\<close>)

lemma main_ok_step: "tp_step s s' \<Longrightarrow> main_ok n s \<Longrightarrow> main_ok n s'"
  by (cases rule: tp_step.cases)
    (auto intro: main_ok_routine main_ok_main main_ok_signal tp_signal.one elim!: tp_properE)

text \<open>The invariants of every reachable state.\<close>

definition tp_ok :: "nat \<Rightarrow> tp_state \<Rightarrow> bool" where
  "tp_ok n s \<longleftrightarrow> lock_ok s \<and> queue_ok s \<and> tasks_ok s \<and> main_ok n s"

lemma tp_reach_ok: "tp_reach n s \<Longrightarrow> tp_ok n s"
proof (induction rule: tp_reach.induct)
  case start
  then show ?case
    by (auto simp: tp_ok_def pool_init_def lock_ok_def holders_def queue_ok_def tasks_ok_def main_ok_def)
next
  case (step s s')
  then show ?case
    using lock_ok_step queue_ok_step tasks_ok_step main_ok_step unfolding tp_ok_def by blast
qed

section \<open>Properties of the pool\<close>

text \<open>C7. In every state the pool can reach, under any scheduling and with wakeups for no reason,
  the tasks are started in the order in which they were added and each only once: what was added
  is what was started followed by what waits, and what was started is done or being worked on by
  one thread. No two threads are inside the lock, the assertions of a worker that is about to take
  a task hold, and once the pool is freed no thread is left that could touch it.\<close>

theorem pool_tasks_once:
  assumes "tp_reach n s"
  shows "(tp_main s \<noteq> Destroyed \<longrightarrow> tp_added s = tp_taken s @ queue s \<and>
      cur_queue_size s = int (length (queue s))) \<and>
    mset (tp_taken s) = mset (tp_done s) + (\<Sum>i < n. running (tp_pc s i)) \<and>
    (\<forall>i j. has_lock (tp_pc s i) \<and> has_lock (tp_pc s j) \<longrightarrow> i = j) \<and>
    (\<forall>i. tp_pc s i = At_work \<and> \<not> shutdown s \<longrightarrow> pool_take s \<noteq> None) \<and>
    (tp_main s = Destroyed \<longrightarrow> (\<forall>i. tp_pc s i = Gone))"
proof -
  have ok: "lock_ok s" "queue_ok s" "tasks_ok s" "main_ok n s"
    using tp_reach_ok [OF assms] by (simp_all add: tp_ok_def)
  have "\<forall>i j. has_lock (tp_pc s i) \<and> has_lock (tp_pc s j) \<longrightarrow> i = j"
    using ok(1) by (auto simp: lock_ok_def holders_def)
  moreover have "\<forall>i. tp_pc s i = At_work \<and> \<not> shutdown s \<longrightarrow> pool_take s \<noteq> None"
    using pool_take_defined [OF ok(2)] ok(4) by (auto simp: main_ok_def)
  ultimately show ?thesis using ok(2-4) by (auto simp: queue_ok_def tasks_ok_def main_ok_def)
qed

lemma worker_step: "tp_reach n s \<Longrightarrow> i < max_thread_num s \<Longrightarrow> thread_routine i s s' \<Longrightarrow> tp_reach n s'"
  by (rule tp_reach.step [OF _ tp_step.proper [OF tp_proper.worker]])

text \<open>One worker and two tasks: the first is being run, the second waits.\<close>

theorem pool_tasks_once_witness:
  "\<exists>s. tp_reach 1 s \<and> tp_added s = [7, 8] \<and> tp_pc s 0 = Running 7 \<and>
     tp_added s = tp_taken s @ queue s \<and> mset (tp_taken s) = mset (tp_done s) + {#7#}"
proof -
  define s1 where "s1 = pool_enqueue 8 (pool_enqueue 7 (pool_init 1))"
  have one: "tp_reach 1 (pool_enqueue 7 (pool_init 1))"
    by (rule tp_reach.step [OF tp_reach.start tp_step.proper [OF tp_proper.main [OF main_thread.add [OF _ _ tp_signal.none]]]])
      (simp_all add: pool_init_def pool_enqueue_def)
  have "tp_reach 1 s1" unfolding s1_def
    by (rule tp_reach.step [OF one tp_step.proper [OF tp_proper.main [OF main_thread.add [OF _ _ tp_signal.none]]]])
      (simp_all add: pool_init_def pool_enqueue_def)
  then have "tp_reach 1 (s1\<lparr>tp_locked := Some 0, tp_pc := (tp_pc s1)(0 := At_test)\<rparr>)"
    by (rule worker_step [OF _ _ thread_routine.lock]) (simp_all add: s1_def pool_init_def pool_enqueue_def)
  then have "tp_reach 1 (s1\<lparr>tp_locked := Some 0, tp_pc := (tp_pc s1)(0 := At_work)\<rparr>)"
    using worker_step [OF _ _ thread_routine.leave [of _ 0]] by (fastforce simp: s1_def pool_init_def pool_enqueue_def)
  from worker_step [OF this _ thread_routine.work [of _ 0 7 "s1\<lparr>tp_locked := Some 0, tp_pc := (tp_pc s1)(0 := At_work),
      queue := [8], cur_queue_size := 1, tp_taken := [7]\<rparr>"]]
  have r: "tp_reach 1 (s1\<lparr>tp_locked := None, tp_pc := (tp_pc s1)(0 := Running 7), queue := [8], cur_queue_size := 1, tp_taken := [7]\<rparr>)"
    by (simp add: s1_def pool_init_def pool_enqueue_def pool_take_def)
  show ?thesis
    by (intro exI conjI, rule r) (use pool_tasks_once [OF r] in \<open>simp_all add: s1_def pool_init_def pool_enqueue_def\<close>)
qed

section \<open>The end of the pool\<close>

text \<open>How far a thread that sees the flag is from its end, and how far the whole pool is.\<close>

fun tp_rank :: "tp_pc \<Rightarrow> nat" where
  "tp_rank (Running t) = 4" | "tp_rank At_lock = 3" | "tp_rank Woken = 3" | "tp_rank At_test = 2"
| "tp_rank At_work = 1" | "tp_rank Gone = 0" | "tp_rank To_wait = 0" | "tp_rank Waiting = 0"

definition main_rank :: "nat \<Rightarrow> tp_main \<Rightarrow> nat" where
  "main_rank n m = (case m of Joining k \<Rightarrow> n + 1 - k | _ \<Rightarrow> 0)"

definition pool_rank :: "nat \<Rightarrow> tp_state \<Rightarrow> nat" where
  "pool_rank n s = (\<Sum>i < n. tp_rank (tp_pc s i)) + main_rank n (tp_main s)"

text \<open>The broadcast has been made, and nobody waits or is about to.\<close>

definition pool_ending :: "nat \<Rightarrow> tp_state \<Rightarrow> bool" where
  "pool_ending n s \<longleftrightarrow> lock_ok s \<and> main_ok n s \<and> tp_main s \<noteq> Idle \<and> tp_main s \<noteq> Flagged \<and>
     (\<forall>i. tp_pc s i \<noteq> Waiting \<and> tp_pc s i \<noteq> To_wait)"

lemma tp_rank_decreases:
  assumes "thread_routine i s s'" "shutdown s" "tp_pc s i \<noteq> Waiting" "tp_pc s i \<noteq> To_wait"
  shows "tp_rank (tp_pc s' i) < tp_rank (tp_pc s i)"
    and "tp_pc s' i \<noteq> Waiting" "tp_pc s' i \<noteq> To_wait"
  using assms(1)
  by (cases rule: thread_routine.cases; use assms(2-) in \<open>auto\<close>)+

lemma pool_ending_step:
  assumes "tp_step s s'" "pool_ending n s"
  shows "pool_ending n s' \<and> pool_rank n s' < pool_rank n s"
  using assms(1)
proof (cases rule: tp_step.cases)
  case proper
  have e: "lock_ok s" "main_ok n s" "tp_main s \<noteq> Idle" "tp_main s \<noteq> Flagged"
    "\<And>i. tp_pc s i \<noteq> Waiting" "\<And>i. tp_pc s i \<noteq> To_wait" "shutdown s" "max_thread_num s = n"
    using assms(2) by (auto simp: pool_ending_def main_ok_def)
  have ok': "lock_ok s'" "main_ok n s'"
    using lock_ok_step [OF assms(1) e(1)] main_ok_step [OF assms(1) e(2)] by simp_all
  from proper show ?thesis
  proof (cases rule: tp_proper.cases)
    case (worker i)
    note f = thread_routine_frame [OF worker(2)] and r = tp_rank_decreases [OF worker(2) e(7,5,6)]
    have "tp_pc s' j \<noteq> Waiting \<and> tp_pc s' j \<noteq> To_wait" for j
      using f e(5,6) r(2,3) by (cases "j = i") auto
    moreover have "(\<Sum>j < n. tp_rank (tp_pc s' j)) < (\<Sum>j < n. tp_rank (tp_pc s j))"
      using f r(1) worker(1) e(8) by (intro sum_strict_mono_ex1) (auto simp: le_less)
    ultimately show ?thesis using ok' f e by (auto simp: pool_ending_def pool_rank_def)
  next
    case main
    then show ?thesis
      using ok' e by (cases rule: main_thread.cases) (auto simp: pool_ending_def pool_rank_def main_rank_def)
  qed
qed (use assms(2) in \<open>simp add: pool_ending_def\<close>)

lemma pool_ending_not_stuck:
  assumes "pool_ending n s" "tp_main s \<noteq> Destroyed"
  shows "\<exists>s'. tp_step s s'"
proof -
  have e: "lock_ok s" "main_ok n s" "shutdown s" "max_thread_num s = n"
    "\<And>i. tp_pc s i \<noteq> Waiting" "\<And>i. tp_pc s i \<noteq> To_wait"
    using assms(1) by (auto simp: pool_ending_def main_ok_def)
  obtain k where k: "tp_main s = Joining k" "k \<le> n"
    using assms by (cases "tp_main s") (auto simp: pool_ending_def main_ok_def)
  have work: "\<exists>s'. tp_step s s'" if "thread_routine i s s'" for i s'
    using that e(2,4) thread_routine_frame [OF that]
    by (metis main_ok_def not_le proper worker)
  show ?thesis
  proof (cases "k < n \<and> tp_pc s k \<noteq> Gone")
    case True
    show ?thesis
    proof (cases "tp_locked s")
      case None
      then have "\<not> has_lock (tp_pc s k)" using e(1) by (simp add: lock_ok_def holders_def)
      then show ?thesis
        using work [OF lock [OF _ None, of k]] work [OF finish, of k] True e(5,6) [of k]
        by (cases "tp_pc s k") auto
    next
      case (Some j)
      then have "has_lock (tp_pc s j)" using e(1) by (simp add: lock_ok_def holders_def)
      then show ?thesis
        using work [OF leave, of j] work [OF exit, of j] e(3) e(6) [of j]
        by (cases "tp_pc s j") auto
    qed
  next
    case False
    then show ?thesis
      using k e(4) proper [OF main [OF join [OF k(1)]]] proper [OF main [OF destroy [OF k(1)]]]
      by (cases "k = n") auto
  qed
qed

lemma pool_ending_run:
  assumes "tp_step\<^sup>*\<^sup>* s t" "pool_ending n s"
  shows "pool_ending n t"
  using assms(1)
proof (induction rule: rtranclp_induct)
  case (step t u)
  then show ?case using pool_ending_step [OF step.hyps(2) step.IH] by blast
qed (rule assms(2))

lemma pool_ending_finite:
  assumes "pool_ending n (f 0)" "\<forall>k. tp_step (f k) (f (Suc k))"
  shows False
proof -
  have e: "pool_ending n (f k)" for k
  proof (induction k)
    case (Suc k)
    then show ?case using pool_ending_step assms(2) by blast
  qed (rule assms(1))
  have "pool_rank n (f k) + k \<le> pool_rank n (f 0)" for k
  proof (induction k)
    case (Suc k)
    have "pool_rank n (f (Suc k)) < pool_rank n (f k)"
      using pool_ending_step [OF _ e [of k]] assms(2) by blast
    then show ?case using Suc by linarith
  qed simp
  from this [of "Suc (pool_rank n (f 0))"] show False by linarith
qed

text \<open>A thread that waits after the broadcast waits until it wakes for no reason.\<close>

lemma waits_for_ever:
  assumes "tp_proper\<^sup>*\<^sup>* s t" "tp_main s = Joining k" "k \<le> i" "i < max_thread_num s" "tp_pc s i = Waiting"
  shows "tp_pc t i = Waiting \<and> tp_main t \<noteq> Destroyed"
proof -
  have "(\<exists>k. tp_main t = Joining k \<and> k \<le> i) \<and> i < max_thread_num t \<and> tp_pc t i = Waiting"
    using assms(1)
  proof (induction rule: rtranclp_induct)
    case (step t u)
    then obtain k where t: "tp_main t = Joining k" "k \<le> i" "i < max_thread_num t" "tp_pc t i = Waiting"
      by blast
    from step.hyps(2) show ?case
    proof (cases rule: tp_proper.cases)
      case (worker j)
      then have "j \<noteq> i" using t(4) by (auto elim: thread_routineE)
      then show ?thesis using t thread_routine_frame [OF worker(2)] by auto
    next
      case main
      then show ?thesis using t by (cases rule: main_thread.cases) (auto simp: le_less Suc_le_eq)
    qed
  qed (use assms in auto)
  then show ?thesis by auto
qed

text \<open>C33. Destroying the pool. When at the broadcast no thread stands between its test of the flag
  and its wait, the destruction ends whatever the scheduling: no run goes on for ever, and none
  gets stuck before the pool is freed. When some thread does stand there, its wakeup is lost: a
  run exists after which it waits, unless it wakes up for no reason, for ever, and
  \<open>pool_destroy\<close> waits for it. Called after the end, \<open>pool_destroy\<close> reads the null pointer, so
  that its guard against a second call is of no use.\<close>

theorem pool_destroy_ends:
  assumes "tp_reach n s" "tp_main s = Flagged"
  shows "if \<exists>i. tp_pc s i = To_wait
    then \<exists>i t. tp_step\<^sup>*\<^sup>* s t \<and> tp_pc s i = To_wait \<and>
      (\<forall>u. tp_proper\<^sup>*\<^sup>* t u \<longrightarrow> tp_pc u i = Waiting \<and> tp_main u \<noteq> Destroyed)
    else (let s1 = (tp_broadcast s)\<lparr>tp_main := Joining 0\<rparr> in tp_step s s1 \<and>
      (\<nexists>f. f 0 = s1 \<and> (\<forall>k. tp_step (f k) (f (Suc k)))) \<and>
      (\<forall>t. tp_step\<^sup>*\<^sup>* s1 t \<longrightarrow> (\<exists>u. tp_step t u) \<or>
         tp_main t = Destroyed \<and> pool_destroy_guard t = None))"
proof -
  let ?s1 = "(tp_broadcast s)\<lparr>tp_main := Joining 0\<rparr>"
  have ok: "lock_ok s" "main_ok n s" using tp_reach_ok [OF assms(1)] by (simp_all add: tp_ok_def)
  have b: "tp_step s ?s1" by (rule proper [OF main [OF broadcast [OF assms(2)]]])
  show ?thesis
  proof (cases "\<exists>i. tp_pc s i = To_wait")
    case True
    then obtain i where i: "tp_pc s i = To_wait" by blast
    let ?t = "?s1\<lparr>tp_locked := None, tp_pc := (tp_pc ?s1)(i := Waiting)\<rparr>"
    have "\<not> max_thread_num s \<le> i"
    proof
      assume "max_thread_num s \<le> i"
      then have "tp_pc s i = Gone" using ok(2) by (simp add: main_ok_def)
      then show False using i by simp
    qed
    then have n: "i < max_thread_num s" by simp
    have "tp_pc ?s1 i = To_wait" using i by (simp add: tp_broadcast_def)
    then have "tp_step ?s1 ?t" using n by (intro proper worker [of i] wait) (simp_all add: tp_broadcast_def)
    then have "tp_step\<^sup>*\<^sup>* s ?t" by (rule converse_rtranclp_into_rtranclp [of tp_step, OF b r_into_rtranclp [of tp_step]])
    moreover have "tp_pc u i = Waiting \<and> tp_main u \<noteq> Destroyed" if "tp_proper\<^sup>*\<^sup>* ?t u" for u
      using waits_for_ever [OF that, of 0 i] n by (simp add: tp_broadcast_def)
    ultimately have "\<exists>t. tp_step\<^sup>*\<^sup>* s t \<and> tp_pc s i = To_wait \<and>
        (\<forall>u. tp_proper\<^sup>*\<^sup>* t u \<longrightarrow> tp_pc u i = Waiting \<and> tp_main u \<noteq> Destroyed)"
      using i by blast
    then show ?thesis unfolding if_P [OF True] by (rule exI)
  next
    case False
    have "lock_ok ?s1" using lock_ok_broadcast [OF ok(1)] by (simp add: lock_ok_def)
    moreover have "main_ok n ?s1" using main_ok_step [OF b ok(2)] .
    ultimately have e: "pool_ending n ?s1" using False by (auto simp: pool_ending_def tp_broadcast_def)
    have "(\<exists>u. tp_step t u) \<or> tp_main t = Destroyed \<and> pool_destroy_guard t = None"
      if "tp_step\<^sup>*\<^sup>* ?s1 t" for t
      using pool_ending_not_stuck [OF pool_ending_run [OF that e]] by (auto simp: pool_destroy_guard_def)
    moreover have "\<nexists>f. f 0 = ?s1 \<and> (\<forall>k. tp_step (f k) (f (Suc k)))"
      using pool_ending_finite [of n] e by metis
    ultimately show ?thesis using False b by (simp add: Let_def)
  qed
qed

text \<open>One worker that is about to wait when the flag is set.\<close>

definition pool_race :: tp_state where
  "pool_race = (pool_init 1)\<lparr>tp_locked := Some 0, shutdown := True, tp_main := Flagged,
     tp_pc := (tp_pc (pool_init 1))(0 := To_wait)\<rparr>"

lemma pool_race_reach: "tp_reach 1 pool_race"
proof -
  let ?a = "(pool_init 1)\<lparr>tp_locked := Some 0, tp_pc := (tp_pc (pool_init 1))(0 := At_test)\<rparr>"
  let ?b = "?a\<lparr>tp_pc := (tp_pc ?a)(0 := To_wait)\<rparr>"
  have "tp_step (pool_init 1) ?a"
    by (rule proper [OF worker [of 0]], simp add: pool_init_def, rule lock) (simp_all add: pool_init_def)
  moreover have "tp_step ?a ?b"
    by (rule proper [OF worker [of 0]], simp add: pool_init_def, rule to_wait) (simp_all add: pool_init_def)
  moreover have "tp_step ?b (?b\<lparr>shutdown := True, tp_main := Flagged\<rparr>)"
    by (rule proper [OF main [OF flag]]) (simp_all add: pool_init_def)
  moreover have "?b\<lparr>shutdown := True, tp_main := Flagged\<rparr> = pool_race"
    by (simp add: pool_race_def pool_init_def fun_eq_iff)
  ultimately have steps: "tp_step (pool_init 1) ?a" "tp_step ?a ?b" "tp_step ?b pool_race" by simp_all
  show ?thesis by (rule tp_reach.step [OF tp_reach.step [OF tp_reach.step [OF tp_reach.start]]]) (fact steps)+
qed

theorem pool_destroy_ends_witness:
  "\<exists>i t. tp_step\<^sup>*\<^sup>* pool_race t \<and>
     (\<forall>u. tp_proper\<^sup>*\<^sup>* t u \<longrightarrow> tp_pc u i = Waiting \<and> tp_main u \<noteq> Destroyed)"
proof -
  have "tp_main pool_race = Flagged" "\<exists>i. tp_pc pool_race i = To_wait"
    by (auto simp: pool_race_def)
  then show ?thesis using pool_destroy_ends [OF pool_race_reach] by auto
qed

text \<open>Tasks that wait when the flag is set are never started.\<close>

lemma shutdown_takes_nothing:
  "thread_routine i s s' \<Longrightarrow> shutdown s \<Longrightarrow> tp_taken s' = tp_taken s"
  by (cases rule: thread_routine.cases) auto

end
