(* ===== verification/RingBuffer.thy ===== *)
theory RingBuffer
  imports Prelude
begin

text \<open>
  The shared ring buffer of test_ringbuffer.c: a producer and a consumer move 32 bit counters that
  only ever grow and wrap, each with the counter value at which its current lap began. Reading the
  other side's counter and moving the own one are separate steps, in any interleaving.
\<close>

section \<open>The control block\<close>

record buffer_cblk =
  user :: u32
  server :: u32
  user_base :: u32
  server_base :: u32
  frame_count :: u32
  frame_size :: u32

definition BUF_FRAME_COUNT :: u32 where "BUF_FRAME_COUNT = 4096"
definition BUF_FRAME_REQ :: u32 where "BUF_FRAME_REQ = 1600"
definition BUF_FRAME_REQ_S :: u32 where "BUF_FRAME_REQ_S = 2048"

definition cblk_initial :: buffer_cblk where
  "cblk_initial = \<lparr>user = 0, server = 0, user_base = 0, server_base = 0,
     frame_count = BUF_FRAME_COUNT, frame_size = 1\<rparr>"

text \<open>The offset of the producer's next frame in the buffer.\<close>

definition get_user_buffer :: "buffer_cblk \<Rightarrow> u32" where
  "get_user_buffer p = (user p - user_base p) * frame_size p"

definition frames_available :: "buffer_cblk \<Rightarrow> u32" where
  "frames_available p = server p + frame_count p - user p"

definition frames_ready :: "buffer_cblk \<Rightarrow> u32" where
  "frames_ready p = user p - server p"

definition step_user :: "buffer_cblk \<Rightarrow> u32 \<Rightarrow> buffer_cblk" where
  "step_user p frames =
     (let fc = frame_count p; u = user p + frames;
          base = (if u \<ge> fc then (if u - fc \<ge> user_base p then user_base p + fc else user_base p)
                  else if u \<ge> user_base p + fc then user_base p + fc else user_base p)
      in p\<lparr>user_base := base, user := u\<rparr>)"

definition step_server :: "buffer_cblk \<Rightarrow> u32 \<Rightarrow> buffer_cblk" where
  "step_server p frames =
     (let fc = frame_count p; s = server p + frames;
          base = (if s \<ge> fc then (if s - fc \<ge> server_base p then server_base p + fc else server_base p)
                  else if s \<ge> server_base p + fc then server_base p + fc else server_base p)
      in p\<lparr>server_base := base, server := s\<rparr>)"

section \<open>The two sides\<close>

text \<open>
  The number of frames the producer moves when it has read \<open>avail\<close>, and the consumer when it has
  read \<open>rdy\<close>: not more than a request and not beyond the end of the buffer.
\<close>

definition client_frames :: "buffer_cblk \<Rightarrow> u32 \<Rightarrow> u32" where
  "client_frames p avail =
     (let req = (if BUF_FRAME_REQ > avail then avail else BUF_FRAME_REQ);
          buffer_end = user_base p + frame_count p
      in if req > buffer_end - user p then buffer_end - user p else req)"

definition server_frames :: "buffer_cblk \<Rightarrow> u32 \<Rightarrow> u32" where
  "server_frames p rdy =
     (let req = (if BUF_FRAME_REQ_S > rdy then rdy else BUF_FRAME_REQ_S);
          buffer_end = server_base p + frame_count p
      in if req > buffer_end - server p then buffer_end - server p else req)"

text \<open>The bytes of the buffer each side touches: offset and length.\<close>

definition client_region :: "buffer_cblk \<Rightarrow> u32 \<Rightarrow> u32 \<times> u32" where
  "client_region p avail = (get_user_buffer p, client_frames p avail * frame_size p)"

definition server_region :: "buffer_cblk \<Rightarrow> u32 \<Rightarrow> u32 \<times> u32" where
  "server_region p rdy = ((server p - server_base p) * frame_size p, server_frames p rdy * frame_size p)"

text \<open>\<open>None\<close> is a side that has not read the other's counter in this round.\<close>

record rb_state =
  cblk :: buffer_cblk
  frames_avail :: "u32 option"
  frames_rdy :: "u32 option"
  client_running :: bool

definition rb_initial :: rb_state where
  "rb_initial = \<lparr>cblk = cblk_initial, frames_avail = None, frames_rdy = None, client_running = True\<rparr>"

text \<open>
  The producer reads what is free (after a wait this may still be nothing), then writes and moves
  on, or stops when its counter is before its base; the consumer reads what is ready, skips a round
  without frames, then reads them and moves on.
\<close>

inductive rb_step :: "rb_state \<Rightarrow> rb_state \<Rightarrow> bool" where
  client_reads: "client_running s \<Longrightarrow> frames_avail s = None \<Longrightarrow>
    rb_step s (s\<lparr>frames_avail := Some (frames_available (cblk s))\<rparr>)"
| client_stops: "client_running s \<Longrightarrow> frames_avail s = Some a \<Longrightarrow> user (cblk s) < user_base (cblk s) \<Longrightarrow>
    rb_step s (s\<lparr>client_running := False\<rparr>)"
| client_moves: "client_running s \<Longrightarrow> frames_avail s = Some a \<Longrightarrow> \<not> user (cblk s) < user_base (cblk s) \<Longrightarrow>
    rb_step s (s\<lparr>cblk := step_user (cblk s) (client_frames (cblk s) a), frames_avail := None\<rparr>)"
| server_reads: "client_running s \<Longrightarrow> frames_rdy s = None \<Longrightarrow> frames_ready (cblk s) \<noteq> 0 \<Longrightarrow>
    rb_step s (s\<lparr>frames_rdy := Some (frames_ready (cblk s))\<rparr>)"
| server_moves: "frames_rdy s = Some r \<Longrightarrow>
    rb_step s (s\<lparr>cblk := step_server (cblk s) (server_frames (cblk s) r), frames_rdy := None\<rparr>)"

inductive rb_reach :: "rb_state \<Rightarrow> bool" where
  start: "rb_reach rb_initial"
| step: "rb_reach s \<Longrightarrow> rb_step s s' \<Longrightarrow> rb_reach s'"

section \<open>Counters without bound\<close>

text \<open>The counter and the base that stand for \<open>n\<close> frames moved in all.\<close>

definition lap :: "nat \<Rightarrow> nat" where
  "lap n = n - n mod 4096"

definition shows_count :: "u32 \<Rightarrow> u32 \<Rightarrow> nat \<Rightarrow> bool" where
  "shows_count c base n \<longleftrightarrow> c = of_nat n \<and> base = of_nat (lap n)"

definition next_base :: "u32 \<Rightarrow> u32 \<Rightarrow> u32" where
  "next_base u base = (if u \<ge> 4096 then (if u - 4096 \<ge> base then base + 4096 else base)
     else if u \<ge> base + 4096 then base + 4096 else base)"

lemma unat_of_nat_32: "unat (of_nat n :: u32) = n mod 4294967296"
  by (simp add: unsigned_of_nat take_bit_eq_mod)

lemma lap_facts: "4096 dvd lap n" "lap n \<le> n" "n = lap n + n mod 4096"
  by (simp_all add: lap_def minus_mod_eq_mult_div)

lemma next_base_correct:
  fixes base :: u32
  assumes "4096 dvd unat base" "k \<le> 4096"
  shows "next_base (base + of_nat k) base = (if k = 4096 then base + 4096 else base)"
proof -
  define b where "b = unat base"
  have b: "4096 dvd b" "b < 4294967296" using assms(1) unsigned_less [of base, where ?'a = nat] by (simp_all add: b_def)
  then have top: "b + 4096 \<le> 4294967296" by (auto elim!: dvdE)
  have base: "base = of_nat b" by (simp add: b_def)
  show ?thesis
  proof (cases "k = 4096 \<and> b + 4096 = 4294967296")
    case True
    then have "unat base + 4096 = 4294967296" by (simp add: b_def)
    then have "unat (base + 4096) = 0" by (simp add: unat_word_ariths)
    then have "base + 4096 = 0" by (simp only: word_unat_eq_iff unsigned_0)
    then show ?thesis using True by (simp add: next_base_def)
  next
    case False
    then have lt: "b + k < 4294967296" using top assms(2) by auto
    then have u: "base + of_nat k = of_nat (b + k)" "unat (base + of_nat k) = b + k"
      by (simp_all add: base unat_of_nat_32 flip: of_nat_add)
    show ?thesis
    proof (cases "4096 \<le> b + k")
      case True
      then have c1: "(4096 :: u32) \<le> base + of_nat k" using u by (simp add: word_le_nat_alt)
      then have "unat (base + of_nat k - 4096) = b + k - 4096" using u by (simp add: unat_sub)
      then have "base \<le> base + of_nat k - 4096 \<longleftrightarrow> b \<le> b + k - 4096"
        by (simp only: word_le_nat_alt b_def)
      also have "\<dots> \<longleftrightarrow> k = 4096" using True assms(2) by auto
      finally show ?thesis using c1 by (simp add: next_base_def)
    next
      case small: False
      then have "b = 0" using b(1) by (auto elim!: dvdE)
      then have "base = 0" by (simp add: base)
      moreover have "k < 4096" using small by simp
      then have "\<not> (4096 :: u32) \<le> of_nat k" by (simp add: word_le_nat_alt unat_of_nat_32)
      ultimately show ?thesis using small by (simp add: next_base_def)
    qed
  qed
qed

lemma unat_lap: "4096 dvd unat (of_nat (lap n) :: u32)"
  by (simp add: unat_of_nat_32 dvd_mod_iff lap_facts(1))

lemma lap_add:
  "n mod 4096 + k \<le> 4096 \<Longrightarrow> lap (n + k) = (if n mod 4096 + k = 4096 then lap n + 4096 else lap n)"
proof -
  assume k: "n mod 4096 + k \<le> 4096"
  obtain q where q: "lap n = 4096 * q" using lap_facts(1) by (auto elim!: dvdE)
  have n: "n + k = 4096 * q + (n mod 4096 + k)" using lap_facts(3) [of n] q by simp
  have "(n + k) mod 4096 = (n mod 4096 + k) mod 4096" unfolding n by simp
  then have m: "(n + k) mod 4096 = (if n mod 4096 + k = 4096 then 0 else n mod 4096 + k)" using k by auto
  have "lap (n + k) = n + k - (n + k) mod 4096" by (simp only: lap_def)
  also have "\<dots> = (if n mod 4096 + k = 4096 then 4096 * q + 4096 else 4096 * q)"
    unfolding m using n by (cases "n mod 4096 + k = 4096") simp_all
  finally show ?thesis by (simp only: q)
qed

lemma shows_count_split: "shows_count c base n \<Longrightarrow> c = base + of_nat (n mod 4096)"
  using lap_facts(3) [of n] by (metis of_nat_add shows_count_def)

lemma shows_count_add:
  assumes "shows_count c base n" "n mod 4096 + k \<le> 4096"
  shows "shows_count (c + of_nat k) (next_base (c + of_nat k) base) (n + k)"
proof -
  have base: "base = of_nat (lap n)" "c = of_nat n" using assms(1) by (simp_all add: shows_count_def)
  have "c + of_nat k = base + of_nat (n mod 4096 + k)"
    using shows_count_split [OF assms(1)] by (simp add: add.assoc)
  then have "next_base (c + of_nat k) base = (if n mod 4096 + k = 4096 then base + 4096 else base)"
    using next_base_correct [OF _ assms(2), of base] unat_lap [of n] unfolding base(1) by (simp only: )
  also have "\<dots> = of_nat (lap (n + k))"
    using lap_add [OF assms(2)] by (simp add: base(1))
  finally show ?thesis unfolding shows_count_def by (simp add: base(2))
qed

text \<open>The counter is never before its base, and the end of the lap is where it is expected.\<close>

lemma shows_count_offset:
  assumes "shows_count c base n"
  shows "unat (c - base) = n mod 4096" "\<not> c < base" "unat (base + 4096 - c) = 4096 - n mod 4096"
proof -
  have c: "c = base + of_nat (n mod 4096)" by (rule shows_count_split [OF assms])
  have m: "n mod 4096 < 4096" by simp
  show "unat (c - base) = n mod 4096" using m by (simp add: c unat_of_nat_32)
  have "4096 dvd unat base" "unat base < 4294967296"
    using unat_lap [of n] assms unsigned_less [of base, where ?'a = nat] by (simp_all add: shows_count_def)
  then have "unat base + 4096 \<le> 4294967296" by (auto elim!: dvdE)
  then have "unat c = unat base + n mod 4096"
    using m unfolding c by (subst unat_word_ariths) (simp add: unat_of_nat_32)
  then show "\<not> c < base" by (simp add: word_less_nat_alt)
  have "base + 4096 - c = of_nat (4096 - n mod 4096)" using m by (simp add: c of_nat_diff)
  then show "unat (base + 4096 - c) = 4096 - n mod 4096" using m by (simp only: unat_of_nat_32) simp
qed

section \<open>The invariant\<close>

definition rb_counts :: "rb_state \<Rightarrow> nat \<Rightarrow> nat \<Rightarrow> bool" where
  "rb_counts s U S \<longleftrightarrow> S \<le> U \<and> U \<le> S + 4096 \<and>
     frame_count (cblk s) = 4096 \<and> frame_size (cblk s) = 1 \<and>
     shows_count (user (cblk s)) (user_base (cblk s)) U \<and>
     shows_count (server (cblk s)) (server_base (cblk s)) S \<and>
     (\<forall>a. frames_avail s = Some a \<longrightarrow> unat a \<le> S + 4096 - U) \<and>
     (\<forall>r. frames_rdy s = Some r \<longrightarrow> unat r \<le> U - S)"

lemma step_user_eq:
  "frame_count p = 4096 \<Longrightarrow> step_user p f = p\<lparr>user_base := next_base (user p + f) (user_base p), user := user p + f\<rparr>"
  by (simp add: step_user_def next_base_def Let_def)

lemma step_server_eq:
  "frame_count p = 4096 \<Longrightarrow>
     step_server p f = p\<lparr>server_base := next_base (server p + f) (server_base p), server := server p + f\<rparr>"
  by (simp add: step_server_def next_base_def Let_def)

lemma client_frames_bounds:
  assumes "frame_count p = 4096" "shows_count (user p) (user_base p) U"
  shows "unat (client_frames p a) \<le> unat a" "U mod 4096 + unat (client_frames p a) \<le> 4096"
  using shows_count_offset(3) [OF assms(2)] assms(1)
  by (auto simp: client_frames_def Let_def word_less_nat_alt not_less BUF_FRAME_REQ_def)

lemma server_frames_bounds:
  assumes "frame_count p = 4096" "shows_count (server p) (server_base p) S"
  shows "unat (server_frames p r) \<le> unat r" "S mod 4096 + unat (server_frames p r) \<le> 4096"
  using shows_count_offset(3) [OF assms(2)] assms(1)
  by (auto simp: server_frames_def Let_def word_less_nat_alt not_less BUF_FRAME_REQ_S_def)

lemma frames_counts:
  assumes "rb_counts s U S"
  shows "unat (frames_available (cblk s)) = S + 4096 - U" "unat (frames_ready (cblk s)) = U - S"
proof -
  have s: "S \<le> U" "U \<le> S + 4096" "user (cblk s) = of_nat U" "server (cblk s) = of_nat S"
    "frame_count (cblk s) = 4096"
    using assms by (auto simp: rb_counts_def shows_count_def)
  have a: "frames_available (cblk s) = of_nat (S + 4096 - U)" and r: "frames_ready (cblk s) = of_nat (U - S)"
    using s by (simp_all add: frames_available_def frames_ready_def of_nat_diff)
  have "S + 4096 - U < 4294967296" "U - S < 4294967296" using s(1,2) by linarith+
  then show "unat (frames_available (cblk s)) = S + 4096 - U" "unat (frames_ready (cblk s)) = U - S"
    unfolding a r unat_of_nat_32 by (simp_all only: mod_less)
qed

lemma rb_counts_step:
  assumes "rb_step s s'" "rb_counts s U S"
  shows "\<exists>U' S'. rb_counts s' U' S'"
  using assms(1)
proof (cases rule: rb_step.cases)
  case client_reads
  then show ?thesis using assms(2) frames_counts(1) [OF assms(2)] by (auto simp: rb_counts_def)
next
  case server_reads
  then show ?thesis using assms(2) frames_counts(2) [OF assms(2)] by (auto simp: rb_counts_def)
next
  case (client_stops a)
  then show ?thesis using assms(2) by (auto simp: rb_counts_def)
next
  case (client_moves a)
  define k where "k = unat (client_frames (cblk s) a)"
  have b: "k \<le> unat a" "U mod 4096 + k \<le> 4096"
    using client_frames_bounds [of "cblk s" U a] assms(2) by (simp_all add: rb_counts_def k_def)
  have f: "client_frames (cblk s) a = of_nat k" by (simp add: k_def)
  have "shows_count (user (cblk s) + of_nat k) (next_base (user (cblk s) + of_nat k) (user_base (cblk s))) (U + k)"
    using assms(2) b(2) by (intro shows_count_add) (simp_all add: rb_counts_def)
  moreover have "unat a \<le> S + 4096 - U" using assms(2) client_moves by (simp add: rb_counts_def)
  ultimately have "rb_counts s' (U + k) S"
    using assms(2) b(1) client_moves by (auto simp: rb_counts_def step_user_eq f)
  then show ?thesis by blast
next
  case (server_moves r)
  define k where "k = unat (server_frames (cblk s) r)"
  have b: "k \<le> unat r" "S mod 4096 + k \<le> 4096"
    using server_frames_bounds [of "cblk s" S r] assms(2) by (simp_all add: rb_counts_def k_def)
  have f: "server_frames (cblk s) r = of_nat k" by (simp add: k_def)
  have "shows_count (server (cblk s) + of_nat k) (next_base (server (cblk s) + of_nat k) (server_base (cblk s))) (S + k)"
    using assms(2) b(2) by (intro shows_count_add) (simp_all add: rb_counts_def)
  moreover have "unat r \<le> U - S" using assms(2) server_moves by (simp add: rb_counts_def)
  ultimately have "rb_counts s' U (S + k)"
    using assms(2) b(1) server_moves by (auto simp: rb_counts_def step_server_eq f)
  then show ?thesis by blast
qed

lemma rb_reach_counts: "rb_reach s \<Longrightarrow> \<exists>U S. rb_counts s U S"
proof (induction rule: rb_reach.induct)
  case start
  have "rb_counts rb_initial 0 0"
    by (simp add: rb_counts_def rb_initial_def cblk_initial_def BUF_FRAME_COUNT_def shows_count_def lap_def)
  then show ?case by blast
qed (use rb_counts_step in blast)

section \<open>Properties\<close>

lemma laps_disjoint:
  assumes "S + y < U" "U + x < S + (4096 :: nat)" "U \<le> S + 4096"
  shows "(U + x) mod 4096 \<noteq> (S + y) mod 4096"
proof
  assume eq: "(U + x) mod 4096 = (S + y) mod 4096"
  have "S + y \<le> U + x" using assms(1) by simp
  then have "4096 dvd (U + x) - (S + y)" using eq by (metis mod_eq_dvd_iff_nat)
  moreover have "0 < (U + x) - (S + y)" "(U + x) - (S + y) < 4096" using assms by auto
  ultimately show False by (simp add: nat_dvd_not_less)
qed

text \<open>C16. Producer and consumer never touch the same part of the ring buffer, in any interleaving and
  past every wrap of the 32 bit counters: what is free and what is ready always make up the 4096
  frames, the region each side is about to touch lies within the buffer, begins where its own
  counter says, stays within what is free or ready, and the two regions are disjoint; the check by
  which the producer would stop never fires.\<close>

theorem ringbuffer_regions:
  assumes "rb_reach s"
  shows "unat (frames_available (cblk s)) + unat (frames_ready (cblk s)) = 4096 \<and>
    \<not> user (cblk s) < user_base (cblk s) \<and>
    (\<forall>a. frames_avail s = Some a \<longrightarrow> (case client_region (cblk s) a of (off, len) \<Rightarrow>
       unat off + unat len \<le> 4096 \<and> unat off = unat (user (cblk s)) mod 4096 \<and>
       unat len \<le> unat (frames_available (cblk s)))) \<and>
    (\<forall>r. frames_rdy s = Some r \<longrightarrow> (case server_region (cblk s) r of (off, len) \<Rightarrow>
       unat off + unat len \<le> 4096 \<and> unat off = unat (server (cblk s)) mod 4096 \<and>
       unat len \<le> unat (frames_ready (cblk s)))) \<and>
    (\<forall>a r. frames_avail s = Some a \<and> frames_rdy s = Some r \<longrightarrow>
       (case (client_region (cblk s) a, server_region (cblk s) r) of ((o1, l1), (o2, l2)) \<Rightarrow>
         {unat o1 ..< unat o1 + unat l1} \<inter> {unat o2 ..< unat o2 + unat l2} = {}))"
proof -
  obtain U S where c: "rb_counts s U S" using rb_reach_counts [OF assms] by blast
  note fa = frames_counts(1) [OF c] and fr = frames_counts(2) [OF c]
  have s: "S \<le> U" "U \<le> S + 4096" "frame_count (cblk s) = 4096" "frame_size (cblk s) = 1"
    "shows_count (user (cblk s)) (user_base (cblk s)) U"
    "shows_count (server (cblk s)) (server_base (cblk s)) S"
    using c by (simp_all add: rb_counts_def)
  have off: "unat (user (cblk s) - user_base (cblk s)) = U mod 4096"
    "unat (server (cblk s) - server_base (cblk s)) = S mod 4096"
    "unat (user (cblk s)) mod 4096 = U mod 4096" "unat (server (cblk s)) mod 4096 = S mod 4096"
    using shows_count_offset(1) [OF s(5)] shows_count_offset(1) [OF s(6)] s(5,6)
    by (simp_all add: shows_count_def unat_of_nat_32 mod_mod_cancel)
  have cl: "U mod 4096 + unat (client_frames (cblk s) a) \<le> 4096 \<and> U + unat (client_frames (cblk s) a) \<le> S + 4096"
    if "frames_avail s = Some a" for a
    using client_frames_bounds [OF s(3,5), of a] that c s(2) by (force simp: rb_counts_def)
  have sv: "S mod 4096 + unat (server_frames (cblk s) r) \<le> 4096 \<and> S + unat (server_frames (cblk s) r) \<le> U"
    if "frames_rdy s = Some r" for r
    using server_frames_bounds [OF s(3,6), of r] that c s(1) by (force simp: rb_counts_def)
  have disj: "{U mod 4096 ..< U mod 4096 + unat (client_frames (cblk s) a)} \<inter>
      {S mod 4096 ..< S mod 4096 + unat (server_frames (cblk s) r)} = {}"
    if ar: "frames_avail s = Some a" "frames_rdy s = Some r" for a r
  proof (rule ccontr)
    assume "\<not> ?thesis"
    then obtain i where "i \<in> {U mod 4096 ..< U mod 4096 + unat (client_frames (cblk s) a)} \<inter>
        {S mod 4096 ..< S mod 4096 + unat (server_frames (cblk s) r)}" by blast
    then have i: "U mod 4096 \<le> i" "i < U mod 4096 + unat (client_frames (cblk s) a)"
      "S mod 4096 \<le> i" "i < S mod 4096 + unat (server_frames (cblk s) r)" by simp_all
    define x y where "x = i - U mod 4096" and "y = i - S mod 4096"
    have "(U + x) mod 4096 = i" "(S + y) mod 4096 = i"
      using i cl [OF ar(1)] sv [OF ar(2)] mod_add_left_eq [of U 4096 x] mod_add_left_eq [of S 4096 y]
      by (simp_all add: x_def y_def)
    moreover have "x < unat (client_frames (cblk s) a)" "y < unat (server_frames (cblk s) r)"
      using i unfolding x_def y_def by linarith+
    then have "S + y < U" "U + x < S + 4096" using cl [OF ar(1)] sv [OF ar(2)] by linarith+
    ultimately show False using laps_disjoint [of S y U x] s(2) by simp
  qed
  have A: "unat (frames_available (cblk s)) + unat (frames_ready (cblk s)) = 4096"
    using fa fr s(1,2) by simp
  have B: "\<not> user (cblk s) < user_base (cblk s)" by (rule shows_count_offset(2) [OF s(5)])
  have C: "case client_region (cblk s) a of (off, len) \<Rightarrow> unat off + unat len \<le> 4096 \<and>
      unat off = unat (user (cblk s)) mod 4096 \<and> unat len \<le> unat (frames_available (cblk s))"
    if "frames_avail s = Some a" for a
    using cl [OF that] off fa s(4) by (simp add: client_region_def get_user_buffer_def) linarith
  have D: "case server_region (cblk s) r of (off, len) \<Rightarrow> unat off + unat len \<le> 4096 \<and>
      unat off = unat (server (cblk s)) mod 4096 \<and> unat len \<le> unat (frames_ready (cblk s))"
    if "frames_rdy s = Some r" for r
    using sv [OF that] off fr s(4) by (simp add: server_region_def) linarith
  have E: "case (client_region (cblk s) a, server_region (cblk s) r) of ((o1, l1), (o2, l2)) \<Rightarrow>
      {unat o1 ..< unat o1 + unat l1} \<inter> {unat o2 ..< unat o2 + unat l2} = {}"
    if "frames_avail s = Some a" "frames_rdy s = Some r" for a r
    using disj [OF that] off s(4) by (simp add: client_region_def server_region_def get_user_buffer_def)
  show ?thesis by (intro conjI allI impI; (rule A B C D E | elim conjE); (assumption | erule conjunct1 conjunct2)?)
qed

theorem ringbuffer_regions_witness:
  "case client_region cblk_initial 4096 of (off, len) \<Rightarrow> unat off + unat len \<le> 4096"
proof -
  have "rb_reach (rb_initial\<lparr>frames_avail := Some (frames_available (cblk rb_initial))\<rparr>)"
    by (rule rb_reach.step [OF rb_reach.start client_reads]) (simp_all add: rb_initial_def)
  from ringbuffer_regions [OF this] show ?thesis
    by (simp add: rb_initial_def cblk_initial_def frames_available_def BUF_FRAME_COUNT_def split: prod.splits)
qed

text \<open>The producer really gets past the wrap: at the end of the last lap counter and base are 0 again.\<close>

lemma step_user_wraps:
  "step_user \<lparr>user = - 96, server = - 96, user_base = - 4096, server_base = - 4096,
     frame_count = 4096, frame_size = 1\<rparr> 96 =
   \<lparr>user = 0, server = - 96, user_base = 0, server_base = - 4096, frame_count = 4096, frame_size = 1\<rparr>"
  by (simp add: step_user_def)

end
