(* ===== verification/Fibonacci.thy ===== *)
theory Fibonacci
  imports Stdio
begin

text \<open>
  The big number program math/test_fibonacci.c: two numbers in base 10000, lowest digit first, the
  addition with its carry loop, and printing. A carry out of the last place is a write behind the
  array (\<open>None\<close>).
\<close>

definition FIB_MAX :: nat where
  "FIB_MAX = 10000"

section \<open>Addition\<close>

text \<open>The second loop of \<open>add\<close>, from the current place on.\<close>

fun carry_loop :: "int list \<Rightarrow> int list option" where
  "carry_loop [] = Some []"
| "carry_loop [x] = (if x \<ge> 10000 then None else Some [x])"
| "carry_loop (x # y # xs) =
     (if x \<ge> 10000 then map_option ((#) (x mod 10000)) (carry_loop ((y + x div 10000) # xs))
      else map_option ((#) x) (carry_loop (y # xs)))"

definition fib_add :: "int list \<Rightarrow> int list \<Rightarrow> int list option" where
  "fib_add c d = carry_loop (map2 (+) c d)"

section \<open>Printing\<close>

text \<open>\<open>%d%d%d%d\<close> of the four decimal digits.\<close>

definition four_digits :: "int \<Rightarrow> string" where
  "four_digits x = dec_int (x div 1000) @ dec_int (x mod 1000 div 100) @ dec_int (x mod 100 div 10) @
     dec_int (x mod 10)"

text \<open>From the highest place down; \<open>k\<close> tells that a place has been printed.\<close>

fun print_loop :: "bool \<Rightarrow> int list \<Rightarrow> string" where
  "print_loop k [] = []"
| "print_loop k (x # xs) =
     (if k then four_digits x @ print_loop k xs
      else if x \<noteq> 0 then dec_int x @ print_loop True xs
      else print_loop k xs)"

definition fib_print :: "int list \<Rightarrow> string" where
  "fib_print c = print_loop False (rev c)"

section \<open>The program\<close>

text \<open>The lines from round \<open>i\<close> on; odd rounds add into \<open>a\<close>, even ones into \<open>b\<close>.\<close>

fun fib_loop :: "int \<Rightarrow> nat \<Rightarrow> int list \<Rightarrow> int list \<Rightarrow> string list option" where
  "fib_loop i 0 a b = Some []"
| "fib_loop i (Suc k) a b =
     (if odd i then (case fib_add a b of None \<Rightarrow> None
        | Some a' \<Rightarrow> map_option ((#) (fib_print a')) (fib_loop (i + 1) k a' b))
      else (case fib_add b a of None \<Rightarrow> None
        | Some b' \<Rightarrow> map_option ((#) (fib_print b')) (fib_loop (i + 1) k a b')))"

text \<open>The exit code, or the lines printed; the loop runs from 1 below \<open>n - 1\<close>.\<close>

definition fib_main :: "string list \<Rightarrow> (int + string list) option" where
  "fib_main argv =
     (if length argv \<noteq> 2 then Some (Inl (-1))
      else (let n = atoi (argv ! 1); one = 1 # replicate (FIB_MAX - 1) 0 in
        map_option (\<lambda>ls. Inr ([CHR ''1''] # [CHR ''1''] # ls)) (fib_loop 1 (nat (n - 2)) one one)))"

section \<open>The numbers\<close>

fun limbs :: "int list \<Rightarrow> int" where
  "limbs [] = 0"
| "limbs (x # xs) = x + 10000 * limbs xs"

definition limbs_ok :: "int list \<Rightarrow> bool" where
  "limbs_ok xs \<longleftrightarrow> (\<forall>x \<in> set xs. 0 \<le> x \<and> x < 10000)"

lemma limbs_ok_simps [simp]:
  "limbs_ok []" "limbs_ok (x # xs) \<longleftrightarrow> 0 \<le> x \<and> x < 10000 \<and> limbs_ok xs"
  by (auto simp: limbs_ok_def)

lemma limbs_bounds: "limbs_ok xs \<Longrightarrow> 0 \<le> limbs xs \<and> limbs xs < 10000 ^ length xs"
proof (induction xs)
  case (Cons x xs)
  then have "limbs xs + 1 \<le> 10000 ^ length xs" by simp
  then have "10000 * limbs xs + 10000 \<le> 10000 ^ length (x # xs)" by simp
  then show ?case using Cons by auto
qed simp

lemma limbs_add: "length c = length d \<Longrightarrow> limbs (map2 (+) c d) = limbs c + limbs d"
  by (induction c d rule: list_induct2) (auto simp: algebra_simps)

lemma limbs_zero: "limbs (replicate k 0) = 0" "limbs_ok (replicate k 0)"
  by (induction k) auto

text \<open>
  The carries keep the value, and they end inside the array exactly when the value has a place for
  each of its digits.
\<close>

lemma carry_loop_value:
  assumes "\<forall>x \<in> set xs. 0 \<le> x" "xs \<noteq> []"
  shows "if limbs xs < 10000 ^ length xs
    then \<exists>r. carry_loop xs = Some r \<and> length r = length xs \<and> limbs_ok r \<and> limbs r = limbs xs
    else carry_loop xs = None"
  using assms
proof (induction xs rule: carry_loop.induct)
  case (3 x y xs)
  define q where "q = (if x \<ge> 10000 then x div 10000 else 0)"
  define m where "m = (if x \<ge> 10000 then x mod 10000 else x)"
  have x: "x = m + 10000 * q" "0 \<le> m" "m < 10000" "0 \<le> q"
    using "3.prems" by (auto simp: q_def m_def)
  have loop: "carry_loop (x # y # xs) = map_option ((#) m) (carry_loop ((y + q) # xs))"
    by (simp add: q_def m_def)
  have v: "limbs (x # y # xs) = m + 10000 * limbs ((y + q) # xs)" using x(1) by simp
  have "limbs ((y + q) # xs) < B \<longleftrightarrow> m + 10000 * limbs ((y + q) # xs) < 10000 * B" for B
    using x(2,3) by auto
  then have fits: "limbs (x # y # xs) < 10000 ^ length (x # y # xs) \<longleftrightarrow>
      limbs ((y + q) # xs) < 10000 ^ length ((y + q) # xs)"
    unfolding v by simp
  have IH: "if limbs ((y + q) # xs) < 10000 ^ length ((y + q) # xs)
    then \<exists>r. carry_loop ((y + q) # xs) = Some r \<and> length r = length ((y + q) # xs) \<and> limbs_ok r \<and>
      limbs r = limbs ((y + q) # xs)
    else carry_loop ((y + q) # xs) = None"
  proof (cases "x \<ge> 10000")
    case True
    then have q: "q = x div 10000" by (simp add: q_def)
    show ?thesis unfolding q by (rule "3.IH"(1) [OF True]) (use "3.prems" True in auto)
  next
    case False
    then have q: "y + q = y" by (simp add: q_def)
    show ?thesis unfolding q by (rule "3.IH"(2) [OF False]) (use "3.prems" in auto)
  qed
  show ?case
  proof (cases "limbs ((y + q) # xs) < 10000 ^ length ((y + q) # xs)")
    case True
    then obtain r where "carry_loop ((y + q) # xs) = Some r" "length r = length ((y + q) # xs)" "limbs_ok r"
      "limbs r = limbs ((y + q) # xs)" using IH by auto
    then show ?thesis using True x(2,3) unfolding if_P [OF fits [THEN iffD2, OF True]] loop v by simp
  next
    case False
    then show ?thesis using IH fits loop by simp
  qed
qed auto

lemma fib_add_value:
  assumes "limbs_ok c" "limbs_ok d" "length c = length d" "c \<noteq> []"
  shows "if limbs c + limbs d < 10000 ^ length c
    then \<exists>r. fib_add c d = Some r \<and> length r = length c \<and> limbs_ok r \<and> limbs r = limbs c + limbs d
    else fib_add c d = None"
proof -
  have pos: "\<forall>x \<in> set (map2 (+) c d). 0 \<le> x"
    using assms(1,2) by (auto simp: limbs_ok_def elim!: in_set_zipE)
  have len: "map2 (+) c d \<noteq> []" "length (map2 (+) c d) = length c" using assms(3,4) by auto
  show ?thesis
    using carry_loop_value [OF pos len(1)] unfolding fib_add_def limbs_add [OF assms(3)] len(2) .
qed

section \<open>Printed numbers\<close>

lemma dec_digits_shift: "10 \<le> n \<Longrightarrow> dec_digits n = dec_digits (n div 10) @ [digit_char (n mod 10)]"
  by (subst dec_digits.simps) simp

lemma dec_digit: "d < 10 \<Longrightarrow> dec_int (int d) = [digit_char d]"
  by (simp add: dec_int_def dec_digits.simps [of d])

lemma dec_digits_append_limb:
  assumes "0 < a" "x < 10000"
  shows "dec_digits (a * 10000 + x) = dec_digits a @ four_digits (int x)"
proof -
  define n where "n = a * 10000 + x"
  have big: "10000 \<le> n" using assms(1) by (simp add: n_def)
  have "dec_digits n = dec_digits (n div 10000) @
      [digit_char (n div 1000 mod 10), digit_char (n div 100 mod 10), digit_char (n div 10 mod 10), digit_char (n mod 10)]"
    using big dec_digits_shift [of n] dec_digits_shift [of "n div 10"] dec_digits_shift [of "n div 100"]
      dec_digits_shift [of "n div 1000"]
    by (simp add: div_mult2_eq [symmetric])
  moreover have "n div 10000 = a" using assms by (simp add: n_def)
  moreover have "n div 1000 mod 10 = x div 1000"
  proof -
    have "n = a * 10 * 1000 + x" by (simp add: n_def)
    then have "n div 1000 = a * 10 + x div 1000" by (simp only: div_mult_self3)
    moreover have "x div 1000 < 10" using assms(2) by (simp add: less_mult_imp_div_less)
    ultimately show ?thesis by (simp only: mod_mult_self3 mod_less)
  qed
  moreover have "n div 100 mod 10 = x div 100 mod 10"
  proof -
    have "n = a * 10 * 10 * 100 + x" by (simp add: n_def)
    then have "n div 100 = a * 10 * 10 + x div 100" by (simp only: div_mult_self3)
    then show ?thesis by (simp only: mod_mult_self3)
  qed
  moreover have "n div 10 mod 10 = x div 10 mod 10"
  proof -
    have "n = a * 100 * 10 * 10 + x" by (simp add: n_def)
    then have "n div 10 = a * 100 * 10 + x div 10" by (simp only: div_mult_self3)
    then show ?thesis by (simp only: mod_mult_self3)
  qed
  moreover have "n mod 10 = x mod 10"
  proof -
    have "n = a * 1000 * 10 + x" by (simp add: n_def)
    then show ?thesis by (simp only: mod_mult_self3)
  qed
  moreover have "x div 100 mod 10 = x mod 1000 div 100"
    using mod_mult2_eq [of x 100 10] by (simp del: mod_mod_trivial)
  moreover have "x div 10 mod 10 = x mod 100 div 10"
    using mod_mult2_eq [of x 10 10] by simp
  moreover have "four_digits (int x) = [digit_char (x div 1000), digit_char (x mod 1000 div 100),
      digit_char (x mod 100 div 10), digit_char (x mod 10)]"
  proof -
    have "int x div 1000 = int (x div 1000)" "int x mod 1000 div 100 = int (x mod 1000 div 100)"
      "int x mod 100 div 10 = int (x mod 100 div 10)" "int x mod 10 = int (x mod 10)"
      by (simp_all add: zdiv_int zmod_int)
    moreover have "x div 1000 < 10" "x mod 1000 div 100 < 10" "x mod 100 div 10 < 10" "x mod 10 < 10"
      using assms(2) by (simp_all add: less_mult_imp_div_less)
    ultimately show ?thesis by (simp only: four_digits_def dec_digit append.simps)
  qed
  ultimately show ?thesis by (simp flip: n_def)
qed

lemma print_loop_rest:
  "limbs_ok xs \<Longrightarrow> 0 < a \<Longrightarrow>
     dec_digits (nat a) @ print_loop True xs = dec_digits (nat (foldl (\<lambda>a x. a * 10000 + x) a xs))"
proof (induction xs arbitrary: a)
  case (Cons x xs)
  have "nat (a * 10000 + x) = nat a * 10000 + nat x" using Cons.prems by (simp add: nat_add_distrib nat_mult_distrib)
  moreover have "nat x < 10000" using Cons.prems by (simp add: nat_less_iff)
  ultimately have "dec_digits (nat a) @ four_digits x = dec_digits (nat (a * 10000 + x))"
    using dec_digits_append_limb [of "nat a" "nat x"] Cons.prems by simp
  moreover have "dec_digits (nat (a * 10000 + x)) @ print_loop True xs =
      dec_digits (nat (foldl (\<lambda>a x. a * 10000 + x) (a * 10000 + x) xs))"
    using Cons.prems by (intro Cons.IH) simp_all
  ultimately show ?case
    using append_assoc [of "dec_digits (nat a)" "four_digits x" "print_loop True xs"] by simp
qed simp

lemma print_loop_all:
  "limbs_ok xs \<Longrightarrow> print_loop False xs =
     (let v = foldl (\<lambda>a x. a * 10000 + x) 0 xs in if v = 0 then [] else dec_digits (nat v))"
proof (induction xs)
  case (Cons x xs)
  show ?case
  proof (cases "x = 0")
    case False
    then have x: "0 < x" using Cons.prems by simp
    have "0 < foldl (\<lambda>a x. a * 10000 + x) a xs" if "0 < a" for a
      using that Cons.prems by (induction xs arbitrary: a) auto
    then have "foldl (\<lambda>a x. a * 10000 + x) x xs \<noteq> 0" using x by (metis less_irrefl)
    then show ?thesis
      using False x Cons.prems print_loop_rest [of xs x] by (simp add: dec_int_def)
  qed (use Cons in simp)
qed simp

lemma limbs_foldl: "foldl (\<lambda>a x. a * 10000 + x) 0 (rev c) = limbs c"
  by (induction c) simp_all

lemma fib_print_value: "limbs_ok c \<Longrightarrow> 0 < limbs c \<Longrightarrow> fib_print c = dec_digits (nat (limbs c))"
  using print_loop_all [of "rev c"] by (simp add: fib_print_def limbs_foldl limbs_ok_def)

section \<open>The Fibonacci numbers\<close>

fun fib :: "nat \<Rightarrow> nat" where
  "fib 0 = 0"
| "fib (Suc 0) = 1"
| "fib (Suc (Suc n)) = fib (Suc n) + fib n"

lemma fib_pos: "0 < fib (Suc n)"
  by (induction n rule: fib.induct) simp_all

lemma fib_mono: "m \<le> n \<Longrightarrow> fib m \<le> fib n"
proof (induction rule: dec_induct)
  case (step n)
  then show ?case by (cases n) auto
qed simp

lemma fib_loop_value:
  assumes "limbs_ok a" "limbs_ok b" "length a = L" "length b = L" "0 < L"
    "limbs a = int (fib (if odd i then i else i + 1))" "limbs b = int (fib (if odd i then i + 1 else i))"
    "int (fib (i + 1)) < 10000 ^ L"
  shows "fib_loop (int i) k a b = (if int (fib (i + 1 + k)) < 10000 ^ L
    then Some (map (\<lambda>j. dec_digits (fib j)) [i + 2 ..< i + 2 + k]) else None)"
  using assms
proof (induction k arbitrary: i a b)
  case (Suc k)
  have sum: "limbs a + limbs b = int (fib (i + 2))" "limbs b + limbs a = int (fib (i + 2))"
    using Suc.prems(6,7) by (auto split: if_splits)
  have ne: "a \<noteq> []" "b \<noteq> []" using Suc.prems(3-5) by auto
  have upt: "[i + 2 ..< i + 2 + Suc k] = (i + 2) # [Suc i + 2 ..< Suc i + 2 + k]"
    by (simp add: upt_conv_Cons)
  show ?case
  proof (cases "int (fib (i + 2)) < 10000 ^ L")
    case True
    have step: "\<exists>r. fib_add c d = Some r \<and> length r = L \<and> limbs_ok r \<and> limbs r = int (fib (i + 2)) \<and>
        fib_print r = dec_digits (fib (i + 2))"
      if h: "limbs_ok c" "limbs_ok d" "length c = L" "length d = L" "limbs c + limbs d = int (fib (i + 2))" for c d
    proof -
      have ne: "c \<noteq> []" "length c = length d" using h(3,4) Suc.prems(5) by auto
      obtain r where "fib_add c d = Some r" "length r = L" "limbs_ok r" "limbs r = int (fib (i + 2))"
        using fib_add_value [OF h(1,2) ne(2,1)] unfolding h(3,5) if_P [OF True] by blast
      moreover from this have "fib_print r = dec_digits (fib (i + 2))"
        using fib_print_value [of r] fib_pos [of "i + 1"] by (simp del: fib.simps)
      ultimately show ?thesis by blast
    qed
    have next': "int (fib (Suc i + 1)) < 10000 ^ L" using True by simp
    show ?thesis
    proof (cases "odd i")
      case odd: True
      obtain r where r: "fib_add a b = Some r" "length r = L" "limbs_ok r" "limbs r = int (fib (i + 2))"
        "fib_print r = dec_digits (fib (i + 2))"
        using step [OF Suc.prems(1-4) sum(1)] by blast
      have "fib_loop (int (Suc i)) k r b = (if int (fib (Suc i + 1 + k)) < 10000 ^ L
          then Some (map (\<lambda>j. dec_digits (fib j)) [Suc i + 2 ..< Suc i + 2 + k]) else None)"
        using Suc.prems r odd next' by (intro Suc.IH) simp_all
      then show ?thesis using odd r(1,5) unfolding upt by (simp add: add.commute)
    next
      case even: False
      obtain r where r: "fib_add b a = Some r" "length r = L" "limbs_ok r" "limbs r = int (fib (i + 2))"
        "fib_print r = dec_digits (fib (i + 2))"
        using step [OF Suc.prems(2,1,4,3) sum(2)] by blast
      have "fib_loop (int (Suc i)) k a r = (if int (fib (Suc i + 1 + k)) < 10000 ^ L
          then Some (map (\<lambda>j. dec_digits (fib j)) [Suc i + 2 ..< Suc i + 2 + k]) else None)"
        using Suc.prems r even next' by (intro Suc.IH) simp_all
      then show ?thesis using even r(1,5) unfolding upt by (simp add: add.commute)
    qed
  next
    case False
    have "int (fib (i + 2)) \<le> int (fib (i + 1 + Suc k))" by (simp add: fib_mono del: fib.simps)
    then have big: "\<not> int (fib (i + 1 + Suc k)) < 10000 ^ L" using False by linarith
    have "fib_add a b = None" "fib_add b a = None"
      using fib_add_value [of a b] fib_add_value [of b a] Suc.prems(1-4) ne sum False by simp_all
    then show ?thesis using big by (cases "odd i") simp_all
  qed
qed simp

section \<open>The program\<close>

lemma limbs_one: "limbs_ok (1 # replicate k 0)" "limbs (1 # replicate k 0) = 1"
  by (simp_all add: limbs_zero)

text \<open>C27. The program prints the Fibonacci numbers: given a number \<open>n\<close> of at least 2 it prints the
  first \<open>n\<close> of them in decimal, one on each line, when the last one has at most 40000 digits; when
  it has more, the carry of an addition is written behind the array. For a smaller \<open>n\<close> it still
  prints two numbers.\<close>

theorem fibonacci_prints:
  assumes "length argv = 2" "atoi (argv ! 1) = int n"
  shows "fib_main argv =
    (if n < 2 then Some (Inr (map (\<lambda>j. dec_digits (fib j)) [1, 2]))
     else if fib n < 10000 ^ FIB_MAX then Some (Inr (map (\<lambda>j. dec_digits (fib j)) [1 ..< n + 1]))
     else None)"
proof -
  define one where "one = 1 # replicate (FIB_MAX - 1) (0 :: int)"
  have one: "limbs_ok one" "limbs one = 1" "length one = FIB_MAX"
    using limbs_one by (simp_all add: one_def FIB_MAX_def)
  have first: "dec_digits (fib 1) = [CHR ''1'']" "dec_digits (fib 2) = [CHR ''1'']"
    by code_simp+
  have "(1 :: int) < 10000 ^ FIB_MAX" by (rule one_less_power) (simp_all add: FIB_MAX_def)
  then have loop: "fib_loop 1 k one one = (if int (fib (2 + k)) < 10000 ^ FIB_MAX
      then Some (map (\<lambda>j. dec_digits (fib j)) [3 ..< 3 + k]) else None)" for k
  proof -
    have pos: "0 < FIB_MAX" by (simp add: FIB_MAX_def)
    have "fib_loop (int 1) k one one = (if int (fib (1 + 1 + k)) < 10000 ^ FIB_MAX
      then Some (map (\<lambda>j. dec_digits (fib j)) [1 + 2 ..< 1 + 2 + k]) else None)"
      by (rule fib_loop_value [OF one(1) one(1) one(3) one(3) pos]) (simp_all add: one(2) \<open>1 < 10000 ^ FIB_MAX\<close>)
    moreover have "int 1 = 1" "(1 :: nat) + 1 = 2" "(1 :: nat) + 2 = 3" by simp_all
    ultimately show ?thesis by (simp only: )
  qed
  have main: "fib_main argv = map_option (\<lambda>ls. Inr ([CHR ''1''] # [CHR ''1''] # ls)) (fib_loop 1 (n - 2) one one)"
  proof -
    have "nat (int n - 2) = n - 2" by simp
    then show ?thesis unfolding fib_main_def Let_def assms(2) one_def using assms(1) by simp
  qed
  show ?thesis
  proof (cases "n < 2")
    case True
    then show ?thesis using main first loop [of 0] by (simp add: numeral_2_eq_2)
  next
    case False
    then obtain m where n: "n = m + 2" using le_Suc_ex [of 2 n] by (auto simp: add.commute)
    have "[1 ..< n + 1] = 1 # [Suc 1 ..< n + 1]" by (rule upt_conv_Cons) (simp add: n)
    moreover have "[Suc 1 ..< n + 1] = Suc 1 # [Suc (Suc 1) ..< n + 1]" by (rule upt_conv_Cons) (simp add: n)
    moreover have "n + 1 = 3 + (n - 2)" "Suc 1 = 2" "Suc (Suc 1) = 3" using n by simp_all
    ultimately have "[1 ..< n + 1] = 1 # 2 # [3 ..< 3 + (n - 2)]" by (simp only: )
    then have lines: "map (\<lambda>j. dec_digits (fib j)) [1 ..< n + 1] =
        [CHR ''1''] # [CHR ''1''] # map (\<lambda>j. dec_digits (fib j)) [3 ..< 3 + (n - 2)]"
      by (simp only: list.map first)
    have "int (fib (2 + (n - 2))) < 10000 ^ FIB_MAX \<longleftrightarrow> fib n < 10000 ^ FIB_MAX"
    proof -
      have "2 + (n - 2) = n" using False by simp
      moreover have "int (fib n) < 10000 ^ FIB_MAX \<longleftrightarrow> fib n < 10000 ^ FIB_MAX"
        by (metis of_nat_less_iff of_nat_numeral of_nat_power)
      ultimately show ?thesis by (simp only: )
    qed
    then show ?thesis
      using False unfolding main loop lines by (cases "fib n < 10000 ^ FIB_MAX") simp_all
  qed
qed

theorem fibonacci_prints_witness:
  "fib_main [''fib'', ''6''] = Some (Inr (map (\<lambda>j. dec_digits (fib j)) [1 ..< 7]))"
proof -
  have "fib 6 < 10000 ^ FIB_MAX"
    by (rule less_le_trans [OF _ self_le_power]) (simp_all add: FIB_MAX_def numeral_eq_Suc)
  moreover have "atoi ''6'' = int 6" by code_simp
  ultimately show ?thesis using fibonacci_prints [of "[''fib'', ''6'']" 6] by simp
qed

end
