(* ===== verification/Hashmap.thy ===== *)
theory Hashmap
  imports Interfaces
begin

text \<open>
  The hash map of math/hashmap.c_ and math/hashmap.h: the CRC-32 table and the mixing of the hash
  value, the probing in a window of eight slots, insertion with its doubling and rehashing,
  lookup, removal, iteration and destruction. \<open>unsigned long\<close> has 64 bits. A key is the bytes
  before its terminating zero; the map keeps the pointer only, and the model takes the string behind
  it as unchanged while it is in the map. \<open>calloc\<close> is described by a bound \<open>mem\<close>: a table of more than
  \<open>mem\<close> slots cannot be allocated. Sizes are natural numbers, and \<open>hashmap_rehash\<close> is undefined where
  the code's \<open>int\<close> would overflow.
\<close>

unbundle bit_operations_syntax

section \<open>Status codes and state\<close>

definition HMAP_INITIAL_SIZE :: nat where
  "HMAP_INITIAL_SIZE = 256"

definition HMAP_CHAIN_LENGTH :: nat where
  "HMAP_CHAIN_LENGTH = 8"

datatype hmap_status = HMAP_E_OUTMEM | HMAP_E_NOTFOUND | HMAP_S_OK

fun status_code :: "hmap_status \<Rightarrow> int" where
  "status_code HMAP_E_OUTMEM = -4"
| "status_code HMAP_E_NOTFOUND = -3"
| "status_code HMAP_S_OK = 0"

type_synonym hkey = "byte list"

text \<open>A null pointer is \<open>None\<close>, both for keys and for values.\<close>

record 'v hashmap_elem =
  e_key :: "hkey option"
  e_used :: bool
  e_data :: "'v option"

record 'v hashmap_map =
  table_size :: nat
  hm_count :: int
  elems :: "'v hashmap_elem list"

definition empty_elem :: "'v hashmap_elem" where
  "empty_elem = \<lparr>e_key = None, e_used = False, e_data = None\<rparr>"

definition hashmap_fresh :: "nat \<Rightarrow> 'v hashmap_map" where
  "hashmap_fresh n = \<lparr>table_size = n, hm_count = 0, elems = replicate n empty_elem\<rparr>"

text \<open>Creating a map ends the program (\<open>None\<close>) when the table cannot be allocated.\<close>

definition hashmap_create :: "nat \<Rightarrow> 'v hashmap_map option" where
  "hashmap_create mem =
     (if HMAP_INITIAL_SIZE \<le> mem then Some (hashmap_fresh HMAP_INITIAL_SIZE) else None)"

section \<open>The hash value\<close>

definition crc32_tab :: "64 word list" where
  "crc32_tab = [
     0x00000000, 0x77073096, 0xee0e612c, 0x990951ba, 0x076dc419, 0x706af48f, 0xe963a535, 0x9e6495a3,
     0x0edb8832, 0x79dcb8a4, 0xe0d5e91e, 0x97d2d988, 0x09b64c2b, 0x7eb17cbd, 0xe7b82d07, 0x90bf1d91,
     0x1db71064, 0x6ab020f2, 0xf3b97148, 0x84be41de, 0x1adad47d, 0x6ddde4eb, 0xf4d4b551, 0x83d385c7,
     0x136c9856, 0x646ba8c0, 0xfd62f97a, 0x8a65c9ec, 0x14015c4f, 0x63066cd9, 0xfa0f3d63, 0x8d080df5,
     0x3b6e20c8, 0x4c69105e, 0xd56041e4, 0xa2677172, 0x3c03e4d1, 0x4b04d447, 0xd20d85fd, 0xa50ab56b,
     0x35b5a8fa, 0x42b2986c, 0xdbbbc9d6, 0xacbcf940, 0x32d86ce3, 0x45df5c75, 0xdcd60dcf, 0xabd13d59,
     0x26d930ac, 0x51de003a, 0xc8d75180, 0xbfd06116, 0x21b4f4b5, 0x56b3c423, 0xcfba9599, 0xb8bda50f,
     0x2802b89e, 0x5f058808, 0xc60cd9b2, 0xb10be924, 0x2f6f7c87, 0x58684c11, 0xc1611dab, 0xb6662d3d,
     0x76dc4190, 0x01db7106, 0x98d220bc, 0xefd5102a, 0x71b18589, 0x06b6b51f, 0x9fbfe4a5, 0xe8b8d433,
     0x7807c9a2, 0x0f00f934, 0x9609a88e, 0xe10e9818, 0x7f6a0dbb, 0x086d3d2d, 0x91646c97, 0xe6635c01,
     0x6b6b51f4, 0x1c6c6162, 0x856530d8, 0xf262004e, 0x6c0695ed, 0x1b01a57b, 0x8208f4c1, 0xf50fc457,
     0x65b0d9c6, 0x12b7e950, 0x8bbeb8ea, 0xfcb9887c, 0x62dd1ddf, 0x15da2d49, 0x8cd37cf3, 0xfbd44c65,
     0x4db26158, 0x3ab551ce, 0xa3bc0074, 0xd4bb30e2, 0x4adfa541, 0x3dd895d7, 0xa4d1c46d, 0xd3d6f4fb,
     0x4369e96a, 0x346ed9fc, 0xad678846, 0xda60b8d0, 0x44042d73, 0x33031de5, 0xaa0a4c5f, 0xdd0d7cc9,
     0x5005713c, 0x270241aa, 0xbe0b1010, 0xc90c2086, 0x5768b525, 0x206f85b3, 0xb966d409, 0xce61e49f,
     0x5edef90e, 0x29d9c998, 0xb0d09822, 0xc7d7a8b4, 0x59b33d17, 0x2eb40d81, 0xb7bd5c3b, 0xc0ba6cad,
     0xedb88320, 0x9abfb3b6, 0x03b6e20c, 0x74b1d29a, 0xead54739, 0x9dd277af, 0x04db2615, 0x73dc1683,
     0xe3630b12, 0x94643b84, 0x0d6d6a3e, 0x7a6a5aa8, 0xe40ecf0b, 0x9309ff9d, 0x0a00ae27, 0x7d079eb1,
     0xf00f9344, 0x8708a3d2, 0x1e01f268, 0x6906c2fe, 0xf762575d, 0x806567cb, 0x196c3671, 0x6e6b06e7,
     0xfed41b76, 0x89d32be0, 0x10da7a5a, 0x67dd4acc, 0xf9b9df6f, 0x8ebeeff9, 0x17b7be43, 0x60b08ed5,
     0xd6d6a3e8, 0xa1d1937e, 0x38d8c2c4, 0x4fdff252, 0xd1bb67f1, 0xa6bc5767, 0x3fb506dd, 0x48b2364b,
     0xd80d2bda, 0xaf0a1b4c, 0x36034af6, 0x41047a60, 0xdf60efc3, 0xa867df55, 0x316e8eef, 0x4669be79,
     0xcb61b38c, 0xbc66831a, 0x256fd2a0, 0x5268e236, 0xcc0c7795, 0xbb0b4703, 0x220216b9, 0x5505262f,
     0xc5ba3bbe, 0xb2bd0b28, 0x2bb45a92, 0x5cb36a04, 0xc2d7ffa7, 0xb5d0cf31, 0x2cd99e8b, 0x5bdeae1d,
     0x9b64c2b0, 0xec63f226, 0x756aa39c, 0x026d930a, 0x9c0906a9, 0xeb0e363f, 0x72076785, 0x05005713,
     0x95bf4a82, 0xe2b87a14, 0x7bb12bae, 0x0cb61b38, 0x92d28e9b, 0xe5d5be0d, 0x7cdcefb7, 0x0bdbdf21,
     0x86d3d2d4, 0xf1d4e242, 0x68ddb3f8, 0x1fda836e, 0x81be16cd, 0xf6b9265b, 0x6fb077e1, 0x18b74777,
     0x88085ae6, 0xff0f6a70, 0x66063bca, 0x11010b5c, 0x8f659eff, 0xf862ae69, 0x616bffd3, 0x166ccf45,
     0xa00ae278, 0xd70dd2ee, 0x4e048354, 0x3903b3c2, 0xa7672661, 0xd06016f7, 0x4969474d, 0x3e6e77db,
     0xaed16a4a, 0xd9d65adc, 0x40df0b66, 0x37d83bf0, 0xa9bcae53, 0xdebb9ec5, 0x47b2cf7f, 0x30b5ffe9,
     0xbdbdf21c, 0xcabac28a, 0x53b39330, 0x24b4a3a6, 0xbad03605, 0xcdd70693, 0x54de5729, 0x23d967bf,
     0xb3667a2e, 0xc4614ab8, 0x5d681b02, 0x2a6f2b94, 0xb40bbe37, 0xc30c8ea1, 0x5a05df1b, 0x2d02ef8d]"

definition crc32 :: "byte list \<Rightarrow> 64 word" where
  "crc32 s = foldl (\<lambda>crc b. crc32_tab ! unat ((crc XOR ucast b) AND 0xff) XOR drop_bit 8 crc) 0 s"

definition mix_key :: "64 word \<Rightarrow> 64 word" where
  "mix_key key0 =
    (let key1 = key0 + push_bit 12 key0;
         key2 = key1 XOR drop_bit 22 key1;
         key3 = key2 + push_bit 4 key2;
         key4 = key3 XOR drop_bit 9 key3;
         key5 = key4 + push_bit 10 key4;
         key6 = key5 XOR drop_bit 2 key5;
         key7 = key6 + push_bit 7 key6;
         key8 = key7 XOR drop_bit 12 key7
     in drop_bit 3 key8 * 2654435761)"

definition find_hash_index :: "'v hashmap_map \<Rightarrow> hkey \<Rightarrow> nat" where
  "find_hash_index m k = unat (mix_key (crc32 k)) mod table_size m"

section \<open>Insertion\<close>

text \<open>The probing of \<open>_hashmap_hash\<close>: the first free slot or the first one that holds the key.\<close>

fun probe_put :: "nat \<Rightarrow> 'v hashmap_map \<Rightarrow> hkey \<Rightarrow> nat \<Rightarrow> nat option" where
  "probe_put 0 m k cur = None"
| "probe_put (Suc i) m k cur =
     (let e = elems m ! cur in
      if \<not> e_used e then Some cur
      else if e_used e \<and> e_key e = Some k then Some cur
      else probe_put i m k ((cur + 1) mod table_size m))"

text \<open>\<open>HMAP_E_OVERFLOW\<close> is \<open>None\<close>.\<close>

definition hashmap_hash :: "'v hashmap_map \<Rightarrow> hkey \<Rightarrow> nat option" where
  "hashmap_hash m k =
     (if hm_count m \<ge> int (table_size m div 2) then None
      else probe_put HMAP_CHAIN_LENGTH m k (find_hash_index m k))"

text \<open>
  The loop of \<open>_hashmap_rehash\<close> over the old table, with \<open>hashmap_put\<close> as an argument: it calls
  \<open>hashmap_put\<close> and ends at the first status other than success.
\<close>

fun rehash_loop :: "('v hashmap_map \<Rightarrow> hkey \<Rightarrow> 'v option \<Rightarrow> (hmap_status \<times> 'v hashmap_map) option) \<Rightarrow>
    'v hashmap_elem list \<Rightarrow> 'v hashmap_map \<Rightarrow> (hmap_status \<times> 'v hashmap_map) option" where
  "rehash_loop put [] m = Some (HMAP_S_OK, m)"
| "rehash_loop put (e # es) m =
     (if \<not> e_used e then rehash_loop put es m
      else (case put m (the (e_key e)) (e_data e) of
              None \<Rightarrow> None
            | Some (status, m') \<Rightarrow>
                if status \<noteq> HMAP_S_OK then Some (status, m') else rehash_loop put es m'))"

text \<open>\<open>table_size\<close> is an \<open>int\<close>: the doubling of a table of \<open>2^30\<close> slots overflows, and what the
  program does then is undefined (\<open>None\<close>).\<close>

definition hashmap_rehash :: "('v hashmap_map \<Rightarrow> hkey \<Rightarrow> 'v option \<Rightarrow> (hmap_status \<times> 'v hashmap_map) option) \<Rightarrow>
    nat \<Rightarrow> 'v hashmap_map \<Rightarrow> (hmap_status \<times> 'v hashmap_map) option" where
  "hashmap_rehash put mem m =
     (if 2 ^ 31 \<le> 2 * table_size m then None
      else if mem < 2 * table_size m then Some (HMAP_E_OUTMEM, m)
      else rehash_loop put (elems m) (hashmap_fresh (2 * table_size m)))"

definition set_slot :: "'v hashmap_map \<Rightarrow> nat \<Rightarrow> 'v hashmap_elem \<Rightarrow> 'v hashmap_map" where
  "set_slot m i e = m\<lparr>elems := (elems m)[i := e]\<rparr>"

text \<open>Setting the elements at the end of \<open>hashmap_put\<close>.\<close>

definition put_at :: "'v hashmap_map \<Rightarrow> nat \<Rightarrow> hkey \<Rightarrow> 'v option \<Rightarrow> 'v hashmap_map" where
  "put_at m i k v = (set_slot m i \<lparr>e_key = Some k, e_used = True, e_data = v\<rparr>)\<lparr>hm_count := hm_count m + 1\<rparr>"

text \<open>
  \<open>hashmap_put\<close> calls \<open>_hashmap_rehash\<close>, which calls \<open>hashmap_put\<close> on the larger table; the fuel
  bounds the depth of these calls and the rounds of the loop. \<open>None\<close> is lack of fuel, which
  \<open>hashmap_put_ends\<close> excludes, or the overflow of the table size.
\<close>

fun put_fuel :: "nat \<Rightarrow> nat \<Rightarrow> 'v hashmap_map \<Rightarrow> hkey \<Rightarrow> 'v option \<Rightarrow> (hmap_status \<times> 'v hashmap_map) option" where
  "put_fuel 0 mem m k v = None"
| "put_fuel (Suc f) mem m k v =
     (case hashmap_hash m k of
        Some i \<Rightarrow> Some (HMAP_S_OK, put_at m i k v)
      | None \<Rightarrow>
          (case hashmap_rehash (put_fuel f mem) mem m of
             None \<Rightarrow> None
           | Some (status, m') \<Rightarrow>
               if status = HMAP_E_OUTMEM then Some (HMAP_E_OUTMEM, m') else put_fuel f mem m' k v))"

definition hashmap_put :: "nat \<Rightarrow> 'v hashmap_map \<Rightarrow> hkey \<Rightarrow> 'v option \<Rightarrow> (hmap_status \<times> 'v hashmap_map) option" where
  "hashmap_put mem m k v = put_fuel (Suc mem) mem m k v"

section \<open>Lookup, removal, iteration\<close>

fun probe_get :: "nat \<Rightarrow> 'v hashmap_map \<Rightarrow> hkey \<Rightarrow> nat \<Rightarrow> nat option" where
  "probe_get 0 m k cur = None"
| "probe_get (Suc i) m k cur =
     (let e = elems m ! cur in
      if e_used e \<and> e_key e = Some k then Some cur
      else probe_get i m k ((cur + 1) mod table_size m))"

text \<open>The status and what is stored through \<open>value\<close>.\<close>

definition hashmap_get :: "'v hashmap_map \<Rightarrow> hkey \<Rightarrow> hmap_status \<times> 'v option" where
  "hashmap_get m k =
     (case probe_get HMAP_CHAIN_LENGTH m k (find_hash_index m k) of
        Some i \<Rightarrow> (HMAP_S_OK, e_data (elems m ! i))
      | None \<Rightarrow> (HMAP_E_NOTFOUND, None))"

text \<open>The status, what is stored through \<open>outValue\<close> when it is given, and the map.\<close>

definition hashmap_remove :: "'v hashmap_map \<Rightarrow> hkey \<Rightarrow> hmap_status \<times> 'v option \<times> 'v hashmap_map" where
  "hashmap_remove m k =
     (case probe_get HMAP_CHAIN_LENGTH m k (find_hash_index m k) of
        Some i \<Rightarrow> (HMAP_S_OK, e_data (elems m ! i),
                   (set_slot m i empty_elem)\<lparr>hm_count := hm_count m - 1\<rparr>)
      | None \<Rightarrow> (HMAP_E_NOTFOUND, None, m))"

text \<open>The size of a null map is 0.\<close>

fun hashmap_size :: "'v hashmap_map option \<Rightarrow> int" where
  "hashmap_size (Some m) = hm_count m"
| "hashmap_size None = 0"

text \<open>
  The callback takes the value and its own state and returns a status, 0 for success; the result is
  the status of the iteration and the state.
\<close>

fun iterate_loop :: "('v option \<Rightarrow> 's \<Rightarrow> int \<times> 's) \<Rightarrow> 'v hashmap_elem list \<Rightarrow> 's \<Rightarrow> int \<times> 's" where
  "iterate_loop cb [] s = (0, s)"
| "iterate_loop cb (e # es) s =
     (if e_used e then
        (let (status, s') = cb (e_data e) s in if status \<noteq> 0 then (status, s') else iterate_loop cb es s')
      else iterate_loop cb es s)"

definition hashmap_iterate :: "'v hashmap_map \<Rightarrow> ('v option \<Rightarrow> 's \<Rightarrow> int \<times> 's) \<Rightarrow> 's \<Rightarrow> int \<times> 's" where
  "hashmap_iterate m cb s =
     (if hashmap_size (Some m) \<le> 0 then (status_code HMAP_E_NOTFOUND, s)
      else iterate_loop cb (elems m) s)"

text \<open>From the last slot down; the statuses of the callback are ignored.\<close>

fun destroy_loop :: "('v option \<Rightarrow> 's \<Rightarrow> 's) \<Rightarrow> 'v hashmap_elem list \<Rightarrow> nat \<Rightarrow> 's \<Rightarrow> 's" where
  "destroy_loop cb es 0 s = s"
| "destroy_loop cb es (Suc i) s =
     destroy_loop cb es i (if e_used (es ! i) then cb (e_data (es ! i)) s else s)"

definition hashmap_destroy :: "'v hashmap_map \<Rightarrow> ('v option \<Rightarrow> 's \<Rightarrow> 's) \<Rightarrow> 's \<Rightarrow> 's" where
  "hashmap_destroy m cb s = destroy_loop cb (elems m) (table_size m) s"

section \<open>Windows\<close>

text \<open>The slots a key may be in, in the order they are probed.\<close>

definition window :: "'v hashmap_map \<Rightarrow> hkey \<Rightarrow> nat list" where
  "window m k = map (\<lambda>d. (find_hash_index m k + d) mod table_size m) [0 ..< HMAP_CHAIN_LENGTH]"

definition holds :: "'v hashmap_map \<Rightarrow> hkey \<Rightarrow> nat \<Rightarrow> bool" where
  "holds m k i \<longleftrightarrow> e_used (elems m ! i) \<and> e_key (elems m ! i) = Some k"

definition free_or_holds :: "'v hashmap_map \<Rightarrow> hkey \<Rightarrow> nat \<Rightarrow> bool" where
  "free_or_holds m k i \<longleftrightarrow> \<not> e_used (elems m ! i) \<or> holds m k i"

lemma upt_Suc_shift: "[0 ..< Suc n] = 0 # map Suc [0 ..< n]"
  by (simp add: upt_conv_Cons map_Suc_upt del: upt_Suc)

lemma map_mod_shift:
  "map (\<lambda>d. (((c + 1) mod t) + d) mod t) [0 ..< n] = map ((\<lambda>d. (c + d) mod t) \<circ> Suc) [0 ..< (n :: nat)]" for c t :: nat
  by (simp add: mod_add_left_eq)

lemma probe_get_find:
  "cur < table_size m \<Longrightarrow>
    probe_get n m k cur = find (holds m k) (map (\<lambda>d. (cur + d) mod table_size m) [0 ..< n])"
proof (induction n arbitrary: cur)
  case (Suc n)
  then have "(cur + 1) mod table_size m < table_size m" by simp
  from Suc.IH [OF this] show ?case
    unfolding upt_Suc_shift list.map map_map map_mod_shift
    using Suc.prems by (simp add: holds_def Let_def)
qed simp

lemma probe_put_find:
  "cur < table_size m \<Longrightarrow>
    probe_put n m k cur = find (free_or_holds m k) (map (\<lambda>d. (cur + d) mod table_size m) [0 ..< n])"
proof (induction n arbitrary: cur)
  case (Suc n)
  then have "(cur + 1) mod table_size m < table_size m" by simp
  from Suc.IH [OF this] show ?case
    unfolding upt_Suc_shift list.map map_map map_mod_shift
    using Suc.prems by (simp add: holds_def free_or_holds_def Let_def)
qed simp

lemma find_window: "0 < table_size m \<Longrightarrow> find_hash_index m k < table_size m"
  by (simp add: find_hash_index_def)

definition slot :: "'v hashmap_map \<Rightarrow> hkey \<Rightarrow> nat option" where
  "slot m k = find (holds m k) (window m k)"

definition put_slot :: "'v hashmap_map \<Rightarrow> hkey \<Rightarrow> nat option" where
  "put_slot m k = find (free_or_holds m k) (window m k)"

definition hm_lookup :: "'v hashmap_map \<Rightarrow> hkey \<Rightarrow> 'v option option" where
  "hm_lookup m k = map_option (\<lambda>i. e_data (elems m ! i)) (slot m k)"

lemma hashmap_get_lookup:
  "0 < table_size m \<Longrightarrow>
    hashmap_get m k = (case hm_lookup m k of Some v \<Rightarrow> (HMAP_S_OK, v) | None \<Rightarrow> (HMAP_E_NOTFOUND, None))"
  by (simp add: hashmap_get_def probe_get_find find_window hm_lookup_def slot_def window_def split: option.split)

lemma hashmap_hash_slot:
  "0 < table_size m \<Longrightarrow>
    hashmap_hash m k = (if hm_count m \<ge> int (table_size m div 2) then None else put_slot m k)"
  by (simp add: hashmap_hash_def probe_put_find find_window put_slot_def window_def)

lemma window_less: "0 < table_size m \<Longrightarrow> i \<in> set (window m k) \<Longrightarrow> i < table_size m"
  by (auto simp: window_def)

lemma window_cong: "table_size m' = table_size m \<Longrightarrow> window m' k = window m k"
  by (simp add: window_def find_hash_index_def)

lemma find_SomeD: "find P xs = Some x \<Longrightarrow> x \<in> set xs \<and> P x"
  by (induction xs) (auto split: if_splits)

lemma find_subset:
  "find P xs = Some x \<Longrightarrow> Q x \<Longrightarrow> (\<And>y. y \<in> set xs \<Longrightarrow> Q y \<Longrightarrow> y = x \<or> P y) \<Longrightarrow> find Q xs = Some x"
proof (induction xs)
  case (Cons y ys)
  then show ?case by (cases "P y") (auto split: if_splits)
qed simp

section \<open>The invariant and the map\<close>

text \<open>
  Each used slot has a key and lies in the window of its key, and no key has two slots. Without
  \<open>holes\<close> no slot before that of a key is free.
\<close>

definition hm_inv :: "'v hashmap_map \<Rightarrow> bool" where
  "hm_inv m \<longleftrightarrow> 0 < table_size m \<and> length (elems m) = table_size m \<and>
     (\<forall>i < table_size m. e_used (elems m ! i) \<longrightarrow> (\<exists>k. e_key (elems m ! i) = Some k \<and> i \<in> set (window m k))) \<and>
     (\<forall>k i j. i < table_size m \<longrightarrow> j < table_size m \<longrightarrow> holds m k i \<longrightarrow> holds m k j \<longrightarrow> i = j)"

definition no_holes :: "'v hashmap_map \<Rightarrow> bool" where
  "no_holes m \<longleftrightarrow> (\<forall>k i. slot m k = Some i \<longrightarrow> put_slot m k = Some i)"

definition put_safe :: "'v hashmap_map \<Rightarrow> hkey \<Rightarrow> bool" where
  "put_safe m k \<longleftrightarrow> (\<forall>i. slot m k = Some i \<longrightarrow> put_slot m k = Some i)"

lemma no_holes_safe: "no_holes m \<Longrightarrow> put_safe m k"
  by (simp add: no_holes_def put_safe_def)

lemma slot_iff:
  assumes "hm_inv m"
  shows "slot m k = Some i \<longleftrightarrow> i < table_size m \<and> holds m k i"
proof
  assume "slot m k = Some i"
  then show "i < table_size m \<and> holds m k i"
    using assms find_SomeD [of "holds m k"] window_less [of m i k] by (auto simp: slot_def hm_inv_def)
next
  assume h: "i < table_size m \<and> holds m k i"
  then have "i \<in> set (window m k)" using assms by (auto simp: hm_inv_def holds_def)
  then obtain j where j: "slot m k = Some j"
    using h by (cases "slot m k") (auto simp: slot_def find_None_iff)
  then have "j < table_size m" "holds m k j"
    using assms find_SomeD [of "holds m k"] window_less [of m j k] by (auto simp: slot_def hm_inv_def)
  then show "slot m k = Some i" using assms h j unfolding hm_inv_def by blast
qed

lemma lookup_iff:
  "hm_inv m \<Longrightarrow> hm_lookup m k = Some v \<longleftrightarrow> (\<exists>i < table_size m. holds m k i \<and> e_data (elems m ! i) = v)"
  by (auto simp: hm_lookup_def slot_iff)

lemma lookup_eqI:
  assumes "hm_inv m" "\<And>k v. f k = Some v \<longleftrightarrow> (\<exists>i < table_size m. holds m k i \<and> e_data (elems m ! i) = v)"
  shows "hm_lookup m = f"
proof
  fix k
  have "hm_lookup m k = Some v \<longleftrightarrow> f k = Some v" for v
    unfolding lookup_iff [OF assms(1)] assms(2) ..
  from this [of "the (f k)"] this [of "the (hm_lookup m k)"] show "hm_lookup m k = f k"
    by (cases "f k"; cases "hm_lookup m k") simp_all
qed

lemma fresh_props:
  assumes "0 < n"
  defines "m \<equiv> hashmap_fresh n :: 'v hashmap_map"
  shows "hm_inv m" "no_holes m" "hm_lookup m = Map.empty"
proof -
  have h: "\<not> holds m k i" if "i < n" for k i
    using that by (simp add: holds_def m_def hashmap_fresh_def empty_elem_def)
  show inv: "hm_inv m"
    using assms h unfolding hm_inv_def by (auto simp: m_def hashmap_fresh_def empty_elem_def)
  have "slot m k = None" for k
    using slot_iff [OF inv, of k] h [of _ k]
    by (cases "slot m k") (auto simp: m_def hashmap_fresh_def)
  then show "no_holes m" "hm_lookup m = Map.empty"
    by (auto simp: no_holes_def hm_lookup_def)
qed

section \<open>Putting a value into its slot\<close>

lemma put_at_simps [simp]:
  "table_size (put_at m i k v) = table_size m" "hm_count (put_at m i k v) = hm_count m + 1"
  "elems (put_at m i k v) = (elems m)[i := \<lparr>e_key = Some k, e_used = True, e_data = v\<rparr>]"
  by (simp_all add: put_at_def set_slot_def)

lemma put_fuel_Suc:
  "0 < table_size m \<Longrightarrow> put_fuel (Suc f) mem m k v =
     (case (if hm_count m \<ge> int (table_size m div 2) then None else put_slot m k) of
        Some i \<Rightarrow> Some (HMAP_S_OK, put_at m i k v)
      | None \<Rightarrow>
          (case hashmap_rehash (put_fuel f mem) mem m of
             None \<Rightarrow> None
           | Some (status, m') \<Rightarrow>
               if status = HMAP_E_OUTMEM then Some (HMAP_E_OUTMEM, m') else put_fuel f mem m' k v))"
  by (simp add: hashmap_hash_slot)

lemmas put_fuel_unfold = put_fuel_Suc hashmap_rehash_def

lemma put_slotD:
  assumes "hm_inv m" "put_slot m k = Some i"
  shows "i < table_size m" "i \<in> set (window m k)" "free_or_holds m k i"
  using assms find_SomeD [of "free_or_holds m k"] window_less [of m i k] by (auto simp: put_slot_def hm_inv_def)

lemma window_put_at [simp]: "window (put_at m i k v) k' = window m k'"
  by (rule window_cong) simp

lemma holds_put_at:
  "hm_inv m \<Longrightarrow> i < table_size m \<Longrightarrow> j < table_size m \<Longrightarrow>
    holds (put_at m i k v) k' j \<longleftrightarrow> (if j = i then k' = k else holds m k' j)"
  by (auto simp: holds_def hm_inv_def)

text \<open>A safe key is nowhere but in the slot that is taken.\<close>

lemma put_slot_only:
  "hm_inv m \<Longrightarrow> put_safe m k \<Longrightarrow> put_slot m k = Some i \<Longrightarrow> j < table_size m \<Longrightarrow> holds m k j \<Longrightarrow> j = i"
  using slot_iff [of m k j] by (simp add: put_safe_def)

lemma put_at_inv:
  assumes "hm_inv m" "put_safe m k" "put_slot m k = Some i"
  shows "hm_inv (put_at m i k v)"
proof -
  note i = put_slotD [OF assms(1,3)] and only = put_slot_only [OF assms]
  have len: "length (elems m) = table_size m" "0 < table_size m" using assms(1) by (simp_all add: hm_inv_def)
  show ?thesis
    unfolding hm_inv_def window_put_at put_at_simps(1)
  proof (intro conjI allI impI)
    fix j assume j: "j < table_size m" "e_used (elems (put_at m i k v) ! j)"
    then show "\<exists>k'. e_key (elems (put_at m i k v) ! j) = Some k' \<and> j \<in> set (window m k')"
      using assms(1) i len by (cases "j = i") (auto simp: hm_inv_def)
  next
    fix k' j j' assume h: "j < table_size m" "j' < table_size m" "holds (put_at m i k v) k' j" "holds (put_at m i k v) k' j'"
    then show "j = j'"
      using assms(1) holds_put_at [OF assms(1) i(1) h(1)] holds_put_at [OF assms(1) i(1) h(2)] only
      unfolding hm_inv_def by (metis (full_types))
  qed (use len in simp_all)
qed

lemma put_at_lookup:
  assumes "hm_inv m" "put_safe m k" "put_slot m k = Some i"
  shows "hm_lookup (put_at m i k v) = (hm_lookup m)(k \<mapsto> v)"
proof (rule lookup_eqI [OF put_at_inv [OF assms]])
  note i = put_slotD [OF assms(1,3)] and only = put_slot_only [OF assms]
  fix k' w
  have len: "length (elems m) = table_size m" using assms(1) by (simp add: hm_inv_def)
  have at: "holds (put_at m i k v) k' j \<and> e_data (elems (put_at m i k v) ! j) = w \<longleftrightarrow>
      (if j = i then k' = k \<and> v = w else holds m k' j \<and> e_data (elems m ! j) = w)" if "j < table_size m" for j
    using holds_put_at [OF assms(1) i(1) that] that len by auto
  show "((hm_lookup m)(k \<mapsto> v)) k' = Some w \<longleftrightarrow>
      (\<exists>j < table_size (put_at m i k v). holds (put_at m i k v) k' j \<and> e_data (elems (put_at m i k v) ! j) = w)"
  proof (cases "k' = k")
    case True
    then have "holds m k' j \<Longrightarrow> j < table_size m \<Longrightarrow> j = i" for j using only by blast
    then have "(\<exists>j < table_size m. holds (put_at m i k v) k' j \<and> e_data (elems (put_at m i k v) ! j) = w) \<longleftrightarrow> v = w"
      using at i(1) True by (metis (full_types))
    then show ?thesis using True by simp
  next
    case False
    then have "holds m k' j \<Longrightarrow> j \<noteq> i" for j using i(3) by (auto simp: free_or_holds_def holds_def)
    then have "(\<exists>j < table_size m. holds (put_at m i k v) k' j \<and> e_data (elems (put_at m i k v) ! j) = w) \<longleftrightarrow>
        (\<exists>j < table_size m. holds m k' j \<and> e_data (elems m ! j) = w)"
      using at False by (metis (full_types))
    then show ?thesis using False by (simp add: lookup_iff [OF assms(1)])
  qed
qed

lemma put_at_no_holes:
  assumes "hm_inv m" "no_holes m" "put_slot m k = Some i"
  shows "no_holes (put_at m i k v)"
  unfolding no_holes_def
proof (intro allI impI)
  note safe = no_holes_safe [OF assms(2)]
  note i = put_slotD [OF assms(1,3)] and inv = put_at_inv [OF assms(1) safe assms(3), of v]
  have len: "length (elems m) = table_size m" "0 < table_size m" using assms(1) by (simp_all add: hm_inv_def)
  fix k' j assume "slot (put_at m i k v) k' = Some j"
  then have j: "j < table_size m" "holds (put_at m i k v) k' j" using slot_iff [OF inv] by simp_all
  have before: "put_slot m k' = Some j"
  proof (cases "j = i")
    case True
    then show ?thesis using j holds_put_at [OF assms(1) i(1) j(1)] assms(3) by simp
  next
    case False
    then have "slot m k' = Some j" using j holds_put_at [OF assms(1) i(1) j(1)] slot_iff [OF assms(1)] by simp
    then show ?thesis using assms(2) by (simp add: no_holes_def)
  qed
  have "y = j \<or> free_or_holds m k' y" if h: "y \<in> set (window m k')" "free_or_holds (put_at m i k v) k' y" for y
  proof (cases "y = i")
    case True
    then have "holds (put_at m i k v) k' i" using h(2) i(1) len by (simp add: free_or_holds_def)
    then show ?thesis using inv j i(1) True unfolding hm_inv_def put_at_simps(1) by metis
  next
    case False
    then show ?thesis
      using h holds_put_at [OF assms(1) i(1) window_less [OF len(2) h(1)]] by (simp add: free_or_holds_def)
  qed
  moreover have "free_or_holds (put_at m i k v) k' j" using j(2) by (simp add: free_or_holds_def)
  ultimately show "put_slot (put_at m i k v) k' = Some j"
    using find_subset [OF before [unfolded put_slot_def], of "free_or_holds (put_at m i k v) k'"]
    unfolding put_slot_def window_put_at by blast
qed

lemmas put_at_step = put_at_inv put_at_lookup

section \<open>Rehashing\<close>

definition entries :: "'v hashmap_elem list \<Rightarrow> (hkey \<times> 'v option) list" where
  "entries es = map (\<lambda>e. (the (e_key e), e_data e)) (filter e_used es)"

lemma entries_lookup:
  assumes "hm_inv m"
  shows "map_of (rev (entries (elems m))) = hm_lookup m"
proof
  fix k
  have len: "length (elems m) = table_size m" using assms by (simp add: hm_inv_def)
  have entry: "(k, v) \<in> set (entries (elems m)) \<longleftrightarrow> hm_lookup m k = Some v" for v
  proof -
    have "(k, v) \<in> set (entries (elems m)) \<longleftrightarrow>
        (\<exists>i < table_size m. e_used (elems m ! i) \<and> the (e_key (elems m ! i)) = k \<and> e_data (elems m ! i) = v)"
      using len by (auto simp: entries_def in_set_conv_nth image_iff)
    also have "\<dots> \<longleftrightarrow> hm_lookup m k = Some v"
      using assms by (fastforce simp: lookup_iff holds_def hm_inv_def)
    finally show ?thesis .
  qed
  show "map_of (rev (entries (elems m))) k = hm_lookup m k"
  proof (cases "map_of (rev (entries (elems m))) k")
    case None
    then have "k \<notin> fst ` set (entries (elems m))" by (simp add: map_of_eq_None_iff)
    then have "hm_lookup m k \<noteq> Some v" for v using entry [of v] by force
    then show ?thesis using None by (cases "hm_lookup m k") auto
  next
    case (Some v)
    then have "(k, v) \<in> set (entries (elems m))" using map_of_SomeD by fastforce
    then show ?thesis using Some entry by simp
  qed
qed

lemma rehash_loop_status:
  assumes "\<And>m k v st m'. p m k v = Some (st, m') \<Longrightarrow> st = HMAP_S_OK \<or> st = HMAP_E_OUTMEM"
  shows "rehash_loop p es m = Some (st, m') \<Longrightarrow> st = HMAP_S_OK \<or> st = HMAP_E_OUTMEM"
proof (induction es arbitrary: m)
  case (Cons e es)
  then show ?case
    by (cases "e_used e"; cases "p m (the (e_key e)) (e_data e)") (auto split: if_splits dest: assms)
qed simp

lemma put_fuel_status:
  "put_fuel f mem m k v = Some (st, m') \<Longrightarrow> st = HMAP_S_OK \<or> st = HMAP_E_OUTMEM"
proof (induction f arbitrary: m k v st m')
  case (Suc f)
  show ?case
  proof (cases "hashmap_hash m k")
    case None
    then show ?thesis
      using Suc.prems by (auto split: option.splits if_splits dest: Suc.IH)
  qed (use Suc.prems in auto)
qed simp

lemma rehash_loop_lookup:
  assumes p: "\<And>m k v m'. hm_inv m \<Longrightarrow> no_holes m \<Longrightarrow> p m k v = Some (HMAP_S_OK, m') \<Longrightarrow>
      hm_inv m' \<and> no_holes m' \<and> table_size m \<le> table_size m' \<and> hm_lookup m' = (hm_lookup m)(k \<mapsto> v)"
  shows "rehash_loop p es m = Some (HMAP_S_OK, m') \<Longrightarrow> hm_inv m \<Longrightarrow> no_holes m \<Longrightarrow>
    hm_inv m' \<and> no_holes m' \<and> table_size m \<le> table_size m' \<and> hm_lookup m' = hm_lookup m ++ map_of (rev (entries es))"
proof (induction es arbitrary: m)
  case (Cons e es)
  show ?case
  proof (cases "e_used e")
    case False
    then show ?thesis using Cons by (simp add: entries_def)
  next
    case True
    then obtain m1 where m1: "p m (the (e_key e)) (e_data e) = Some (HMAP_S_OK, m1)"
      "rehash_loop p es m1 = Some (HMAP_S_OK, m')"
      using Cons.prems(1) by (auto split: option.splits if_splits)
    show ?thesis
      using p [OF Cons.prems(2,3) m1(1)] Cons.IH [OF m1(2)] True
      by (auto simp: entries_def simp del: fun_upd_apply)
  qed
qed (simp add: entries_def)

lemma rehash_lookup:
  assumes p: "\<And>m k v m'. hm_inv m \<Longrightarrow> no_holes m \<Longrightarrow> p m k v = Some (HMAP_S_OK, m') \<Longrightarrow>
      hm_inv m' \<and> no_holes m' \<and> table_size m \<le> table_size m' \<and> hm_lookup m' = (hm_lookup m)(k \<mapsto> v)"
    and "hm_inv m" "hashmap_rehash p mem m = Some (HMAP_S_OK, m')"
  shows "hm_inv m' \<and> no_holes m' \<and> 2 * table_size m \<le> table_size m' \<and> hm_lookup m' = hm_lookup m"
proof -
  have pos: "0 < 2 * table_size m" using assms(2) by (simp add: hm_inv_def)
  have "rehash_loop p (elems m) (hashmap_fresh (2 * table_size m)) = Some (HMAP_S_OK, m')"
    using assms(3) by (simp add: hashmap_rehash_def split: if_splits)
  then have "hm_inv m' \<and> no_holes m' \<and> table_size (hashmap_fresh (2 * table_size m) :: 'a hashmap_map) \<le> table_size m' \<and>
      hm_lookup m' = hm_lookup (hashmap_fresh (2 * table_size m)) ++ map_of (rev (entries (elems m)))"
    using fresh_props(1,2) [OF pos] by (intro rehash_loop_lookup [where p = p]) (rule p)
  then show ?thesis
    unfolding fresh_props(3) [OF pos] entries_lookup [OF assms(2)] by (simp add: hashmap_fresh_def)
qed

lemma put_fuel_lookup:
  "put_fuel f mem m k v = Some (HMAP_S_OK, m') \<Longrightarrow> hm_inv m \<Longrightarrow> put_safe m k \<Longrightarrow>
    hm_inv m' \<and> (no_holes m \<longrightarrow> no_holes m') \<and> table_size m \<le> table_size m' \<and> hm_lookup m' = (hm_lookup m)(k \<mapsto> v)"
proof (induction f arbitrary: m k v m')
  case (Suc f)
  have p: "hm_inv m' \<and> no_holes m' \<and> table_size m \<le> table_size m' \<and> hm_lookup m' = (hm_lookup m)(k \<mapsto> v)"
    if "hm_inv m" "no_holes m" "put_fuel f mem m k v = Some (HMAP_S_OK, m')" for m m' :: "'a hashmap_map" and k v
    using Suc.IH [OF that(3,1) no_holes_safe [OF that(2)]] that(2) by blast
  have pos: "0 < table_size m" using Suc.prems(2) by (simp add: hm_inv_def)
  show ?case
  proof (cases "if hm_count m \<ge> int (table_size m div 2) then None else put_slot m k")
    case (Some i)
    then have "put_slot m k = Some i" "m' = put_at m i k v"
      using Suc.prems(1) by (auto simp: put_fuel_Suc [OF pos] split: if_splits simp del: put_fuel.simps)
    then show ?thesis
      using put_at_step [OF Suc.prems(2,3)] put_at_no_holes [OF Suc.prems(2)] by simp
  next
    case None
    from Suc.prems(1) [unfolded put_fuel_Suc [OF pos] None] obtain st m1 where
      r: "hashmap_rehash (put_fuel f mem) mem m = Some (st, m1)" "st \<noteq> HMAP_E_OUTMEM"
        "put_fuel f mem m1 k v = Some (HMAP_S_OK, m')"
      by (auto split: option.splits if_splits)
    have "rehash_loop (put_fuel f mem) es m = Some (st, m') \<Longrightarrow> st = HMAP_S_OK \<or> st = HMAP_E_OUTMEM" for es m m'
      by (rule rehash_loop_status [where p = "put_fuel f mem"]) (rule put_fuel_status)
    then have "st = HMAP_S_OK" using r(1,2) by (auto simp: hashmap_rehash_def split: if_splits)
    with r(1) have ok: "hashmap_rehash (put_fuel f mem) mem m = Some (HMAP_S_OK, m1)" by simp
    have "hm_inv m1 \<and> no_holes m1 \<and> 2 * table_size m \<le> table_size m1 \<and> hm_lookup m1 = hm_lookup m"
      by (rule rehash_lookup [where p = "put_fuel f mem", OF _ Suc.prems(2) ok]) (rule p)
    then have m1: "hm_inv m1" "no_holes m1" "2 * table_size m \<le> table_size m1" "hm_lookup m1 = hm_lookup m"
      by blast+
    have "table_size m \<le> table_size m1" using m1(3) by linarith
    then show ?thesis using p [OF m1(1,2) r(3)] unfolding m1(4) by (blast intro: le_trans)
  qed
qed simp

section \<open>The fuel is enough\<close>

lemma rehash_loop_total:
  assumes p: "\<And>m k v. n \<le> table_size m \<Longrightarrow> table_size m < N \<Longrightarrow>
    \<exists>st m'. p m k v = Some (st, m') \<and> n \<le> table_size m' \<and> table_size m' < N"
  shows "n \<le> table_size m \<Longrightarrow> table_size m < N \<Longrightarrow>
    \<exists>st m'. rehash_loop p es m = Some (st, m') \<and> n \<le> table_size m' \<and> table_size m' < N"
proof (induction es arbitrary: m)
  case (Cons e es)
  obtain st m1 where "p m (the (e_key e)) (e_data e) = Some (st, m1)" "n \<le> table_size m1" "table_size m1 < N"
    using p [OF Cons.prems] by blast
  then show ?case using Cons by auto
qed simp

lemma put_fuel_total:
  "0 < f \<Longrightarrow> mem < table_size m * 2 ^ f \<Longrightarrow> n \<le> table_size m \<Longrightarrow> mem < 2 ^ 30 \<Longrightarrow> table_size m < 2 ^ 30 \<Longrightarrow>
    \<exists>st m'. put_fuel f mem m k v = Some (st, m') \<and> n \<le> table_size m' \<and> table_size m' < 2 ^ 30"
proof (induction f arbitrary: m k v n)
  case (Suc f)
  have pos: "0 < table_size m" using Suc.prems(2) by (cases "table_size m") auto
  show ?case
  proof (cases "mem < 2 * table_size m")
    case True
    then show ?thesis
      using Suc.prems by (auto simp: put_fuel_unfold pos split: option.split simp del: put_fuel.simps)
  next
    case False
    have f: "0 < f" using False Suc.prems(2) by (cases f) auto
    have IH: "\<exists>st m''. put_fuel f mem m' k v = Some (st, m'') \<and> 2 * table_size m \<le> table_size m'' \<and> table_size m'' < 2 ^ 30"
      if "2 * table_size m \<le> table_size m'" "table_size m' < 2 ^ 30" for m' :: "'a hashmap_map" and k v
    proof (rule Suc.IH [OF f _ that(1) Suc.prems(4) that(2)])
      have "table_size m * 2 ^ Suc f \<le> table_size m' * 2 ^ f" using that(1) by simp
      then show "mem < table_size m' * 2 ^ f" using Suc.prems(2) by linarith
    qed
    have "\<exists>st m'. hashmap_rehash (put_fuel f mem) mem m = Some (st, m') \<and> 2 * table_size m \<le> table_size m' \<and> table_size m' < 2 ^ 30"
      using False Suc.prems(4,5) rehash_loop_total [of "2 * table_size m" "2 ^ 30" "put_fuel f mem", OF IH]
      by (simp add: hashmap_rehash_def hashmap_fresh_def)
    then obtain st m1 where r: "hashmap_rehash (put_fuel f mem) mem m = Some (st, m1)" "2 * table_size m \<le> table_size m1"
        "table_size m1 < 2 ^ 30"
      by blast
    then show ?thesis
      using IH [OF r(2,3), of k v] Suc.prems(3,5)
      by (auto simp: put_fuel_Suc pos split: option.split simp del: put_fuel.simps)
  qed
qed simp

text \<open>Out of memory is reported only when a table of twice the size reached cannot be allocated.\<close>

lemma rehash_loop_outmem:
  assumes "\<And>m k v m'. p m k v = Some (HMAP_E_OUTMEM, m') \<Longrightarrow> mem < 2 * table_size m'"
  shows "rehash_loop p es m = Some (HMAP_E_OUTMEM, m') \<Longrightarrow> mem < 2 * table_size m'"
proof (induction es arbitrary: m)
  case (Cons e es)
  then show ?case
    by (cases "e_used e"; cases "p m (the (e_key e)) (e_data e)") (auto split: if_splits dest: assms)
qed simp

lemma put_fuel_outmem:
  "put_fuel f mem m k v = Some (HMAP_E_OUTMEM, m') \<Longrightarrow> mem < 2 * table_size m'"
proof (induction f arbitrary: m k v m')
  case (Suc f)
  have "hashmap_rehash (put_fuel f mem) mem m = Some (HMAP_E_OUTMEM, m1) \<Longrightarrow> mem < 2 * table_size m1" for m1
    using rehash_loop_outmem [where p = "put_fuel f mem", OF Suc.IH] by (auto simp: hashmap_rehash_def split: if_splits)
  then show ?case
    using Suc.prems by (auto split: option.splits if_splits dest: Suc.IH)
qed simp

section \<open>A full window\<close>

lemma window_hash: "mix_key (crc32 k') = mix_key (crc32 k) \<Longrightarrow> window m k' = window m k"
  by (simp add: window_def find_hash_index_def)

definition same_hash :: "hkey \<Rightarrow> hkey list \<Rightarrow> bool" where
  "same_hash k ks \<longleftrightarrow> distinct (k # ks) \<and> length ks = HMAP_CHAIN_LENGTH \<and>
     list_all (\<lambda>k'. mix_key (crc32 k') = mix_key (crc32 k)) ks"

lemma same_hashD:
  assumes "same_hash k ks"
  shows "k \<notin> set ks" "distinct ks" "length ks = HMAP_CHAIN_LENGTH"
    "k' \<in> set ks \<Longrightarrow> mix_key (crc32 k') = mix_key (crc32 k)"
  using assms unfolding same_hash_def list_all_iff by (simp_all only: distinct.simps) blast+

lemma full_window:
  assumes "hm_inv m" "same_hash k ks" "\<And>k'. k' \<in> set ks \<Longrightarrow> hm_lookup m k' \<noteq> None"
  shows "put_slot m k = None"
proof -
  define f where "f k' = the (slot m k')" for k'
  have f: "holds m k' (f k')" "f k' \<in> set (window m k)" if "k' \<in> set ks" for k'
  proof -
    have "slot m k' \<noteq> None" using assms(3) [OF that] by (simp add: hm_lookup_def)
    then have "slot m k' = Some (f k')" by (simp add: f_def)
    moreover have "window m k' = window m k"
      by (rule window_hash) (rule same_hashD(4) [OF assms(2) that])
    ultimately show "holds m k' (f k')" "f k' \<in> set (window m k)"
      using find_SomeD [of "holds m k'" "window m k'" "f k'"] by (simp_all add: slot_def)
  qed
  have "inj_on f (set ks)"
  proof (rule inj_onI)
    fix a b assume "a \<in> set ks" "b \<in> set ks" "f a = f b"
    then show "a = b" using f(1) [of a] f(1) [of b] by (simp add: holds_def)
  qed
  then have "card (f ` set ks) = HMAP_CHAIN_LENGTH"
    using same_hashD(2,3) [OF assms(2)] by (simp add: card_image distinct_card)
  moreover have "card (set (window m k)) \<le> HMAP_CHAIN_LENGTH"
    using card_length [of "window m k"] by (simp add: window_def)
  moreover have "f ` set ks \<subseteq> set (window m k)" using f(2) by blast
  ultimately have all: "set (window m k) = f ` set ks" 
    using card_seteq [of "set (window m k)" "f ` set ks"] by simp
  have "\<not> free_or_holds m k i" if "i \<in> set (window m k)" for i
  proof -
    have "i \<in> f ` set ks" using that by (simp only: all)
    then obtain k' where k': "k' \<in> set ks" "i = f k'" by (elim imageE)
    have "k' \<noteq> k" using k'(1) same_hashD(1) [OF assms(2)] by blast
    moreover have "e_used (elems m ! i)" "e_key (elems m ! i) = Some k'"
      using f(1) [OF k'(1)] unfolding k'(2) holds_def by blast+
    ultimately show ?thesis by (simp add: free_or_holds_def holds_def)
  qed
  then show ?thesis by (auto simp: put_slot_def find_None_iff)
qed

lemma full_window_put:
  "put_fuel f mem m k v = Some (st, m') \<Longrightarrow> hm_inv m \<Longrightarrow> same_hash k ks \<Longrightarrow>
    (\<And>k'. k' \<in> set ks \<Longrightarrow> hm_lookup m k' \<noteq> None) \<Longrightarrow> st = HMAP_E_OUTMEM"
proof (induction f arbitrary: m)
  case (Suc f)
  have pos: "0 < table_size m" using Suc.prems(2) by (simp add: hm_inv_def)
  have hash: "hashmap_hash m k = None"
    using full_window [OF Suc.prems(2-4)] by (simp add: hashmap_hash_slot [OF pos])
  have p: "hm_inv m' \<and> no_holes m' \<and> table_size m \<le> table_size m' \<and> hm_lookup m' = (hm_lookup m)(k \<mapsto> v)"
    if "hm_inv m" "no_holes m" "put_fuel f mem m k v = Some (HMAP_S_OK, m')" for m m' :: "'a hashmap_map" and k v
    using put_fuel_lookup [OF that(3,1) no_holes_safe [OF that(2)]] that(2) by blast
  from Suc.prems(1) hash obtain st1 m1 where r: "hashmap_rehash (put_fuel f mem) mem m = Some (st1, m1)"
    "if st1 = HMAP_E_OUTMEM then st = HMAP_E_OUTMEM else put_fuel f mem m1 k v = Some (st, m')"
    by (cases "hashmap_rehash (put_fuel f mem) mem m") (auto split: if_splits)
  show ?case
  proof (cases "st1 = HMAP_E_OUTMEM")
    case False
    have "rehash_loop (put_fuel f mem) es m = Some (st, m') \<Longrightarrow> st = HMAP_S_OK \<or> st = HMAP_E_OUTMEM"
      for es m m' and st by (rule rehash_loop_status [where p = "put_fuel f mem"]) (rule put_fuel_status)
    then have ok: "hashmap_rehash (put_fuel f mem) mem m = Some (HMAP_S_OK, m1)"
      using r(1) False by (auto simp: hashmap_rehash_def split: if_splits)
    have "hm_inv m1 \<and> no_holes m1 \<and> 2 * table_size m \<le> table_size m1 \<and> hm_lookup m1 = hm_lookup m"
      by (rule rehash_lookup [where p = "put_fuel f mem", OF _ Suc.prems(2) ok]) (rule p)
    then have m1: "hm_inv m1" "hm_lookup m1 = hm_lookup m" by blast+
    have "put_fuel f mem m1 k v = Some (st, m')" using r(2) False by simp
    then show ?thesis using m1(1) Suc.prems(3) by (rule Suc.IH) (simp add: m1(2) Suc.prems(4))
  qed (use r(2) in simp)
qed simp

section \<open>Removal\<close>

lemma hashmap_remove_slot:
  "0 < table_size m \<Longrightarrow> hashmap_remove m k = (case slot m k of
     Some i \<Rightarrow> (HMAP_S_OK, e_data (elems m ! i), (set_slot m i empty_elem)\<lparr>hm_count := hm_count m - 1\<rparr>)
   | None \<Rightarrow> (HMAP_E_NOTFOUND, None, m))"
  by (simp add: hashmap_remove_def probe_get_find find_window slot_def window_def)

lemma remove_at_step:
  assumes "hm_inv m" "slot m k = Some i"
  defines "m' \<equiv> (set_slot m i empty_elem)\<lparr>hm_count := hm_count m - 1\<rparr>"
  shows "hm_inv m'" "hm_lookup m' = (hm_lookup m)(k := None)"
proof -
  have i: "i < table_size m" "holds m k i" using assms(2) slot_iff [OF assms(1)] by simp_all
  have len: "length (elems m) = table_size m" using assms(1) by (simp add: hm_inv_def)
  have simps: "table_size m' = table_size m" "elems m' = (elems m)[i := empty_elem]"
    by (simp_all add: m'_def set_slot_def)
  have at: "holds m' k' j \<longleftrightarrow> j \<noteq> i \<and> holds m k' j" if "j < table_size m" for k' j
    using that i(1) len by (auto simp: holds_def simps empty_elem_def nth_list_update)
  have win: "window m' k' = window m k'" for k' by (rule window_cong) (rule simps)
  show inv: "hm_inv m'"
    unfolding hm_inv_def simps(1) win
  proof (intro conjI allI impI)
    fix j assume j: "j < table_size m" "e_used (elems m' ! j)"
    then show "\<exists>k. e_key (elems m' ! j) = Some k \<and> j \<in> set (window m k)"
      using assms(1) i len by (cases "j = i") (auto simp: simps hm_inv_def empty_elem_def)
  next
    fix k' j j' assume h: "j < table_size m" "j' < table_size m" "holds m' k' j" "holds m' k' j'"
    then show "j = j'" using assms(1) at [OF h(1)] at [OF h(2)] unfolding hm_inv_def by metis
  qed (use assms(1) len in \<open>simp_all add: simps hm_inv_def\<close>)
  show "hm_lookup m' = (hm_lookup m)(k := None)"
  proof (rule lookup_eqI [OF inv])
    fix k' w
    have "j = i" if h: "j < table_size m" "holds m k j" for j
      using slot_iff [OF assms(1), of k j] h assms(2) by simp
    moreover have "k' = k" if "holds m k' i" using that i(2) by (simp add: holds_def)
    moreover have "e_data (elems m' ! j) = e_data (elems m ! j)" if "j \<noteq> i" for j using that by (simp add: simps)
    ultimately show "((hm_lookup m)(k := None)) k' = Some w \<longleftrightarrow>
        (\<exists>j < table_size m'. holds m' k' j \<and> e_data (elems m' ! j) = w)"
      unfolding simps(1) by (cases "k' = k") (auto simp: lookup_iff [OF assms(1)] at, metis at)
  qed
qed

section \<open>The hash value is a CRC-32\<close>

text \<open>
  The serial form: each byte goes into the low bits, then eight shifts with the reflected
  polynomial. The table holds the value of every byte, and is spanned by its eight powers of two.
\<close>

definition crc_bit :: "64 word \<Rightarrow> 64 word" where
  "crc_bit v = drop_bit 1 v XOR (if bit v 0 then 0xedb88320 else 0)"

definition crc_serial :: "byte list \<Rightarrow> 64 word" where
  "crc_serial s = foldl (\<lambda>crc b. (crc_bit ^^ 8) (crc XOR ucast b)) 0 s"

lemma crc_bit_xor: "crc_bit (a XOR b) = crc_bit a XOR crc_bit b"
  by (rule bit_word_eqI) (auto simp: crc_bit_def bit_simps)

lemma crc_bits_xor: "(crc_bit ^^ n) (a XOR b) = (crc_bit ^^ n) a XOR (crc_bit ^^ n) b"
  by (induction n) (simp_all add: crc_bit_xor)

lemma crc_bits_high: "(\<And>i. i < n \<Longrightarrow> \<not> bit v i) \<Longrightarrow> (crc_bit ^^ n) v = drop_bit n v"
proof (induction n)
  case (Suc n)
  then have "(crc_bit ^^ n) v = drop_bit n v" by simp
  moreover have "\<not> bit (drop_bit n v) 0" using Suc.prems [of n] by (simp add: bit_simps)
  ultimately have "crc_bit ((crc_bit ^^ n) v) = drop_bit 1 (drop_bit n v)" by (simp add: crc_bit_def)
  then show ?case by simp
qed simp

lemma crc_byte: "(crc_bit ^^ 8) v = crc_bit (crc_bit (crc_bit (crc_bit (crc_bit (crc_bit (crc_bit (crc_bit v)))))))"
  by (simp add: numeral_eq_Suc)

lemma crc_basis:
  "(crc_bit ^^ 8) 1 = 0x77073096"
  "(crc_bit ^^ 8) 2 = 0xee0e612c"
  "(crc_bit ^^ 8) 4 = 0x076dc419"
  "(crc_bit ^^ 8) 8 = 0x0edb8832"
  "(crc_bit ^^ 8) 16 = 0x1db71064"
  "(crc_bit ^^ 8) 32 = 0x3b6e20c8"
  "(crc_bit ^^ 8) 64 = 0x76dc4190"
  "(crc_bit ^^ 8) 128 = 0xedb88320"
  unfolding crc_byte by (simp_all add: crc_bit_def)

fun xor_span :: "64 word list \<Rightarrow> 64 word list" where
  "xor_span [] = [0]"
| "xor_span (b # bs) = (let s = xor_span bs in s @ map (\<lambda>v. b XOR v) s)"

lemma tab_span: "crc32_tab = xor_span [0xedb88320, 0x76dc4190, 0x3b6e20c8, 0x1db71064, 0x0edb8832, 0x076dc419, 0xee0e612c, 0x77073096]"
  by (simp add: crc32_tab_def Let_def)

lemma add_as_xor:
  assumes "i < 2 ^ k" "k < 63"
  shows "word_of_nat (2 ^ k + i) = 2 ^ k XOR (word_of_nat i :: 64 word)"
proof -
  have "bit i n = False" if "k \<le> n" for n
    using assms(1) that by (metis bit_take_bit_iff linorder_not_less take_bit_nat_eq_self)
  then have "2 ^ k AND (word_of_nat i :: 64 word) = 0"
    by (intro bit_word_eqI) (auto simp: bit_simps)
  then have "2 ^ k + (word_of_nat i :: 64 word) = 2 ^ k XOR word_of_nat i" by (rule disjunctive_add_eq_xor)
  then show ?thesis by simp
qed

lemma xor_span_map:
  fixes g :: "64 word \<Rightarrow> 64 word"
  assumes g: "\<And>a b. g (a XOR b) = g a XOR g b"
  shows "n < 63 \<Longrightarrow> xor_span (map (\<lambda>k. g (2 ^ k)) (rev [0 ..< n])) = map (\<lambda>i. g (word_of_nat i)) [0 ..< 2 ^ n]"
proof (induction n)
  case 0
  have "g 0 XOR g 0 = g 0" using g [of 0 0] by simp
  then show ?case by simp
next
  case (Suc n)
  have "[0 ..< 2 ^ Suc n] = [0 ..< 2 ^ n] @ map (\<lambda>i. 2 ^ n + i) [0 ..< 2 ^ n]"
    by (rule nth_equalityI) (auto simp: nth_append)
  moreover have "g (word_of_nat (2 ^ n + i)) = g (2 ^ n) XOR g (word_of_nat i)" if "i < 2 ^ n" for i
    unfolding add_as_xor [OF that Suc_lessD [OF Suc.prems]] g ..
  ultimately show ?case using Suc by (simp add: Let_def)
qed

lemma crc32_tab_byte:
  assumes "i < 256"
  shows "crc32_tab ! i = (crc_bit ^^ 8) (word_of_nat i)"
proof -
  have "crc32_tab = xor_span (map (\<lambda>k. (crc_bit ^^ 8) (2 ^ k)) (rev [0 ..< 8]))"
    unfolding tab_span by (simp add: upt_rec crc_basis)
  also have "\<dots> = map (\<lambda>i. (crc_bit ^^ 8) (word_of_nat i)) [0 ..< 2 ^ 8]"
    by (rule xor_span_map) (simp_all add: crc_bits_xor)
  finally have tab: "crc32_tab = map (\<lambda>i. (crc_bit ^^ 8) (word_of_nat i)) [0 ..< 2 ^ 8]" .
  show ?thesis unfolding tab using assms by (simp add: nth_map_upt del: upt_rec_numeral funpow.simps)
qed

lemma crc_step:
  "crc32_tab ! unat ((crc XOR ucast b) AND 0xff) XOR drop_bit 8 crc = (crc_bit ^^ 8) (crc XOR ucast (b :: byte))"
proof -
  define w where "w = crc XOR (ucast b :: 64 word)"
  have mask: "(0xff :: 64 word) = mask 8" by (simp add: mask_eq_exp_minus_1)
  have "unat (w AND 0xff) = take_bit 8 (unat w)" unfolding mask by (simp add: unsigned_take_bit_eq flip: take_bit_eq_mask)
  then have "unat (w AND 0xff) < 256" using take_bit_nat_less_exp [of 8 "unat w"] by simp
  then have low: "crc32_tab ! unat (w AND 0xff) = (crc_bit ^^ 8) (w AND 0xff)" by (simp add: crc32_tab_byte)
  have "(crc_bit ^^ 8) (w AND NOT 0xff) = drop_bit 8 (w AND NOT 0xff)"
    by (rule crc_bits_high) (simp add: mask bit_simps)
  also have "\<dots> = drop_bit 8 crc"
    by (rule bit_word_eqI) (auto simp: mask bit_simps w_def dest: bit_imp_le_length)
  finally have "crc32_tab ! unat (w AND 0xff) XOR drop_bit 8 crc = (crc_bit ^^ 8) ((w AND 0xff) XOR (w AND NOT 0xff))"
    by (simp add: low crc_bits_xor)
  moreover have "(w AND 0xff) XOR (w AND NOT 0xff) = w" by (rule bit_word_eqI) (auto simp: bit_simps)
  ultimately show ?thesis by (simp add: w_def)
qed

lemma crc32_eq_serial: "crc32 s = crc_serial s"
  by (simp add: crc32_def crc_serial_def crc_step)

section \<open>The map, as its users see it\<close>

text \<open>An insertion that succeeds.\<close>

definition put_ok :: "nat \<Rightarrow> 'v hashmap_map \<Rightarrow> hkey \<Rightarrow> 'v option \<Rightarrow> 'v hashmap_map option" where
  "put_ok mem m k v = (case hashmap_put mem m k v of Some (HMAP_S_OK, m') \<Rightarrow> Some m' | _ \<Rightarrow> None)"

lemma put_ok_Some: "put_ok mem m k v = Some m' \<longleftrightarrow> hashmap_put mem m k v = Some (HMAP_S_OK, m')"
  by (auto simp: put_ok_def split: option.splits hmap_status.splits)

definition hm_plain :: "'v hashmap_map \<Rightarrow> bool" where
  "hm_plain m \<longleftrightarrow> hm_inv m \<and> no_holes m"

interpretation hm: insert_map hm_lookup "put_ok mem" hm_plain for mem
proof unfold_locales
  fix m m' :: "'a hashmap_map" and k v
  assume h: "hm_plain m" "put_ok mem m k v = Some m'"
  have "hm_inv m' \<and> (no_holes m \<longrightarrow> no_holes m') \<and> table_size m \<le> table_size m' \<and> hm_lookup m' = (hm_lookup m)(k \<mapsto> v)"
    using h unfolding put_ok_Some hashmap_put_def hm_plain_def
    by (intro put_fuel_lookup [where f = "Suc mem" and mem = mem]) (auto intro: no_holes_safe simp del: put_fuel.simps)
  then show "hm_lookup m' = (hm_lookup m)(k \<mapsto> v)" "hm_plain m'" using h(1) by (simp_all add: hm_plain_def)
qed

lemma hashmap_create_props:
  assumes "hashmap_create mem = Some m"
  shows "hm_plain m" "hm_lookup m = Map.empty"
  using assms fresh_props [of HMAP_INITIAL_SIZE]
  by (auto simp: hashmap_create_def hm_plain_def HMAP_INITIAL_SIZE_def split: if_splits)

text \<open>C3. The map keeps what was put last: after any sequence of successful insertions into a new
  map, whatever rehashing they caused, looking up a key gives the value of its last insertion, and
  \<open>HMAP_E_NOTFOUND\<close> with a null pointer for a key that was never put.\<close>

theorem hashmap_keeps_last_put:
  assumes "hashmap_create mem = Some m0" "put_seq (put_ok mem) m0 kvs = Some m"
  shows "hashmap_get m k =
    (case map_of (rev kvs) k of Some v \<Rightarrow> (HMAP_S_OK, v) | None \<Rightarrow> (HMAP_E_NOTFOUND, None))"
proof -
  have m: "hm_plain m" "hm_lookup m = map_of (rev kvs)"
    using hm.put_seq_lookup [OF hashmap_create_props(1) [OF assms(1)] assms(2)] hashmap_create_props(2) [OF assms(1)]
    by simp_all
  then have "0 < table_size m" by (simp add: hm_plain_def hm_inv_def)
  then show ?thesis by (simp add: hashmap_get_lookup m(2))
qed

lemma put_total:
  assumes "0 < table_size m" "mem < 2 ^ 30" "table_size m < 2 ^ 30"
  shows "\<exists>st m'. hashmap_put mem m k v = Some (st, m') \<and> table_size m \<le> table_size m' \<and>
    (st = HMAP_S_OK \<or> st = HMAP_E_OUTMEM \<and> mem < 2 * table_size m')"
proof -
  have "mem < 2 ^ Suc mem" by (rule less_trans [OF less_exp]) simp
  also have "2 ^ Suc mem \<le> table_size m * 2 ^ Suc mem" using assms(1) by simp
  finally obtain st m' where r: "put_fuel (Suc mem) mem m k v = Some (st, m')" "table_size m \<le> table_size m'"
    using put_fuel_total [of "Suc mem" mem m "table_size m" k v] assms(2,3) by blast
  then show ?thesis
    using put_fuel_status [OF r(1)] put_fuel_outmem [of "Suc mem" mem m k v m'] unfolding hashmap_put_def by blast
qed

text \<open>Insertion always ends, whatever the keys, in a memory for less than \<open>2^30\<close> slots: with a place for the
  key, or with \<open>HMAP_E_OUTMEM\<close>, and that only when a table of twice the size it has reached cannot be
  allocated. The table never shrinks.\<close>

theorem hashmap_put_ends:
  assumes "hm_inv m" "mem < 2 ^ 30" "table_size m < 2 ^ 30"
  shows "\<exists>st m'. hashmap_put mem m k v = Some (st, m') \<and> table_size m \<le> table_size m' \<and>
    (st = HMAP_S_OK \<or> st = HMAP_E_OUTMEM \<and> mem < 2 * table_size m')"
  using assms by (intro put_total) (simp add: hm_inv_def)

text \<open>Removal takes out exactly the key: with the invariant it returns the value found and the map
  without the key, keeps the invariant and counts one entry less; for a key that is not there it
  returns \<open>HMAP_E_NOTFOUND\<close> and changes nothing.\<close>

theorem hashmap_remove_deletes:
  assumes "hm_inv m"
  shows "case hm_lookup m k of
      None \<Rightarrow> hashmap_remove m k = (HMAP_E_NOTFOUND, None, m)
    | Some v \<Rightarrow> \<exists>m'. hashmap_remove m k = (HMAP_S_OK, v, m') \<and> hm_inv m' \<and>
        hm_lookup m' = (hm_lookup m)(k := None) \<and> hm_count m' = hm_count m - 1"
proof -
  have pos: "0 < table_size m" using assms by (simp add: hm_inv_def)
  show ?thesis
  proof (cases "slot m k")
    case (Some i)
    then show ?thesis
      using remove_at_step [OF assms Some] by (simp add: hashmap_remove_slot [OF pos] hm_lookup_def)
  qed (simp add: hashmap_remove_slot [OF pos] hm_lookup_def)
qed

text \<open>C26. A removal can leave an older value: when a removed key has left a free slot in front of the
  slot of a key, the next insertion of this key goes into the free slot, and removing it brings the
  value back that had been overwritten.\<close>

theorem hashmap_stale_value:
  assumes "hm_inv m" "slot m k = Some j" "put_slot m k = Some i" "i \<noteq> j"
    "hm_count m < int (table_size m div 2)"
  shows "\<exists>m1 m2. hashmap_put mem m k v = Some (HMAP_S_OK, m1) \<and> hashmap_remove m1 k = (HMAP_S_OK, v, m2) \<and>
    hashmap_get m2 k = (HMAP_S_OK, e_data (elems m ! j))"
proof -
  define m1 where "m1 = put_at m i k v"
  define m2 where "m2 = (set_slot m1 i empty_elem)\<lparr>hm_count := hm_count m1 - 1\<rparr>"
  have pos: "0 < table_size m" and len: "length (elems m) = table_size m" using assms(1) by (simp_all add: hm_inv_def)
  have i: "i < table_size m"
    using find_SomeD [OF assms(3) [unfolded put_slot_def]] window_less [OF pos] by blast
  have j: "holds m k j" using assms(2) slot_iff [OF assms(1)] by simp
  have sizes: "table_size m1 = table_size m" "table_size m2 = table_size m"
    "elems m1 = (elems m)[i := \<lparr>e_key = Some k, e_used = True, e_data = v\<rparr>]" "elems m2 = (elems m)[i := empty_elem]"
    by (simp_all add: m1_def m2_def set_slot_def)
  have win: "window m1 k = window m k" "window m2 k = window m k"
    by (rule window_cong, rule sizes)+
  have "holds m1 k i" using i len by (simp add: holds_def sizes)
  moreover have "holds m1 k y \<Longrightarrow> y = i \<or> free_or_holds m k y" for y
    by (cases "y = i") (simp_all add: holds_def free_or_holds_def sizes)
  ultimately have "slot m1 k = Some i"
    unfolding slot_def win by (rule find_subset [OF assms(3) [unfolded put_slot_def]])
  then have remove: "hashmap_remove m1 k = (HMAP_S_OK, v, m2)"
    using pos i len by (simp add: hashmap_remove_slot sizes m2_def)
  have "holds m2 k j" using j assms(4) by (simp add: holds_def sizes)
  moreover have "holds m2 k y \<Longrightarrow> holds m k y" for y
    using i len by (cases "y = i") (simp_all add: holds_def sizes empty_elem_def)
  ultimately have "slot m2 k = Some j"
    unfolding slot_def win by (intro find_subset [OF assms(2) [unfolded slot_def]] disjI2) blast+
  then have get: "hashmap_get m2 k = (HMAP_S_OK, e_data (elems m ! j))"
    using pos assms(4) by (simp add: hashmap_get_lookup hm_lookup_def sizes)
  have "hashmap_put mem m k v = Some (HMAP_S_OK, m1)"
    using assms(3,5) by (simp add: hashmap_put_def put_fuel_Suc [OF pos] m1_def del: put_fuel.simps)
  then show ?thesis using remove get by blast
qed

text \<open>C15. Eight keys of one hash value fill the window for a ninth in every table, so its insertion
  never succeeds, in no memory and however few entries there are. In a memory for less than \<open>2^30\<close>
  slots it doubles the table until no larger one can be allocated and then fails; in a larger one
  the doubling of the \<open>int\<close> \<open>table_size\<close> may overflow first.\<close>

theorem hashmap_collisions_exhaust_memory:
  assumes "hm_inv m" "same_hash k ks" "\<And>k'. k' \<in> set ks \<Longrightarrow> hm_lookup m k' \<noteq> None"
  shows "(\<forall>m'. hashmap_put mem m k v \<noteq> Some (HMAP_S_OK, m')) \<and>
    (mem < 2 ^ 30 \<and> table_size m < 2 ^ 30 \<longrightarrow>
      (\<exists>m'. hashmap_put mem m k v = Some (HMAP_E_OUTMEM, m') \<and> mem < 2 * table_size m'))"
proof -
  have full: "hashmap_put mem m k v \<noteq> Some (HMAP_S_OK, m')" for m'
    using full_window_put [where f = "Suc mem" and mem = mem, OF _ assms(1,2)] assms(3)
    unfolding hashmap_put_def by blast
  then show ?thesis using put_total [of m mem k v] assms(1) by (auto simp: hm_inv_def)
qed

text \<open>C22. The table-driven \<open>crc32\<close> is the CRC-32 computed bit by bit: the 256 table entries are
  right, and one lookup does the work of eight shifts.\<close>

theorem crc32_serial: "crc32 s = crc_serial s"
  by (rule crc32_eq_serial)

section \<open>Iteration and destruction\<close>

definition used_values :: "'v hashmap_elem list \<Rightarrow> 'v option list" where
  "used_values es = map e_data (filter e_used es)"

text \<open>A callback that never fails sees each stored value once, in the order of the slots.\<close>

lemma hashmap_iterate_all:
  assumes "0 < hm_count m" "\<And>v s. fst (cb v s) = 0"
  shows "hashmap_iterate m cb s = (0, fold (\<lambda>v s. snd (cb v s)) (used_values (elems m)) s)"
proof -
  have "iterate_loop cb es s = (0, fold (\<lambda>v s. snd (cb v s)) (used_values es) s)" for es s
    using assms(2) by (induction es arbitrary: s) (auto simp: used_values_def case_prod_beta)
  then show ?thesis using assms(1) by (simp add: hashmap_iterate_def)
qed

text \<open>Destruction hands each stored value to the callback once, from the last slot down.\<close>

lemma hashmap_destroy_all:
  assumes "length (elems m) = table_size m"
  shows "hashmap_destroy m cb s = fold cb (rev (used_values (elems m))) s"
proof -
  have "i \<le> length es \<Longrightarrow> destroy_loop cb es i s = fold cb (rev (used_values (take i es))) s" for es i s
    by (induction i arbitrary: s) (auto simp: used_values_def take_Suc_conv_app_nth)
  then show ?thesis using assms by (simp add: hashmap_destroy_def)
qed

section \<open>Witnesses\<close>

lemma window_first: "window m k = find_hash_index m k mod table_size m # (find_hash_index m k + 1) mod table_size m #
    map (\<lambda>d. (find_hash_index m k + d) mod table_size m) [2 ..< HMAP_CHAIN_LENGTH]"
proof -
  have "[0 ..< HMAP_CHAIN_LENGTH] = 0 # 1 # [2 ..< HMAP_CHAIN_LENGTH]" by (simp add: HMAP_CHAIN_LENGTH_def upt_rec)
  then show ?thesis by (simp add: window_def)
qed

text \<open>The hash values of two keys of one window, \<open>f\<close> and \<open>ig\<close>.\<close>

abbreviation key_f :: hkey where
  "key_f \<equiv> [0x66]"

abbreviation key_ig :: hkey where
  "key_ig \<equiv> [0x69, 0x67]"

lemma demo_hash:
  "unat (mix_key (crc32 key_f)) mod 256 = 195" "unat (mix_key (crc32 key_ig)) mod 256 = 195"
  by (simp_all add: crc32_def crc_step crc_byte crc_bit_def mix_key_def Let_def)

lemma put_ok_at:
  "0 < table_size m \<Longrightarrow> hm_count m < int (table_size m div 2) \<Longrightarrow> put_slot m k = Some i \<Longrightarrow>
    put_ok mem m k v = Some (put_at m i k v)"
  by (simp add: put_ok_Some hashmap_put_def put_fuel_Suc del: put_fuel.simps)

lemma demo_window:
  "table_size m = 256 \<Longrightarrow> window m key_f = [195, 196, 197, 198, 199, 200, 201, 202]"
  "table_size m = 256 \<Longrightarrow> window m key_ig = [195, 196, 197, 198, 199, 200, 201, 202]"
  using demo_hash by (simp_all add: window_def find_hash_index_def HMAP_CHAIN_LENGTH_def upt_rec)

lemma create_fresh: "256 \<le> mem \<Longrightarrow> hashmap_create mem = Some (hashmap_fresh 256)"
  by (simp add: hashmap_create_def HMAP_INITIAL_SIZE_def)

lemma fresh_simps [simp]:
  "table_size (hashmap_fresh n) = n" "hm_count (hashmap_fresh n) = 0" "elems (hashmap_fresh n) = replicate n empty_elem"
  by (simp_all add: hashmap_fresh_def)

lemmas demo_simps = put_ok_at put_slot_def demo_window free_or_holds_def holds_def empty_elem_def

definition demo_kvs :: "(hkey \<times> nat option) list" where
  "demo_kvs = [(key_f, Some 1), (key_ig, Some 2), (key_f, Some 3)]"

definition demo_map :: "nat hashmap_map" where
  "demo_map = put_at (put_at (put_at (hashmap_fresh 256) 195 key_f (Some 1)) 196 key_ig (Some 2)) 195 key_f (Some 3)"

lemma demo_puts: "put_seq (put_ok 1000) (hashmap_fresh 256) demo_kvs = Some demo_map"
  by (simp add: demo_kvs_def demo_map_def demo_simps)

lemma demo_plain: "hm_plain demo_map" "hm_lookup demo_map = map_of (rev demo_kvs)"
proof -
  have c: "hashmap_create 1000 = Some (hashmap_fresh 256 :: nat hashmap_map)" by (rule create_fresh) simp
  show "hm_plain demo_map" "hm_lookup demo_map = map_of (rev demo_kvs)"
    using hm.put_seq_lookup [OF hashmap_create_props(1) [OF c] demo_puts] hashmap_create_props(2) [OF c] by simp_all
qed

text \<open>Overwriting a value counts as one more element.\<close>

lemma hashmap_size_overcounts: "hashmap_size (Some demo_map) = 3" "dom (hm_lookup demo_map) = {key_f, key_ig}"
  by (simp add: demo_map_def) (auto simp: demo_plain(2) demo_kvs_def)

theorem hashmap_keeps_last_put_witness:
  "hashmap_get demo_map key_f = (HMAP_S_OK, Some 3) \<and> hashmap_get demo_map [] = (HMAP_E_NOTFOUND, None)"
proof -
  have c: "hashmap_create 1000 = Some (hashmap_fresh 256)" by (rule create_fresh) simp
  show ?thesis
    using hashmap_keeps_last_put [OF c demo_puts, of key_f] hashmap_keeps_last_put [OF c demo_puts, of "[]"]
    by (simp add: demo_kvs_def)
qed

theorem hashmap_put_ends_witness:
  "\<exists>st m'. hashmap_put 300 demo_map [0x41] None = Some (st, m') \<and> 256 \<le> table_size m'"
proof -
  have "hm_inv demo_map" using demo_plain(1) by (simp add: hm_plain_def)
  from hashmap_put_ends [OF this, of 300 "[0x41]" None] show ?thesis by (auto simp: demo_map_def)
qed

theorem hashmap_remove_deletes_witness:
  "\<exists>m'. hashmap_remove demo_map key_f = (HMAP_S_OK, Some 3, m') \<and> hm_lookup m' key_f = None \<and>
     hm_lookup m' key_ig = Some (Some 2) \<and> hm_count m' = 2"
proof -
  have "hm_inv demo_map" using demo_plain(1) by (simp add: hm_plain_def)
  from hashmap_remove_deletes [OF this, of key_f] show ?thesis
    by (auto simp: demo_plain(2) demo_kvs_def) (simp add: demo_map_def)
qed

text \<open>The map from which \<open>f\<close> has been removed: the slot before the one of \<open>ig\<close> is free.\<close>

definition holed_map :: "nat hashmap_map" where
  "holed_map = snd (snd (hashmap_remove demo_map key_f))"

theorem hashmap_stale_value_witness:
  "\<exists>m1 m2. hashmap_put 1000 holed_map key_ig (Some 7) = Some (HMAP_S_OK, m1) \<and>
     hashmap_remove m1 key_ig = (HMAP_S_OK, Some 7, m2) \<and> hashmap_get m2 key_ig = (HMAP_S_OK, Some 2)"
proof -
  have inv: "hm_inv demo_map" using demo_plain(1) by (simp add: hm_plain_def)
  have slot: "slot demo_map key_f = Some 195" by (simp add: slot_def demo_map_def demo_simps)
  have h: "holed_map = (set_slot demo_map 195 empty_elem)\<lparr>hm_count := hm_count demo_map - 1\<rparr>"
    unfolding holed_map_def using inv by (simp add: hashmap_remove_slot slot hm_inv_def)
  have "hm_inv holed_map" unfolding h by (rule remove_at_step(1) [OF inv slot])
  moreover have el: "table_size holed_map = 256" "hm_count holed_map = 2" "elems holed_map = (elems demo_map)[195 := empty_elem]"
    by (simp_all add: h set_slot_def) (simp_all add: demo_map_def)
  then have "slot holed_map key_ig = Some 196" "put_slot holed_map key_ig = Some 195"
    "e_data (elems holed_map ! 196) = Some 2" by (simp_all add: slot_def demo_simps) (simp_all add: demo_map_def)
  ultimately show ?thesis using hashmap_stale_value [of holed_map key_ig 196 195 1000 "Some 7"] el by simp
qed

text \<open>
  Nine strings with one CRC-32: a string and its sums with multiples of the polynomial, which have
  the CRC-32 zero.
\<close>

definition crc_byte_step :: "64 word \<Rightarrow> byte \<Rightarrow> 64 word" where
  "crc_byte_step crc b = (crc_bit ^^ 8) (crc XOR ucast b)"

lemma crc32_steps: "crc32 s = foldl crc_byte_step 0 s"
  by (simp add: crc32_eq_serial crc_serial_def crc_byte_step_def [abs_def])

lemma crc_byte_step_xor: "crc_byte_step (x XOR y) (b XOR c) = crc_byte_step x b XOR crc_byte_step y c"
proof -
  have u: "ucast (b XOR c) = (ucast b XOR ucast c :: 64 word)" by (rule bit_word_eqI) (simp add: bit_simps)
  have "(x XOR y) XOR ucast (b XOR c) = (x XOR ucast b) XOR (y XOR ucast c)"
    unfolding u by (simp add: ac_simps)
  then show ?thesis by (simp only: crc_byte_step_def crc_bits_xor)
qed

lemma crc_steps_xor:
  "length s = length t \<Longrightarrow>
    foldl crc_byte_step (x XOR y) (map2 (XOR) s t) = foldl crc_byte_step x s XOR foldl crc_byte_step y t"
  by (induction s t arbitrary: x y rule: list_induct2) (simp_all add: crc_byte_step_xor)

lemma crc32_xor: "length s = length t \<Longrightarrow> crc32 (map2 (XOR) s t) = crc32 s XOR crc32 t"
  using crc_steps_xor [of s t 0 0] by (simp add: crc32_steps)

lemma crc_bits_zero: "(crc_bit ^^ n) 0 = 0"
  using crc_bits_xor [of n 0 0] by simp

lemma crc32_pad: "crc32 (0 # s) = crc32 s" "crc32 s = 0 \<Longrightarrow> crc32 (s @ [0]) = 0"
  by (simp_all add: crc32_eq_serial crc_serial_def crc_bits_zero)

definition poly_bytes :: "byte list" where
  "poly_bytes = [65, 6, 113, 219, 1]"

lemma crc32_poly: "crc32 poly_bytes = 0"
  unfolding crc32_eq_serial crc_serial_def poly_bytes_def by (simp add: crc_byte crc_bit_def)

definition poly_at :: "nat \<Rightarrow> byte list" where
  "poly_at n = replicate n 0 @ poly_bytes @ replicate (3 - n) 0"

lemma crc32_poly_at: "crc32 (poly_at n) = 0"
proof -
  have "crc32 (s @ replicate k 0) = 0" if "crc32 s = 0" for s k
    using that by (induction k arbitrary: s) (simp_all add: crc32_pad flip: append_assoc replicate_append_same)
  moreover have "crc32 (replicate k 0 @ s) = crc32 s" for k s by (induction k) (simp_all add: crc32_pad)
  ultimately show ?thesis by (simp add: poly_at_def crc32_poly)
qed

fun twin :: "nat list \<Rightarrow> hkey" where
  "twin [] = replicate 8 0x48"
| "twin (n # ns) = map2 (XOR) (twin ns) (poly_at n)"

lemma twin_crc: "\<forall>n \<in> set ns. n \<le> 3 \<Longrightarrow> length (twin ns) = 8 \<and> crc32 (twin ns) = crc32 (twin [])"
proof (induction ns)
  case (Cons n ns)
  then have "length (poly_at n) = 8" by (simp add: poly_at_def poly_bytes_def)
  then show ?case using Cons by (simp add: crc32_xor crc32_poly_at del: twin.simps(1))
qed simp

definition twin_keys :: "hkey list" where
  "twin_keys = map twin [[], [0], [1], [2], [3], [0, 1], [0, 2], [0, 3]]"

definition ninth_key :: hkey where
  "ninth_key = twin [1, 2]"

lemma twins_same_hash: "same_hash ninth_key twin_keys"
proof -
  have "distinct (ninth_key # twin_keys)" by code_simp
  moreover obtain c where c: "\<And>ns. \<forall>n \<in> set ns. n \<le> 3 \<Longrightarrow> crc32 (twin ns) = c"
    using twin_crc by blast
  moreover have "list_all (\<lambda>k. mix_key (crc32 k) = mix_key (crc32 ninth_key)) twin_keys"
    by (simp add: ninth_key_def twin_keys_def c del: twin.simps)
  ultimately show ?thesis by (simp add: same_hash_def twin_keys_def HMAP_CHAIN_LENGTH_def)
qed

text \<open>A key finds a place while the map holds fewer than eight keys.\<close>

lemma window_distinct:
  assumes "HMAP_CHAIN_LENGTH \<le> table_size m"
  shows "distinct (window m k)"
proof -
  have ab: "a = b" if h: "a \<le> b" "b < t" "(c + a) mod t = (c + b) mod t" for a b c t :: nat
  proof -
    have "t dvd (c + b) - (c + a)" using mod_eq_dvd_iff_nat [of "c + a" "c + b" t] h by simp
    then have "t dvd b - a" by simp
    then show ?thesis using h(1,2) nat_dvd_not_less [of "b - a" t] by fastforce
  qed
  have "inj_on (\<lambda>d. (c + d) mod table_size m) {0 ..< HMAP_CHAIN_LENGTH}" for c
  proof (rule linorder_inj_onI)
    fix x y assume "x < y" "y \<in> {0 ..< HMAP_CHAIN_LENGTH}"
    then show "(c + x) mod table_size m \<noteq> (c + y) mod table_size m" using ab [of x y "table_size m" c] assms by auto
  qed auto
  then show ?thesis by (simp add: window_def distinct_map)
qed

lemma put_slot_found:
  assumes "hm_inv m" "HMAP_CHAIN_LENGTH \<le> table_size m" "card (dom (hm_lookup m)) < HMAP_CHAIN_LENGTH"
  shows "put_slot m k \<noteq> None"
proof
  assume none: "put_slot m k = None"
  define f where "f i = the (e_key (elems m ! i))" for i
  have pos: "0 < table_size m" using assms(1) by (simp add: hm_inv_def)
  have f: "i < table_size m" "holds m (f i) i" if "i \<in> set (window m k)" for i
  proof -
    show i: "i < table_size m" using window_less [OF pos that] .
    have "\<not> free_or_holds m k i" using none that by (simp add: put_slot_def find_None_iff)
    then have "e_used (elems m ! i)" by (simp add: free_or_holds_def)
    then show "holds m (f i) i" using assms(1) i unfolding hm_inv_def f_def holds_def by fastforce
  qed
  have "inj_on f (set (window m k))"
    by (rule inj_onI) (use f assms(1) in \<open>metis hm_inv_def\<close>)
  moreover have "f ` set (window m k) \<subseteq> dom (hm_lookup m)"
    using f lookup_iff [OF assms(1)] by blast
  moreover have "finite (dom (hm_lookup m))"
    using entries_lookup [OF assms(1)] finite_dom_map_of by metis
  ultimately have "card (set (window m k)) \<le> card (dom (hm_lookup m))" by (meson card_inj_on_le)
  moreover have "card (set (window m k)) = HMAP_CHAIN_LENGTH"
    using distinct_card [OF window_distinct [OF assms(2)], of k] by (simp add: window_def)
  ultimately show False using assms(3) by simp
qed

lemma puts_succeed:
  "hm_plain m \<Longrightarrow> HMAP_CHAIN_LENGTH \<le> table_size m \<Longrightarrow> card (dom (hm_lookup m)) + length kvs \<le> HMAP_CHAIN_LENGTH \<Longrightarrow>
    hm_count m + int (length kvs) \<le> int (table_size m div 2) \<Longrightarrow>
    \<exists>m'. put_seq (put_ok mem) m kvs = Some m' \<and> table_size m' = table_size m"
proof (induction kvs arbitrary: m)
  case (Cons kv kvs)
  obtain k v where kv: "kv = (k, v)" by (cases kv)
  have inv: "hm_inv m" using Cons.prems(1) by (simp add: hm_plain_def)
  have size: "0 < table_size m" "hm_count m < int (table_size m div 2)" "card (dom (hm_lookup m)) < HMAP_CHAIN_LENGTH"
    using Cons.prems inv by (simp_all add: hm_inv_def)
  obtain i where "put_slot m k = Some i" using put_slot_found [OF inv Cons.prems(2) size(3)] by blast
  then have p: "put_ok mem m k v = Some (put_at m i k v)" using put_ok_at size by blast
  have "card (dom ((hm_lookup m)(k \<mapsto> v))) \<le> Suc (card (dom (hm_lookup m)))"
    by (simp add: card_insert_if finite_dom_map_of flip: entries_lookup [OF inv])
  then have "card (dom (hm_lookup (put_at m i k v))) + length kvs \<le> HMAP_CHAIN_LENGTH"
    unfolding hm.put_lookup [OF Cons.prems(1) p] using Cons.prems(3) by simp
  then have "\<exists>m'. put_seq (put_ok mem) (put_at m i k v) kvs = Some m' \<and> table_size m' = table_size (put_at m i k v)"
    using Cons.prems hm.put_inv [OF Cons.prems(1) p] by (intro Cons.IH) simp_all
  then show ?case by (simp add: kv p)
qed simp

definition twin_kvs :: "(hkey \<times> nat option) list" where
  "twin_kvs = map (\<lambda>k. (k, None)) twin_keys"

theorem hashmap_collisions_exhaust_memory_witness:
  "\<exists>m0 m m'. hashmap_create 1000000 = Some m0 \<and> put_seq (put_ok 1000000) m0 twin_kvs = Some m \<and>
     hashmap_put 1000000 m ninth_key None = Some (HMAP_E_OUTMEM, m')"
proof -
  have c: "hashmap_create 1000000 = Some (hashmap_fresh 256 :: nat hashmap_map)" by (rule create_fresh) simp
  note new = hashmap_create_props [OF c]
  obtain m where m: "put_seq (put_ok 1000000) (hashmap_fresh 256) twin_kvs = Some m" and size: "table_size m = 256"
    using puts_succeed [OF new(1), of twin_kvs 1000000] new(2)
    by (auto simp: HMAP_CHAIN_LENGTH_def twin_kvs_def twin_keys_def hashmap_fresh_def)
  have props: "hm_inv m" "hm_lookup m = map_of (rev twin_kvs)"
    using hm.put_seq_lookup [OF new(1) m] new(2) by (simp_all add: hm_plain_def)
  have "hm_lookup m k' \<noteq> None" if "k' \<in> set twin_keys" for k'
    unfolding props(2) map_of_eq_None_iff twin_kvs_def using that by (simp add: image_image)
  from hashmap_collisions_exhaust_memory [OF props(1) twins_same_hash this, of 1000000 None] show ?thesis
    using c m size by auto
qed

end
