(* ===== verification/Lfsr.thy ===== *)
theory Lfsr
  imports Stdio
begin

text \<open>
  The linear feedback shift register of math/test_lfsr.c: eight bits, feedback from the bits 0, 1, 2
  and 7, and the program that prints its values.
\<close>

unbundle bit_operations_syntax

section \<open>The register\<close>

text \<open>The value and the new content of the static \<open>pseudoreg\<close>; a positive seed replaces it first.\<close>

definition lfsr_shift :: "byte \<Rightarrow> byte" where
  "lfsr_shift reg =
    (let shiftbit = ((push_bit 7 reg AND 0x80) XOR (push_bit 6 reg AND 0x80)) XOR (push_bit 5 reg AND 0x80) XOR (reg AND 0x80)
     in shiftbit OR drop_bit 1 reg)"

definition lfsr_get_8bit :: "byte \<Rightarrow> byte \<Rightarrow> byte" where
  "lfsr_get_8bit pseudoreg seed = lfsr_shift (if 0 < seed then seed else pseudoreg)"

text \<open>The values printed by the loop from a register on.\<close>

fun lfsr_values :: "nat \<Rightarrow> byte \<Rightarrow> byte list" where
  "lfsr_values 0 reg = []"
| "lfsr_values (Suc n) reg = (let reg' = lfsr_get_8bit reg 0 in reg' # lfsr_values n reg')"

text \<open>
  The arguments are the seed and the number of values; the seed is converted to \<open>uint8_t\<close>. The first
  call only seeds the register.
\<close>

definition lfsr_main :: "string list \<Rightarrow> string list" where
  "lfsr_main argv =
    (let seed = (if 1 < length argv then atoi (argv ! 1) else 0);
         max_cnt = (if 2 < length argv then atoi (argv ! 2) else 5)
     in map (\<lambda>v. dec_int (uint v)) (lfsr_values (nat max_cnt) (lfsr_get_8bit 0xff (word_of_int seed))))"

section \<open>The period\<close>

text \<open>The register as its eight bits, lowest first.\<close>

definition reg_bits :: "byte \<Rightarrow> bool list" where
  "reg_bits r = map (bit r) [0 ..< 8]"

fun shift_bits :: "bool list \<Rightarrow> bool list" where
  "shift_bits [a, b, c, d, e, f, g, h] = [b, c, d, e, f, g, h, a \<noteq> (b \<noteq> (c \<noteq> h))]"
| "shift_bits bs = bs"

lemma reg_bits_inj: "reg_bits r = reg_bits r' \<Longrightarrow> r = r'"
  by (rule bit_word_eqI) (simp add: reg_bits_def)

lemma upt_8: "[0 ..< 8] = [0, 1, 2, 3, 4, 5, 6, 7 :: nat]"
  by (simp add: upt_rec)

lemma reg_bits_shift: "reg_bits (lfsr_shift r) = shift_bits (reg_bits r)"
proof -
  have "\<not> bit r 8" by (simp add: impossible_bit)
  moreover have "bit r (Suc (Suc 0)) = bit r 2" "bit r (Suc (Suc (Suc 0))) = bit r 3"
    by (simp_all only: numeral_2_eq_2 numeral_3_eq_3)
  ultimately show ?thesis
    by (auto simp: reg_bits_def upt_8 lfsr_shift_def Let_def bit_simps)
qed

lemma lfsr_shift_inj: "lfsr_shift r = lfsr_shift r' \<Longrightarrow> r = r'"
proof -
  assume "lfsr_shift r = lfsr_shift r'"
  then have "shift_bits (reg_bits r) = shift_bits (reg_bits r')" by (simp flip: reg_bits_shift)
  then have "reg_bits r = reg_bits r'" by (auto simp: reg_bits_def upt_8)
  then show ?thesis by (rule reg_bits_inj)
qed

fun bits_orbit :: "nat \<Rightarrow> bool list \<Rightarrow> bool list list" where
  "bits_orbit 0 s = []"
| "bits_orbit (Suc n) s = s # bits_orbit n (shift_bits s)"

lemma bits_orbit: "bits_orbit n s = map (\<lambda>i. (shift_bits ^^ i) s) [0 ..< n]"
  by (induction n arbitrary: s) (simp_all add: upt_conv_Cons map_Suc_upt [symmetric] funpow_swap1 del: upt_Suc)

abbreviation bits_one :: "bool list" where
  "bits_one \<equiv> [True, False, False, False, False, False, False, False]"

lemma orbit_one: "bits_one \<notin> set (tl (bits_orbit 255 bits_one)) \<and> last (bits_orbit 256 bits_one) = bits_one"
  by code_simp

lemma reg_bits_funpow: "reg_bits ((lfsr_shift ^^ n) r) = (shift_bits ^^ n) (reg_bits r)"
  by (induction n) (simp_all add: reg_bits_shift)

lemma funpow_inj: "(lfsr_shift ^^ n) r = (lfsr_shift ^^ n) r' \<Longrightarrow> r = r'"
  by (induction n) (auto dest: lfsr_shift_inj)

lemma funpow_shift_add: "(lfsr_shift ^^ (i + j)) r = (lfsr_shift ^^ i) ((lfsr_shift ^^ j) r)"
  by (simp add: funpow_add)

lemma lfsr_zero: "lfsr_shift r = 0 \<longleftrightarrow> r = 0"
proof -
  have "lfsr_shift 0 = 0" by (simp add: lfsr_shift_def)
  then show ?thesis using lfsr_shift_inj [of r 0] by auto
qed

lemma lfsr_one:
  "(lfsr_shift ^^ 255) 1 = 1" "0 < i \<Longrightarrow> i < 255 \<Longrightarrow> (lfsr_shift ^^ i) 1 \<noteq> 1"
proof -
  have one: "reg_bits 1 = bits_one" by (simp add: reg_bits_def upt_8 bit_simps)
  have "last (bits_orbit 256 bits_one) = (shift_bits ^^ 255) bits_one"
    by (simp add: bits_orbit last_map del: upt_rec_numeral funpow.simps)
  then have "reg_bits ((lfsr_shift ^^ 255) 1) = reg_bits 1"
    using orbit_one by (simp add: reg_bits_funpow one)
  then show "(lfsr_shift ^^ 255) 1 = 1" by (rule reg_bits_inj)
  assume i: "0 < i" "i < 255"
  have "(shift_bits ^^ i) bits_one \<in> set (tl (bits_orbit 255 bits_one))"
  proof -
    have "(shift_bits ^^ i) bits_one = tl (bits_orbit 255 bits_one) ! (i - 1)"
      using i by (simp add: bits_orbit nth_tl del: upt_rec_numeral)
    then show ?thesis using i by (simp add: bits_orbit nth_mem del: upt_rec_numeral)
  qed
  then have "reg_bits ((lfsr_shift ^^ i) 1) \<noteq> reg_bits 1"
    using orbit_one by (auto simp: reg_bits_funpow one)
  then show "(lfsr_shift ^^ i) 1 \<noteq> 1" by auto
qed

lemma lfsr_orbit:
  "inj_on (\<lambda>i. (lfsr_shift ^^ i) 1) {0 ..< 255}" "(\<lambda>i. (lfsr_shift ^^ i) 1) ` {0 ..< 255} = UNIV - {0}"
proof -
  show inj: "inj_on (\<lambda>i. (lfsr_shift ^^ i) 1) {0 ..< 255}"
  proof (rule linorder_inj_onI)
    fix i j :: nat assume h: "i < j" "j \<in> {0 ..< 255}"
    show "(lfsr_shift ^^ i) 1 \<noteq> (lfsr_shift ^^ j) 1"
    proof
      assume "(lfsr_shift ^^ i) 1 = (lfsr_shift ^^ j) 1"
      moreover have "(lfsr_shift ^^ j) 1 = (lfsr_shift ^^ i) ((lfsr_shift ^^ (j - i)) 1)"
        using h(1) funpow_shift_add [of i "j - i"] by simp
      ultimately have "(lfsr_shift ^^ i) ((lfsr_shift ^^ (j - i)) 1) = (lfsr_shift ^^ i) 1" by (simp only: )
      then have "(lfsr_shift ^^ (j - i)) 1 = 1" by (rule funpow_inj)
      then show False using lfsr_one(2) [of "j - i"] h less_imp_diff_less [of j 255 i] by auto
    qed
  qed auto
  have "(lfsr_shift ^^ i) 1 \<noteq> 0" for i by (induction i) (simp_all add: lfsr_zero)
  then have sub: "(\<lambda>i. (lfsr_shift ^^ i) 1) ` {0 ..< 255} \<subseteq> UNIV - {0}" by auto
  have "card (UNIV - {0 :: byte}) = 255" by (simp add: card_Diff_subset card_word)
  then show "(\<lambda>i. (lfsr_shift ^^ i) 1) ` {0 ..< 255} = UNIV - {0}"
    using card_image [OF inj] by (intro card_subset_eq sub) simp_all
qed

lemma lfsr_values_map: "lfsr_values n r = map (\<lambda>i. (lfsr_shift ^^ Suc i) r) [0 ..< n]"
  by (induction n arbitrary: r)
    (simp_all add: lfsr_get_8bit_def Let_def upt_conv_Cons map_Suc_upt [symmetric] funpow_swap1 del: upt_Suc)

text \<open>The register has the full period: from any content other than 0, the next 255 values are
  all the bytes other than 0, each once, and the last one is the content it started from; the value
  0 is never reached.\<close>

theorem lfsr_full_period:
  assumes "reg \<noteq> 0"
  shows "distinct (lfsr_values 255 reg) \<and> set (lfsr_values 255 reg) = UNIV - {0} \<and> last (lfsr_values 255 reg) = reg"
proof -
  have "reg \<in> UNIV - {0}" using assms by simp
  then obtain k where k: "reg = (lfsr_shift ^^ k) 1" unfolding lfsr_orbit(2) [symmetric] by auto
  have move: "(lfsr_shift ^^ i) reg = (lfsr_shift ^^ k) ((lfsr_shift ^^ i) 1)" for i
    unfolding k using funpow_shift_add [of i k] funpow_shift_add [of k i] by (simp only: add.commute)
  have last: "(lfsr_shift ^^ 255) reg = reg" using move [of 255] unfolding lfsr_one(1) by (simp only: k)
  have "inj_on (\<lambda>i. (lfsr_shift ^^ Suc i) reg) {0 ..< 255}"
    using lfsr_orbit(1) by (auto simp: inj_on_def move dest!: lfsr_shift_inj funpow_inj)
  then have distinct: "distinct (lfsr_values 255 reg)" by (simp add: lfsr_values_map distinct_map)
  have "(lfsr_shift ^^ i) reg \<noteq> 0" for i using assms by (induction i) (simp_all add: lfsr_zero)
  then have sub: "set (lfsr_values 255 reg) \<subseteq> UNIV - {0}" by (auto simp: lfsr_values_map lfsr_zero)
  have "card (UNIV - {0 :: byte}) = 255" by (simp add: card_Diff_subset card_word)
  moreover have "card (set (lfsr_values 255 reg)) = 255"
    using distinct_card [OF distinct] by (simp add: lfsr_values_map)
  ultimately have "set (lfsr_values 255 reg) = UNIV - {0}" by (intro card_subset_eq sub) simp_all
  then show ?thesis using distinct last by (simp add: lfsr_values_map last_map del: funpow.simps)
qed

theorem lfsr_full_period_witness: "last (lfsr_values 255 0x5a) = 0x5a"
  using lfsr_full_period [of "0x5a"] by simp

end
