(* ===== verification/Rects.thy ===== *)
theory Rects
  imports Stdio
begin

text \<open>
  The rectangle check of test_intersect.c: reading the list of rectangles, the intersection of two
  rectangles, and the table of the intersections of each with those before it.
\<close>

definition TEST_RECTS_MAX :: nat where
  "TEST_RECTS_MAX = 16"

record test_rect =
  left :: int
  top :: int
  right :: int
  bottom :: int

section \<open>Intersection\<close>

definition is_intersect :: "test_rect \<Rightarrow> test_rect \<Rightarrow> bool" where
  "is_intersect src dst \<longleftrightarrow>
     \<not> (left src > right dst \<or> right src < left dst \<or> top src > bottom dst \<or> bottom src < top dst)"

text \<open>The rectangle stored in \<open>out\<close>, \<open>None\<close> when nothing is stored.\<close>

definition intersect :: "test_rect \<Rightarrow> test_rect \<Rightarrow> test_rect option" where
  "intersect src dst =
     (if is_intersect src dst then
        Some \<lparr>left = (if left src > left dst then left src else left dst),
              top = (if top src > top dst then top src else top dst),
              right = (if right src < right dst then right src else right dst),
              bottom = (if bottom src < bottom dst then bottom src else bottom dst)\<rparr>
      else None)"

text \<open>The rectangles printed for one index: all zero where there is no intersection.\<close>

definition check_intersect :: "test_rect list \<Rightarrow> nat \<Rightarrow> test_rect list" where
  "check_intersect rects index =
     map (\<lambda>i. case intersect (rects ! index) (rects ! i) of
                Some r \<Rightarrow> r | None \<Rightarrow> \<lparr>left = 0, top = 0, right = 0, bottom = 0\<rparr>)
       [0 ..< index]"

section \<open>Reading\<close>

text \<open>The tokens \<open>strtok\<close> finds between commas; empty ones are skipped.\<close>

fun comma_tokens :: "string \<Rightarrow> string \<Rightarrow> string list" where
  "comma_tokens tok [] = (if tok = [] then [] else [tok])"
| "comma_tokens tok (c # cs) =
     (if c = CHR '','' then (if tok = [] then comma_tokens [] cs else tok # comma_tokens [] cs)
      else comma_tokens (tok @ [c]) cs)"

text \<open>
  A line holds left, top, width and height; with fewer tokens \<open>atoi\<close> is called on a null pointer
  (\<open>None\<close>).
\<close>

definition parse_rect :: "string \<Rightarrow> test_rect option" where
  "parse_rect buffer =
     (case comma_tokens [] buffer of
        l # t # w # h # _ \<Rightarrow>
          Some \<lparr>left = atoi l, top = atoi t, right = atoi l + atoi w - 1, bottom = atoi t + atoi h - 1\<rparr>
      | _ \<Rightarrow> None)"

text \<open>The lines as \<open>fgets\<close> returns them; comment lines are skipped, the table is full at 16.\<close>

fun read_rects :: "string list \<Rightarrow> test_rect list \<Rightarrow> test_rect list option" where
  "read_rects [] rects = Some rects"
| "read_rects (buffer # ls) rects =
     (if take 1 buffer = ''#'' then read_rects ls rects
      else (case parse_rect buffer of
              None \<Rightarrow> None
            | Some r \<Rightarrow>
                let rects' = rects @ [r] in
                if length rects' = TEST_RECTS_MAX then Some rects' else read_rects ls rects'))"

text \<open>The table printed: each rectangle with its intersections, nothing for fewer than two.\<close>

definition rects_main :: "string list \<Rightarrow> (test_rect \<times> test_rect list) list option" where
  "rects_main ls =
     map_option (\<lambda>rects. if 1 < length rects then map (\<lambda>i. (rects ! i, check_intersect rects i)) [0 ..< length rects] else [])
       (read_rects ls [])"

section \<open>Rectangles as sets of points\<close>

definition points :: "test_rect \<Rightarrow> (int \<times> int) set" where
  "points r = {left r .. right r} \<times> {top r .. bottom r}"

lemma points_empty: "points r = {} \<longleftrightarrow> right r < left r \<or> bottom r < top r"
  by (auto simp: points_def)

lemma points_intersect:
  "intersect a b = Some r \<Longrightarrow> points r = points a \<inter> points b"
  by (auto simp: intersect_def points_def split: if_splits)

lemma intersect_None: "intersect a b = None \<Longrightarrow> points a \<inter> points b = {}"
  by (auto simp: intersect_def is_intersect_def points_def split: if_splits)

lemma intersect_points:
  assumes "points a \<noteq> {}" "points b \<noteq> {}" "is_intersect a b"
  shows "points a \<inter> points b \<noteq> {}"
proof -
  have "(max (left a) (left b), max (top a) (top b)) \<in> points a \<inter> points b"
    using assms by (auto simp: points_empty is_intersect_def) (auto simp: points_def)
  then show ?thesis by blast
qed

text \<open>\<open>intersect\<close> computes the intersection: when it stores a rectangle, its points are those
  common to both, and for rectangles that are not empty it stores one exactly when they have a point
  in common.\<close>

theorem intersect_correct:
  assumes "points a \<noteq> {}" "points b \<noteq> {}"
  shows "(case intersect a b of Some r \<Rightarrow> points r | None \<Rightarrow> {}) = points a \<inter> points b \<and>
    (is_intersect a b \<longleftrightarrow> points a \<inter> points b \<noteq> {})"
proof -
  have "intersect a b = None \<longleftrightarrow> \<not> is_intersect a b" by (simp add: intersect_def)
  then have iff: "is_intersect a b \<longleftrightarrow> intersect a b \<noteq> None" by simp
  show ?thesis
  proof (cases "intersect a b")
    case None
    then show ?thesis unfolding iff using intersect_None [OF None] by simp
  next
    case (Some r)
    then show ?thesis
      unfolding iff using points_intersect [OF Some] intersect_points [OF assms] iff by simp
  qed
qed

theorem intersect_correct_witness:
  "is_intersect \<lparr>left = 0, top = 0, right = 4, bottom = 4\<rparr> \<lparr>left = 4, top = 2, right = 9, bottom = 9\<rparr> \<longleftrightarrow>
    points \<lparr>left = 0, top = 0, right = 4, bottom = 4\<rparr> \<inter> points \<lparr>left = 4, top = 2, right = 9, bottom = 9\<rparr> \<noteq> {}"
proof -
  have "points \<lparr>left = 0, top = 0, right = 4, bottom = 4\<rparr> \<noteq> {}" "points \<lparr>left = 4, top = 2, right = 9, bottom = 9\<rparr> \<noteq> {}"
    by (simp_all add: points_empty)
  from intersect_correct [OF this] show ?thesis by blast
qed

text \<open>An empty rectangle inside another is reported as intersecting it.\<close>

lemma empty_intersects:
  "is_intersect \<lparr>left = 5, top = 5, right = 4, bottom = 9\<rparr> \<lparr>left = 0, top = 0, right = 9, bottom = 9\<rparr>"
  "points \<lparr>left = 5, top = 5, right = 4, bottom = 9\<rparr> = {}"
  by (simp_all add: is_intersect_def points_empty)

end
