(* ===== verification/UsbAdb.thy ===== *)
theory UsbAdb
  imports Prelude
begin

text \<open>
  The search for ADB interfaces in usb/test_usb_adb.c: the names that are taken, the walk over the
  descriptors in the buffer of 4096 bytes, and the traversal of the bus directories. The sizes and
  type numbers of descriptors are those of linux/usb/ch9.h. A walk that does not end is \<open>None\<close>, a
  read outside the buffer is \<open>Inl ()\<close>.
\<close>

unbundle bit_operations_syntax

section \<open>Descriptors\<close>

definition USB_DT_DEVICE_SIZE :: nat where "USB_DT_DEVICE_SIZE = 18"
definition USB_DT_CONFIG_SIZE :: nat where "USB_DT_CONFIG_SIZE = 9"
definition USB_DT_INTERFACE_SIZE :: nat where "USB_DT_INTERFACE_SIZE = 9"
definition USB_DT_ENDPOINT_SIZE :: nat where "USB_DT_ENDPOINT_SIZE = 7"
definition USB_DT_DEVICE :: byte where "USB_DT_DEVICE = 1"
definition USB_DT_CONFIG :: byte where "USB_DT_CONFIG = 2"
definition USB_DT_INTERFACE :: byte where "USB_DT_INTERFACE = 4"
definition USB_DT_ENDPOINT :: byte where "USB_DT_ENDPOINT = 5"
definition USB_ENDPOINT_XFER_BULK :: byte where "USB_ENDPOINT_XFER_BULK = 2"
definition USB_ENDPOINT_DIR_MASK :: byte where "USB_ENDPOINT_DIR_MASK = 0x80"

lemmas usb_consts = USB_DT_DEVICE_SIZE_def USB_DT_CONFIG_SIZE_def USB_DT_INTERFACE_SIZE_def
  USB_DT_ENDPOINT_SIZE_def USB_DT_DEVICE_def USB_DT_CONFIG_def USB_DT_INTERFACE_def
  USB_DT_ENDPOINT_def USB_ENDPOINT_XFER_BULK_def USB_ENDPOINT_DIR_MASK_def

text \<open>What is registered of a device.\<close>

record usb_adb =
  ua_ep_in :: byte
  ua_ep_out :: byte
  ua_interface :: byte
  ua_serial :: byte
  ua_zero_mask :: u32

definition is_adb_interface :: "byte \<Rightarrow> byte \<Rightarrow> byte \<Rightarrow> bool" where
  "is_adb_interface usb_class usb_subclass usb_protocol \<longleftrightarrow>
     usb_class = 255 \<and> usb_subclass = 66 \<and> usb_protocol = 1"

text \<open>What one round of the loop does: goes on, ends with or without a device, or reads outside.\<close>

datatype walk = Next nat | Done "usb_adb option" | Overrun

text \<open>
  The part after the interface at \<open>iface\<close> has been accepted, with \<open>p\<close> behind it.
\<close>

definition adb_endpoints :: "byte list \<Rightarrow> nat \<Rightarrow> nat \<Rightarrow> nat \<Rightarrow> walk" where
  "adb_endpoints devdesc desclength iface p =
    (let ep1 = p; ep2 = p + USB_DT_ENDPOINT_SIZE; p' = p + 2 * USB_DT_ENDPOINT_SIZE in
     if p' > desclength \<or>
        unat (devdesc ! ep1) \<noteq> USB_DT_ENDPOINT_SIZE \<or> devdesc ! (ep1 + 1) \<noteq> USB_DT_ENDPOINT \<or>
        unat (devdesc ! ep2) \<noteq> USB_DT_ENDPOINT_SIZE \<or> devdesc ! (ep2 + 1) \<noteq> USB_DT_ENDPOINT then Done None
     else if devdesc ! (ep1 + 3) \<noteq> USB_ENDPOINT_XFER_BULK \<or> devdesc ! (ep2 + 3) \<noteq> USB_ENDPOINT_XFER_BULK then Next p'
     else
       (let zero_mask = (if devdesc ! (iface + 7) = 1
              then (ucast (devdesc ! (ep1 + 4)) OR push_bit 8 (ucast (devdesc ! (ep1 + 5)))) - 1 else 0);
            a1 = devdesc ! (ep1 + 2); a2 = devdesc ! (ep2 + 2);
            (ep_in, ep_out) = (if a1 AND USB_ENDPOINT_DIR_MASK \<noteq> 0 then (a1, a2) else (a2, a1))
        in Done (Some \<lparr>ua_ep_in = ep_in, ua_ep_out = ep_out, ua_interface = devdesc ! (iface + 2),
             ua_serial = devdesc ! 16, ua_zero_mask = zero_mask\<rparr>)))"

text \<open>
  One round at \<open>p\<close>. The type is read behind the length; the four fields of an interface are
  read before anything is compared with the end of the data.
\<close>

definition walk_step :: "byte list \<Rightarrow> nat \<Rightarrow> nat \<Rightarrow> walk" where
  "walk_step devdesc desclength p =
     (if length devdesc \<le> p + 1 then Overrun
      else if devdesc ! (p + 1) = USB_DT_INTERFACE then
        (let p' = p + unat (devdesc ! p) in
         if unat (devdesc ! p) \<noteq> USB_DT_INTERFACE_SIZE then Done None
         else if length devdesc \<le> p + 7 then Overrun
         else if devdesc ! (p + 4) = 2 \<and> is_adb_interface (devdesc ! (p + 5)) (devdesc ! (p + 6)) (devdesc ! (p + 7))
           then adb_endpoints devdesc desclength p p'
         else Next p')
      else Next (p + unat (devdesc ! p)))"

partial_function (option) usb_walk :: "byte list \<Rightarrow> nat \<Rightarrow> nat \<Rightarrow> (unit + usb_adb option) option" where
  [code]: "usb_walk devdesc desclength p =
     (if p < desclength then
        (case walk_step devdesc desclength p of
           Next p' \<Rightarrow> usb_walk devdesc desclength p'
         | Done r \<Rightarrow> Some (Inr r)
         | Overrun \<Rightarrow> Some (Inl ()))
      else Some (Inr None))"

text \<open>
  One device file: \<open>ret\<close> is what \<open>read\<close> returned and \<open>devdesc\<close> the buffer afterwards. As
  \<open>desclength\<close> is unsigned, a failed read passes the test of the size, and the end of the data is
  then before the buffer.
\<close>

definition scan_device :: "int \<Rightarrow> byte list \<Rightarrow> (unit + usb_adb option) option" where
  "scan_device ret devdesc =
     (if 0 \<le> ret \<and> nat ret < USB_DT_DEVICE_SIZE + USB_DT_CONFIG_SIZE then Some (Inr None)
      else if unat (devdesc ! 0) \<noteq> USB_DT_DEVICE_SIZE \<or> devdesc ! 1 \<noteq> USB_DT_DEVICE then Some (Inr None)
      else if unat (devdesc ! 18) \<noteq> USB_DT_CONFIG_SIZE \<or> devdesc ! 19 \<noteq> USB_DT_CONFIG then Some (Inr None)
      else if ret < 0 then Some (Inr None)
      else usb_walk devdesc (nat ret) 27)"

section \<open>The bus directories\<close>

definition badname :: "string \<Rightarrow> bool" where
  "badname name \<longleftrightarrow> \<not> list_all (\<lambda>c. 48 \<le> (of_char c :: nat) \<and> (of_char c :: nat) \<le> 57) name"

text \<open>\<open>snprintf\<close> into 32 bytes.\<close>

definition usb_path :: "string \<Rightarrow> string \<Rightarrow> string" where
  "usb_path base name = take 31 (base @ ''/'' @ name)"

text \<open>The devices of one bus; \<open>files\<close> gives the result of reading a file, \<open>None\<close> if it cannot be opened.\<close>

fun scan_bus :: "(string \<Rightarrow> (int \<times> byte list) option) \<Rightarrow> string \<Rightarrow> string list \<Rightarrow>
    (unit + (string \<times> usb_adb) list) option" where
  "scan_bus files busname [] = Some (Inr [])"
| "scan_bus files busname (d # ds) =
     (if badname d then scan_bus files busname ds
      else (case files (usb_path busname d) of
          None \<Rightarrow> scan_bus files busname ds
        | Some (ret, devdesc) \<Rightarrow>
            (case scan_device ret devdesc of
               None \<Rightarrow> None
             | Some (Inl u) \<Rightarrow> Some (Inl u)
             | Some (Inr r) \<Rightarrow>
                 map_option (map_sum id (\<lambda>rs. (case r of None \<Rightarrow> rs | Some a \<Rightarrow> (usb_path busname d, a) # rs)))
                   (scan_bus files busname ds))))"

text \<open>All buses; \<open>dirs\<close> gives the names in a directory, \<open>None\<close> if it cannot be opened.\<close>

fun scan_buses :: "(string \<Rightarrow> string list option) \<Rightarrow> (string \<Rightarrow> (int \<times> byte list) option) \<Rightarrow> string \<Rightarrow> string list \<Rightarrow>
    (unit + (string \<times> usb_adb) list) option" where
  "scan_buses dirs files base [] = Some (Inr [])"
| "scan_buses dirs files base (b # bs) =
     (if badname b then scan_buses dirs files base bs
      else (case dirs (usb_path base b) of
          None \<Rightarrow> scan_buses dirs files base bs
        | Some ds \<Rightarrow>
            (case scan_bus files (usb_path base b) ds of
               None \<Rightarrow> None
             | Some (Inl u) \<Rightarrow> Some (Inl u)
             | Some (Inr rs) \<Rightarrow> map_option (map_sum id ((@) rs)) (scan_buses dirs files base bs))))"

definition find_usb_device :: "(string \<Rightarrow> string list option) \<Rightarrow> (string \<Rightarrow> (int \<times> byte list) option) \<Rightarrow> string \<Rightarrow>
    (unit + (string \<times> usb_adb) list) option" where
  "find_usb_device dirs files base =
     (case dirs base of None \<Rightarrow> Some (Inr []) | Some bs \<Rightarrow> scan_buses dirs files base bs)"

section \<open>When the walk ends\<close>

text \<open>The positions the walk comes to.\<close>

inductive visits :: "byte list \<Rightarrow> nat \<Rightarrow> nat \<Rightarrow> nat \<Rightarrow> bool" for buf n p where
  start: "visits buf n p p"
| move: "visits buf n p q \<Longrightarrow> q < n \<Longrightarrow> walk_step buf n q = Next q' \<Longrightarrow> visits buf n p q'"

text \<open>A descriptor of length zero that is no interface.\<close>

definition stuck_at :: "byte list \<Rightarrow> nat \<Rightarrow> nat \<Rightarrow> bool" where
  "stuck_at buf n q \<longleftrightarrow> q < n \<and> q + 1 < length buf \<and> buf ! q = 0 \<and> buf ! (q + 1) \<noteq> USB_DT_INTERFACE"

lemma walk_step_Next:
  "walk_step buf n p = Next q \<Longrightarrow> p \<le> q \<and> (p = q \<longrightarrow> p + 1 < length buf \<and> buf ! p = 0 \<and> buf ! (p + 1) \<noteq> USB_DT_INTERFACE)"
  by (auto simp: walk_step_def adb_endpoints_def Let_def usb_consts unsigned_eq_0_iff split: if_splits prod.splits)

lemma stuck_self: "stuck_at buf n q \<Longrightarrow> walk_step buf n q = Next q"
  by (simp add: stuck_at_def walk_step_def)

lemma visits_front: "walk_step buf n p = Next q \<Longrightarrow> p < n \<Longrightarrow> visits buf n q r \<Longrightarrow> visits buf n p r"
  by (rotate_tac 2, induction rule: visits.induct) (auto intro: visits.intros)

lemma usb_walk_ends:
  "(\<And>q. visits buf n p q \<Longrightarrow> \<not> stuck_at buf n q) \<Longrightarrow> usb_walk buf n p \<noteq> None"
proof (induction "n - p" arbitrary: p rule: less_induct)
  case less
  show ?case
  proof (cases "p < n")
    case True
    show ?thesis
    proof (cases "walk_step buf n p")
      case (Next q)
      have "\<not> stuck_at buf n p" using less.prems visits.start by blast
      then have "p < q" using walk_step_Next [OF Next] True by (auto simp: stuck_at_def le_less)
      then have "usb_walk buf n q \<noteq> None"
        using less.prems visits_front [OF Next True] True by (intro less.hyps) auto
      then show ?thesis using True Next by (subst usb_walk.simps) simp
    qed (use True in \<open>(subst usb_walk.simps, simp)+\<close>)
  qed (subst usb_walk.simps, simp)
qed

lemma visits_split:
  "visits buf n p r \<Longrightarrow> r = p \<or> (\<exists>q. p < n \<and> walk_step buf n p = Next q \<and> visits buf n q r)"
  by (induction rule: visits.induct) (auto intro: visits.intros)

lemma usb_walk_partial:
  assumes "usb_walk buf n p = Some r"
    and stop: "\<And>p. p < n \<Longrightarrow> walk_step buf n p = Overrun \<Longrightarrow> P p (Inl ())"
      "\<And>p r. p < n \<Longrightarrow> walk_step buf n p = Done r \<Longrightarrow> P p (Inr r)" "\<And>p. \<not> p < n \<Longrightarrow> P p (Inr None)"
    and go: "\<And>p q r. p < n \<Longrightarrow> walk_step buf n p = Next q \<Longrightarrow> P q r \<Longrightarrow> P p r"
  shows "P p r"
proof -
  have "buf' = buf \<longrightarrow> n' = n \<longrightarrow> P p r" if "usb_walk buf' n' p = Some r" for buf' n' p r
    using that
  proof (rule usb_walk.raw_induct [where P = "\<lambda>buf' n' p r. buf' = buf \<longrightarrow> n' = n \<longrightarrow> P p r", rotated])
    fix walk buf' n' p r
    assume IH: "\<And>buf' n' p r. walk buf' n' p = Some r \<Longrightarrow> buf' = buf \<longrightarrow> n' = n \<longrightarrow> P p r"
      and body: "(if p < n' then (case walk_step buf' n' p of Next p' \<Rightarrow> walk buf' n' p' | Done r \<Rightarrow> Some (Inr r)
          | Overrun \<Rightarrow> Some (Inl ())) else Some (Inr None)) = Some r"
    show "buf' = buf \<longrightarrow> n' = n \<longrightarrow> P p r"
    proof (intro impI)
      assume eq: "buf' = buf" "n' = n"
      show "P p r"
      proof (cases "p < n")
        case True
        then show ?thesis using body IH [of buf n] go stop(1,2) by (cases "walk_step buf n p") (auto simp: eq)
      qed (use body stop(3) in \<open>auto simp: eq\<close>)
    qed
  qed
  then show ?thesis using assms(1) by blast
qed

lemma usb_walk_Some:
  assumes "usb_walk buf n p = Some r" "visits buf n p q"
  shows "\<not> stuck_at buf n q"
proof -
  have "\<forall>q. visits buf n p q \<longrightarrow> \<not> stuck_at buf n q"
  proof (rule usb_walk_partial [OF assms(1), where P = "\<lambda>p _. \<forall>q. visits buf n p q \<longrightarrow> \<not> stuck_at buf n q"])
    fix p q0
    assume step: "p < n" "walk_step buf n p = Next q0" and IH: "\<forall>q. visits buf n q0 q \<longrightarrow> \<not> stuck_at buf n q"
    have "\<not> stuck_at buf n p" using stuck_self [of buf n p] IH step(2) visits.start [of buf n p] by auto
    then show "\<forall>q. visits buf n p q \<longrightarrow> \<not> stuck_at buf n q" using visits_split step(2) IH by (metis walk.inject(1))
  next
    fix p assume "p < n" "walk_step buf n p = Overrun"
    then show "\<forall>q. visits buf n p q \<longrightarrow> \<not> stuck_at buf n q"
      using visits_split [of buf n p] stuck_self [of buf n p] by fastforce
  next
    fix p r assume "p < n" "walk_step buf n p = Done r"
    then show "\<forall>q. visits buf n p q \<longrightarrow> \<not> stuck_at buf n q"
      using visits_split [of buf n p] stuck_self [of buf n p] by fastforce
  next
    fix p assume "\<not> p < n"
    then show "\<forall>q. visits buf n p q \<longrightarrow> \<not> stuck_at buf n q"
      using visits_split [of buf n p] by (auto simp: stuck_at_def)
  qed
  then show ?thesis using assms(2) by blast
qed

section \<open>Reads outside the buffer\<close>

lemma usb_walk_overrun:
  assumes "usb_walk buf n p = Some (Inl u)" "n \<le> length buf"
  shows "length buf < n + 8"
proof -
  have "(Inl u :: unit + usb_adb option) = Inl u \<longrightarrow> length buf < n + 8"
  proof (rule usb_walk_partial [OF assms(1), where P = "\<lambda>_ r. r = Inl u \<longrightarrow> length buf < n + 8"])
    fix p assume "p < n" "walk_step buf n p = Overrun"
    then show "Inl () = Inl u \<longrightarrow> length buf < n + 8"
      by (auto simp: walk_step_def Let_def adb_endpoints_def split: if_splits prod.splits)
  qed auto
  then show ?thesis by simp
qed

section \<open>Finding an interface\<close>

text \<open>
  A list of descriptors as bytes: each begins with its own length, and those the walk passes over
  are not accepted as ADB interfaces.
\<close>

definition usb_descriptor :: "byte list \<Rightarrow> bool" where
  "usb_descriptor d \<longleftrightarrow> 2 \<le> length d \<and> length d = unat (d ! 0) \<and>
     (d ! 1 = USB_DT_INTERFACE \<longrightarrow> length d = USB_DT_INTERFACE_SIZE \<and>
        \<not> (d ! 4 = 2 \<and> is_adb_interface (d ! 5) (d ! 6) (d ! 7)))"

definition adb_descriptor :: "byte list \<Rightarrow> bool" where
  "adb_descriptor d \<longleftrightarrow> length d = USB_DT_INTERFACE_SIZE \<and> d ! 0 = 9 \<and> d ! 1 = USB_DT_INTERFACE \<and> d ! 4 = 2 \<and>
     is_adb_interface (d ! 5) (d ! 6) (d ! 7)"

definition bulk_endpoint :: "byte list \<Rightarrow> bool" where
  "bulk_endpoint d \<longleftrightarrow> length d = USB_DT_ENDPOINT_SIZE \<and> d ! 0 = 7 \<and> d ! 1 = USB_DT_ENDPOINT \<and>
     d ! 3 = USB_ENDPOINT_XFER_BULK"

lemma usb_walk_skips:
  "list_all usb_descriptor ds \<Longrightarrow> p + length (concat ds) < n \<Longrightarrow> n \<le> length buf \<Longrightarrow>
    take (length (concat ds)) (drop p buf) = concat ds \<Longrightarrow>
    usb_walk buf n p = usb_walk buf n (p + length (concat ds))"
proof (induction ds arbitrary: p)
  case (Cons d ds)
  have d: "2 \<le> length d" "length d = unat (d ! 0)"
    "d ! 1 = USB_DT_INTERFACE \<longrightarrow> length d = USB_DT_INTERFACE_SIZE \<and> \<not> (d ! 4 = 2 \<and> is_adb_interface (d ! 5) (d ! 6) (d ! 7))"
    using Cons.prems(1) by (auto simp: usb_descriptor_def)
  have at: "buf ! (p + i) = d ! i" if "i < length d" for i
  proof -
    have "buf ! (p + i) = take (length (concat (d # ds))) (drop p buf) ! i"
      using that Cons.prems(2,3) by simp
    also have "\<dots> = d ! i" using that unfolding Cons.prems(4) by (simp add: nth_append)
    finally show ?thesis .
  qed
  have "drop (length d) (take (length (concat (d # ds))) (drop p buf)) = concat ds"
    unfolding Cons.prems(4) by simp
  then have rest: "take (length (concat ds)) (drop (p + length d) buf) = concat ds"
    by (simp add: drop_take add.commute)
  have "walk_step buf n p = Next (p + length d)"
    using d at [of 0] at [of 1] at [of 4] at [of 5] at [of 6] at [of 7] Cons.prems(2,3)
    by (auto simp: walk_step_def Let_def USB_DT_INTERFACE_SIZE_def)
  then have "usb_walk buf n p = usb_walk buf n (p + length d)"
    using Cons.prems(2) by (subst usb_walk.simps) simp
  then show ?case
    using Cons.IH [OF _ _ Cons.prems(3) rest] Cons.prems(1,2) by (simp add: add.assoc)
qed simp

lemma usb_walk_adb:
  assumes "adb_descriptor d" "bulk_endpoint e1" "bulk_endpoint e2" "take 23 (drop p buf) = d @ e1 @ e2"
    "p + 23 \<le> n" "n \<le> length buf"
  shows "usb_walk buf n p = Some (Inr (Some
    \<lparr>ua_ep_in = (if e1 ! 2 AND USB_ENDPOINT_DIR_MASK \<noteq> 0 then e1 ! 2 else e2 ! 2),
     ua_ep_out = (if e1 ! 2 AND USB_ENDPOINT_DIR_MASK \<noteq> 0 then e2 ! 2 else e1 ! 2),
     ua_interface = d ! 2, ua_serial = buf ! 16,
     ua_zero_mask = (ucast (e1 ! 4) OR push_bit 8 (ucast (e1 ! 5))) - 1\<rparr>))"
proof -
  have at: "buf ! (p + i) = (d @ e1 @ e2) ! i" if "i < 23" for i
    using that assms(5,6) by (simp flip: assms(4))
  have len: "length d = 9" "length e1 = 7" "length e2 = 7"
    using assms(1-3) by (simp_all add: adb_descriptor_def bulk_endpoint_def usb_consts)
  have d: "buf ! (p + i) = d ! i" if "i < 9" for i using at [of i] that len by (simp add: nth_append)
  have e1: "buf ! (p + 9 + i) = e1 ! i" if "i < 7" for i
    using at [of "9 + i"] that len by (simp add: nth_append add.assoc)
  have e2: "buf ! (p + 9 + 7 + i) = e2 ! i" if "i < 7" for i
    using at [of "16 + i"] that len by (simp add: nth_append add.assoc)
  have h: "d ! 0 = 9" "d ! 1 = USB_DT_INTERFACE" "d ! 4 = 2" "is_adb_interface (d ! 5) (d ! 6) (d ! 7)" "d ! 7 = 1"
    using assms(1) by (simp_all add: adb_descriptor_def is_adb_interface_def)
  have "walk_step buf n p = adb_endpoints buf n p (p + 9)"
    using h d [of 0] d [of 1] d [of 4] d [of 5] d [of 6] d [of 7] assms(5,6)
    by (simp add: walk_step_def Let_def USB_DT_INTERFACE_SIZE_def)
  moreover have "adb_endpoints buf n p (p + 9) = Done (Some
    \<lparr>ua_ep_in = (if e1 ! 2 AND USB_ENDPOINT_DIR_MASK \<noteq> 0 then e1 ! 2 else e2 ! 2),
     ua_ep_out = (if e1 ! 2 AND USB_ENDPOINT_DIR_MASK \<noteq> 0 then e2 ! 2 else e1 ! 2),
     ua_interface = d ! 2, ua_serial = buf ! 16,
     ua_zero_mask = (ucast (e1 ! 4) OR push_bit 8 (ucast (e1 ! 5))) - 1\<rparr>)"
    using assms(2,3,5) h(5) d [of 2] d [of 7] e1 [of 0] e1 [of 1] e1 [of 2] e1 [of 3] e1 [of 4] e1 [of 5]
      e2 [of 0] e2 [of 1] e2 [of 2] e2 [of 3]
    unfolding adb_endpoints_def Let_def bulk_endpoint_def USB_DT_ENDPOINT_SIZE_def by simp
  ultimately show ?thesis using assms(5) by (subst usb_walk.simps) simp
qed

section \<open>Properties\<close>

text \<open>C32. The walk over the descriptors ends exactly when it does not come to a descriptor of length
  zero that is no interface; on such a descriptor it stays for ever.\<close>

theorem usb_walk_ends_iff:
  "usb_walk buf n p = None \<longleftrightarrow> (\<exists>q. visits buf n p q \<and> stuck_at buf n q)"
  using usb_walk_ends [of buf n p] usb_walk_Some [of buf n p] by (cases "usb_walk buf n p") auto

text \<open>A device with a descriptor of length zero behind its configuration.\<close>

lemma usb_zero_length_hangs:
  "scan_device 29 ([18, 1] @ replicate 16 0 @ [9, 2] @ replicate 7 0 @ [0, 0, 0]) = None"
proof -
  have "stuck_at ([18, 1] @ replicate 16 0 @ [9, 2] @ replicate 7 0 @ [0, 0, 0]) 29 27"
    by (simp add: stuck_at_def usb_consts nth_append)
  then have "usb_walk ([18, 1] @ replicate 16 0 @ [9, 2] @ replicate 7 0 @ [0, 0, 0]) 29 27 = None"
    using usb_walk_Some visits.start by (metis option.exhaust)
  then show ?thesis by (simp add: scan_device_def usb_consts nth_append)
qed

text \<open>Reads stay inside the buffer when at least eight bytes of it are unused: the type of a
  descriptor and the fields of an interface are read before they are compared with the end of the
  data, so only a device whose descriptors fill the buffer is read past its end.\<close>

theorem usb_reads_inside:
  assumes "ret + 8 \<le> int (length devdesc)"
  shows "scan_device ret devdesc \<noteq> Some (Inl u)"
proof -
  have "usb_walk devdesc (nat ret) 27 \<noteq> Some (Inl u)" if "0 \<le> ret"
    using usb_walk_overrun [of devdesc "nat ret" 27 u] assms that by linarith
  then show ?thesis by (simp add: scan_device_def)
qed

theorem usb_reads_inside_witness: "scan_device 40 (replicate 4096 7) \<noteq> Some (Inl ())"
  by (rule usb_reads_inside) simp

text \<open>C17. An ADB interface is found: when the device and configuration descriptors are followed by any
  descriptors that are passed over, then by the interface and its two bulk endpoints, the device is
  registered with the interface's number, with the endpoint of the input direction as the input, and
  with the packet size less one as the mask.\<close>

theorem usb_finds_adb:
  assumes "length dev = 18" "dev ! 0 = 18" "dev ! 1 = USB_DT_DEVICE"
    "length conf = 9" "conf ! 0 = 9" "conf ! 1 = USB_DT_CONFIG"
    "list_all usb_descriptor ds" "adb_descriptor d" "bulk_endpoint e1" "bulk_endpoint e2"
    "length (dev @ conf @ concat ds @ d @ e1 @ e2) \<le> nat ret" "nat ret \<le> length (dev @ conf @ concat ds @ d @ e1 @ e2 @ rest)"
  shows "scan_device ret (dev @ conf @ concat ds @ d @ e1 @ e2 @ rest) = Some (Inr (Some
    \<lparr>ua_ep_in = (if e1 ! 2 AND USB_ENDPOINT_DIR_MASK \<noteq> 0 then e1 ! 2 else e2 ! 2),
     ua_ep_out = (if e1 ! 2 AND USB_ENDPOINT_DIR_MASK \<noteq> 0 then e2 ! 2 else e1 ! 2),
     ua_interface = d ! 2, ua_serial = dev ! 16,
     ua_zero_mask = (ucast (e1 ! 4) OR push_bit 8 (ucast (e1 ! 5))) - 1\<rparr>))"
proof -
  let ?buf = "dev @ conf @ concat ds @ d @ e1 @ e2 @ rest"
  let ?p = "27 + length (concat ds)"
  have len: "length d = 9" "length e1 = 7" "length e2 = 7"
    using assms(8-10) by (simp_all add: adb_descriptor_def bulk_endpoint_def usb_consts)
  have "usb_walk ?buf (nat ret) 27 = usb_walk ?buf (nat ret) ?p"
    using assms(1,4,11,12) len by (intro usb_walk_skips [OF assms(7)]) simp_all
  moreover have "take 23 (drop ?p ?buf) = d @ e1 @ e2"
    using assms(1,4) len by simp
  moreover have "?buf ! 16 = dev ! 16" using assms(1) by (simp add: nth_append)
  moreover have "scan_device ret ?buf = usb_walk ?buf (nat ret) 27"
    using assms(1-6,11) len by (cases "ret < 0") (simp_all add: scan_device_def USB_DT_DEVICE_SIZE_def USB_DT_CONFIG_SIZE_def nth_append)
  ultimately show ?thesis
    using usb_walk_adb [OF assms(8-10), of ?p ?buf "nat ret"] assms(1,4,11,12) len by simp
qed

definition demo_usb :: "byte list" where
  "demo_usb = ([18, 1] @ replicate 14 0 @ [3, 1]) @ ([9, 2] @ replicate 7 0) @ concat [[9, 4, 0, 0, 1, 8, 6, 80, 0]] @
     [9, 4, 1, 0, 2, 255, 66, 1, 0] @ [7, 5, 0x83, 2, 0, 2, 0] @ [7, 5, 0x02, 2, 0, 2, 0] @ replicate 4000 0"

theorem usb_finds_adb_witness:
  "scan_device 59 demo_usb = Some (Inr (Some
     \<lparr>ua_ep_in = 0x83, ua_ep_out = 2, ua_interface = 1, ua_serial = 3, ua_zero_mask = 511\<rparr>))"
proof -
  have "list_all usb_descriptor [[9, 4, 0, 0, 1, 8, 6, 80, 0]]" "adb_descriptor [9, 4, 1, 0, 2, 255, 66, 1, 0]"
    "bulk_endpoint [7, 5, 0x83, 2, 0, 2, 0]" "bulk_endpoint [7, 5, 0x02, 2, 0, 2, 0]"
    by (simp_all add: usb_descriptor_def adb_descriptor_def bulk_endpoint_def is_adb_interface_def usb_consts)
  from usb_finds_adb [of "[18, 1] @ replicate 14 0 @ [3, 1]" "[9, 2] @ replicate 7 0", OF _ _ _ _ _ _ this,
      of 59 "replicate 4000 0"] show ?thesis
    by (simp add: demo_usb_def usb_consts nth_append)
qed

end
