(* ===== verification/LocalServer.thy ===== *)
theory LocalServer
  imports Prelude
begin

text \<open>
  The local socket server sock_local_server.c: one listening socket and one client that is served,
  a round of the select loop as a function of what the system calls return, and the reachable
  states.
\<close>

section \<open>State\<close>

datatype ls_print = Input_fd int | Client_error int | Message nat "byte list option"

text \<open>
  \<open>ls_open\<close> are the sockets that are open, \<open>glb_rfds\<close> those that select watches; \<open>com_fd\<close> is 0
  when no client is served.
\<close>

record ls_state =
  listen_fd :: int
  com_fd :: int
  glb_rfds :: "int set"
  maxfd :: int
  ls_open :: "int set"
  ls_out :: "ls_print list"

text \<open>
  What the system calls of one round return: the ready sockets (\<open>None\<close> when select fails), the
  socket accepted (negative on failure), the bytes read (\<open>None\<close> on failure).
\<close>

record ls_input =
  ls_ready :: "int set option"
  ls_accept :: int
  ls_read :: "byte list option"

text \<open>The loop goes on, is left, or the program ends at once.\<close>

datatype ls_result = Go ls_state | Leave ls_state | Die ls_state

section \<open>The server\<close>

text \<open>Opening: the exit code 1 with what is still open, or the state before the loop.\<close>

definition ls_start :: "int \<Rightarrow> bool \<Rightarrow> bool \<Rightarrow> int + ls_state" where
  "ls_start sock bind_ok listen_ok =
     (if sock < 0 then Inl 1
      else if \<not> bind_ok then Inl 1
      else if \<not> listen_ok then Inl 1
      else Inr \<lparr>listen_fd = sock, com_fd = 0, glb_rfds = {sock}, maxfd = sock, ls_open = {sock}, ls_out = []\<rparr>)"

definition RECV_SIZE :: nat where
  "RECV_SIZE = 1024"

text \<open>What \<open>%s\<close> prints of the buffer: \<open>None\<close> when the message fills it and has no zero.\<close>

definition recv_text :: "byte list \<Rightarrow> byte list option" where
  "recv_text bs = (if length bs < RECV_SIZE \<or> 0 \<in> set bs then Some (takeWhile (\<lambda>b. b \<noteq> 0) bs) else None)"

definition ls_connect :: "ls_state \<Rightarrow> int \<Rightarrow> ls_state" where
  "ls_connect s fd = s\<lparr>com_fd := fd, glb_rfds := insert fd (glb_rfds s),
     maxfd := (if fd > maxfd s then fd else maxfd s), ls_open := insert fd (ls_open s),
     ls_out := ls_out s @ [Input_fd fd]\<rparr>"

definition ls_serve :: "ls_state \<Rightarrow> byte list option \<Rightarrow> ls_state" where
  "ls_serve s rd =
     (case rd of
        Some (b # bs) \<Rightarrow> s\<lparr>ls_out := ls_out s @ [Message (length (b # bs)) (recv_text (b # bs))]\<rparr>
      | _ \<Rightarrow> s\<lparr>ls_out := ls_out s @ [Client_error (com_fd s)], ls_open := ls_open s - {com_fd s},
               glb_rfds := glb_rfds s - {com_fd s}, com_fd := 0, maxfd := listen_fd s\<rparr>)"

definition ls_round :: "ls_state \<Rightarrow> ls_input \<Rightarrow> ls_result" where
  "ls_round s i =
     (case ls_ready i of
        None \<Rightarrow> Die s
      | Some ready \<Rightarrow>
          if listen_fd s \<in> ready \<and> ls_accept i < 0 then Leave (s\<lparr>com_fd := ls_accept i\<rparr>)
          else (let s1 = (if listen_fd s \<in> ready then ls_connect s (ls_accept i) else s)
                in Go (if com_fd s1 > 0 \<and> com_fd s1 \<in> ready then ls_serve s1 (ls_read i) else s1)))"

text \<open>Behind the loop.\<close>

definition ls_end :: "ls_state \<Rightarrow> ls_state" where
  "ls_end s = s\<lparr>ls_open := ls_open s - (if com_fd s > 0 then {com_fd s} else {}) - {listen_fd s}\<rparr>"

section \<open>Reachable states\<close>

text \<open>select reports watched sockets below the limit only, and a socket accepted was not open.\<close>

definition ls_env :: "ls_state \<Rightarrow> ls_input \<Rightarrow> bool" where
  "ls_env s i \<longleftrightarrow> (\<forall>ready. ls_ready i = Some ready \<longrightarrow> ready \<subseteq> {fd \<in> glb_rfds s. fd \<le> maxfd s}) \<and>
     (ls_accept i \<ge> 0 \<longrightarrow> 0 < ls_accept i \<and> ls_accept i \<notin> ls_open s)"

inductive ls_runs :: "ls_state \<Rightarrow> ls_state \<Rightarrow> bool" for s where
  start: "ls_runs s s"
| round: "ls_runs s t \<Longrightarrow> ls_env t i \<Longrightarrow> ls_round t i = Go u \<Longrightarrow> ls_runs s u"

definition ls_inv :: "ls_state \<Rightarrow> bool" where
  "ls_inv s \<longleftrightarrow> glb_rfds s = ls_open s \<and> 0 \<notin> ls_open s \<and> listen_fd s \<in> ls_open s \<and> 0 < listen_fd s \<and> com_fd s \<noteq> listen_fd s \<and>
     (com_fd s = 0 \<or> 0 < com_fd s \<and> com_fd s \<in> ls_open s)"

lemma ls_inv_start: "0 < sock \<Longrightarrow> ls_start sock True True = Inr s \<Longrightarrow> ls_inv s"
  by (auto simp: ls_start_def ls_inv_def)

lemma ls_serve_simps:
  "ls_serve s (Some (b # bs)) = s\<lparr>ls_out := ls_out s @ [Message (length (b # bs)) (recv_text (b # bs))]\<rparr>"
  "rd = None \<or> rd = Some [] \<Longrightarrow> ls_serve s rd = s\<lparr>ls_out := ls_out s @ [Client_error (com_fd s)],
     ls_open := ls_open s - {com_fd s}, glb_rfds := glb_rfds s - {com_fd s}, com_fd := 0, maxfd := listen_fd s\<rparr>"
  by (auto simp: ls_serve_def)

lemma ls_inv_serve: "ls_inv s \<Longrightarrow> ls_inv (ls_serve s rd)"
  by (cases rd; cases "the rd") (auto simp: ls_serve_def ls_inv_def)

lemma ls_inv_connect: "ls_inv s \<Longrightarrow> 0 < fd \<Longrightarrow> fd \<notin> ls_open s \<Longrightarrow> ls_inv (ls_connect s fd)"
  by (auto simp: ls_connect_def ls_inv_def)

lemma ls_inv_round:
  assumes "ls_inv s" "ls_env s i" "ls_round s i = Go u"
  shows "ls_inv u"
  using assms ls_inv_connect [OF assms(1), of "ls_accept i"]
  by (auto simp: ls_round_def ls_env_def Let_def ls_inv_serve split: option.splits if_splits)

text \<open>A client that is neither served nor listening stays open and unserved.\<close>

definition abandoned :: "int \<Rightarrow> ls_state \<Rightarrow> bool" where
  "abandoned c s \<longleftrightarrow> c \<in> ls_open s \<and> c \<noteq> com_fd s \<and> c \<noteq> listen_fd s \<and> 0 < c"

lemma abandoned_round:
  assumes "abandoned c s" "ls_env s i" "ls_round s i = Go u"
  shows "abandoned c u"
proof -
  have serve: "abandoned c (ls_serve t rd)" if "abandoned c t" for t rd
    using that by (cases rd; cases "the rd") (auto simp: ls_serve_def abandoned_def)
  have "abandoned c (ls_connect s (ls_accept i))" if "\<not> ls_accept i < 0"
    using that assms(1,2) by (auto simp: ls_connect_def abandoned_def ls_env_def)
  then show ?thesis
    using assms(1,3) serve by (auto simp: ls_round_def Let_def split: option.splits if_splits)
qed

text \<open>A client is served until it is gone only if no other connects meanwhile: accepting a
  second client makes the server forget the first, which is then in no later state the one that is
  served, while its socket stays open, is still watched, and is not closed at the end either.\<close>

theorem ls_forgets_client:
  assumes "ls_inv s" "ls_env s i" "ls_ready i = Some ready" "listen_fd s \<in> ready" "0 \<le> ls_accept i" "0 < com_fd s"
    "ls_round s i = Go t" "ls_runs t u"
  shows "com_fd u \<noteq> com_fd s \<and> com_fd s \<in> ls_open u \<and> com_fd s \<in> glb_rfds u \<and> com_fd s \<in> ls_open (ls_end u)"
proof -
  have fresh: "0 < ls_accept i" "ls_accept i \<notin> ls_open s" using assms(2,5) by (auto simp: ls_env_def)
  have old: "com_fd s \<in> ls_open s" "com_fd s \<noteq> listen_fd s" using assms(1,6) by (auto simp: ls_inv_def)
  have "abandoned (com_fd s) (ls_connect s (ls_accept i))"
    using fresh old assms(6) by (auto simp: abandoned_def ls_connect_def)
  moreover have "ls_inv (ls_connect s (ls_accept i))" using assms(1) fresh by (rule ls_inv_connect)
  moreover have "abandoned c (ls_serve w rd)" if "abandoned c w" for c w rd
    using that by (cases rd; cases "the rd") (auto simp: ls_serve_def abandoned_def)
  ultimately have "ls_inv t \<and> abandoned (com_fd s) t"
    using assms(3-5,7) ls_inv_serve by (auto simp: ls_round_def Let_def split: if_splits)
  with assms(8) have "ls_inv u \<and> abandoned (com_fd s) u"
    by (induction rule: ls_runs.induct) (auto intro: ls_inv_round abandoned_round)
  then show ?thesis by (auto simp: abandoned_def ls_inv_def ls_end_def)
qed

definition ls_two_clients :: ls_state where
  "ls_two_clients = \<lparr>listen_fd = 3, com_fd = 4, glb_rfds = {3, 4}, maxfd = 4, ls_open = {3, 4}, ls_out = [Input_fd 4]\<rparr>"

theorem ls_forgets_client_witness:
  "\<exists>t. ls_round ls_two_clients \<lparr>ls_ready = Some {3}, ls_accept = 5, ls_read = None\<rparr> = Go t \<and> 4 \<in> ls_open (ls_end t)"
proof -
  let ?i = "\<lparr>ls_ready = Some {3}, ls_accept = 5, ls_read = None\<rparr>"
  have "ls_inv ls_two_clients" "ls_env ls_two_clients ?i" "0 < com_fd ls_two_clients"
    by (simp_all add: ls_two_clients_def ls_inv_def ls_env_def)
  moreover have go: "ls_round ls_two_clients ?i = Go (ls_connect ls_two_clients 5)"
    by (simp add: ls_two_clients_def ls_round_def ls_connect_def)
  ultimately show ?thesis
    using ls_forgets_client [of ls_two_clients ?i "{3}", OF _ _ _ _ _ _ go ls_runs.start]
    by (simp add: ls_two_clients_def)
qed

text \<open>When no second client is accepted, only the client served is open beside the listening socket.\<close>

lemma ls_single_client:
  assumes "ls_inv s" "ls_open s \<subseteq> {listen_fd s, com_fd s}" "ls_env s i" "ls_round s i = Go u"
    "\<forall>ready. ls_ready i = Some ready \<longrightarrow> listen_fd s \<in> ready \<longrightarrow> com_fd s = 0"
  shows "ls_open u \<subseteq> {listen_fd u, com_fd u}"
proof -
  have serve: "ls_open (ls_serve t rd) \<subseteq> {listen_fd (ls_serve t rd), com_fd (ls_serve t rd)}"
    if "ls_open t \<subseteq> {listen_fd t, com_fd t}" for t rd
    using that by (cases rd; cases "the rd") (auto simp: ls_serve_def)
  have "ls_open (ls_connect s fd) \<subseteq> {listen_fd (ls_connect s fd), com_fd (ls_connect s fd)}" if "com_fd s = 0" for fd
    using that assms(1,2) by (auto simp: ls_connect_def ls_inv_def)
  then show ?thesis
    using assms(2,4,5) serve by (simp add: ls_round_def Let_def split: option.splits if_splits) blast+
qed

end
