(* ===== verification/KernExamples.thy ===== *)
theory KernExamples
  imports Stdio
begin

text \<open>
  Small kernel modules: the page mapped to user space in driver/mymap/drv/mmap.c, and in
  driver/program-examples the process list written to a relay channel (relayfs-exam.c), the
  variables below debugfs (debugfs_exam.c) and the boot parameters (kern-boot-params.c). What the
  kernel answers is an argument.
\<close>

section \<open>The mapped page\<close>

definition PAGE_SIZE :: nat where
  "PAGE_SIZE = 4096"

definition mymap_array :: "nat list" where
  "mymap_array = [0, 1, 2, 3, 4, 5, 6, 7, 8, 9]"

text \<open>A mapping of \<open>vm_size\<close> bytes at \<open>vm_start\<close> to the physical pages from \<open>vm_pfn\<close> on.\<close>

record mymap_vma =
  vm_start :: nat
  vm_size :: nat
  vm_pfn :: nat

text \<open>
  \<open>phys\<close> is the physical address of the buffer and \<open>remap\<close> what \<open>remap_pfn_range\<close> returns; the
  size is the one user space asked for.
\<close>

definition my_map :: "nat \<Rightarrow> nat \<Rightarrow> nat \<Rightarrow> int \<Rightarrow> int \<times> mymap_vma option" where
  "my_map phys start vend remap =
     (if remap \<noteq> 0 then (-1, None)
      else (0, Some \<lparr>vm_start = start, vm_size = vend - start, vm_pfn = phys div PAGE_SIZE\<rparr>))"

text \<open>The physical address a user address stands for.\<close>

definition vma_phys :: "mymap_vma \<Rightarrow> nat \<Rightarrow> nat option" where
  "vma_phys v a =
     (if vm_start v \<le> a \<and> a < vm_start v + vm_size v then Some (vm_pfn v * PAGE_SIZE + (a - vm_start v)) else None)"

text \<open>The attribute shows the first ten bytes.\<close>

definition rng_current_show :: "nat list \<Rightarrow> string" where
  "rng_current_show buffer = concat (map (\<lambda>i. dec_digits (buffer ! i) @ '','') [0 ..< 10]) @ [CHR 10]"

datatype mymap_res = Misc | Buffer | Reserved | Attribute

text \<open>
  Loading: the result of registering the device is overwritten, that of the allocation is not
  looked at; \<open>None\<close> is a write through a null pointer. The buffer's bytes after loading.
\<close>

definition mymap_init :: "int \<Rightarrow> nat list option \<Rightarrow> int \<Rightarrow> (int \<times> mymap_res list \<times> nat list) option" where
  "mymap_init misc_ret page file_ret =
     (case page of
        None \<Rightarrow> None
      | Some buffer \<Rightarrow>
          Some (file_ret,
            (if file_ret = 0 then [Attribute] else []) @ [Reserved, Buffer] @ (if misc_ret = 0 then [Misc] else []),
            mymap_array @ drop 10 buffer))"

text \<open>The driver core removes the attribute with the device.\<close>

definition mymap_exit :: "mymap_res list \<Rightarrow> mymap_res list" where
  "mymap_exit held = remove1 Buffer (remove1 Reserved (remove1 Misc (remove1 Attribute held)))"

text \<open>
  The first page of the mapping is the buffer, when the buffer begins a page; a mapping larger than
  a page shows the physical memory behind it.
\<close>

lemma my_map_page:
  assumes "PAGE_SIZE dvd phys" "my_map phys start vend 0 = (0, Some v)" "start \<le> a" "a < vend"
  shows "vma_phys v a = Some (phys + (a - start))"
  using assms by (auto simp: my_map_def vma_phys_def)

lemma my_map_beyond:
  assumes "PAGE_SIZE dvd phys" "my_map phys start vend 0 = (0, Some v)" "start + PAGE_SIZE < vend"
  shows "vma_phys v (start + PAGE_SIZE) = Some (phys + PAGE_SIZE)"
  using my_map_page [OF assms(1,2), of "start + PAGE_SIZE"] assms(3) by simp

lemma rng_current_show_bounds:
  assumes "list_all (\<lambda>b. b < 256) buffer" "10 \<le> length buffer"
  shows "length (rng_current_show buffer) \<le> 41"
proof -
  have "length (dec_digits b) \<le> 3" if "b < 256" for b
    using that by (simp add: dec_digits.simps [of b] dec_digits.simps [of "b div 10"] dec_digits.simps [of "b div 10 div 10"])
  then have "length (dec_digits (buffer ! i) @ '','') \<le> 4" if "i < 10" for i
    using assms that by (auto simp: list_all_length)
  then have "(\<Sum>i \<leftarrow> [0 ..< 10]. length (dec_digits (buffer ! i) @ '','')) \<le> (\<Sum>i \<leftarrow> [0 ..< 10 :: nat]. 4)"
    by (intro sum_list_mono) auto
  then show ?thesis by (simp add: rng_current_show_def length_concat comp_def sum_list_triv)
qed

lemma rng_current_show_loaded:
  "mymap_init m (Some page) 0 = Some (r, held, buffer) \<Longrightarrow> rng_current_show buffer = ''0,1,2,3,4,5,6,7,8,9,'' @ [CHR 10]"
proof -
  assume "mymap_init m (Some page) 0 = Some (r, held, buffer)"
  then have b: "buffer = mymap_array @ drop 10 page" by (simp add: mymap_init_def)
  have ten: "[0 ..< 10] = [0, 1, 2, 3, 4, 5, 6, 7, 8, 9 :: nat]" by code_simp
  have "dec_digits i = [digit_char i]" if "i < 10" for i using that by (simp add: dec_digits.simps [of i])
  then have "map (\<lambda>i. dec_digits (buffer ! i) @ '','') [0 ..< 10] = map (\<lambda>i. digit_char i # '','') [0 ..< 10]"
    unfolding b ten by (simp add: mymap_array_def)
  moreover have "concat (map (\<lambda>i. digit_char i # '','') [0 ..< 10]) = ''0,1,2,3,4,5,6,7,8,9,''" by code_simp
  ultimately show ?thesis by (simp only: rng_current_show_def)
qed

text \<open>Loading reports success although the device could not be registered.\<close>

lemma mymap_init_ignores_misc: "\<exists>held b. mymap_init (-16) (Some page) 0 = Some (0, held, b) \<and> Misc \<notin> set held"
  by (simp add: mymap_init_def)

lemma mymap_roundtrip: "mymap_init 0 page 0 = Some (r, held, b) \<Longrightarrow> mymap_exit held = []"
  by (auto simp: mymap_init_def mymap_exit_def split: option.splits)

section \<open>The relay channel\<close>

text \<open>One round of the timer: the lines written for the processes, a name with its number each.\<close>

definition relay_lines :: "(string \<times> nat) list \<Rightarrow> string list" where
  "relay_lines tasks =
     [''Current all the processes:'' @ [CHR 10] @ ''process name'' @ [CHR 9, CHR 9] @ ''pid'' @ [CHR 10]] @
     map (\<lambda>(comm, pid). comm @ [CHR 9, CHR 9] @ dec_digits pid @ [CHR 10]) tasks @ [[CHR 10, CHR 10]]"

text \<open>The lines fit the buffer of 256 bytes: a name has at most 15 characters.\<close>

lemma relay_lines_fit:
  assumes "list_all (\<lambda>(comm, pid). length comm \<le> 15 \<and> length (dec_digits pid) \<le> 20) tasks" "l \<in> set (relay_lines tasks)"
  shows "length l < 256"
  using assms by (auto simp: relay_lines_def list_all_iff)

text \<open>
  The start of a sub-buffer: the padding of the last one is stored in its first bytes; a full
  buffer refuses. The result is the answer and whether room is reserved.
\<close>

definition subbuf_start :: "nat option \<Rightarrow> nat \<Rightarrow> bool \<Rightarrow> int \<times> (nat \<times> nat) option \<times> bool" where
  "subbuf_start prev_subbuf prev_padding full =
     (let stored = map_option (\<lambda>sub. (sub, prev_padding)) prev_subbuf in
      if full then (0, stored, False) else (1, stored, True))"

datatype relay_res = Chan | Timer

definition relay_init :: "bool \<Rightarrow> int \<times> relay_res list" where
  "relay_init opened = (if opened then (0, [Timer, Chan]) else (1, []))"

definition relay_cleanup :: "relay_res list \<Rightarrow> relay_res list" where
  "relay_cleanup held = remove1 Chan (remove1 Timer held)"

lemma relay_roundtrip: "relay_cleanup (snd (relay_init opened)) = []"
  by (simp add: relay_init_def relay_cleanup_def)

section \<open>The debugfs variables\<close>

text \<open>The entries that exist after loading: what could be created of the four, below the directory.\<close>

definition debugfs_init :: "bool \<Rightarrow> bool \<Rightarrow> bool \<Rightarrow> bool \<Rightarrow> bool \<Rightarrow> int \<times> string list" where
  "debugfs_init dir e8 e16 e32 eb =
     (if \<not> dir then (1, [])
      else (0, (if eb then [''bool-var''] else []) @ (if e32 then [''u32-var''] else []) @
        (if e16 then [''u16-var''] else []) @ (if e8 then [''u8-var''] else []) @ [''debugfs-exam'']))"

definition debugfs_exit :: "string list \<Rightarrow> string list" where
  "debugfs_exit held = fold remove1 [''u8-var'', ''u16-var'', ''u32-var'', ''bool-var'', ''debugfs-exam''] held"

lemma debugfs_roundtrip: "debugfs_exit (snd (debugfs_init dir e8 e16 e32 eb)) = []"
  by (simp add: debugfs_init_def debugfs_exit_def)

section \<open>Boot parameters\<close>

text \<open>
  \<open>get_option\<close> returns 0, 1 or more with the number read, \<open>get_options\<close> the rest of the string
  and the array; both are the kernel's.
\<close>

definition MAX_SIZE :: nat where
  "MAX_SIZE = 5"

definition boot_parse_int :: "(string \<Rightarrow> nat \<times> int) \<Rightarrow> string \<Rightarrow> int option" where
  "boot_parse_int get_option s = (let (ret, v) = get_option s in if ret = 1 then Some v else None)"

text \<open>What is printed of the array: all its places, and the count in the first one; or the rest.\<close>

definition boot_parse_ints :: "(string \<Rightarrow> nat \<Rightarrow> string \<times> int list) \<Rightarrow> string \<Rightarrow> string + (int list \<times> int)" where
  "boot_parse_ints get_options s =
     (let (rest, a) = get_options s MAX_SIZE in
      if rest \<noteq> [] then Inl rest else Inr (map (\<lambda>i. a ! i) [1 ..< MAX_SIZE], a ! 0))"

text \<open>A string of at most 15 characters is kept in the 16 bytes.\<close>

definition boot_parse_string :: "string \<Rightarrow> string \<Rightarrow> string" where
  "boot_parse_string old s = (if length s > 15 then old else s)"

lemma boot_parse_string_fits: "length old < 16 \<Longrightarrow> length (boot_parse_string old s) < 16"
  by (simp add: boot_parse_string_def)

end
