(* ===== verification/InputMon.thy ===== *)
theory InputMon
  imports Prelude
begin

text \<open>
  The monitor of input devices test_inotify.c: the hash code of a path, the list of open devices
  and their registration with epoll, opening and closing a device, the events of inotify, and one
  round of the main loop. Memory errors are \<open>None\<close>: a copy or a read outside an array, and the use
  of an address where there is no device record. A device record is known by its 64-bit address; what
  epoll keeps of it are the low 32 bits.
\<close>

unbundle bit_operations_syntax

section \<open>The hash code\<close>

definition NAME_SIZE :: nat where "NAME_SIZE = 128"
definition PATH_MAX :: nat where "PATH_MAX = 4096"

definition le32 :: "byte list \<Rightarrow> nat \<Rightarrow> u32" where
  "le32 m p = ucast (m ! p) OR push_bit 8 (ucast (m ! (p + 1))) OR push_bit 16 (ucast (m ! (p + 2))) OR
     push_bit 24 (ucast (m ! (p + 3)))"

definition c_strlen :: "byte list \<Rightarrow> nat" where
  "c_strlen m = length (takeWhile (\<lambda>b. b \<noteq> 0) m)"

definition hash_mix :: "u32 \<Rightarrow> u32 \<Rightarrow> u32" where
  "hash_mix num w = ((push_bit 5 num + num) + signed_drop_bit 27 num) XOR w"

text \<open>
  \<open>mem\<close> is the array the string begins in, \<open>p\<close> the offset of \<open>numPtr\<close>: it moves on by eight bytes
  while the count of the string goes down by four.
\<close>

function hash_loop :: "byte list \<Rightarrow> int \<Rightarrow> nat \<Rightarrow> u32 \<Rightarrow> u32 \<Rightarrow> u32 option" where
  "hash_loop mem i p num num2 =
     (if i \<le> 0 then Some (num + num2 * 0x5d588b65)
      else if length mem < p + 4 then None
      else (let num' = hash_mix num (le32 mem p) in
        if i \<le> 2 then Some (num' + num2 * 0x5d588b65)
        else if length mem < p + 8 then None
        else hash_loop mem (i - 4) (p + 8) num' (hash_mix num2 (le32 mem (p + 4)))))"
  by auto
termination by (relation "measure (\<lambda>(mem, i, p, num, num2). nat i)") auto

declare hash_loop.simps [simp del]

definition get_hash_code :: "byte list \<Rightarrow> u32 option" where
  "get_hash_code mem = hash_loop mem (int (c_strlen mem)) 0 0x15051505 0x15051505"

section \<open>Devices\<close>

record input_device =
  d_addr :: "64 word"
  d_name :: "byte list"
  d_hash :: u32
  d_fd :: int

text \<open>
  The list; the descriptors registered with epoll, each with the 32 bits of data it was registered
  with; the descriptors of devices that are open; the addresses of the records allocated and not
  freed.
\<close>

record im_state =
  device_list :: "input_device list"
  epoll_set :: "(int \<times> u32) set"
  im_fds :: "int set"
  im_live :: "64 word set"

text \<open>
  What the calls of \<open>open_device\<close> return: the descriptor, whether the version and the identifier
  can be read, the record allocated with what is in its name before, and whether the descriptor
  could be registered with epoll, which the program does not look at.
\<close>

record open_input =
  oi_fd :: int
  oi_version :: bool
  oi_id :: bool
  oi_malloc :: "(64 word \<times> byte list) option"
  oi_epoll :: bool

text \<open>The answers for the event at a position, in a state.\<close>

type_synonym input_env = "nat \<Rightarrow> im_state \<Rightarrow> open_input"

text \<open>\<open>strcpy\<close> of a string to the beginning of an array.\<close>

definition c_strcpy :: "byte list \<Rightarrow> byte list \<Rightarrow> byte list option" where
  "c_strcpy dst s = (if length s < length dst then Some (s @ 0 # drop (length s + 1) dst) else None)"

definition open_device :: "byte list \<Rightarrow> open_input \<Rightarrow> im_state \<Rightarrow> (int \<times> im_state) option" where
  "open_device path i s =
     (if oi_fd i < 0 \<or> \<not> oi_version i \<or> \<not> oi_id i then Some (-1, s)
      else (case oi_malloc i of
          None \<Rightarrow> Some (-1, s)
        | Some (addr, old) \<Rightarrow>
            (case c_strcpy old path of
               None \<Rightarrow> None
             | Some name \<Rightarrow>
                 (case get_hash_code name of
                    None \<Rightarrow> None
                  | Some h \<Rightarrow> Some (0, s\<lparr>device_list := \<lparr>d_addr = addr, d_name = name, d_hash = h, d_fd = oi_fd i\<rparr> # device_list s,
                      epoll_set := (if oi_epoll i then insert (oi_fd i, ucast addr) (epoll_set s) else epoll_set s),
                      im_fds := insert (oi_fd i) (im_fds s), im_live := insert addr (im_live s)\<rparr>)))))"

text \<open>Unlinking the first device with the hash code.\<close>

fun unlink_hash :: "u32 \<Rightarrow> input_device list \<Rightarrow> (input_device \<times> input_device list) option" where
  "unlink_hash h [] = None"
| "unlink_hash h (d # ds) =
     (if d_hash d = h then Some (d, ds) else map_option (\<lambda>(e, es). (e, d # es)) (unlink_hash h ds))"

text \<open>\<open>mem\<close> is the array that holds the path.\<close>

definition close_device :: "byte list \<Rightarrow> im_state \<Rightarrow> (int \<times> im_state) option" where
  "close_device mem s =
     (case get_hash_code mem of
        None \<Rightarrow> None
      | Some h \<Rightarrow>
          if device_list s = [] then Some (-1, s)
          else (case unlink_hash h (device_list s) of
              None \<Rightarrow> Some (0, s)
            | Some (d, ds) \<Rightarrow> Some (0, s\<lparr>device_list := ds, epoll_set := {e \<in> epoll_set s. fst e \<noteq> d_fd d},
                im_fds := im_fds s - {d_fd d}, im_live := im_live s - {d_addr d}\<rparr>)))"

section \<open>Notifications\<close>

definition IN_CREATE :: u32 where "IN_CREATE = 0x100"

text \<open>\<open>/dev/input/\<close>\<close>

definition DEVICE_PATH :: "byte list" where
  "DEVICE_PATH = [0x2f, 0x64, 0x65, 0x76, 0x2f, 0x69, 0x6e, 0x70, 0x75, 0x74, 0x2f]"

text \<open>
  The events in what was read: 16 bytes of fields, then a name of \<open>len\<close> bytes. The array \<open>devname\<close>
  keeps behind the current path what earlier paths have left there. \<open>env\<close> gives the answers for
  the event at a position.
\<close>

function notify_loop :: "input_env \<Rightarrow> nat \<Rightarrow> byte list \<Rightarrow> byte list \<Rightarrow> im_state \<Rightarrow> im_state option" where
  "notify_loop env pos ev devname s =
     (if length ev < 16 then Some s
      else (let mask = le32 ev 4; len = unat (le32 ev 12); rest = drop (16 + len) ev; pos' = pos + 16 + len in
        if len = 0 then notify_loop env pos' rest devname s
        else (case c_strcpy devname (DEVICE_PATH @ takeWhile (\<lambda>b. b \<noteq> 0) (drop 16 ev)) of
            None \<Rightarrow> None
          | Some devname' \<Rightarrow>
              (case (if mask AND IN_CREATE \<noteq> 0 then open_device (takeWhile (\<lambda>b. b \<noteq> 0) devname') (env pos s) s
                     else close_device devname' s) of
                 None \<Rightarrow> None
               | Some (r, s') \<Rightarrow> notify_loop env pos' rest devname' s'))))"
  by auto
termination by (relation "measure (\<lambda>(env, pos, ev, devname, s). length ev)") auto

declare notify_loop.simps [simp del]

text \<open>\<open>devname\<close> is the array as it is before the directory is copied into it.\<close>

definition read_notify_event :: "input_env \<Rightarrow> byte list \<Rightarrow> byte list \<Rightarrow> im_state \<Rightarrow> im_state option" where
  "read_notify_event env ev devname s =
     (if length ev < 16 then Some s
      else (case c_strcpy devname (butlast DEVICE_PATH) of
          None \<Rightarrow> None
        | Some devname' \<Rightarrow> notify_loop env 0 ev (devname'[10 := 0x2f]) s))"

text \<open>The devices there are at the start: all names in the directory but the two dotted ones.\<close>

fun scan_device_dir :: "input_env \<Rightarrow> nat \<Rightarrow> byte list list \<Rightarrow> im_state \<Rightarrow> im_state option" where
  "scan_device_dir env pos [] s = Some s"
| "scan_device_dir env pos (n # ns) s =
     (if n = [0x2e] \<or> n = [0x2e, 0x2e] then scan_device_dir env (pos + 1) ns s
      else if PATH_MAX \<le> length (DEVICE_PATH @ n) then None
      else (case open_device (DEVICE_PATH @ n) (env pos s) s of
          None \<Rightarrow> None
        | Some (r, s') \<Rightarrow> scan_device_dir env (pos + 1) ns s'))"

section \<open>Input events\<close>

record input_event =
  ie_type :: nat
  ie_code :: nat
  ie_value :: int

text \<open>What is printed of the events read: keys (type 1) and relative moves (type 2).\<close>

definition read_input_event :: "input_event list \<Rightarrow> (nat \<times> nat \<times> int) list" where
  "read_input_event evs = map (\<lambda>e. (ie_type e, ie_code e, ie_value e))
     (filter (\<lambda>e. ie_type e = 1 \<or> ie_type e = 2) (take 16 evs))"

section \<open>The main loop\<close>

definition EPOLL_ID_INOTIFY :: u32 where "EPOLL_ID_INOTIFY = 0x80000001"

text \<open>
  An item that epoll returns: its data, what is read of the notifications (with the answers for
  them and the array \<open>devname\<close> as it is before), and what is read from a device.
\<close>

record pending_item =
  pi_data :: u32
  pi_env :: input_env
  pi_ev :: "byte list"
  pi_devname :: "byte list"
  pi_inputs :: "int \<Rightarrow> input_event list"

text \<open>
  The data of an item is notification or is taken for the address of a record, with zeros for the
  upper 32 bits; nothing is printed for an address of zero.
\<close>

fun handle_pending :: "pending_item list \<Rightarrow> im_state \<Rightarrow> (im_state \<times> (nat \<times> nat \<times> int) list) option" where
  "handle_pending [] s = Some (s, [])"
| "handle_pending (p # ps) s =
     (if pi_data p = EPOLL_ID_INOTIFY then
        (case read_notify_event (pi_env p) (pi_ev p) (pi_devname p) s of
           None \<Rightarrow> None
         | Some s' \<Rightarrow> handle_pending ps s')
      else (let pdev = ucast (pi_data p) :: 64 word in
        if pdev = 0 then handle_pending ps s
        else if pdev \<notin> im_live s then None
        else (case find (\<lambda>d. d_addr d = pdev) (device_list s) of
                None \<Rightarrow> None
              | Some d \<Rightarrow> map_option (\<lambda>(s', out). (s', read_input_event (pi_inputs p (d_fd d)) @ out)) (handle_pending ps s))))"

section \<open>The invariant\<close>

text \<open>
  The devices in the list are exactly those whose descriptors are open and those whose records are
  allocated, each with an address and a descriptor of its own. What is registered with epoll is the
  descriptor of a device in the list, with the low half of its address.
\<close>

definition malloc_addr :: "64 word \<Rightarrow> bool" where
  "malloc_addr a \<longleftrightarrow> a \<noteq> 0 \<and> even a"

definition registration :: "input_device \<Rightarrow> int \<times> u32" where
  "registration d = (d_fd d, ucast (d_addr d))"

definition im_ok :: "im_state \<Rightarrow> bool" where
  "im_ok s \<longleftrightarrow> distinct (map d_addr (device_list s)) \<and> distinct (map d_fd (device_list s)) \<and>
     epoll_set s \<subseteq> registration ` set (device_list s) \<and> im_fds s = d_fd ` set (device_list s) \<and>
     im_live s = d_addr ` set (device_list s) \<and> (\<forall>d \<in> set (device_list s). malloc_addr (d_addr d))"

definition all_registered :: "im_state \<Rightarrow> bool" where
  "all_registered s \<longleftrightarrow> registration ` set (device_list s) \<subseteq> epoll_set s"

definition im_initial :: im_state where
  "im_initial = \<lparr>device_list = [], epoll_set = {}, im_fds = {}, im_live = {}\<rparr>"

lemma im_ok_initial: "im_ok im_initial"
  by (simp add: im_ok_def im_initial_def)

text \<open>The system gives descriptors that are not open and memory that is not in use; an address is
  not zero, and even.\<close>

definition fresh_answer :: "open_input \<Rightarrow> im_state \<Rightarrow> bool" where
  "fresh_answer i s \<longleftrightarrow> oi_fd i \<notin> d_fd ` set (device_list s) \<and>
     (case oi_malloc i of None \<Rightarrow> True
      | Some (a, old) \<Rightarrow> a \<notin> d_addr ` set (device_list s) \<and> malloc_addr a \<and> length old = NAME_SIZE)"

definition fresh_env :: "input_env \<Rightarrow> bool" where
  "fresh_env env \<longleftrightarrow> (\<forall>pos s. fresh_answer (env pos s) s)"

text \<open>Whether every registration with epoll succeeds.\<close>

definition adds_env :: "input_env \<Rightarrow> bool" where
  "adds_env env \<longleftrightarrow> (\<forall>pos s. oi_epoll (env pos s))"

definition add_device :: "open_input \<Rightarrow> 64 word \<Rightarrow> byte list \<Rightarrow> u32 \<Rightarrow> im_state \<Rightarrow> im_state" where
  "add_device i a n h s = s\<lparr>device_list := \<lparr>d_addr = a, d_name = n, d_hash = h, d_fd = oi_fd i\<rparr> # device_list s,
    epoll_set := (if oi_epoll i then insert (oi_fd i, ucast a) (epoll_set s) else epoll_set s),
    im_fds := insert (oi_fd i) (im_fds s), im_live := insert a (im_live s)\<rparr>"

definition remove_device :: "input_device \<Rightarrow> input_device list \<Rightarrow> im_state \<Rightarrow> im_state" where
  "remove_device d ds s = s\<lparr>device_list := ds, epoll_set := {e \<in> epoll_set s. fst e \<noteq> d_fd d},
     im_fds := im_fds s - {d_fd d}, im_live := im_live s - {d_addr d}\<rparr>"

text \<open>Two states in which a round keeps what there is: the invariant, and that every device is
  registered when it was and when registering succeeds.\<close>

definition im_keeps :: "bool \<Rightarrow> im_state \<Rightarrow> im_state \<Rightarrow> bool" where
  "im_keeps adds s s' \<longleftrightarrow> im_ok s' \<and> (all_registered s \<and> adds \<longrightarrow> all_registered s')"

lemma im_keeps_refl: "im_ok s \<Longrightarrow> im_keeps adds s s"
  by (simp add: im_keeps_def)

lemma im_keeps_trans: "im_keeps adds s s' \<Longrightarrow> im_keeps adds' s' s'' \<Longrightarrow> (adds'' \<Longrightarrow> adds \<and> adds') \<Longrightarrow> im_keeps adds'' s s''"
  by (simp add: im_keeps_def)

lemma open_device_Some:
  assumes "open_device path i s = Some (r, s')"
  shows "s' = s \<or> (\<exists>a old n h. oi_malloc i = Some (a, old) \<and> s' = add_device i a n h s)"
  using assms unfolding open_device_def add_device_def
  by (cases "oi_malloc i"; cases "c_strcpy (snd (the (oi_malloc i))) path"; auto split: if_splits option.splits; blast)

lemma im_keeps_add:
  assumes "im_ok s" "a \<notin> d_addr ` set (device_list s)" "malloc_addr a" "oi_fd i \<notin> d_fd ` set (device_list s)"
  shows "im_keeps (oi_epoll i) s (add_device i a n h s)"
  using assms unfolding im_keeps_def im_ok_def all_registered_def add_device_def
  by (auto simp: registration_def)

lemma im_keeps_open:
  assumes "im_ok s" "fresh_answer i s" "open_device path i s = Some (r, s')"
  shows "im_keeps (oi_epoll i) s s'"
  using open_device_Some [OF assms(3)] assms(1,2) im_keeps_add im_keeps_refl unfolding fresh_answer_def by auto

lemma unlink_hash_Some:
  "unlink_hash h ds = Some (d, ds') \<Longrightarrow> \<exists>as bs. ds = as @ d # bs \<and> ds' = as @ bs \<and> d_hash d = h \<and> h \<notin> d_hash ` set as"
proof (induction ds arbitrary: ds')
  case (Cons e es)
  show ?case
  proof (cases "d_hash e = h")
    case True
    then have "e # es = [] @ d # ds' \<and> ds' = [] @ ds' \<and> d_hash d = h \<and> h \<notin> d_hash ` set []" using Cons.prems by simp
    then show ?thesis by blast
  next
    case False
    then obtain es' where es': "unlink_hash h es = Some (d, es')" "ds' = e # es'" using Cons.prems by auto
    from Cons.IH [OF es'(1)] obtain as bs where
      "es = as @ d # bs" "es' = as @ bs" "d_hash d = h" "h \<notin> d_hash ` set as" by blast
    then have "e # es = (e # as) @ d # bs \<and> ds' = (e # as) @ bs \<and> d_hash d = h \<and> h \<notin> d_hash ` set (e # as)"
      using False es'(2) by auto
    then show ?thesis by blast
  qed
qed simp

lemma unlink_hash_None: "unlink_hash h ds = None \<longleftrightarrow> h \<notin> d_hash ` set ds"
  by (induction ds) auto

lemma close_device_Some:
  assumes "close_device mem s = Some (r, s')"
  shows "s' = s \<or> (\<exists>h as d bs. get_hash_code mem = Some h \<and> device_list s = as @ d # bs \<and> d_hash d = h \<and> h \<notin> d_hash ` set as \<and>
    s' = remove_device d (as @ bs) s)"
proof (cases "s' = s")
  case False
  then obtain h d ds where h: "get_hash_code mem = Some h" and u: "unlink_hash h (device_list s) = Some (d, ds)"
    and s': "s' = remove_device d ds s"
    using assms by (cases "get_hash_code mem"; cases "device_list s = []"; cases "unlink_hash (the (get_hash_code mem)) (device_list s)")
      (auto simp: close_device_def remove_device_def)
  from unlink_hash_Some [OF u] h s' show ?thesis by blast
qed simp

lemma im_keeps_remove:
  assumes "im_ok s" "device_list s = as @ d # bs"
  shows "im_keeps adds s (remove_device d (as @ bs) s)"
proof -
  have d: "d_addr d \<notin> d_addr ` set (as @ bs)" "distinct (map d_addr (as @ bs))"
    "d_fd d \<notin> d_fd ` set (as @ bs)" "distinct (map d_fd (as @ bs))"
    using assms(1) unfolding im_ok_def assms(2) by auto
  have "im_ok (remove_device d (as @ bs) s)"
    using assms d unfolding im_ok_def remove_device_def by (simp, auto simp: registration_def)
  moreover have "all_registered (remove_device d (as @ bs) s)" if "all_registered s"
  proof -
    have "d_fd e \<noteq> d_fd d" if "e \<in> set (as @ bs)" for e using d(3) that by (metis imageI)
    then show ?thesis using that assms(2) unfolding all_registered_def remove_device_def by (auto simp: registration_def)
  qed
  ultimately show ?thesis by (simp add: im_keeps_def)
qed

lemma im_keeps_close:
  assumes "im_ok s" "close_device mem s = Some (r, s')"
  shows "im_keeps adds s s'"
  using close_device_Some [OF assms(2)] assms(1) im_keeps_remove im_keeps_refl by blast

lemma im_keeps_notify:
  assumes "fresh_env env"
  shows "im_ok s \<Longrightarrow> notify_loop env pos ev devname s = Some s' \<Longrightarrow> im_keeps (adds_env env) s s'"
proof (induction "length ev" arbitrary: pos ev devname s rule: less_induct)
  case less
  define mask len rest where "mask = le32 ev 4" and "len = unat (le32 ev 12)" and "rest = drop (16 + len) ev"
  show ?case
  proof (cases "length ev < 16")
    case True
    then show ?thesis using less.prems by (simp add: notify_loop.simps [of env pos ev] im_keeps_refl)
  next
    case False
    then have shorter: "length rest < length ev" by (simp add: rest_def)
    note step = less.prems(2) [unfolded notify_loop.simps [of env pos ev] Let_def, folded mask_def len_def, folded rest_def]
    show ?thesis
    proof (cases "len = 0")
      case True
      then show ?thesis using step False less.hyps [OF shorter] less.prems(1) by simp
    next
      case ne: False
      obtain devname' r s1 where c: "c_strcpy devname (DEVICE_PATH @ takeWhile (\<lambda>b. b \<noteq> 0) (drop 16 ev)) = Some devname'"
        and o: "(if mask AND IN_CREATE \<noteq> 0 then open_device (takeWhile (\<lambda>b. b \<noteq> 0) devname') (env pos s) s
                     else close_device devname' s) = Some (r, s1)"
        and l: "notify_loop env (pos + 16 + len) rest devname' s1 = Some s'"
        using step False ne by (simp split: option.splits prod.splits)
      have "fresh_answer (env pos s) s" using assms by (simp add: fresh_env_def)
      then have k: "im_keeps (oi_epoll (env pos s)) s s1"
        using o im_keeps_open im_keeps_close less.prems(1) by (metis (full_types))
      then have "im_keeps (adds_env env) s1 s'" using less.hyps [OF shorter _ l] by (simp add: im_keeps_def)
      with k show ?thesis by (rule im_keeps_trans) (simp add: adds_env_def)
    qed
  qed
qed

lemma im_keeps_read_notify:
  assumes "fresh_env env" "im_ok s" "read_notify_event env ev devname s = Some s'"
  shows "im_keeps (adds_env env) s s'"
  using assms im_keeps_notify [OF assms(1)] im_keeps_refl by (auto simp: read_notify_event_def split: if_splits option.splits)

lemma im_keeps_scan:
  "fresh_env env \<Longrightarrow> im_ok s \<Longrightarrow> scan_device_dir env pos ns s = Some s' \<Longrightarrow> im_keeps (adds_env env) s s'"
proof (induction env pos ns s rule: scan_device_dir.induct)
  case (2 env pos n ns s)
  show ?case
  proof (cases "n = [0x2e] \<or> n = [0x2e, 0x2e]")
    case False
    then obtain r s1 where o: "open_device (DEVICE_PATH @ n) (env pos s) s = Some (r, s1)"
      and l: "scan_device_dir env (pos + 1) ns s1 = Some s'"
      using "2.prems"(3) by (auto split: if_splits option.splits)
    have "fresh_answer (env pos s) s" using "2.prems"(1) by (simp add: fresh_env_def)
    from im_keeps_open [OF "2.prems"(2) this o] have k: "im_keeps (oi_epoll (env pos s)) s s1" .
    have "im_keeps (adds_env env) s1 s'"
      using "2.IH"(2) [OF False _ o refl "2.prems"(1) _ l] k "2.prems"(3) False by (auto simp: im_keeps_def split: if_splits)
    with k show ?thesis by (rule im_keeps_trans) (simp add: adds_env_def)
  qed (use 2 in auto)
qed (simp add: im_keeps_refl)

definition fresh_item :: "pending_item \<Rightarrow> bool" where
  "fresh_item p \<longleftrightarrow> fresh_env (pi_env p) \<and> length (pi_devname p) = PATH_MAX"

lemma im_keeps_pending:
  "list_all fresh_item ps \<Longrightarrow> im_ok s \<Longrightarrow> handle_pending ps s = Some (s', out) \<Longrightarrow>
    im_keeps (list_all (\<lambda>p. adds_env (pi_env p)) ps) s s'"
proof (induction ps arbitrary: s out)
  case (Cons p ps)
  show ?case
  proof (cases "pi_data p = EPOLL_ID_INOTIFY")
    case True
    then obtain s1 where s1: "read_notify_event (pi_env p) (pi_ev p) (pi_devname p) s = Some s1" "handle_pending ps s1 = Some (s', out)"
      using Cons.prems(3) by (auto split: option.splits)
    have k: "im_keeps (adds_env (pi_env p)) s s1"
      using im_keeps_read_notify [OF _ Cons.prems(2) s1(1)] Cons.prems(1) by (simp add: fresh_item_def)
    then have "im_keeps (list_all (\<lambda>p. adds_env (pi_env p)) ps) s1 s'"
      using Cons.IH [OF _ _ s1(2)] Cons.prems(1) by (simp add: im_keeps_def)
    with k show ?thesis by (rule im_keeps_trans) simp
  next
    case False
    then obtain out' where "handle_pending ps s = Some (s', out')"
      using Cons.prems(3) by (auto simp: Let_def split: if_splits option.splits)
    with Cons.IH Cons.prems have "im_keeps (list_all (\<lambda>p. adds_env (pi_env p)) ps) s s'" by simp
    then show ?thesis by (simp add: im_keeps_def)
  qed
qed (simp add: im_keeps_refl)

section \<open>The hash code and the array\<close>

text \<open>The bytes that are read for a string of \<open>n\<close> characters.\<close>

definition hash_reads :: "nat \<Rightarrow> nat" where
  "hash_reads n = 8 * (n div 4) + (if n mod 4 = 0 then 0 else if n mod 4 \<le> 2 then 4 else 8)"

lemma hash_reads_small: "hash_reads 0 = 0" "hash_reads (Suc 0) = 4" "hash_reads 2 = 4" "hash_reads 3 = 8"
  by (simp_all add: hash_reads_def)

lemma hash_reads_step: "4 \<le> n \<Longrightarrow> hash_reads n = 8 + hash_reads (n - 4)"
proof -
  assume "4 \<le> n"
  then have "n div 4 = Suc ((n - 4) div 4)" "n mod 4 = (n - 4) mod 4"
    by (simp_all add: le_div_geq le_mod_geq)
  then show ?thesis by (simp add: hash_reads_def)
qed

lemma hash_loop_defined:
  "hash_loop mem i p num num2 \<noteq> None \<longleftrightarrow> i \<le> 0 \<or> p + hash_reads (nat i) \<le> length mem"
proof (induction mem i p num num2 rule: hash_loop.induct)
  case (1 mem i p num num2)
  consider "i \<le> 0" | "i = 1" | "i = 2" | "i = 3" | "4 \<le> i" by linarith
  then show ?case
  proof cases
    assume i: "4 \<le> i"
    have r: "hash_reads (nat i) = 8 + hash_reads (nat (i - 4))"
      using hash_reads_step [of "nat i"] i by (simp add: nat_diff_distrib)
    show ?thesis
    proof (cases "length mem < p + 8")
      case True
      then show ?thesis using i r by (subst hash_loop.simps) (auto simp: Let_def)
    next
      case False
      then have "hash_loop mem i p num num2 = hash_loop mem (i - 4) (p + 8) (hash_mix num (le32 mem p)) (hash_mix num2 (le32 mem (p + 4)))"
        using i by (subst hash_loop.simps) (auto simp: Let_def)
      moreover have "i - 4 \<le> 0 \<Longrightarrow> hash_reads (nat (i - 4)) = 0" by (simp add: hash_reads_small)
      ultimately show ?thesis using "1.IH" [OF _ _ refl] i r False by auto
    qed
  qed (simp_all add: hash_loop.simps [of mem _ p] Let_def hash_reads_small hash_loop.simps [of mem "-1"])
qed

lemma get_hash_code_defined: "get_hash_code mem \<noteq> None \<longleftrightarrow> hash_reads (c_strlen mem) \<le> length mem"
  using hash_loop_defined [of mem "int (c_strlen mem)"] by (auto simp: get_hash_code_def hash_reads_small)

lemma hash_reads_bound: "hash_reads n \<le> 128 \<longleftrightarrow> n \<le> 64"
proof
  have m: "n = 4 * (n div 4) + n mod 4" "n mod 4 < 4" by simp_all
  show "n \<le> 64" if "hash_reads n \<le> 128" using that m unfolding hash_reads_def by (simp split: if_splits; linarith)
  show "hash_reads n \<le> 128" if "n \<le> 64" using that m unfolding hash_reads_def by (simp split: if_splits; linarith)
qed

section \<open>Properties\<close>

lemma c_strlen_string: "0 \<notin> set s \<Longrightarrow> c_strlen (s @ 0 # r) = length s"
  unfolding c_strlen_def by (induction s) auto

lemma c_strcpy_Some: "length s < length dst \<Longrightarrow> c_strcpy dst s = Some (s @ 0 # drop (length s + 1) dst)"
  by (simp add: c_strcpy_def)

text \<open>C36. Opening a device stays within the name of its record exactly for paths of at most 64
  characters: the array has room for 127, but the hash code reads about two bytes for each character.\<close>

lemma open_device_within_bounds:
  assumes "0 \<le> oi_fd i" "oi_version i" "oi_id i" "oi_malloc i = Some (a, old)" "length old = NAME_SIZE" "0 \<notin> set path"
  shows "open_device path i s \<noteq> None \<longleftrightarrow> length path \<le> 64"
proof (cases "length path < 128")
  case True
  define name where "name = path @ 0 # drop (length path + 1) old"
  have c: "c_strcpy old path = Some name" "length name = 128" "c_strlen name = length path"
    using True assms(5,6) c_strlen_string by (simp_all add: name_def c_strcpy_Some NAME_SIZE_def)
  then have "get_hash_code name \<noteq> None \<longleftrightarrow> length path \<le> 64"
    by (simp only: get_hash_code_defined hash_reads_bound)
  then show ?thesis using assms(1-4) c(1) by (auto simp: open_device_def split: option.splits)
next
  case False
  then show ?thesis using assms by (simp add: open_device_def c_strcpy_def NAME_SIZE_def)
qed

lemma open_device_within_bounds_witness:
  "open_device (replicate 65 0x61) \<lparr>oi_fd = 5, oi_version = True, oi_id = True, oi_malloc = Some (1000, replicate 128 0), oi_epoll = True\<rparr> im_initial = None"
  using open_device_within_bounds [of "\<lparr>oi_fd = 5, oi_version = True, oi_id = True, oi_malloc = Some (1000, replicate 128 0), oi_epoll = True\<rparr>"
    1000 "replicate 128 0" "replicate 65 0x61" im_initial] by (simp add: NAME_SIZE_def del: not_None_eq)

text \<open>A device just opened is closed again by a removal whose path has the same hash code: the
  list, the registrations and the open descriptors are as before, and the record is freed.\<close>

lemma close_undoes_open:
  assumes "im_ok s" "fresh_answer i s" "open_device path i s = Some (0, s1)"
    and "get_hash_code mem = Some (d_hash (hd (device_list s1)))"
  shows "close_device mem s1 = Some (0, s)"
proof -
  have "length (device_list s1) = Suc (length (device_list s))" using assms(3)
    by (auto simp: open_device_def split: if_splits option.splits)
  then have "s1 \<noteq> s" by auto
  then obtain a old n h where m: "oi_malloc i = Some (a, old)" and s1: "s1 = add_device i a n h s"
    using open_device_Some [OF assms(3)] by blast
  have f: "oi_fd i \<notin> d_fd ` set (device_list s)" "a \<notin> d_addr ` set (device_list s)"
    using assms(2) m by (simp_all add: fresh_answer_def)
  have l: "im_fds s = d_fd ` set (device_list s)" "im_live s = d_addr ` set (device_list s)"
    and "epoll_set s \<subseteq> registration ` set (device_list s)" using assms(1) by (simp_all add: im_ok_def)
  then have "\<forall>e \<in> epoll_set s. fst e \<noteq> oi_fd i" using f(1) by (force simp: registration_def)
  then have e: "{e. (e = (oi_fd i, ucast a) \<or> e \<in> epoll_set s) \<and> fst e \<noteq> oi_fd i} = epoll_set s"
    "{e \<in> epoll_set s. fst e \<noteq> oi_fd i} = epoll_set s" by auto
  have s: "im_fds s - {oi_fd i} = im_fds s" "im_live s - {a} = im_live s" unfolding l using f by simp_all
  have h: "get_hash_code mem = Some h" using assms(4) by (simp add: s1 add_device_def)
  have "remove_device \<lparr>d_addr = a, d_name = n, d_hash = h, d_fd = oi_fd i\<rparr> (device_list s) s1 = s"
    by (simp add: remove_device_def s1 add_device_def e s)
  moreover have "close_device mem s1 = Some (0, remove_device \<lparr>d_addr = a, d_name = n, d_hash = h, d_fd = oi_fd i\<rparr> (device_list s) s1)"
    using h by (simp add: close_device_def s1 add_device_def remove_device_def)
  ultimately show ?thesis by simp
qed

lemma close_undoes_open_witness:
  "\<exists>s1 s2. open_device [0x61] \<lparr>oi_fd = 5, oi_version = True, oi_id = True, oi_malloc = Some (1000, replicate 128 0), oi_epoll = True\<rparr> im_initial = Some (0, s1) \<and>
    close_device [0x61, 0, 0, 0] s1 = Some (0, s2) \<and> device_list s2 = []"
proof -
  let ?i = "\<lparr>oi_fd = 5, oi_version = True, oi_id = True, oi_malloc = Some (1000, replicate 128 0), oi_epoll = True\<rparr>"
  have h: "get_hash_code [0x61, 0, 0, 0] = get_hash_code (0x61 # 0 # replicate 126 0)"
    by (simp add: get_hash_code_def c_strlen_def hash_loop.simps le32_def)
  obtain h0 where h0: "get_hash_code [0x61, 0, 0, 0] = Some h0"
    by (simp add: get_hash_code_def c_strlen_def hash_loop.simps le32_def)
  obtain s1 where o: "open_device [0x61] ?i im_initial = Some (0, s1)" "d_hash (hd (device_list s1)) = h0"
    by (simp add: open_device_def c_strcpy_def h [symmetric] h0)
  have "im_ok im_initial" "fresh_answer ?i im_initial"
    by (simp_all add: im_ok_initial fresh_answer_def malloc_addr_def NAME_SIZE_def, simp add: im_initial_def)
  from close_undoes_open [OF this o(1), of "[0x61, 0, 0, 0]"] h0 o(2)
  have "close_device [0x61, 0, 0, 0] s1 = Some (0, im_initial)" by simp
  then show ?thesis using o(1) by (auto simp: im_initial_def)
qed

subsection \<open>Rounds without memory errors\<close>

text \<open>Notifications whose paths have at most 64 characters, 11 of them the directory.\<close>

function short_names :: "byte list \<Rightarrow> bool" where
  "short_names ev \<longleftrightarrow> (if length ev < 16 then True
     else (unat (le32 ev 12) = 0 \<or> length (takeWhile (\<lambda>b. b \<noteq> 0) (drop 16 ev)) \<le> 53) \<and> short_names (drop (16 + unat (le32 ev 12)) ev))"
  by auto
termination by (relation "measure length") auto

declare short_names.simps [simp del]

lemma c_strcpy_length: "c_strcpy dst s = Some dst' \<Longrightarrow> length dst' = length dst"
  by (auto simp: c_strcpy_def split: if_splits)

lemma hash_of_short:
  assumes "c_strcpy dst path = Some mem" "0 \<notin> set path" "length path \<le> 64" "128 \<le> length dst"
  shows "get_hash_code mem \<noteq> None"
proof -
  have "mem = path @ 0 # drop (length path + 1) dst" using assms(1) by (auto simp: c_strcpy_def split: if_splits)
  then have "c_strlen mem = length path" using c_strlen_string assms(2) by simp
  moreover have "hash_reads (length path) \<le> 128" using assms(3) hash_reads_bound by simp
  ultimately show ?thesis using c_strcpy_length [OF assms(1)] assms(4) by (simp only: get_hash_code_defined)
qed

lemma open_short:
  assumes "fresh_answer i s" "0 \<notin> set path" "length path \<le> 64"
  shows "open_device path i s \<noteq> None"
proof (cases "oi_malloc i")
  case (Some m)
  obtain a old where m: "m = (a, old)" by (cases m)
  have l: "length old = 128" using assms(1) Some m by (simp add: fresh_answer_def NAME_SIZE_def)
  then have c: "c_strcpy old path = Some (path @ 0 # drop (length path + 1) old)" using assms(3) by (simp add: c_strcpy_def)
  have "get_hash_code (path @ 0 # drop (length path + 1) old) \<noteq> None"
    using hash_of_short [OF c assms(2,3)] l by simp
  then show ?thesis using Some m c by (auto simp: open_device_def)
qed (simp add: open_device_def)

lemma close_short: "get_hash_code mem \<noteq> None \<Longrightarrow> close_device mem s \<noteq> None"
  by (auto simp: close_device_def split: option.splits)

lemma takeWhile_string: "0 \<notin> set s \<Longrightarrow> takeWhile (\<lambda>b. b \<noteq> 0) (s @ 0 # r) = s"
  by (induction s) auto

lemma device_path_nonzero: "0 \<notin> set (DEVICE_PATH @ takeWhile (\<lambda>b. b \<noteq> 0) bs)"
  by (auto simp: DEVICE_PATH_def dest: set_takeWhileD)

lemma notify_short:
  assumes "fresh_env env"
  shows "short_names ev \<Longrightarrow> length devname = PATH_MAX \<Longrightarrow> notify_loop env pos ev devname s \<noteq> None"
proof (induction "length ev" arbitrary: pos ev devname s rule: less_induct)
  case less
  define mask len rest where "mask = le32 ev 4" and "len = unat (le32 ev 12)" and "rest = drop (16 + len) ev"
  show ?case
  proof (cases "length ev < 16")
    case False
    then have shorter: "length rest < length ev" by (simp add: rest_def)
    have short: "short_names rest" and name: "len = 0 \<or> length (takeWhile (\<lambda>b. b \<noteq> 0) (drop 16 ev)) \<le> 53"
      using less.prems(1) False by (auto simp: short_names.simps [of ev] rest_def len_def)
    note step = notify_loop.simps [of env pos ev devname s, unfolded Let_def, folded mask_def len_def, folded rest_def]
    show ?thesis
    proof (cases "len = 0")
      case True
      then show ?thesis using step False less.hyps [OF shorter short less.prems(2)] by simp
    next
      case ne: False
      define path where "path = DEVICE_PATH @ takeWhile (\<lambda>b. b \<noteq> 0) (drop 16 ev)"
      have path: "0 \<notin> set path" "length path \<le> 64"
        using device_path_nonzero name ne by (simp_all add: path_def DEVICE_PATH_def)
      then obtain devname' where c: "c_strcpy devname path = Some devname'"
        using less.prems(2) by (simp add: c_strcpy_def PATH_MAX_def)
      have "takeWhile (\<lambda>b. b \<noteq> 0) devname' = path"
        using c path(1) by (auto simp: c_strcpy_def takeWhile_string split: if_splits)
      moreover have "fresh_answer (env pos s) s" using assms by (simp add: fresh_env_def)
      moreover have "get_hash_code devname' \<noteq> None"
        using hash_of_short [OF c path] less.prems(2) by (simp add: PATH_MAX_def)
      ultimately have "(if mask AND IN_CREATE \<noteq> 0 then open_device (takeWhile (\<lambda>b. b \<noteq> 0) devname') (env pos s) s
          else close_device devname' s) \<noteq> None"
        using open_short [OF _ path] close_short by simp
      then obtain r s1 where o: "(if mask AND IN_CREATE \<noteq> 0 then open_device (takeWhile (\<lambda>b. b \<noteq> 0) devname') (env pos s) s
          else close_device devname' s) = Some (r, s1)" by auto
      have "notify_loop env (pos + 16 + len) rest devname' s1 \<noteq> None"
        using less.hyps [OF shorter short] c_strcpy_length [OF c] less.prems(2) by simp
      then show ?thesis using step False ne c o by (simp add: path_def)
    qed
  qed (simp add: notify_loop.simps [of env pos ev])
qed

lemma read_notify_short:
  assumes "fresh_env env" "short_names ev" "length devname = PATH_MAX"
  shows "read_notify_event env ev devname s \<noteq> None"
proof -
  obtain d where d: "c_strcpy devname (butlast DEVICE_PATH) = Some d"
    using assms(3) by (simp add: c_strcpy_def PATH_MAX_def DEVICE_PATH_def)
  then show ?thesis
    using notify_short [OF assms(1,2), of "d[10 := 0x2f]"] c_strcpy_length [OF d] assms(3)
    by (simp add: read_notify_event_def)
qed

definition short_notify :: "pending_item \<Rightarrow> bool" where
  "short_notify p \<longleftrightarrow> pi_data p = EPOLL_ID_INOTIFY \<and> short_names (pi_ev p)"

lemma notifications_handled:
  "list_all fresh_item ps \<Longrightarrow> list_all short_notify ps \<Longrightarrow> \<exists>s'. handle_pending ps s = Some (s', [])"
proof (induction ps arbitrary: s)
  case (Cons p ps)
  then obtain s1 where "read_notify_event (pi_env p) (pi_ev p) (pi_devname p) s = Some s1"
    using read_notify_short by (fastforce simp: fresh_item_def short_notify_def)
  then show ?case using Cons by (simp add: short_notify_def)
qed simp

text \<open>An address below \<open>2^32\<close> is the one its low half is taken for.\<close>

lemma low_address: "a < 2 ^ 32 \<Longrightarrow> ucast (ucast (a :: 64 word) :: u32) = a"
proof -
  assume "a < 2 ^ 32"
  then have "uint a < 2 ^ 32" by (simp add: word_less_def)
  then have "uint (ucast (ucast a :: u32) :: 64 word) = uint a"
    by (simp add: unsigned_ucast_eq unsigned_take_bit_eq take_bit_int_eq_self)
  then show ?thesis by (simp only: word_uint_eq_iff)
qed

lemma low_even: "even (a :: 64 word) \<Longrightarrow> (ucast a :: u32) \<noteq> EPOLL_ID_INOTIFY"
proof
  assume "even a" "(ucast a :: u32) = EPOLL_ID_INOTIFY"
  then have "bit (ucast a :: u32) 0" by (simp add: EPOLL_ID_INOTIFY_def)
  then have "bit a 0" unfolding bit_ucast_iff by blast
  then show False using \<open>even a\<close> by (simp add: bit_0)
qed

lemma find_address:
  "distinct (map d_addr ds) \<Longrightarrow> d \<in> set ds \<Longrightarrow> find (\<lambda>e. d_addr e = d_addr d) ds = Some (d :: input_device)"
  by (induction ds) auto

lemma device_item_read:
  assumes "im_ok s" "\<forall>d \<in> set (device_list s). d_addr d < 2 ^ 32" "(fd, pi_data p) \<in> epoll_set s"
  shows "handle_pending (p # ps) s = map_option (\<lambda>(s', out). (s', read_input_event (pi_inputs p fd) @ out)) (handle_pending ps s)"
proof -
  obtain d where d: "d \<in> set (device_list s)" "fd = d_fd d" "pi_data p = ucast (d_addr d)"
    using assms(1,3) unfolding im_ok_def registration_def by auto
  have a: "ucast (ucast (d_addr d) :: u32) = d_addr d" using low_address assms(2) d(1) by blast
  have "malloc_addr (d_addr d)" "d_addr d \<in> im_live s"
    and "find (\<lambda>e. d_addr e = d_addr d) (device_list s) = Some d"
    using assms(1) d(1) find_address unfolding im_ok_def by auto
  then show ?thesis using low_even a by (simp add: d malloc_addr_def)
qed

lemma devices_then_notifications:
  assumes "im_ok s" "\<forall>d \<in> set (device_list s). d_addr d < 2 ^ 32" "\<forall>(fd, p) \<in> set ds. (fd, pi_data p) \<in> epoll_set s"
  shows "handle_pending (map snd ds @ ns) s =
    map_option (\<lambda>(s', out). (s', concat (map (\<lambda>(fd, p). read_input_event (pi_inputs p fd)) ds) @ out)) (handle_pending ns s)"
  using assms(3)
proof (induction ds)
  case Nil
  show ?case by (cases "handle_pending ns s") auto
next
  case (Cons b bs)
  obtain fd p where b: "b = (fd, p)" by (cases b)
  have "handle_pending (map snd (b # bs) @ ns) s =
      map_option (\<lambda>(s', out). (s', read_input_event (pi_inputs p fd) @ out)) (handle_pending (map snd bs @ ns) s)"
    using device_item_read [OF assms(1,2)] Cons.prems by (simp add: b del: handle_pending.simps)
  then show ?case using Cons.IH Cons.prems by (cases "handle_pending ns s") (auto simp: b)
qed

text \<open>C18. Every round of the main loop without a memory error keeps the list in step with the
  system, whatever it handles and in whatever order: the devices of the list are exactly those whose
  descriptors are open and whose records are allocated, and only they are registered with epoll.
  They are all registered when they were before and every registration succeeds; the program does
  not look at the result, so that a device can be in the list without ever being read. With
  addresses below \<open>2^32\<close> a round has no memory error when it reports the devices, whichever of those
  registered, before the notifications and the paths have at most 64 characters: each device is then
  read from its own descriptor.\<close>

theorem round_keeps_devices:
  assumes "im_ok s" "list_all fresh_item ps"
  shows "(\<forall>s' out. handle_pending ps s = Some (s', out) \<longrightarrow> im_ok s' \<and>
      (all_registered s \<and> list_all (\<lambda>p. adds_env (pi_env p)) ps \<longrightarrow> all_registered s')) \<and>
    (\<forall>ds ns. ps = map snd ds @ ns \<and> list_all short_notify ns \<and> (\<forall>d \<in> set (device_list s). d_addr d < 2 ^ 32) \<and>
        (\<forall>(fd, p) \<in> set ds. (fd, pi_data p) \<in> epoll_set s) \<longrightarrow>
      (\<exists>s'. handle_pending ps s = Some (s', concat (map (\<lambda>(fd, p). read_input_event (pi_inputs p fd)) ds))))"
proof (intro conjI allI impI)
  show "im_ok s'" "all_registered s \<and> list_all (\<lambda>p. adds_env (pi_env p)) ps \<Longrightarrow> all_registered s'"
    if "handle_pending ps s = Some (s', out)" for s' out
    using im_keeps_pending [OF assms(2,1) that] by (simp_all add: im_keeps_def)
  fix ds ns
  assume h: "ps = map snd ds @ ns \<and> list_all short_notify ns \<and> (\<forall>d \<in> set (device_list s). d_addr d < 2 ^ 32) \<and>
      (\<forall>(fd, p) \<in> set ds. (fd, pi_data p) \<in> epoll_set s)"
  then obtain s' where "handle_pending ns s = Some (s', [])" using notifications_handled [of ns s] assms(2) by auto
  then show "\<exists>s'. handle_pending ps s = Some (s', concat (map (\<lambda>(fd, p). read_input_event (pi_inputs p fd)) ds))"
    using devices_then_notifications [OF assms(1), of ds ns] h by auto
qed

definition demo_env :: input_env where
  "demo_env = (\<lambda>pos s. \<lparr>oi_fd = 1 + sum_list (map (\<lambda>d. \<bar>d_fd d\<bar>) (device_list s)), oi_version = True, oi_id = True,
     oi_malloc = (if 8 \<in> d_addr ` set (device_list s) then None else Some (8, replicate 128 0)), oi_epoll = True\<rparr>)"

lemma fd_le_sum: "d \<in> set ds \<Longrightarrow> d_fd d \<le> sum_list (map (\<lambda>d. \<bar>d_fd d\<bar>) ds)"
proof (induction ds)
  case (Cons e es)
  have "0 \<le> sum_list (map (\<lambda>d. \<bar>d_fd d\<bar>) es)" by (rule sum_list_nonneg) auto
  with Cons show ?case by auto
qed simp

lemma fresh_demo_env: "fresh_env demo_env"
proof -
  have "1 + sum_list (map (\<lambda>d. \<bar>d_fd d\<bar>) ds) \<notin> d_fd ` set ds" for ds :: "input_device list" using fd_le_sum by fastforce
  then show ?thesis by (simp add: fresh_env_def fresh_answer_def demo_env_def malloc_addr_def NAME_SIZE_def)
qed

text \<open>Two notifications, of the creation and of the removal of \<open>a\<close>.\<close>

definition demo_event :: "byte \<Rightarrow> byte list" where
  "demo_event m = [1, 0, 0, 0, 0, m, 0, 0, 0, 0, 0, 0, 4, 0, 0, 0, 0x61, 0, 0, 0]"

definition demo_dir :: "byte list" where "demo_dir = replicate PATH_MAX 0"

definition demo_name :: "byte list" where "demo_name = DEVICE_PATH @ 0x61 # 0 # replicate 115 0"

definition demo_state :: im_state where
  "demo_state = \<lparr>device_list = [\<lparr>d_addr = 8, d_name = demo_name, d_hash = the (get_hash_code demo_name), d_fd = 1\<rparr>],
     epoll_set = {(1, 8)}, im_fds = {1}, im_live = {8}\<rparr>"

lemma demo_name_hash: "\<exists>h. get_hash_code demo_name = Some h"
proof -
  have "get_hash_code demo_name \<noteq> None"
    unfolding get_hash_code_defined by (simp add: demo_name_def DEVICE_PATH_def c_strlen_def hash_reads_def)
  then show ?thesis by simp
qed

lemma demo_dir_hash: "get_hash_code (DEVICE_PATH @ 0x61 # 0 # replicate 4083 0) = get_hash_code demo_name"
  by (simp add: demo_name_def DEVICE_PATH_def get_hash_code_def c_strlen_def hash_loop.simps le32_def)

lemma demo_added: "read_notify_event demo_env (demo_event 1) demo_dir im_initial = Some demo_state"
proof -
  obtain h where "get_hash_code demo_name = Some h" using demo_name_hash by blast
  then show ?thesis
    by (simp add: PATH_MAX_def read_notify_event_def notify_loop.simps demo_event_def demo_dir_def le32_def c_strcpy_def DEVICE_PATH_def
    IN_CREATE_def open_device_def demo_env_def im_initial_def demo_state_def demo_name_def)
qed

lemma im_ok_demo: "im_ok demo_state"
  by (simp add: im_ok_def demo_state_def registration_def malloc_addr_def)

text \<open>What epoll returns for a notification and for the device with one key pressed.\<close>

definition notify_item :: "byte \<Rightarrow> pending_item" where
  "notify_item m = \<lparr>pi_data = EPOLL_ID_INOTIFY, pi_env = demo_env, pi_ev = demo_event m, pi_devname = demo_dir, pi_inputs = (\<lambda>fd. [])\<rparr>"

definition device_item :: "u32 \<Rightarrow> pending_item" where
  "device_item a = \<lparr>pi_data = a, pi_env = demo_env, pi_ev = [], pi_devname = demo_dir,
     pi_inputs = (\<lambda>fd. [\<lparr>ie_type = 1, ie_code = 30, ie_value = fd\<rparr>])\<rparr>"

lemma fresh_demo_items: "fresh_item (notify_item m)" "fresh_item (device_item a)"
  by (simp_all add: fresh_item_def notify_item_def device_item_def fresh_demo_env demo_dir_def)

lemma short_notify_item: "short_notify (notify_item m)"
  by (simp add: short_notify_def notify_item_def demo_event_def short_names.simps le32_def)

theorem round_keeps_devices_witness:
  "handle_pending [notify_item 1] im_initial = Some (demo_state, []) \<and> im_ok demo_state \<and> all_registered demo_state \<and>
   (\<exists>s'. handle_pending [device_item 8, notify_item 2] demo_state = Some (s', [(1, 30, 1)]))"
proof -
  have h: "handle_pending [notify_item 1] im_initial = Some (demo_state, [])"
    by (simp add: demo_added notify_item_def)
  have "im_ok demo_state \<and> all_registered demo_state"
    using round_keeps_devices [OF im_ok_initial, of "[notify_item 1]"] h fresh_demo_items
    by (simp add: all_registered_def im_initial_def notify_item_def adds_env_def demo_env_def del: handle_pending.simps)
  moreover have "\<exists>s'. handle_pending [device_item 8, notify_item 2] demo_state = Some (s', [(1, 30, 1)])"
    using round_keeps_devices [OF im_ok_demo, of "[device_item 8, notify_item 2]", THEN conjunct2, rule_format,
        of "[(1, device_item 8)]" "[notify_item 2]"] fresh_demo_items short_notify_item
    by (simp add: demo_state_def read_input_event_def device_item_def del: handle_pending.simps)
  ultimately show ?thesis using h by blast
qed

text \<open>A device that could not be registered is listed and stays open all the same.\<close>

lemma unregistered_device:
  "\<exists>s. open_device [0x61] \<lparr>oi_fd = 5, oi_version = True, oi_id = True, oi_malloc = Some (8, replicate 128 0), oi_epoll = False\<rparr> im_initial = Some (0, s) \<and>
    map d_fd (device_list s) = [5] \<and> epoll_set s = {}"
proof -
  let ?i = "\<lparr>oi_fd = 5, oi_version = True, oi_id = True, oi_malloc = Some (8, replicate 128 0), oi_epoll = False\<rparr>"
  obtain h where "get_hash_code (0x61 # 0 # replicate 126 0) = Some h"
    by (simp add: get_hash_code_def c_strlen_def hash_loop.simps le32_def)
  then show ?thesis by (simp add: open_device_def c_strcpy_def im_initial_def)
qed

text \<open>A device whose address needs more than 32 bits: its event is read from no record.\<close>

lemma cut_address_is_used:
  "handle_pending [device_item 8]
     \<lparr>device_list = [\<lparr>d_addr = 0x100000008, d_name = demo_name, d_hash = 0, d_fd = 1\<rparr>], epoll_set = {(1, ucast (0x100000008 :: 64 word))},
      im_fds = {1}, im_live = {0x100000008}\<rparr> = None \<and> ucast (0x100000008 :: 64 word) = (8 :: u32)"
  by (simp add: device_item_def EPOLL_ID_INOTIFY_def)

section \<open>What the hash code compares\<close>

lemma hash_mix_start: "hash_mix 0x15051505 w = 0xb5a7b5a7 XOR w"
proof -
  have "(push_bit 5 0x15051505 + 0x15051505) + signed_drop_bit 27 0x15051505 = (0xb5a7b5a7 :: u32)" by simp
  then show ?thesis unfolding hash_mix_def by (rule arg_cong)
qed

text \<open>The same string in two arrays, with different bytes behind its terminator.\<close>

lemma hash_code_of_same_string:
  "c_strlen [0x61, 0x62, 0x63, 0x64, 0, 0, 0, 0] = c_strlen [0x61, 0x62, 0x63, 0x64, 0, 0, 0, 1] \<and>
   get_hash_code [0x61, 0x62, 0x63, 0x64, 0, 0, 0, 0] \<noteq> get_hash_code [0x61, 0x62, 0x63, 0x64, 0, 0, 0, 1]"
  by (simp add: c_strlen_def get_hash_code_def hash_loop.simps le32_def hash_mix_start)

text \<open>A removal and an event of the removed device in one round: the record is used when it is freed.\<close>

lemma removed_device_is_used:
  "im_ok demo_state \<and> (1, 8) \<in> epoll_set demo_state \<and> handle_pending [notify_item 2, device_item 8] demo_state = None"
proof -
  obtain h where "get_hash_code demo_name = Some h" using demo_name_hash by blast
  with demo_dir_hash im_ok_demo show ?thesis
    by (simp add: PATH_MAX_def read_notify_event_def notify_loop.simps demo_event_def demo_dir_def le32_def c_strcpy_def DEVICE_PATH_def
    IN_CREATE_def close_device_def demo_state_def demo_name_def notify_item_def device_item_def EPOLL_ID_INOTIFY_def)
qed

end
