(* ===== verification/BitDemos.thy ===== *)
theory BitDemos
  imports Stdio
begin

text \<open>
  Two programs on the bits of a word: the population count of test_popcnt.c, which adds neighbouring
  fields of growing width, and the loop of test_builtin_clz.c, which clears the highest bit until
  none is left. The built-in functions of the compiler are defined as its manual describes them.
\<close>

unbundle bit_operations_syntax

section \<open>Population count\<close>

text \<open>One line of \<open>pop_count\<close>: the fields under the mask and their neighbours.\<close>

definition pop_step :: "nat \<Rightarrow> u32 \<Rightarrow> u32 \<Rightarrow> u32" where
  "pop_step k m u = (u AND m) + (drop_bit k u AND m)"

definition pop_count :: "u32 \<Rightarrow> u32" where
  "pop_count u =
    (let u = pop_step 1 0x55555555 u;
         u = pop_step 2 0x33333333 u;
         u = pop_step 4 0x0f0f0f0f u;
         u = pop_step 8 0x00ff00ff u
     in (u AND 0x0000ffff) + drop_bit 16 u)"

subsection \<open>Fields\<close>

text \<open>The number with the given fields of width \<open>w\<close>, the lowest first.\<close>

fun fields :: "nat \<Rightarrow> nat list \<Rightarrow> nat" where
  "fields w [] = 0"
| "fields w (x # xs) = x + 2 ^ w * fields w xs"

fun pair_sums :: "nat list \<Rightarrow> nat list" where
  "pair_sums (x # y # zs) = (x + y) # pair_sums zs"
| "pair_sums xs = xs"

text \<open>Every other field all ones, for \<open>n\<close> pairs.\<close>

fun even_mask :: "nat \<Rightarrow> nat \<Rightarrow> nat" where
  "even_mask w 0 = 0"
| "even_mask w (Suc n) = (2 ^ w - 1) + 2 ^ (2 * w) * even_mask w n"

lemma and_fields:
  fixes x m y n :: nat
  assumes "x < 2 ^ w" "m < 2 ^ w"
  shows "(x + 2 ^ w * y) AND (m + 2 ^ w * n) = (x AND m) + 2 ^ w * (y AND n)"
proof -
  let ?a = "(x + 2 ^ w * y) AND (m + 2 ^ w * n)"
  have "?a mod 2 ^ w = x AND m"
    using assms by (simp add: take_bit_eq_mod [symmetric] take_bit_nat_eq_self) (simp add: take_bit_eq_mod)
  moreover have "?a div 2 ^ w = y AND n"
    using assms by (simp add: drop_bit_eq_div [symmetric]) (simp add: drop_bit_eq_div)
  ultimately show ?thesis using div_mult_mod_eq [of ?a "2 ^ w"] by (simp add: mult.commute)
qed

lemma and_ones: "x < 2 ^ w \<Longrightarrow> x AND (2 ^ w - 1) = (x :: nat)"
  using take_bit_eq_mask [of w x] by (simp add: mask_eq_exp_minus_1 take_bit_nat_eq_self)

lemma even_fields:
  assumes "list_all (\<lambda>x. x < 2 ^ w) xs" "length xs = 2 * n"
  shows "(fields w xs AND even_mask w n) + (drop_bit w (fields w xs) AND even_mask w n) = fields (2 * w) (pair_sums xs)"
  using assms
proof (induction xs arbitrary: n rule: pair_sums.induct)
  case (1 x y zs)
  then obtain k where n: "n = Suc k" by (cases n) auto
  have b: "x < 2 ^ w" "y < 2 ^ w" "list_all (\<lambda>x. x < 2 ^ w) zs" "length zs = 2 * k" using 1 n by auto
  define F M where "F = fields w zs" and "M = even_mask w k"
  have p: "(2 :: nat) ^ (2 * w) = 2 ^ w * 2 ^ w" by (simp add: power_add [symmetric] mult_2)
  have up: "z AND (2 ^ w * M) = 2 ^ w * (drop_bit w z AND M)" for z
    using and_fields [of "z mod 2 ^ w" w 0 "z div 2 ^ w" M] by (simp add: drop_bit_eq_div)
  have e: "(c + 2 ^ w * z) AND even_mask w n = c + 2 ^ w * (2 ^ w * (drop_bit w z AND M))" if "c < 2 ^ w" for c z
  proof -
    have "(c + 2 ^ w * z) AND ((2 ^ w - 1) + 2 ^ w * (2 ^ w * M)) = c + 2 ^ w * (z AND (2 ^ w * M))"
      using and_fields [of c w "2 ^ w - 1" z "2 ^ w * M"] that and_ones by simp
    then show ?thesis by (simp add: n M_def [symmetric] p up mult.assoc)
  qed
  have d: "drop_bit w (c + 2 ^ w * z) = z" if "c < 2 ^ w" for c z :: nat
    using that by (simp add: drop_bit_eq_div)
  have lo: "fields w (x # y # zs) AND even_mask w n = x + 2 ^ w * (2 ^ w * (F AND M))"
    using e [OF b(1), of "y + 2 ^ w * F"] d [OF b(2), of F] by (simp add: F_def)
  have hi: "drop_bit w (fields w (x # y # zs)) AND even_mask w n = y + 2 ^ w * (2 ^ w * (drop_bit w F AND M))"
    using e [OF b(2), of F] d [OF b(1), of "y + 2 ^ w * F"] by (simp add: F_def)
  have tl: "(F AND M) + (drop_bit w F AND M) = fields (2 * w) (pair_sums zs)"
    unfolding F_def M_def by (rule "1.IH" [OF b(3,4)])
  show ?case unfolding lo hi unfolding pair_sums.simps fields.simps p tl [symmetric] by (simp add: algebra_simps)
qed simp_all

lemma length_pair_sums: "length xs = 2 * n \<Longrightarrow> length (pair_sums xs) = n"
  by (induction xs arbitrary: n rule: pair_sums.induct) (auto split: nat.splits, arith?)

lemma sum_pair_sums: "sum_list (pair_sums xs) = sum_list xs"
  by (induction xs rule: pair_sums.induct) simp_all

lemma pair_sums_bound:
  "list_all (\<lambda>x. x \<le> b) xs \<Longrightarrow> length xs = 2 * n \<Longrightarrow> list_all (\<lambda>x. x \<le> 2 * b) (pair_sums xs)"
proof (induction xs arbitrary: n rule: pair_sums.induct)
  case (1 x y zs)
  then have "length zs = 2 * (n - 1)" by simp
  with 1 show ?case by auto
qed simp_all

lemma fields_less:
  "list_all (\<lambda>x. x < 2 ^ w) xs \<Longrightarrow> fields w xs < 2 ^ (w * length xs)"
proof (induction xs)
  case (Cons x xs)
  then have "x < 2 ^ w" "fields w xs + 1 \<le> 2 ^ (w * length xs)" by auto
  then have "x + 2 ^ w * fields w xs < 2 ^ w * (fields w xs + 1)" by simp
  also have "\<dots> \<le> 2 ^ w * 2 ^ (w * length xs)" by (rule mult_le_mono2) fact
  finally show ?case by (simp add: power_add)
qed simp

subsection \<open>The steps on words\<close>

lemma even_mask_numeral:
  "even_mask w (numeral k) = (2 ^ w - 1) + 2 ^ (2 * w) * even_mask w (pred_numeral k)"
  by (simp add: numeral_eq_Suc)

lemma masks:
  "even_mask 1 16 = 0x55555555" "even_mask 2 8 = 0x33333333" "even_mask 4 4 = 0x0f0f0f0f" "even_mask 8 2 = 0x00ff00ff"
  by (simp_all add: even_mask_numeral)

lemma u32_less: "unat (u :: u32) < 2 ^ 32"
  using unsigned_less [of u, where ?'a = nat] by simp

lemma unat_pop_step:
  assumes "unat u = fields w xs" "list_all (\<lambda>x. x \<le> b) xs" "b < 2 ^ w" "2 * b < 2 ^ (2 * w)" "length xs = 2 * n" "w * n = 16"
    and "unat m = even_mask w n"
  shows "unat (pop_step w m u) = fields (2 * w) (pair_sums xs)"
proof -
  have l: "list_all (\<lambda>x. x < 2 ^ w) xs" using assms(2,3) by (auto simp: list_all_iff)
  have l2: "list_all (\<lambda>x. x < 2 ^ (2 * w)) (pair_sums xs)"
    using pair_sums_bound [OF assms(2,5)] assms(4) by (auto simp: list_all_iff)
  have "fields (2 * w) (pair_sums xs) < 2 ^ 32"
    using fields_less [OF l2] length_pair_sums [OF assms(5)] assms(6) by (simp add: mult.assoc)
  moreover have t: "take_bit 32 (fields w xs) = fields w xs"
    using u32_less [of u] by (simp add: assms(1) [symmetric] take_bit_nat_eq_self)
  then have "unat (u AND m) + unat (drop_bit w u AND m) = fields (2 * w) (pair_sums xs)"
    using even_fields [OF l assms(5)] assms(1,7) t by (simp add: unsigned_and_eq unsigned_drop_bit_eq)
  ultimately show ?thesis unfolding pop_step_def by (simp add: unat_word_ariths take_bit_nat_eq_self)
qed

subsection \<open>The result\<close>

lemma fields_bits: "m < 2 ^ n \<Longrightarrow> fields 1 (map (\<lambda>i. of_bool (bit m i)) [0 ..< n]) = (m :: nat)"
proof (induction n arbitrary: m)
  case (Suc n)
  have "map (\<lambda>i. of_bool (bit m i)) [0 ..< Suc n] = (of_bool (odd m) # map (\<lambda>i. of_bool (bit (m div 2) i)) [0 ..< n] :: nat list)"
    by (simp add: upt_conv_Cons map_Suc_upt [symmetric] bit_0 bit_Suc comp_def del: upt_Suc)
  moreover have "fields 1 (map (\<lambda>i. of_bool (bit (m div 2) i)) [0 ..< n]) = m div 2" using Suc by simp
  moreover have "of_bool (odd m) + 2 * (m div 2) = m" by (cases "odd m") simp_all
  ultimately show ?case by (simp del: upt_Suc)
qed simp

lemma sum_bits: "sum_list (map (\<lambda>i. of_bool (P i)) [0 ..< n]) = card {i. i < n \<and> P i}"
proof (induction n)
  case (Suc n)
  have "{i. i < Suc n \<and> P i} = (if P n then insert n {i. i < n \<and> P i} else {i. i < n \<and> P i})"
    by (auto simp: less_Suc_eq)
  then show ?case using Suc by simp
qed simp

text \<open>C28. \<open>pop_count\<close> is the number of bits that are set, for every argument.\<close>

lemma pop_count_correct: "unat (pop_count u) = card {i. bit u i}"
proof -
  define xs :: "nat list" where "xs = map (\<lambda>i. of_bool (bit (unat u) i)) [0 ..< 32]"
  have u: "unat u = fields 1 xs" unfolding xs_def by (rule fields_bits [OF u32_less, symmetric])
  have l: "list_all (\<lambda>x. x \<le> 1) xs" "length xs = 32" by (auto simp: xs_def list_all_iff)
  define xs2 xs3 xs4 xs5 where "xs2 = pair_sums xs" and "xs3 = pair_sums xs2" and "xs4 = pair_sums xs3" and "xs5 = pair_sums xs4"
  note ds = xs2_def xs3_def xs4_def xs5_def
  have l2: "list_all (\<lambda>x. x \<le> 2) xs2" "length xs2 = 16"
    using pair_sums_bound [OF l(1), of 16] length_pair_sums [of xs 16] l(2) by (simp_all add: ds)
  have l3: "list_all (\<lambda>x. x \<le> 4) xs3" "length xs3 = 8"
    using pair_sums_bound [OF l2(1), of 8] length_pair_sums [of xs2 8] l2(2) by (simp_all add: ds)
  have l4: "list_all (\<lambda>x. x \<le> 8) xs4" "length xs4 = 4"
    using pair_sums_bound [OF l3(1), of 4] length_pair_sums [of xs3 4] l3(2) by (simp_all add: ds)
  have l5: "list_all (\<lambda>x. x \<le> 16) xs5" "length xs5 = 2"
    using pair_sums_bound [OF l4(1), of 2] length_pair_sums [of xs4 2] l4(2) by (simp_all add: ds)
  define u1 u2 u3 u4 where "u1 = pop_step 1 0x55555555 u" and "u2 = pop_step 2 0x33333333 u1"
    and "u3 = pop_step 4 0x0f0f0f0f u2" and "u4 = pop_step 8 0x00ff00ff u3"
  have "unat u1 = fields 2 xs2"
    using unat_pop_step [OF u l(1), of 16 "0x55555555"] l(2) by (simp add: u1_def ds masks [simplified])
  then have "unat u2 = fields 4 xs3"
    using unat_pop_step [of u1 2 xs2 2 8 "0x33333333"] l2 by (simp add: u2_def ds masks [simplified])
  then have "unat u3 = fields 8 xs4"
    using unat_pop_step [of u2 4 xs3 4 4 "0x0f0f0f0f"] l3 by (simp add: u3_def ds masks [simplified])
  then have u4: "unat u4 = fields 16 xs5"
    using unat_pop_step [of u3 8 xs4 8 2 "0x00ff00ff"] l4 by (simp add: u4_def ds masks [simplified])
  obtain a b where ab: "xs5 = [a, b]" "a \<le> 16" "b \<le> 16"
    using l5 by (auto simp: numeral_2_eq_2 length_Suc_conv)
  have m: "unat u4 AND 0xffff = a" "drop_bit 16 (unat u4) = b"
    using u4 ab and_fields [of a 16 "0xffff" b 0] and_ones [of a 16] by (simp_all add: drop_bit_eq_div)
  have "unat (pop_count u) = unat ((u4 AND 0xffff) + drop_bit 16 u4)"
    by (simp add: pop_count_def Let_def u1_def u2_def u3_def u4_def)
  also have "\<dots> = a + b"
    using m ab(2,3) u32_less [of u4]
    by (simp add: unat_word_ariths unsigned_and_eq unsigned_drop_bit_eq take_bit_nat_eq_self)
  also have "\<dots> = sum_list xs5" by (simp add: ab)
  also have "\<dots> = card {i. i < 32 \<and> bit u i}"
    by (simp add: ds sum_pair_sums xs_def sum_bits bit_unsigned_iff)
  also have "{i. i < 32 \<and> bit u i} = {i. bit u i}" using bit_imp_le_length [of u] by fastforce
  finally show ?thesis .
qed

section \<open>Numbers in base sixteen\<close>

definition hex_value :: "char \<Rightarrow> nat option" where
  "hex_value c = (let n = of_char c :: nat in
     if 48 \<le> n \<and> n \<le> 57 then Some (n - 48)
     else if 97 \<le> n \<and> n \<le> 102 then Some (n - 87)
     else if 65 \<le> n \<and> n \<le> 70 then Some (n - 55) else None)"

text \<open>\<open>strtol\<close> and \<open>strtoul\<close> in base 16 before the limits: the sign, and the digits behind an optional \<open>0x\<close>.\<close>

definition hex_scan :: "string \<Rightarrow> bool \<times> nat" where
  "hex_scan str =
     (let s = dropWhile is_space str;
          neg = (s \<noteq> [] \<and> hd s = CHR ''-'');
          s = (if s \<noteq> [] \<and> (hd s = CHR ''-'' \<or> hd s = CHR ''+'') then tl s else s);
          s = (if 2 < length s \<and> hd s = CHR ''0'' \<and> (s ! 1 = CHR ''x'' \<or> s ! 1 = CHR ''X'') \<and> hex_value (s ! 2) \<noteq> None
               then drop 2 s else s)
      in (neg, foldl (\<lambda>a c. 16 * a + the (hex_value c)) 0 (takeWhile (\<lambda>c. hex_value c \<noteq> None) s)))"

definition strtol16 :: "string \<Rightarrow> int" where
  "strtol16 str = (case hex_scan str of (neg, n) \<Rightarrow> strtol_val neg n)"

definition strtoul16 :: "string \<Rightarrow> int" where
  "strtoul16 str = (case hex_scan str of (neg, n) \<Rightarrow> strtoul_val neg n)"

text \<open>What \<open>main\<close> computes, if there is an argument.\<close>

definition popcnt_main :: "string list \<Rightarrow> u32 option" where
  "popcnt_main argv = (if length argv < 2 then None else Some (pop_count (word_of_int (strtoul16 (argv ! 1)))))"

section \<open>Clearing the highest bit\<close>

text \<open>Both built-in functions are defined for arguments other than zero only.\<close>

definition builtin_clz :: "u32 \<Rightarrow> nat option" where
  "builtin_clz v = (if v = 0 then None else Some (length (takeWhile (\<lambda>i. \<not> bit v i) (rev [0 ..< 32]))))"

definition builtin_ctz :: "u32 \<Rightarrow> nat option" where
  "builtin_ctz v = (if v = 0 then None else Some (length (takeWhile (\<lambda>i. \<not> bit v i) [0 ..< 32])))"

lemma top_bit:
  assumes "i < n" "P i" "k = n - 1 - length (takeWhile (\<lambda>i. \<not> P i) (rev [0 ..< n]))"
  shows "k < n \<and> P k \<and> (\<forall>j. k < j \<and> j < n \<longrightarrow> \<not> P j)"
  using assms
proof (induction n)
  case (Suc n)
  show ?case
  proof (cases "P n")
    case True
    then have "k = n" using Suc.prems(3) by simp
    then show ?thesis using True by auto
  next
    case False
    then have "i < n" "k = n - 1 - length (takeWhile (\<lambda>i. \<not> P i) (rev [0 ..< n]))"
      using Suc.prems by (auto simp: less_Suc_eq)
    from Suc.IH [OF this(1) Suc.prems(2) this(2)] False show ?thesis by (simp add: less_Suc_eq) blast
  qed
qed simp

lemma clz_top_bit:
  assumes "builtin_clz v = Some c"
  shows "bit v (31 - c) \<and> 31 - c < 32 \<and> (\<forall>j. bit v j \<longrightarrow> j \<le> 31 - c)"
proof -
  have v: "v \<noteq> 0" and c: "c = length (takeWhile (\<lambda>i. \<not> bit v i) (rev [0 ..< 32]))"
    using assms by (simp_all add: builtin_clz_def split: if_splits)
  from v obtain i where i: "bit v i" using bit_eq_iff [of v 0] by auto
  have l: "j < 32" if "bit v j" for j using bit_imp_le_length [OF that] by simp
  have "31 - c = 32 - 1 - length (takeWhile (\<lambda>i. \<not> bit v i) (rev [0 ..< 32]))" by (simp only: c)
  from top_bit [OF l [OF i] i this] show ?thesis using l by (meson leI)
qed

lemma clear_top_bit:
  assumes "builtin_clz v = Some c"
  shows "v AND NOT (push_bit (31 - c) 1) = take_bit (31 - c) v"
proof (rule bit_word_eqI)
  fix n
  assume "n < LENGTH(32)"
  moreover define k where "k = 31 - c"
  moreover have "bit v n \<Longrightarrow> n \<le> k" using clz_top_bit [OF assms] by (simp add: k_def)
  ultimately show "bit (v AND NOT (push_bit (31 - c) 1)) n \<longleftrightarrow> bit (take_bit (31 - c) v) n"
    by (auto simp: bit_simps simp flip: k_def)
qed

lemma cleared_less:
  assumes "builtin_clz v = Some c"
  shows "v AND NOT (push_bit (31 - c) 1) < v"
proof -
  have "\<not> bit (take_bit (31 - c) v) (31 - c)" by (simp add: bit_simps)
  then have "take_bit (31 - c) v \<noteq> v" using clz_top_bit [OF assms] by metis
  then show ?thesis unfolding clear_top_bit [OF assms, symmetric] by (simp add: order_less_le word_and_le2)
qed

function clz_loop :: "u32 \<Rightarrow> (nat \<times> u32) list" where
  "clz_loop v = (case builtin_clz v of None \<Rightarrow> []
     | Some c \<Rightarrow> (let i = 31 - c; v' = v AND NOT (push_bit i 1) in (i, v') # clz_loop v'))"
  by auto
termination
  by (relation "measure unat") (auto dest: cleared_less simp: word_less_nat_alt)

declare clz_loop.simps [simp del]

text \<open>The lines of \<open>main\<close>; a number that is \<open>None\<close> is not defined.\<close>

definition clz_main :: "string list \<Rightarrow> ((nat \<times> u32) list \<times> nat option \<times> nat option) option" where
  "clz_main argv =
     (if length argv < 2 then None
      else (let value = word_of_int (strtol16 (argv ! 1)) in
        Some (clz_loop value, builtin_ctz value, builtin_ctz (NOT value))))"

lemma filter_upt_split:
  assumes "k < n" "P k" "\<And>j. P j \<Longrightarrow> j \<le> k"
  shows "filter P [0 ..< n] = filter P [0 ..< k] @ [k]"
proof -
  have "[0 ..< n] = [0 ..< k] @ k # [Suc k ..< n]"
    using assms(1) upt_add_eq_append [of 0 k "n - k"] by (simp add: upt_conv_Cons)
  moreover have "filter P [Suc k ..< n] = []" using assms(3) by (auto simp: filter_empty_conv Suc_le_eq leD)
  ultimately show ?thesis using assms(2) by simp
qed

text \<open>The loop prints each bit that is set once, from the highest to the lowest, with what is left
  below it, and ends.\<close>

lemma clz_loop_bits: "clz_loop v = map (\<lambda>i. (i, take_bit i v)) (rev (filter (bit v) [0 ..< 32]))"
proof (induction v rule: clz_loop.induct)
  case (1 v)
  show ?case
  proof (cases "builtin_clz v")
    case None
    then have "v = 0" by (simp add: builtin_clz_def split: if_splits)
    then show ?thesis by (simp add: clz_loop.simps [of 0] builtin_clz_def)
  next
    case (Some c)
    define k where "k = 31 - c"
    have k: "bit v k" "k < 32" "\<And>j. bit v j \<Longrightarrow> j \<le> k" using clz_top_bit [OF Some] by (simp_all add: k_def)
    have t: "v AND NOT (push_bit k 1) = take_bit k v" unfolding k_def by (rule clear_top_bit [OF Some])
    have step: "clz_loop v = (k, take_bit k v) # clz_loop (take_bit k v)"
      by (subst clz_loop.simps) (simp only: Some option.case Let_def k_def [symmetric] t)
    have "clz_loop (take_bit k v) = map (\<lambda>i. (i, take_bit i (take_bit k v))) (rev (filter (bit (take_bit k v)) [0 ..< 32]))"
      using "1" [OF Some k_def refl] unfolding t .
    also have "filter (bit (take_bit k v)) [0 ..< 32] = filter (bit v) [0 ..< k]"
    proof -
      have "[0 ..< 32] = [0 ..< k] @ [k ..< 32]" using k(2) upt_add_eq_append [of 0 k "32 - k"] by simp
      then show ?thesis by (auto simp: bit_simps filter_empty_conv intro!: filter_cong)
    qed
    finally have rest: "clz_loop (take_bit k v) = map (\<lambda>i. (i, take_bit i v)) (rev (filter (bit v) [0 ..< k]))"
      by (simp add: min_def)
    have "filter (bit v) [0 ..< 32] = filter (bit v) [0 ..< k] @ [k]"
      using filter_upt_split [of k 32 "bit v"] k by blast
    then show ?thesis by (simp add: step rest)
  qed
qed

text \<open>Where the two built-in functions are called with zero.\<close>

lemma not_zero_iff: "NOT v = 0 \<longleftrightarrow> v = (- 1 :: u32)"
  by (metis bit.double_compl bit.compl_zero)

lemma clz_main_undefined:
  assumes "clz_main argv = Some (ls, a, b)"
  shows "a = None \<or> b = None \<longleftrightarrow> word_of_int (strtol16 (argv ! 1)) \<in> {0, - 1 :: u32}"
  using assms by (auto simp: clz_main_def builtin_ctz_def not_zero_iff Let_def split: if_splits)

end
