(* ===== verification/StepDemos.thy ===== *)
theory StepDemos
  imports Stdio
begin

text \<open>
  Two programs whose behaviour is in the order of their steps: the function of test_coroutine.c that
  goes on where it returned last, and test_futex.c, where a parent sleeps on a shared word until its
  child changes it, as a step relation in which the wait may also return early.
\<close>

section \<open>A function that is resumed\<close>

text \<open>The two static variables; \<open>co_state\<close> is 0 or the line of the last \<open>Yield\<close>.\<close>

record coroutine =
  co_state :: nat
  co_i :: "32 word"

definition yield_line :: nat where "yield_line = 47"

text \<open>
  One call: \<open>None\<close> where the function ends without a value. The loop is entered at its start or
  behind the \<open>Yield\<close> of its body.
\<close>

definition coroutine_call :: "coroutine \<Rightarrow> int option \<times> coroutine" where
  "coroutine_call c =
     (if co_state c \<noteq> 0 \<and> co_state c \<noteq> yield_line then (None, c)
      else (let i = (if co_state c = 0 then 0 else co_i c + 1) in
        if sint i < 10 then (Some (sint i), \<lparr>co_state = yield_line, co_i = i\<rparr>) else (None, c\<lparr>co_i := i\<rparr>)))"

fun coroutine_calls :: "nat \<Rightarrow> coroutine \<Rightarrow> int option list" where
  "coroutine_calls 0 c = []"
| "coroutine_calls (Suc n) c = (case coroutine_call c of (v, c') \<Rightarrow> v # coroutine_calls n c')"

definition coroutine_start :: coroutine where "coroutine_start = \<lparr>co_state = 0, co_i = 0\<rparr>"

text \<open>What \<open>main\<close> prints.\<close>

definition coroutine_main :: "int option list" where "coroutine_main = coroutine_calls 10 coroutine_start"

lemma coroutine_running:
  "k + n < 2 ^ 31 \<Longrightarrow> coroutine_calls n \<lparr>co_state = yield_line, co_i = of_nat k\<rparr> =
     map (\<lambda>j. if j < 10 then Some (int j) else None) [k + 1 ..< k + 1 + n]"
proof (induction n arbitrary: k)
  case (Suc n)
  have s: "sint (of_nat (k + 1) :: 32 word) = int (k + 1)"
    using Suc.prems by (simp add: signed_of_nat signed_take_bit_int_eq_self del: of_nat_Suc of_nat_add)
  have "coroutine_call \<lparr>co_state = yield_line, co_i = of_nat k\<rparr> =
    ((if k + 1 < 10 then Some (int (k + 1)) else None), \<lparr>co_state = yield_line, co_i = of_nat (k + 1)\<rparr>)"
    using s by (simp add: coroutine_call_def Let_def yield_line_def add.commute)
  moreover have "[k + 1 ..< k + 1 + Suc n] = (k + 1) # [k + 2 ..< k + 2 + n]" by (simp add: upt_conv_Cons del: upt_Suc)
  ultimately show ?case using Suc.IH [of "k + 1"] Suc.prems by (simp del: upt_Suc of_nat_Suc of_nat_add)
qed simp

text \<open>The first ten calls return 0 to 9, and then no call returns a value until the counter of the
  loop wraps around.\<close>

lemma coroutine_values:
  assumes "n < 2 ^ 31"
  shows "coroutine_calls n coroutine_start = map (\<lambda>j. if j < 10 then Some (int j) else None) [0 ..< n]"
proof (cases n)
  case (Suc m)
  have "coroutine_call coroutine_start = (Some 0, \<lparr>co_state = yield_line, co_i = of_nat 0\<rparr>)"
    by (simp add: coroutine_call_def coroutine_start_def)
  then show ?thesis using coroutine_running [of 0 m] assms Suc by (simp add: upt_conv_Cons del: upt_Suc)
qed simp

lemma coroutine_values_witness: "coroutine_main = map (\<lambda>j. Some (int j)) [0 ..< 10]"
  using coroutine_values [of 10] by (simp add: coroutine_main_def)

section \<open>The shared file\<close>

text \<open>What \<open>init_workspace\<close> leaves: the descriptors it has open, the mapping, the file.\<close>

record workspace =
  ws_fds :: "int list"
  ws_mapped :: bool
  ws_file :: bool

text \<open>\<open>fd1\<close> and \<open>fd2\<close> are what the two calls of \<open>open\<close> return; there is no file before.\<close>

definition init_workspace :: "int \<Rightarrow> bool \<Rightarrow> bool \<Rightarrow> int \<Rightarrow> int \<times> workspace" where
  "init_workspace fd1 truncated mapped fd2 =
     (if fd1 < 0 then (-1, \<lparr>ws_fds = [], ws_mapped = False, ws_file = False\<rparr>)
      else if \<not> truncated \<or> \<not> mapped then (-1, \<lparr>ws_fds = [], ws_mapped = False, ws_file = True\<rparr>)
      else if fd2 < 0 then (-1, \<lparr>ws_fds = [], ws_mapped = True, ws_file = True\<rparr>)
      else (0, \<lparr>ws_fds = [fd2], ws_mapped = True, ws_file = False\<rparr>))"

text \<open>The variable of the environment, and what the child reads of it.\<close>

definition prop_env :: "int \<Rightarrow> int \<Rightarrow> string" where
  "prop_env fd sz = dec_int fd @ '','' @ dec_int sz"

definition parse_env :: "string option \<Rightarrow> (int \<times> int) option" where
  "parse_env env = (case env of None \<Rightarrow> None
     | Some s \<Rightarrow> (let r = dropWhile (\<lambda>c. c \<noteq> CHR '','') s in
         if r = [] then None else Some (atoi s, atoi (tl r))))"

lemma atoi_dec_int:
  assumes "r = [] \<or> \<not> is_digit (hd r)" "- (2 ^ 31) \<le> i" "i < 2 ^ 31"
  shows "atoi (dec_int i @ r) = i"
proof -
  have "convert (Dec None) (dec_int i @ r) = Some (SInt i, r)"
    using convert_dec_int [OF assms(1), of i] strtol_val_id [of i] assms(2,3) by simp
  then show ?thesis using assms(2,3) to_s32_id [of i]
    by (auto simp: atoi_def Let_def limit_def beyond_def split: option.splits prod.splits)
qed

lemma dec_int_no_comma: "c \<in> set (dec_int i) \<Longrightarrow> c \<noteq> CHR '',''"
  by (auto simp: dec_int_def is_digit_def dest!: dec_digits_all_digits split: if_splits)

text \<open>The child reads the descriptor and the size that the parent has printed.\<close>

lemma parse_prop_env:
  assumes "- (2 ^ 31) \<le> fd" "fd < 2 ^ 31" "- (2 ^ 31) \<le> sz" "sz < 2 ^ 31"
  shows "parse_env (Some (prop_env fd sz)) = Some (fd, sz)"
proof -
  have "dropWhile (\<lambda>c. c \<noteq> CHR '','') (prop_env fd sz) = CHR '','' # dec_int sz"
    using dec_int_no_comma by (simp add: prop_env_def dropWhile_append)
  moreover have "atoi (prop_env fd sz) = fd"
    unfolding prop_env_def using assms(1,2) by (intro atoi_dec_int) (simp_all add: is_digit_def)
  moreover have "atoi (dec_int sz) = sz" using atoi_dec_int [of "[]" sz] assms(3,4) by simp
  ultimately show ?thesis by (simp add: parse_env_def)
qed

lemma parse_prop_env_witness: "parse_env (Some (prop_env 4 49152)) = Some (4, 49152)"
  by (rule parse_prop_env) simp_all

section \<open>Waiting for the child\<close>

text \<open>
  The parent is about to store 0, to wait for a change, asleep, to wait for the end of the child, or
  done; the child is about to map the file, to store 1, to wake the sleepers, or gone.
\<close>

datatype parent_pc = PStore | PWait | PAsleep | PReap | PDone
datatype child_pc = CMap | CStore | CWake | CGone

record futex_sys =
  fx_serial :: int
  fx_parent :: parent_pc
  fx_child :: child_pc

definition futex_start :: futex_sys where
  "futex_start = \<lparr>fx_serial = 0, fx_parent = PStore, fx_child = CMap\<rparr>"

text \<open>The comparison of \<open>FUTEX_WAIT\<close> and going to sleep are one step.\<close>

inductive futex_step :: "futex_sys \<Rightarrow> futex_sys \<Rightarrow> bool" where
  parent_store: "fx_parent s = PStore \<Longrightarrow> futex_step s (s\<lparr>fx_serial := 0, fx_parent := PWait\<rparr>)"
| parent_sleep: "fx_parent s = PWait \<Longrightarrow> fx_serial s = 0 \<Longrightarrow> futex_step s (s\<lparr>fx_parent := PAsleep\<rparr>)"
| parent_pass: "fx_parent s = PWait \<Longrightarrow> fx_serial s \<noteq> 0 \<Longrightarrow> futex_step s (s\<lparr>fx_parent := PReap\<rparr>)"
| parent_reap: "fx_parent s = PReap \<Longrightarrow> fx_child s = CGone \<Longrightarrow> futex_step s (s\<lparr>fx_parent := PDone\<rparr>)"
| child_map: "fx_child s = CMap \<Longrightarrow> futex_step s (s\<lparr>fx_child := CStore\<rparr>)"
| child_error: "fx_child s = CMap \<Longrightarrow> futex_step s (s\<lparr>fx_child := CGone\<rparr>)"
| child_store: "fx_child s = CStore \<Longrightarrow> futex_step s (s\<lparr>fx_serial := 1, fx_child := CWake\<rparr>)"
| child_wake: "fx_child s = CWake \<Longrightarrow>
    futex_step s (s\<lparr>fx_parent := (if fx_parent s = PAsleep then PReap else fx_parent s), fx_child := CGone\<rparr>)"

text \<open>\<open>FUTEX_WAIT\<close> may also return for a signal or for no reason.\<close>

inductive futex_return :: "futex_sys \<Rightarrow> futex_sys \<Rightarrow> bool" where
  parent_return: "fx_parent s = PAsleep \<Longrightarrow> futex_return s (s\<lparr>fx_parent := PReap\<rparr>)"

abbreviation futex_reach :: "futex_sys \<Rightarrow> futex_sys \<Rightarrow> bool" where "futex_reach \<equiv> futex_step\<^sup>*\<^sup>*"

fun parent_left :: "parent_pc \<Rightarrow> nat" where
  "parent_left PStore = 4" | "parent_left PWait = 3" | "parent_left PAsleep = 2" | "parent_left PReap = 1" | "parent_left PDone = 0"

fun child_left :: "child_pc \<Rightarrow> nat" where
  "child_left CMap = 3" | "child_left CStore = 2" | "child_left CWake = 1" | "child_left CGone = 0"

definition futex_left :: "futex_sys \<Rightarrow> nat" where
  "futex_left s = parent_left (fx_parent s) + child_left (fx_child s)"

lemma futex_step_left: "futex_step s t \<Longrightarrow> futex_left t < futex_left s"
  by (induction rule: futex_step.induct) (auto simp: futex_left_def)

lemma futex_return_left: "futex_return s t \<Longrightarrow> futex_left t < futex_left s"
  by (induction rule: futex_return.induct) (auto simp: futex_left_def)

text \<open>The parent has stored 0, and the child has not stored 1 before.\<close>

definition futex_ordered :: "futex_sys \<Rightarrow> bool" where
  "futex_ordered s \<longleftrightarrow>
     (case fx_child s of
        CMap \<Rightarrow> fx_serial s = 0 \<and> fx_parent s \<in> {PWait, PAsleep, PReap}
      | CStore \<Rightarrow> fx_serial s = 0 \<and> fx_parent s \<in> {PWait, PAsleep, PReap}
      | CWake \<Rightarrow> fx_serial s = 1 \<and> fx_parent s \<in> {PWait, PAsleep, PReap}
      | CGone \<Rightarrow> (fx_serial s = 1 \<and> fx_parent s \<in> {PWait, PReap, PDone}))"

text \<open>A step of a run in which the child maps the file, early returns of the wait included.\<close>

definition mapped_step :: "futex_sys \<Rightarrow> futex_sys \<Rightarrow> bool" where
  "mapped_step s t \<longleftrightarrow> (futex_step s t \<or> futex_return s t) \<and> \<not> (fx_child s = CMap \<and> fx_child t = CGone)"

lemma mapped_step_left: "mapped_step s t \<Longrightarrow> futex_left t < futex_left s"
  using futex_step_left futex_return_left by (auto simp: mapped_step_def)

lemma mapped_step_ordered: "mapped_step s t \<Longrightarrow> futex_ordered s \<Longrightarrow> futex_ordered t"
  unfolding mapped_step_def
  by (elim conjE disjE futex_step.cases futex_return.cases) (auto simp: futex_ordered_def split: child_pc.splits)

lemma mapped_run:
  "(mapped_step ^^ n) s t \<Longrightarrow> futex_ordered s \<Longrightarrow> futex_ordered t \<and> n + futex_left t \<le> futex_left s"
proof (induction n arbitrary: t)
  case (Suc n)
  from Suc.prems(1) obtain u where u: "(mapped_step ^^ n) s u" "mapped_step u t" by (rule relpowp_Suc_E)
  from Suc.IH [OF u(1) Suc.prems(2)] mapped_step_ordered [OF u(2)] mapped_step_left [OF u(2)] show ?case by simp
qed simp

lemma ordered_progress:
  assumes "futex_ordered s" "\<nexists>t. futex_step s t"
  shows "fx_parent s = PDone \<and> fx_child s = CGone \<and> fx_serial s = 1"
proof -
  have "fx_child s \<noteq> CMap" "fx_child s \<noteq> CStore" "fx_child s \<noteq> CWake"
    using assms(2) child_map child_store child_wake by blast+
  then have g: "fx_child s = CGone" by (cases "fx_child s") auto
  have "fx_parent s \<noteq> PReap" using assms(2) parent_reap g by blast
  moreover have "fx_parent s \<noteq> PWait" using assms(2) parent_sleep parent_pass by blast
  ultimately show ?thesis using assms(1) g by (auto simp: futex_ordered_def)
qed

text \<open>C38. When the parent stores 0 before the child stores 1 and the child maps the file, every order
  of the remaining steps, with any early return of the wait, has at most six steps; and where neither
  process can go on, which no early return is needed for, both are done and the 1 is visible: no wake-up
  is lost between the comparison and going to sleep.\<close>

theorem futex_wakes:
  assumes "(mapped_step ^^ n) \<lparr>fx_serial = 0, fx_parent = PWait, fx_child = CMap\<rparr> t"
  shows "n \<le> 6 \<and> ((\<nexists>u. futex_step t u) \<longrightarrow> fx_parent t = PDone \<and> fx_child t = CGone \<and> fx_serial t = 1)"
proof -
  have "futex_ordered \<lparr>fx_serial = 0, fx_parent = PWait, fx_child = CMap\<rparr>" by (simp add: futex_ordered_def)
  from mapped_run [OF assms this] ordered_progress [of t] show ?thesis by (simp add: futex_left_def)
qed

theorem futex_wakes_witness:
  "\<exists>t. (mapped_step ^^ 5) \<lparr>fx_serial = 0, fx_parent = PWait, fx_child = CMap\<rparr> t \<and> (\<nexists>u. futex_step t u) \<and> fx_parent t = PDone"
proof -
  define a b c d e f :: futex_sys where "a = \<lparr>fx_serial = 0, fx_parent = PWait, fx_child = CMap\<rparr>"
    and "b = \<lparr>fx_serial = 0, fx_parent = PAsleep, fx_child = CMap\<rparr>"
    and "c = \<lparr>fx_serial = 0, fx_parent = PAsleep, fx_child = CStore\<rparr>"
    and "d = \<lparr>fx_serial = 1, fx_parent = PAsleep, fx_child = CWake\<rparr>"
    and "e = \<lparr>fx_serial = 1, fx_parent = PReap, fx_child = CGone\<rparr>"
    and "f = \<lparr>fx_serial = 1, fx_parent = PDone, fx_child = CGone\<rparr>"
  note ds = a_def b_def c_def d_def e_def f_def
  have "mapped_step a b" "mapped_step b c" "mapped_step c d" "mapped_step d e" "mapped_step e f"
    using parent_sleep [of a] child_map [of b] child_store [of c] child_wake [of d] parent_reap [of e]
    by (simp_all add: ds mapped_step_def)
  then have "(mapped_step ^^ Suc (Suc (Suc (Suc (Suc 0))))) a f" by (blast intro: relpowp_Suc_I2 relpowp_0_I)
  moreover have "Suc (Suc (Suc (Suc (Suc 0)))) = 5" by simp
  ultimately have r: "(mapped_step ^^ 5) a f" by metis
  have n: "\<nexists>u. futex_step f u" by (auto simp: f_def elim: futex_step.cases)
  from futex_wakes [OF r [unfolded a_def]] n have "fx_parent f = PDone" by blast
  then show ?thesis using r n unfolding a_def by blast
qed

text \<open>Two runs after which the parent sleeps until something else ends its wait: its own store of 0 comes behind the store of the
  child, or the child ends with an error.\<close>

definition futex_stuck :: "futex_sys \<Rightarrow> bool" where
  "futex_stuck s \<longleftrightarrow> fx_parent s = PAsleep \<and> (\<nexists>t. futex_step s t)"

lemma stuckI: "fx_parent s = PAsleep \<Longrightarrow> fx_child s = CGone \<Longrightarrow> futex_stuck s"
  by (auto simp: futex_stuck_def elim: futex_step.cases)

lemma futex_store_overwritten: "\<exists>s. futex_reach futex_start s \<and> futex_stuck s"
proof -
  define a b c d e :: futex_sys where "a = futex_start" and "b = \<lparr>fx_serial = 0, fx_parent = PStore, fx_child = CStore\<rparr>"
    and "c = \<lparr>fx_serial = 1, fx_parent = PStore, fx_child = CWake\<rparr>"
    and "d = \<lparr>fx_serial = 1, fx_parent = PStore, fx_child = CGone\<rparr>"
    and "e = \<lparr>fx_serial = 0, fx_parent = PWait, fx_child = CGone\<rparr>"
  define f :: futex_sys where "f = \<lparr>fx_serial = 0, fx_parent = PAsleep, fx_child = CGone\<rparr>"
  note ds = a_def b_def c_def d_def e_def f_def futex_start_def
  have "futex_step a b" "futex_step b c" "futex_step c d" "futex_step d e" "futex_step e f"
    using child_map [of a] child_store [of b] child_wake [of c] parent_store [of d] parent_sleep [of e] by (simp_all add: ds)
  then have "futex_reach a f" by (meson converse_rtranclp_into_rtranclp rtranclp.rtrancl_refl)
  moreover have "futex_stuck f" by (rule stuckI) (simp_all add: f_def)
  ultimately show ?thesis unfolding a_def by blast
qed

lemma futex_child_fails: "\<exists>t. futex_step \<lparr>fx_serial = 0, fx_parent = PAsleep, fx_child = CMap\<rparr> t \<and> futex_stuck t"
  using child_error [of "\<lparr>fx_serial = 0, fx_parent = PAsleep, fx_child = CMap\<rparr>"] stuckI by fastforce

text \<open>What is left when \<open>init_workspace\<close> fails: no descriptor, but the file, and with it the mapping when
  the file cannot be opened again.\<close>

lemma init_workspace_fails:
  assumes "init_workspace fd1 truncated mapped fd2 = (-1, w)"
  shows "ws_fds w = [] \<and> (ws_file w \<longleftrightarrow> 0 \<le> fd1) \<and> (ws_mapped w \<longleftrightarrow> 0 \<le> fd1 \<and> truncated \<and> mapped)"
  using assms by (auto simp: init_workspace_def split: if_splits)

end
