(* ===== verification/Spec2Isabelle.thy ===== *)
theory Spec2Isabelle
  imports Globalmem Myfifo MinHeap Md5sum WrapMalloc Mychrdev Eeprom Atomics Iostat TopExt V4l
    Procfs SockBr Netlink Seqfile LddBus Huffman ThreadPool RingBuffer Fibonacci Hashmap Lfsr Rects
    UsbAdb LocalServer KernExamples InputMon BitDemos StepDemos
begin

text \<open>
  A verification development for linux_test, a collection of Linux drivers, tools and small
  libraries in C. The parts are separate programs and kernel modules; they share no state and
  meet only in the C library and in the kernel's interfaces, which are therefore modelled once,
  in the theories at the bottom. File names below are relative to src.

  \<^bold>\<open>Shared theories.\<close>
  Prelude: error numbers and handler results, conversions between the C integer types of the
  LP64 data model, byte arrays read and written by offset (\<^verbatim>\<open>mem_get\<close>, \<^verbatim>\<open>mem_put\<close>), the contract
  of copy_from_user and copy_to_user, decimal printing and its inverse, loops that may stop the
  program. Stdio: fgets, the conversions of sscanf as an interpreter of format lists, atoi, getopt
  without arguments, padded output, with lemmas that say what scanning does to printed fields.
  Interfaces: the contracts as locales. \<^verbatim>\<open>byte_device\<close> is a fixed array of bytes (interpreted by
  Globalmem), \<^verbatim>\<open>byte_queue\<close> a bounded queue (Myfifo), \<^verbatim>\<open>prio_queue\<close> a priority queue (MinHeap),
  \<^verbatim>\<open>stream_digest\<close> a digest fed in pieces (Md5, for both byte orders), \<^verbatim>\<open>insert_map\<close> a map that
  is filled (Hashmap). Atomics has the locale
  \<^verbatim>\<open>fetch_modify\<close> (six operations of three processors interpret it) and TopExt \<^verbatim>\<open>comparison\<close> (the
  four sort orders).

  \<^bold>\<open>Drivers.\<close>
  Globalmem (driver/globalmem/drv/globalmem.c): memory devices, their file operations, the
  attributes in sysfs and the binary attribute, probe, init and exit with every error path. A
  step relation gives the reachable systems; the invariant says that semaphores are given back.
  Myfifo (driver/myfifo/drv/myfifo.c): the circular buffer. A blocking call is an attempt that
  ends in a return or in going to sleep; steps of several callers interleave, and the two wait
  queues are woken where the code wakes them. No byte is lost, doubled or reordered, the buffer
  refines a queue, and no wake-up is lost except by clearing the buffer.
  Mychrdev (driver/program-examples/syscall-exam-kern.c and its header): four buffers shared by
  open files over an explicit store. Eeprom (driver/eeprom.c): the cache of eight slices and the
  page writes with retries. V4l (driver/myv4l/drv/drv_v4l.c): all calls of the video device, with
  the videobuf library as a parameter that promises to leave the driver's fields alone, and the set
  of open files; calls of different files come one after the other.
  Procfs, Seqfile, Netlink (procfs_exam.c, seqfile_exam.c and netlink-exam-kern.c in
  driver/program-examples) and LddBus (driver/lddbus/drv/lddbus.c): the entries below /proc, the
  task iterator, the thread that collects messages as a step relation in which every copy is
  checked against the arrays, apart from the code's own test, and the virtual bus.
  KernExamples (driver/mymap/drv/mmap.c, and relayfs-exam.c, debugfs_exam.c and kern-boot-params.c in
  driver/program-examples): the mapped page, and modules that load, show and unload.

  \<^bold>\<open>Programs and libraries.\<close>
  MinHeap (math/min_heap.c): items in a store with their position in the heap written back; all
  operations keep order and positions, and push and pop refine a priority queue. Md5 (md5sum/md5.c,
  md5sum/md5.h) computes on words for either byte order and is proved equal to the digest as
  RFC 1321 defines it; Md5sum (md5sum/md5sum.c) prints and checks lists of digests. WrapMalloc
  (wrap_func/wrap_malloc.c): the accounting allocator over an abstract heap, with the counter as a
  wrapping word. Atomics (the headers of atomic for ARM, MIPS and x86): the instruction sequences
  against a schedule of foreign stores, with a trace of the memory events. Iostat (iostat.c) and
  TopExt (top_ext.c): parsing of the kernel's files, accounting of the printed numbers and of the
  records, sorting, report lines, command lines and main loops. SockBr (sock_br_server.c): the list of clients on an explicit heap.
  Hashmap (math/hashmap.c_): open addressing in windows of eight slots, with the rehashing that calls
  the insertion it is called from; it refines a map until something is removed, and the table of its
  checksum is proved right. Huffman (math/test_huffman.c): the array tree, with an invariant that
  makes every code prefix free and decodable. ThreadPool (test_threads_pool.c) and RingBuffer
  (test_ringbuffer.c): step relations over all interleavings of the threads. Fibonacci
  (math/test_fibonacci.c): numbers in base 10000 printed in decimal. Lfsr (math/test_lfsr.c): a
  register of eight bits and its period. Rects (test_intersect.c): rectangles and their
  intersections as sets of points. UsbAdb (usb/test_usb_adb.c): the walk over USB descriptors, with
  the reads outside the buffer and the loops without end among its outcomes. LocalServer
  (sock_local_server.c): the rounds of the select loop and the sockets they leave open. InputMon
  (test_inotify.c): the monitor of input devices, with the list of devices, their registrations
  under the low half of an address, which may fail unseen, the hash code that finds them and the
  events of a round. BitDemos (test_popcnt.c, test_builtin_clz.c):
  the population count by adding fields, and the loop that clears the highest bit. StepDemos
  (test_coroutine.c, test_futex.c): a function resumed where it returned, and a parent that waits for
  its child on a shared word, over all orders of their steps and with early returns of the wait.

  \<^bold>\<open>What the lemmas show.\<close>
  In each theory the first group says what one operation does on each branch, errors included;
  the second that every operation keeps the invariant of the state; the third relates the code
  to a specification (a queue, a multiset, RFC 1321, a list of clients, the sum of deltas) or to
  its inverse (print and parse, write and read). Where the code does not do what it means to,
  a lemma says exactly what happens instead.

  \<^bold>\<open>Bounds and fuel.\<close>
  Loops with a measure are functions with a termination proof. \<^verbatim>\<open>eeprom_write_loop\<close> takes fuel:
  one round more than the length of the buffer, which is shown to be enough because every round
  moves on by 32 bytes. The exclusive loops of
  ARM and MIPS end at the latest when the schedule of foreign stores is used up; their rounds are
  bounded by the disturbances in it that really come. The main loops of iostat and top take fuel: with a positive number of reports that
  much fuel is enough and exactly as many reports are printed, with a negative one no fuel is.
  \<^verbatim>\<open>br_write_loop\<close> and \<^verbatim>\<open>usb_walk\<close> are partial functions: the first is shown to return for every list
  of clients the server builds, the second exactly when no descriptor of length zero is reached.
  \<^verbatim>\<open>put_fuel\<close> of the hash map takes fuel for the nesting of insertion and rehashing: each level has
  a table of at least twice the size, so one more than the number of slots that fit the memory is
  enough, and \<^verbatim>\<open>hashmap_put\<close> is shown to return always in a memory for less than 2^30 slots; the
  doubling of a larger table overflows the code's int and is undefined in the model as well.
  Machine integers are words wherever they can wrap; counters that the code compares only are
  integers or naturals with the range written as a hypothesis. Floating point numbers of
  iostat are exact rationals.

  \<^bold>\<open>Not modelled.\<close>
  SQLite and dlmalloc are copies of other projects. The GTK, PulseAudio, pcap, ptrace, namespace
  and signal programs and most files named test_ call one facility of the system and print the
  answer. The netlink user programs, sysctl and the module parameters hand variables to the kernel
  and have no logic of their own. Quadrature with sin and measuring the timer
  frequency need floating point and real time. Code in other languages is left out.
\<close>

end
